(* ===== verification/Prelude.thy ===== *)
theory Prelude
  imports Main "HOL-Library.Word" "HOL-Library.Code_Target_Numeral"
begin

text \<open>
  Shared vocabulary of the development: the machine types of the Rust sources, results and
  panics as values, slices and chunks, the little-endian byte codecs, decimal file names, and
  the generic lemmas the component theories use.

  Conventions. \<open>usize\<close> and lengths are \<open>nat\<close>; \<open>u8\<close>, \<open>u32\<close>, \<open>u64\<close> are words.
  A fallible function returns \<open>'e + 'a\<close> with \<open>Inl\<close> the error. A function that can panic
  (an index out of range, a failed \<open>expect\<close> or \<open>assert\<close>) returns an \<open>option\<close> in which
  \<open>None\<close> is the panic.
\<close>

unbundle bit_operations_syntax

named_theorems codec_simps \<open>round trips of the byte codecs\<close>
named_theorems panic_simps \<open>unfolding the panic-aware accessors\<close>

section \<open>Machine types\<close>

type_synonym u8 = "8 word"
type_synonym i8 = "8 word"
type_synonym u16 = "16 word"
type_synonym u32 = "32 word"
type_synonym u64 = "64 word"
type_synonym bytes = "u8 list"
type_synonym path = string
type_synonym uuid = bytes

section \<open>Results and panics\<close>

definition rbind :: "'e + 'a \<Rightarrow> ('a \<Rightarrow> 'e + 'b) \<Rightarrow> 'e + 'b" where
  "rbind m f = (case m of Inl e \<Rightarrow> Inl e | Inr x \<Rightarrow> f x)"

definition map_err :: "('e \<Rightarrow> 'f) \<Rightarrow> 'e + 'a \<Rightarrow> 'f + 'a" where
  "map_err h m = (case m of Inl e \<Rightarrow> Inl (h e) | Inr x \<Rightarrow> Inr x)"

definition ok_or :: "'e \<Rightarrow> 'a option \<Rightarrow> 'e + 'a" where
  "ok_or e m = (case m of None \<Rightarrow> Inl e | Some x \<Rightarrow> Inr x)"

text \<open>A slice \<open>xs[i..i + n]\<close>, \<open>None\<close> when it runs past the end.\<close>

definition slice :: "'a list \<Rightarrow> nat \<Rightarrow> nat \<Rightarrow> 'a list option" where
  "slice xs i n = (if i + n \<le> length xs then Some (take n (drop i xs)) else None)"

text \<open>An index \<open>xs[i]\<close>, \<open>None\<close> when it is out of range.\<close>

definition index :: "'a list \<Rightarrow> nat \<Rightarrow> 'a option" where
  "index xs i = (if i < length xs then Some (xs ! i) else None)"

text \<open>\<open>xs[i] = v\<close> and \<open>xs[i..i + n].copy_from_slice(ys)\<close>.\<close>

definition store :: "'a list \<Rightarrow> nat \<Rightarrow> 'a \<Rightarrow> 'a list option" where
  "store xs i v = (if i < length xs then Some (xs[i := v]) else None)"

definition splice :: "'a list \<Rightarrow> nat \<Rightarrow> 'a list \<Rightarrow> 'a list option" where
  "splice xs i ys =
     (if i + length ys \<le> length xs
      then Some (take i xs @ ys @ drop (i + length ys) xs) else None)"

text \<open>Consecutive chunks of \<open>n\<close> elements (\<open>as_chunks\<close>, \<open>chunks_exact\<close>); a shorter
  remainder is dropped.\<close>

function chunks :: "nat \<Rightarrow> 'a list \<Rightarrow> 'a list list" where
  "chunks n xs =
     (if n = 0 \<or> length xs < n then [] else take n xs # chunks n (drop n xs))"
  by pat_completeness auto
termination
  by (relation "measure (\<lambda>(n, xs). length xs)") auto

definition remainder :: "nat \<Rightarrow> 'a list \<Rightarrow> 'a list" where
  "remainder n xs = drop (length xs div n * n) xs"

declare chunks.simps [simp del]

text \<open>\<open>usize::div_ceil\<close>.\<close>

definition div_ceil :: "nat \<Rightarrow> nat \<Rightarrow> nat" where
  "div_ceil a b = (if a mod b = 0 then a div b else a div b + 1)"

section \<open>Little-endian integers\<close>

fun le_val :: "bytes \<Rightarrow> nat" where
  "le_val [] = 0"
| "le_val (b # bs) = unat b + 256 * le_val bs"

fun le_enc :: "nat \<Rightarrow> nat \<Rightarrow> bytes" where
  "le_enc 0 n = []"
| "le_enc (Suc k) n = word_of_nat (n mod 256) # le_enc k (n div 256)"

definition u16_le :: "u16 \<Rightarrow> bytes" where
  "u16_le w = le_enc 2 (unat w)"

definition u32_le :: "u32 \<Rightarrow> bytes" where
  "u32_le w = le_enc 4 (unat w)"

definition u64_le :: "u64 \<Rightarrow> bytes" where
  "u64_le w = le_enc 8 (unat w)"

definition u16_of_le :: "bytes \<Rightarrow> u16" where
  "u16_of_le bs = word_of_nat (le_val bs)"

definition u32_of_le :: "bytes \<Rightarrow> u32" where
  "u32_of_le bs = word_of_nat (le_val bs)"

definition u64_of_le :: "bytes \<Rightarrow> u64" where
  "u64_of_le bs = word_of_nat (le_val bs)"

text \<open>A loop that decodes a known number of items.\<close>

fun rep_dec :: "nat \<Rightarrow> (bytes \<Rightarrow> 'e + 'a \<times> bytes) \<Rightarrow> bytes \<Rightarrow> 'e + 'a list \<times> bytes" where
  "rep_dec 0 dec bs = Inr ([], bs)"
| "rep_dec (Suc n) dec bs =
     rbind (dec bs) (\<lambda>(x, bs). rbind (rep_dec n dec bs) (\<lambda>(xs, bs). Inr (x # xs, bs)))"

section \<open>Decimal numbers in file names\<close>

text \<open>\<open>format!("{n:020}")\<close>: a \<open>u64\<close> has at most twenty decimal digits.\<close>

definition digit_char :: "nat \<Rightarrow> char" where
  "digit_char d = char_of (48 + d)"

fun pad_dec :: "nat \<Rightarrow> nat \<Rightarrow> string" where
  "pad_dec 0 n = []"
| "pad_dec (Suc k) n = pad_dec k (n div 10) @ [digit_char (n mod 10)]"

definition fmt_020 :: "u64 \<Rightarrow> string" where
  "fmt_020 n = pad_dec 20 (unat n)"

definition is_digit :: "char \<Rightarrow> bool" where
  "is_digit c \<longleftrightarrow> 48 \<le> (of_char c :: nat) \<and> (of_char c :: nat) \<le> 57"

definition dec_val :: "string \<Rightarrow> nat" where
  "dec_val s = foldl (\<lambda>acc c. 10 * acc + ((of_char c :: nat) - 48)) 0 s"

text \<open>\<open>str::parse::<u64>\<close>: one optional plus sign, at least one digit, no overflow.\<close>

definition parse_u64 :: "string \<Rightarrow> u64 option" where
  "parse_u64 s =
     (let t = (case s of c # cs \<Rightarrow> if c = CHR ''+'' then cs else s | [] \<Rightarrow> s)
      in if t \<noteq> [] \<and> list_all is_digit t \<and> dec_val t < 2 ^ 64
         then Some (word_of_nat (dec_val t)) else None)"

definition strip_suffix :: "string \<Rightarrow> string \<Rightarrow> string option" where
  "strip_suffix suf s =
     (if length suf \<le> length s \<and> drop (length s - length suf) s = suf
      then Some (take (length s - length suf) s) else None)"

section \<open>Lemmas: results, slices, chunks\<close>

lemma unat_bound: "unat (w :: 'a::len word) < 2 ^ LENGTH('a)"
  by simp

lemma rbind_simps [simp]:
  "rbind (Inl e) f = Inl e"
  "rbind (Inr x) f = f x"
  by (simp_all add: rbind_def)

lemma rbind_eq_Inr: "rbind m f = Inr y \<longleftrightarrow> (\<exists>x. m = Inr x \<and> f x = Inr y)"
  by (cases m) auto

lemma map_err_simps [simp]:
  "map_err h (Inl e) = Inl (h e)"
  "map_err h (Inr x) = Inr x"
  by (simp_all add: map_err_def)

lemma map_err_eq_Inr [simp]: "map_err h m = Inr y \<longleftrightarrow> m = Inr y"
  by (cases m) auto

lemma ok_or_simps [simp]:
  "ok_or e None = Inl e"
  "ok_or e (Some x) = Inr x"
  by (simp_all add: ok_or_def)

lemma ok_or_eq_Inr [simp]: "ok_or e m = Inr y \<longleftrightarrow> m = Some y"
  by (cases m) auto

lemma slice_eq_Some [panic_simps]:
  "slice xs i n = Some ys \<longleftrightarrow> i + n \<le> length xs \<and> ys = take n (drop i xs)"
  by (auto simp: slice_def)

lemma index_eq_Some [panic_simps]: "index xs i = Some v \<longleftrightarrow> i < length xs \<and> v = xs ! i"
  by (auto simp: index_def)

lemma store_eq_Some [panic_simps]:
  "store xs i v = Some ys \<longleftrightarrow> i < length xs \<and> ys = xs[i := v]"
  by (auto simp: store_def)

lemma splice_eq_Some [panic_simps]:
  "splice xs i ys = Some zs \<longleftrightarrow>
     i + length ys \<le> length xs \<and> zs = take i xs @ ys @ drop (i + length ys) xs"
  by (auto simp: splice_def)

lemma length_splice: "splice xs i ys = Some zs \<Longrightarrow> length zs = length xs"
  by (auto simp: splice_def split: if_splits)

lemma slice_splice_same: "splice xs i ys = Some zs \<Longrightarrow> slice zs i (length ys) = Some ys"
  by (auto simp: panic_simps)

lemma slice_splice_other:
  assumes "splice xs i ys = Some zs" and "j + n \<le> i \<or> i + length ys \<le> j"
  shows "slice zs j n = slice xs j n"
proof -
  have z: "i + length ys \<le> length xs" "zs = take i xs @ ys @ drop (i + length ys) xs"
    using assms(1) by (auto simp: panic_simps)
  have "take n (drop j zs) = take n (drop j xs)" if "j + n \<le> length xs"
    using assms(2) z that by (intro nth_equalityI) (auto simp: nth_append)
  moreover have "length zs = length xs" using z by simp
  ultimately show ?thesis by (simp add: slice_def)
qed

lemma store_as_splice: "store xs i v = splice xs i [v]"
  by (simp add: store_def splice_def upd_conv_take_nth_drop)

lemma splice_extend:
  assumes "slice xs i n = Some ys" and "length ys = n"
  shows "splice xs i (ys @ [v]) = store xs (i + n) v"
proof -
  have "take (i + n) xs = take i xs @ take n (drop i xs)" by (rule take_add)
  with assms show ?thesis
    by (auto simp: store_as_splice splice_def slice_eq_Some)
qed

lemma chunks_short: "length xs < n \<Longrightarrow> chunks n xs = []"
  by (simp add: chunks.simps)

lemma chunks_Nil [simp]: "chunks n [] = []"
  by (subst chunks.simps) auto

lemma chunks_append:
  assumes "length xs = n" and "0 < n"
  shows "chunks n (xs @ ys) = xs # chunks n ys"
  using assms by (subst chunks.simps) (auto intro: gr0I)

lemma chunks_append_mod:
  assumes "length xs mod n = 0" and "0 < n"
  shows "chunks n (xs @ ys) = chunks n xs @ chunks n ys"
  using assms
proof (induction n xs rule: chunks.induct)
  case (1 n xs)
  show ?case
  proof (cases "length xs < n")
    case True
    with 1 have "xs = []" by simp
    then show ?thesis by simp
  next
    case False
    with 1 have IH: "chunks n (drop n xs @ ys) = chunks n (drop n xs) @ chunks n ys"
      by (simp add: le_mod_geq)
    have "chunks n (take n xs @ drop n xs @ ys) = take n xs # chunks n (drop n xs @ ys)"
      using False 1 by (intro chunks_append) auto
    moreover have "chunks n (take n xs @ drop n xs) = take n xs # chunks n (drop n xs)"
      using False 1 by (intro chunks_append) auto
    ultimately show ?thesis using IH by (simp flip: append_assoc)
  qed
qed

lemma length_chunks: "0 < n \<Longrightarrow> length (chunks n xs) = length xs div n"
proof (induction n xs rule: chunks.induct)
  case (1 n xs)
  show ?case
  proof (cases "length xs < n")
    case True
    then show ?thesis by (simp add: chunks_short)
  next
    case False
    with 1 show ?thesis
      by (subst chunks.simps) (simp add: le_div_geq)
  qed
qed

lemma chunks_elem_length: "c \<in> set (chunks n xs) \<Longrightarrow> length c = n"
proof (induction n xs rule: chunks.induct)
  case (1 n xs)
  then show ?case
    by (subst (asm) (2) chunks.simps) (auto split: if_splits)
qed

lemma chunks_concat:
  assumes "\<And>x. x \<in> set xs \<Longrightarrow> length (f x) = n" and "0 < n"
  shows "chunks n (concat (map f xs)) = map f xs"
  using assms by (induction xs) (simp_all add: chunks_append)

lemma nth_chunks:
  assumes "i < length xs div n" and "0 < n"
  shows "chunks n xs ! i = take n (drop (i * n) xs)"
  using assms
proof (induction n xs arbitrary: i rule: chunks.induct)
  case (1 n xs)
  then have nl: "\<not> length xs < n" by auto
  have eq: "chunks n xs = take n xs # chunks n (drop n xs)"
    using nl 1 by (subst chunks.simps) simp
  show ?case
  proof (cases i)
    case 0
    then show ?thesis by (simp add: eq)
  next
    case (Suc j)
    have "j < length (drop n xs) div n"
      using 1 nl Suc by (simp add: le_div_geq)
    with 1 nl have "chunks n (drop n xs) ! j = take n (drop (j * n) (drop n xs))" by simp
    then show ?thesis by (simp add: eq Suc add.commute)
  qed
qed

lemma div_ceil_ge: "0 < b \<Longrightarrow> a \<le> div_ceil a b * b"
proof -
  assume b: "0 < b"
  have "b * (a div b) + a mod b = a" by simp
  with mod_less_divisor [OF b, of a] have "a \<le> b + b * (a div b)" and
    "a mod b = 0 \<Longrightarrow> a \<le> b * (a div b)" by linarith+
  then show ?thesis by (simp add: div_ceil_def algebra_simps)
qed

lemma div_ceil_Suc:
  assumes "0 < b"
  shows "div_ceil (Suc a) b = (if div_ceil a b * b < Suc a then Suc (div_ceil a b) else div_ceil a b)"
proof (cases "a mod b = 0")
  case True
  then have a: "a = a div b * b" by (metis add.right_neutral div_mult_mod_eq)
  have "Suc a mod b \<noteq> 0 \<and> Suc a div b = a div b \<or> b = 1"
    using True assms by (cases "b = 1") (auto simp: mod_Suc div_Suc)
  with True a show ?thesis by (auto simp: div_ceil_def)
next
  case False
  have m: "a mod b < b" "a div b * b + a mod b = a" using assms by auto
  then have "Suc a \<le> b + a div b * b" by linarith
  then have "Suc a \<le> div_ceil a b * b" using False by (simp add: div_ceil_def)
  moreover have "div_ceil (Suc a) b = div_ceil a b"
    using False by (auto simp: div_ceil_def mod_Suc div_Suc)
  ultimately show ?thesis by simp
qed

lemma div_ceil_0 [simp]: "div_ceil 0 b = 0"
  by (simp add: div_ceil_def)

section \<open>Lemmas: little-endian codecs\<close>

lemma length_le_enc [simp]: "length (le_enc k n) = k"
  by (induction k n rule: le_enc.induct) auto

lemma le_val_bound: "le_val bs < 256 ^ length bs"
proof (induction bs)
  case (Cons b bs)
  have "unat b < 256" using unat_bound [of b] by simp
  then show ?case using Cons by simp
qed simp

lemma le_val_enc [codec_simps]: "le_val (le_enc k n) = n mod 256 ^ k"
proof (induction k n rule: le_enc.induct)
  case (2 k n)
  have "unat (word_of_nat (n mod 256) :: u8) = n mod 256"
    by (simp add: unat_of_nat)
  with 2 show ?case by (simp add: mod_mult2_eq)
qed simp

lemma le_enc_val [codec_simps]: "length bs = k \<Longrightarrow> le_enc k (le_val bs) = bs"
proof (induction bs arbitrary: k)
  case (Cons b bs)
  have b: "unat b < 256" using unat_bound [of b] by simp
  from Cons obtain j where k: "k = Suc j" and "length bs = j" by (cases k) auto
  with Cons.IH have "le_enc j (le_val bs) = bs" by simp
  with b k show ?case by simp
qed simp

lemma length_u_le [simp]:
  "length (u16_le w) = 2" "length (u32_le x) = 4" "length (u64_le y) = 8"
  by (simp_all add: u16_le_def u32_le_def u64_le_def)

lemma u16_of_le_le [simp, codec_simps]: "u16_of_le (u16_le w) = w"
  using unat_bound [of w] by (simp add: u16_of_le_def u16_le_def le_val_enc)

lemma u32_of_le_le [simp, codec_simps]: "u32_of_le (u32_le w) = w"
  using unat_bound [of w] by (simp add: u32_of_le_def u32_le_def le_val_enc)

lemma u64_of_le_le [simp, codec_simps]: "u64_of_le (u64_le w) = w"
  using unat_bound [of w] by (simp add: u64_of_le_def u64_le_def le_val_enc)

lemma u16_le_of_le [codec_simps]: "length bs = 2 \<Longrightarrow> u16_le (u16_of_le bs) = bs"
  using le_val_bound [of bs] by (simp add: u16_of_le_def u16_le_def unat_of_nat le_enc_val)

lemma u32_le_of_le [codec_simps]: "length bs = 4 \<Longrightarrow> u32_le (u32_of_le bs) = bs"
  using le_val_bound [of bs] by (simp add: u32_of_le_def u32_le_def unat_of_nat le_enc_val)

lemma u64_le_of_le [codec_simps]: "length bs = 8 \<Longrightarrow> u64_le (u64_of_le bs) = bs"
  using le_val_bound [of bs] by (simp add: u64_of_le_def u64_le_def unat_of_nat le_enc_val)

lemma rep_dec_concat:
  assumes "\<And>x r. x \<in> set xs \<Longrightarrow> dec (enc x @ r) = Inr (x, r)"
  shows "rep_dec (length xs) dec (concat (map enc xs) @ r) = Inr (xs, r)"
  using assms by (induction xs) auto

section \<open>Lemmas: decimal file names\<close>

lemma length_pad_dec [simp]: "length (pad_dec k n) = k"
  by (induction k n rule: pad_dec.induct) auto

lemma of_char_digit [simp]: "d < 10 \<Longrightarrow> (of_char (digit_char d) :: nat) = 48 + d"
  by (simp add: digit_char_def)

lemma pad_dec_digits: "list_all is_digit (pad_dec k n)"
  by (induction k n rule: pad_dec.induct) (auto simp: is_digit_def)

lemma dec_val_pad: "dec_val (pad_dec k n) = n mod 10 ^ k"
proof (induction k n rule: pad_dec.induct)
  case (2 k n)
  have "n mod (10 * 10 ^ k) = 10 * (n div 10 mod 10 ^ k) + n mod 10"
    by (simp add: mod_mult2_eq)
  with 2 show ?case by (simp add: dec_val_def)
qed (simp add: dec_val_def)

lemma parse_fmt_020 [codec_simps]: "parse_u64 (fmt_020 n) = Some n"
proof -
  have bound: "unat n < 2 ^ 64" using unat_bound [of n] by simp
  have val: "dec_val (fmt_020 n) = unat n"
    using bound by (simp add: fmt_020_def dec_val_pad)
  have digits: "list_all is_digit (fmt_020 n)"
    by (simp add: fmt_020_def pad_dec_digits)
  have len: "length (fmt_020 n) = 20" by (simp add: fmt_020_def)
  then obtain c cs where c: "fmt_020 n = c # cs" by (cases "fmt_020 n") auto
  with digits have "c \<noteq> CHR ''+''" by (auto simp: is_digit_def)
  then show ?thesis
    using c val digits bound by (simp add: parse_u64_def)
qed

lemma strip_suffix_append [codec_simps]: "strip_suffix suf (s @ suf) = Some s"
  by (simp add: strip_suffix_def)

end
