(* ===== verification/Idempotency.thy ===== *)
theory Idempotency
  imports Prelude
begin

text \<open>
  The idempotency window of a partition (\<open>IdempotencyWindow\<close> in \<open>partition.rs\<close>): the last
  \<open>capacity\<close> operation ids in arrival order with the sequence each was applied at. Its clients
  see it through the locale \<open>dedup_window\<close>.
\<close>

record idem_window =
  iw_capacity :: nat
  iw_order :: "bytes list"
  iw_seqs :: "bytes \<rightharpoonup> u64"

definition iw_new :: "nat \<Rightarrow> idem_window" where
  "iw_new capacity = \<lparr>iw_capacity = max capacity 1, iw_order = [], iw_seqs = Map.empty\<rparr>"

definition iw_get :: "idem_window \<Rightarrow> bytes \<Rightarrow> u64 option" where
  "iw_get w op_id = iw_seqs w op_id"

fun iw_evict :: "nat \<Rightarrow> bytes list \<Rightarrow> (bytes \<rightharpoonup> u64) \<Rightarrow> bytes list \<times> (bytes \<rightharpoonup> u64)" where
  "iw_evict capacity [] seqs = ([], seqs)"
| "iw_evict capacity (old # order) seqs =
     (if capacity < length (old # order) then iw_evict capacity order (seqs(old := None))
      else (old # order, seqs))"

definition iw_record :: "idem_window \<Rightarrow> bytes \<Rightarrow> u64 \<Rightarrow> idem_window" where
  "iw_record w op_id seq =
     (let order = (if iw_seqs w op_id = None then iw_order w @ [op_id] else iw_order w);
          r = iw_evict (iw_capacity w) order ((iw_seqs w)(op_id \<mapsto> seq))
      in w\<lparr>iw_order := fst r, iw_seqs := snd r\<rparr>)"

definition iw_entries :: "idem_window \<Rightarrow> (bytes \<times> u64) list" where
  "iw_entries w = List.map_filter (\<lambda>id. map_option (Pair id) (iw_seqs w id)) (iw_order w)"

text \<open>Rebuilding a window from its entries, oldest first.\<close>

definition iw_restore :: "nat \<Rightarrow> (bytes \<times> u64) list \<Rightarrow> idem_window" where
  "iw_restore capacity entries = foldl (\<lambda>w (op_id, seq). iw_record w op_id seq) (iw_new capacity) entries"

section \<open>The invariant and the contract\<close>

definition iw_wf :: "idem_window \<Rightarrow> bool" where
  "iw_wf w \<longleftrightarrow>
     0 < iw_capacity w \<and> distinct (iw_order w) \<and> dom (iw_seqs w) = set (iw_order w) \<and>
     length (iw_order w) \<le> iw_capacity w"

locale dedup_window =
  fixes wf :: "'w \<Rightarrow> bool"
    and cap :: "'w \<Rightarrow> nat"
    and order :: "'w \<Rightarrow> bytes list"
    and get :: "'w \<Rightarrow> bytes \<Rightarrow> u64 option"
    and recd :: "'w \<Rightarrow> bytes \<Rightarrow> u64 \<Rightarrow> 'w"
  assumes wf_record: "wf w \<Longrightarrow> wf (recd w i s)"
    and cap_record: "cap (recd w i s) = cap w"
    and bounded: "wf w \<Longrightarrow> 0 < cap w \<and> length (order w) \<le> cap w"
    and known: "wf w \<Longrightarrow> get w i \<noteq> None \<longleftrightarrow> i \<in> set (order w)"
    and get_record: "wf w \<Longrightarrow> get (recd w i s) i = Some s"
    and order_record: "wf w \<Longrightarrow> i \<notin> set (order w) \<Longrightarrow>
      order (recd w i s) = (if length (order w) < cap w then order w else tl (order w)) @ [i]"
    and get_other: "wf w \<Longrightarrow> j \<noteq> i \<Longrightarrow> j \<in> set (order (recd w i s)) \<Longrightarrow> get (recd w i s) j = get w j"
begin

text \<open>An id stays known until as many newer ids as the capacity have been recorded.\<close>

lemma kept_until_full:
  assumes "wf w" and "distinct is" and "set is \<inter> set (order w) = {}"
    and "order w = xs @ j # ys" and "length ys + length is < cap w"
  shows "get (foldl (\<lambda>w i. recd w i s) w is) j = get w j \<and> get w j \<noteq> None"
  using assms
proof (induction "is" arbitrary: w xs ys)
  case Nil
  then have "j \<in> set (order w)" by simp
  with known [OF Nil.prems(1), of j] show ?case by simp
next
  case (Cons i rest)
  let ?w = "recd w i s"
  have new: "i \<notin> set (order w)" using Cons.prems(3) by auto
  have ord: "order ?w = (if length (order w) < cap w then order w else tl (order w)) @ [i]"
    by (rule order_record [OF Cons.prems(1) new])
  have "\<exists>xs'. order ?w = xs' @ j # (ys @ [i])"
  proof (cases "length (order w) < cap w")
    case True
    with ord Cons.prems(4) show ?thesis by auto
  next
    case False
    then have "xs \<noteq> []" using Cons.prems(4,5) by auto
    with False ord Cons.prems(4) show ?thesis by (cases xs) auto
  qed
  then obtain xs' where xs': "order ?w = xs' @ j # (ys @ [i])" by blast
  have "set (order ?w) \<subseteq> insert i (set (order w))"
    using ord by (cases "order w") (auto split: if_splits)
  moreover have wf: "wf ?w" by (rule wf_record [OF Cons.prems(1)])
  ultimately have "get (foldl (\<lambda>w i. recd w i s) ?w rest) j = get ?w j \<and> get ?w j \<noteq> None"
    using Cons.prems xs' by (intro Cons.IH [of ?w xs' "ys @ [i]"]) (auto simp: cap_record)
  moreover have "j \<noteq> i" using new Cons.prems(4) by auto
  then have "get ?w j = get w j" using get_other [OF Cons.prems(1), of j i s] xs' by simp
  ultimately show ?case by simp
qed

end

section \<open>Lemmas\<close>

lemma iw_evict_ok:
  "length order \<le> Suc capacity \<Longrightarrow> 0 < capacity \<Longrightarrow>
   iw_evict capacity order seqs =
     (if length order \<le> capacity then (order, seqs) else (tl order, seqs(hd order := None)))"
  by (cases order; cases "tl order") auto

lemma iw_record_known:
  "iw_wf w \<Longrightarrow> i \<in> set (iw_order w) \<Longrightarrow> iw_record w i s = w\<lparr>iw_seqs := (iw_seqs w)(i \<mapsto> s)\<rparr>"
proof -
  assume wf: "iw_wf w" and i: "i \<in> set (iw_order w)"
  then obtain t where "iw_seqs w i = Some t" by (auto simp: iw_wf_def)
  with wf show ?thesis by (simp add: iw_record_def iw_evict_ok iw_wf_def)
qed

lemma iw_record_new:
  assumes "iw_wf w" and "i \<notin> set (iw_order w)"
  shows "iw_record w i s =
    (if length (iw_order w) < iw_capacity w
     then w\<lparr>iw_order := iw_order w @ [i], iw_seqs := (iw_seqs w)(i \<mapsto> s)\<rparr>
     else w\<lparr>iw_order := tl (iw_order w) @ [i],
            iw_seqs := ((iw_seqs w)(i \<mapsto> s))(hd (iw_order w) := None)\<rparr>)"
proof -
  have "iw_seqs w i = None" using assms by (auto simp: iw_wf_def dom_def)
  with assms show ?thesis
    by (cases "iw_order w") (auto simp: iw_record_def iw_evict_ok iw_wf_def Let_def)
qed

lemma iw_new_wf [simp]: "iw_wf (iw_new c)"
  by (simp add: iw_wf_def iw_new_def)

lemma iw_record_wf: "iw_wf w \<Longrightarrow> iw_wf (iw_record w i s)"
proof (cases "i \<in> set (iw_order w)")
  case True
  assume "iw_wf w"
  with True show ?thesis by (auto simp: iw_record_known iw_wf_def)
next
  case False
  assume wf: "iw_wf w"
  show ?thesis
  proof (cases "length (iw_order w) < iw_capacity w")
    case True
    with wf False show ?thesis by (simp add: iw_record_new) (auto simp: iw_wf_def)
  next
    case full: False
    with wf obtain h t where ht: "iw_order w = h # t" by (cases "iw_order w") (auto simp: iw_wf_def)
    with wf full False show ?thesis
      by (simp add: iw_record_new) (auto simp: iw_wf_def dom_def set_eq_iff)
  qed
qed

interpretation iw: dedup_window iw_wf iw_capacity iw_order iw_get iw_record
proof unfold_locales
  fix w i j s
  show "iw_capacity (iw_record w i s) = iw_capacity w" by (simp add: iw_record_def Let_def)
  assume wf: "iw_wf w"
  then show "iw_wf (iw_record w i s)" by (rule iw_record_wf)
  show "0 < iw_capacity w \<and> length (iw_order w) \<le> iw_capacity w" using wf by (simp add: iw_wf_def)
  show "iw_get w i \<noteq> None \<longleftrightarrow> i \<in> set (iw_order w)" using wf by (auto simp: iw_wf_def iw_get_def)
  show "iw_get (iw_record w i s) i = Some s"
  proof (cases "i \<in> set (iw_order w)")
    case True
    with wf show ?thesis by (simp add: iw_record_known iw_get_def)
  next
    case False
    then have "length (iw_order w) < iw_capacity w \<or> hd (iw_order w) \<noteq> i"
      using wf by (cases "iw_order w") (auto simp: iw_wf_def)
    with wf False show ?thesis by (auto simp: iw_record_new iw_get_def)
  qed
  show "i \<notin> set (iw_order w) \<Longrightarrow> iw_order (iw_record w i s) =
      (if length (iw_order w) < iw_capacity w then iw_order w else tl (iw_order w)) @ [i]"
    using wf by (simp add: iw_record_new)
  assume j: "j \<noteq> i" "j \<in> set (iw_order (iw_record w i s))"
  show "iw_get (iw_record w i s) j = iw_get w j"
  proof (cases "i \<in> set (iw_order w)")
    case True
    with wf j show ?thesis by (simp add: iw_record_known iw_get_def)
  next
    case False
    have "distinct (iw_order w)" using wf by (simp add: iw_wf_def)
    then have "length (iw_order w) < iw_capacity w \<or> hd (iw_order w) \<noteq> j"
      using wf j False by (cases "iw_order w") (auto simp: iw_record_new iw_wf_def)
    with wf False j show ?thesis by (auto simp: iw_record_new iw_get_def)
  qed
qed

section \<open>Saving and restoring\<close>

lemma iw_entries_eq: "iw_wf w \<Longrightarrow> iw_entries w = map (\<lambda>i. (i, the (iw_seqs w i))) (iw_order w)"
proof -
  assume "iw_wf w"
  then have "\<forall>i\<in>set (iw_order w). \<exists>s. iw_seqs w i = Some s" by (auto simp: iw_wf_def)
  then show ?thesis
    unfolding iw_entries_def
    by (induction "iw_order w" arbitrary: w) (auto simp: List.map_filter_def)
qed

lemma iw_restore_entries:
  assumes "iw_wf w"
  shows "iw_restore (iw_capacity w) (iw_entries w) = w"
proof -
  let ?f = "\<lambda>w (op_id, seq). iw_record w op_id seq"
  let ?e = "\<lambda>xs. map (\<lambda>i. (i, the (iw_seqs w i))) xs"
  have cap: "0 < iw_capacity w" using assms by (simp add: iw_wf_def)
  have "foldl ?f (iw_new (iw_capacity w)) (?e xs) =
      \<lparr>iw_capacity = iw_capacity w, iw_order = xs, iw_seqs = iw_seqs w |` set xs\<rparr>"
    if "\<exists>ys. iw_order w = xs @ ys" for xs
    using that
  proof (induction xs rule: rev_induct)
    case Nil
    with cap show ?case by (simp add: iw_new_def max_def)
  next
    case (snoc i xs)
    then obtain ys where ys: "iw_order w = xs @ i # ys" by auto
    let ?w = "\<lparr>iw_capacity = iw_capacity w, iw_order = xs, iw_seqs = iw_seqs w |` set xs\<rparr>"
    have IH: "foldl ?f (iw_new (iw_capacity w)) (?e xs) = ?w" using snoc ys by auto
    have i: "iw_seqs w i = Some (the (iw_seqs w i))" "i \<notin> set xs" "length xs < iw_capacity w"
      using assms ys by (auto simp: iw_wf_def set_eq_iff dom_def)
    have "iw_wf ?w" using assms ys cap by (auto simp: iw_wf_def)
    from iw_record_new [OF this] i have "iw_record ?w i (the (iw_seqs w i)) =
        \<lparr>iw_capacity = iw_capacity w, iw_order = xs @ [i],
         iw_seqs = (iw_seqs w |` set xs)(i \<mapsto> the (iw_seqs w i))\<rparr>" by simp
    moreover have "(iw_seqs w |` set xs)(i \<mapsto> the (iw_seqs w i)) = iw_seqs w |` set (xs @ [i])"
      using i by (auto simp: restrict_map_def fun_eq_iff)
    ultimately show ?case using IH by simp
  qed
  from this [of "iw_order w"] have "iw_restore (iw_capacity w) (iw_entries w) =
      \<lparr>iw_capacity = iw_capacity w, iw_order = iw_order w, iw_seqs = iw_seqs w |` set (iw_order w)\<rparr>"
    by (simp add: iw_restore_def iw_entries_eq [OF assms])
  moreover have "iw_seqs w |` set (iw_order w) = iw_seqs w"
  proof
    fix i
    show "(iw_seqs w |` set (iw_order w)) i = iw_seqs w i"
      using assms domIff [of i "iw_seqs w"]
      by (cases "i \<in> set (iw_order w)") (auto simp: iw_wf_def)
  qed
  ultimately show ?thesis by simp
qed

end
