(* ===== verification/Float_Model.thy ===== *)
theory Float_Model
  imports Prelude
begin

text \<open>
  The floating-point types of Rust, bit for bit: an \<open>f32\<close> is its 32-bit pattern and an
  \<open>f64\<close> its 64-bit pattern, with the IEEE 754 binary operations rounded to nearest, ties to
  even. A format is given by its precision \<open>p\<close> (hidden bit included) and exponent width
  \<open>w\<close>: (24, 8) and (53, 11). Every finite value is an integer times a power of two, so
  each operation is exact integer arithmetic followed by one rounding; division and square
  root append a sticky bit to enough quotient bits. Rust leaves the bit pattern of a computed
  NaN open; the model returns the canonical quiet NaN.
\<close>

section \<open>Formats, decoding and rounding\<close>

type_synonym f32 = "32 word"
type_synonym f64 = "64 word"

datatype fpv = FNan | FInf bool | FFin bool nat int

definition fp_emin :: "nat \<Rightarrow> nat \<Rightarrow> int" where
  "fp_emin p w = 3 - 2 ^ (w - 1) - int p"

definition fp_inf :: "nat \<Rightarrow> nat \<Rightarrow> nat" where
  "fp_inf p w = (2 ^ w - 1) * 2 ^ (p - 1)"

definition fp_signbit :: "nat \<Rightarrow> nat \<Rightarrow> nat" where
  "fp_signbit p w = 2 ^ (p - 1 + w)"

definition fp_pack :: "nat \<Rightarrow> nat \<Rightarrow> bool \<Rightarrow> nat \<Rightarrow> nat" where
  "fp_pack p w s mag = (if s then mag + fp_signbit p w else mag)"

definition fp_nan :: "nat \<Rightarrow> nat \<Rightarrow> nat" where
  "fp_nan p w = fp_inf p w + 2 ^ (p - 2)"

definition fp_decode :: "nat \<Rightarrow> nat \<Rightarrow> nat \<Rightarrow> fpv" where
  "fp_decode p w n =
     (let s = fp_signbit p w \<le> n; mag = n mod fp_signbit p w;
          E = mag div 2 ^ (p - 1); F = mag mod 2 ^ (p - 1)
      in if fp_inf p w < mag then FNan
         else if mag = fp_inf p w then FInf s
         else if E = 0 then FFin s F (fp_emin p w)
         else FFin s (F + 2 ^ (p - 1)) (fp_emin p w + int E - 1))"

fun bit_len :: "nat \<Rightarrow> nat" where
  "bit_len n = (if n = 0 then 0 else Suc (bit_len (n div 2)))"

declare bit_len.simps [simp del]

text \<open>Round \<open>m * 2 ^ e\<close> to the magnitude bits of the nearest value of the format, ties to
  even, overflowing to infinity.\<close>

definition fp_round :: "nat \<Rightarrow> nat \<Rightarrow> nat \<Rightarrow> int \<Rightarrow> nat" where
  "fp_round p w m e =
     (let e' = max (e + int (bit_len m) - int p) (fp_emin p w);
          q = (if e' \<le> e then m * 2 ^ nat (e - e')
               else let k = nat (e' - e); q0 = m div 2 ^ k; r = m mod 2 ^ k; half = 2 ^ (k - 1)
                    in if half < r \<or> (r = half \<and> odd q0) then q0 + 1 else q0)
      in if m = 0 then 0
         else min (fp_inf p w) (nat (e' - fp_emin p w) * 2 ^ (p - 1) + q))"

section \<open>Arithmetic\<close>

definition signed_int :: "bool \<Rightarrow> nat \<Rightarrow> int" where
  "signed_int s m = (if s then - int m else int m)"

definition fp_add :: "nat \<Rightarrow> nat \<Rightarrow> nat \<Rightarrow> nat \<Rightarrow> nat" where
  "fp_add p w x y =
     (case (fp_decode p w x, fp_decode p w y) of
        (FNan, _) \<Rightarrow> fp_nan p w
      | (_, FNan) \<Rightarrow> fp_nan p w
      | (FInf s, FInf t) \<Rightarrow> if s = t then fp_pack p w s (fp_inf p w) else fp_nan p w
      | (FInf s, FFin _ _ _) \<Rightarrow> fp_pack p w s (fp_inf p w)
      | (FFin _ _ _, FInf t) \<Rightarrow> fp_pack p w t (fp_inf p w)
      | (FFin s m e, FFin t n f) \<Rightarrow>
          (let g = min e f;
               c = signed_int s m * 2 ^ nat (e - g) + signed_int t n * 2 ^ nat (f - g)
           in if c = 0 then fp_pack p w (s \<and> t) 0
              else fp_pack p w (c < 0) (fp_round p w (nat \<bar>c\<bar>) g)))"

definition fp_mul :: "nat \<Rightarrow> nat \<Rightarrow> nat \<Rightarrow> nat \<Rightarrow> nat" where
  "fp_mul p w x y =
     (case (fp_decode p w x, fp_decode p w y) of
        (FNan, _) \<Rightarrow> fp_nan p w
      | (_, FNan) \<Rightarrow> fp_nan p w
      | (FInf s, FInf t) \<Rightarrow> fp_pack p w (s \<noteq> t) (fp_inf p w)
      | (FInf s, FFin t n _) \<Rightarrow>
          if n = 0 then fp_nan p w else fp_pack p w (s \<noteq> t) (fp_inf p w)
      | (FFin s m _, FInf t) \<Rightarrow>
          if m = 0 then fp_nan p w else fp_pack p w (s \<noteq> t) (fp_inf p w)
      | (FFin s m e, FFin t n f) \<Rightarrow> fp_pack p w (s \<noteq> t) (fp_round p w (m * n) (e + f)))"

definition fp_div :: "nat \<Rightarrow> nat \<Rightarrow> nat \<Rightarrow> nat \<Rightarrow> nat" where
  "fp_div p w x y =
     (case (fp_decode p w x, fp_decode p w y) of
        (FNan, _) \<Rightarrow> fp_nan p w
      | (_, FNan) \<Rightarrow> fp_nan p w
      | (FInf _, FInf _) \<Rightarrow> fp_nan p w
      | (FInf s, FFin t _ _) \<Rightarrow> fp_pack p w (s \<noteq> t) (fp_inf p w)
      | (FFin s _ _, FInf t) \<Rightarrow> fp_pack p w (s \<noteq> t) 0
      | (FFin s m e, FFin t n f) \<Rightarrow>
          if n = 0 then (if m = 0 then fp_nan p w else fp_pack p w (s \<noteq> t) (fp_inf p w))
          else let k = p + 2 + bit_len n; q = m * 2 ^ k div n; r = m * 2 ^ k mod n
               in fp_pack p w (s \<noteq> t)
                    (fp_round p w (2 * q + (if r = 0 then 0 else 1)) (e - f - int k - 1)))"

fun isqrt :: "nat \<Rightarrow> nat" where
  "isqrt n =
     (if n = 0 then 0
      else let r = 2 * isqrt (n div 4) in if (r + 1) * (r + 1) \<le> n then r + 1 else r)"

declare isqrt.simps [simp del]

definition fp_sqrt :: "nat \<Rightarrow> nat \<Rightarrow> nat \<Rightarrow> nat" where
  "fp_sqrt p w x =
     (case fp_decode p w x of
        FNan \<Rightarrow> fp_nan p w
      | FInf s \<Rightarrow> if s then fp_nan p w else x
      | FFin s m e \<Rightarrow>
          if m = 0 then x
          else if s then fp_nan p w
          else let k = (if even e then 2 * p + 4 else 2 * p + 5); M = m * 2 ^ k; r = isqrt M
               in fp_round p w (2 * r + (if r * r = M then 0 else 1)) ((e - int k) div 2 - 1))"

text \<open>\<open>round\<close> (halves away from zero), \<open>floor\<close>, truncation to an integer and conversion
  from one.\<close>

definition fp_round_int :: "nat \<Rightarrow> nat \<Rightarrow> nat \<Rightarrow> nat" where
  "fp_round_int p w x =
     (case fp_decode p w x of
        FFin s m e \<Rightarrow>
          if 0 \<le> e then x
          else let k = nat (- e)
               in fp_pack p w s (fp_round p w ((2 * m + 2 ^ k) div 2 ^ (k + 1)) 0)
      | _ \<Rightarrow> x)"

definition fp_floor :: "nat \<Rightarrow> nat \<Rightarrow> nat \<Rightarrow> nat" where
  "fp_floor p w x =
     (case fp_decode p w x of
        FFin s m e \<Rightarrow>
          if 0 \<le> e then x
          else let k = nat (- e); q = m div 2 ^ k
               in fp_pack p w s (fp_round p w (if s \<and> m mod 2 ^ k \<noteq> 0 then q + 1 else q) 0)
      | _ \<Rightarrow> x)"

text \<open>\<open>as\<close> casts to integers saturate and send NaN to zero.\<close>

definition fp_to_int :: "nat \<Rightarrow> nat \<Rightarrow> int \<Rightarrow> int \<Rightarrow> nat \<Rightarrow> int" where
  "fp_to_int p w lo hi x =
     (case fp_decode p w x of
        FNan \<Rightarrow> 0
      | FInf s \<Rightarrow> if s then lo else hi
      | FFin s m e \<Rightarrow>
          max lo (min hi (signed_int s (if 0 \<le> e then m * 2 ^ nat e else m div 2 ^ nat (- e)))))"

definition fp_of_int :: "nat \<Rightarrow> nat \<Rightarrow> int \<Rightarrow> nat" where
  "fp_of_int p w i = fp_pack p w (i < 0) (fp_round p w (nat \<bar>i\<bar>) 0)"

section \<open>Single precision\<close>

definition f32_zero :: f32 where "f32_zero = 0"
definition f32_neg_zero :: f32 where "f32_neg_zero = 0x80000000"
definition f32_one :: f32 where "f32_one = 0x3F800000"
definition f32_two :: f32 where "f32_two = 0x40000000"
definition f32_127 :: f32 where "f32_127 = 0x42FE0000"
definition f32_neg_127 :: f32 where "f32_neg_127 = 0xC2FE0000"

definition f32_mag :: "f32 \<Rightarrow> nat" where
  "f32_mag a = unat a mod 2 ^ 31"

definition f32_sign :: "f32 \<Rightarrow> bool" where
  "f32_sign a \<longleftrightarrow> 2 ^ 31 \<le> unat a"

definition f32_is_nan :: "f32 \<Rightarrow> bool" where
  "f32_is_nan a \<longleftrightarrow> 0x7F800000 < f32_mag a"

definition f32_is_finite :: "f32 \<Rightarrow> bool" where
  "f32_is_finite a \<longleftrightarrow> f32_mag a < 0x7F800000"

text \<open>The numeric order of values that are not NaN is the order of this key.\<close>

definition f32_key :: "f32 \<Rightarrow> int" where
  "f32_key a = (if f32_sign a then - int (f32_mag a) else int (f32_mag a))"

definition f32_lt :: "f32 \<Rightarrow> f32 \<Rightarrow> bool" where
  "f32_lt a b \<longleftrightarrow> \<not> f32_is_nan a \<and> \<not> f32_is_nan b \<and> f32_key a < f32_key b"

definition f32_le :: "f32 \<Rightarrow> f32 \<Rightarrow> bool" where
  "f32_le a b \<longleftrightarrow> \<not> f32_is_nan a \<and> \<not> f32_is_nan b \<and> f32_key a \<le> f32_key b"

definition f32_eq :: "f32 \<Rightarrow> f32 \<Rightarrow> bool" where
  "f32_eq a b \<longleftrightarrow> \<not> f32_is_nan a \<and> \<not> f32_is_nan b \<and> f32_key a = f32_key b"

definition f32_add :: "f32 \<Rightarrow> f32 \<Rightarrow> f32" where
  "f32_add a b = word_of_nat (fp_add 24 8 (unat a) (unat b))"

definition f32_mul :: "f32 \<Rightarrow> f32 \<Rightarrow> f32" where
  "f32_mul a b = word_of_nat (fp_mul 24 8 (unat a) (unat b))"

definition f32_div :: "f32 \<Rightarrow> f32 \<Rightarrow> f32" where
  "f32_div a b = word_of_nat (fp_div 24 8 (unat a) (unat b))"

definition f32_sqrt :: "f32 \<Rightarrow> f32" where
  "f32_sqrt a = word_of_nat (fp_sqrt 24 8 (unat a))"

definition f32_neg :: "f32 \<Rightarrow> f32" where
  "f32_neg a = word_of_nat (fp_pack 24 8 (\<not> f32_sign a) (f32_mag a))"

definition f32_abs :: "f32 \<Rightarrow> f32" where
  "f32_abs a = word_of_nat (f32_mag a)"

definition f32_sub :: "f32 \<Rightarrow> f32 \<Rightarrow> f32" where
  "f32_sub a b = f32_add a (f32_neg b)"

definition f32_max :: "f32 \<Rightarrow> f32 \<Rightarrow> f32" where
  "f32_max a b = (if f32_is_nan a then b else if f32_is_nan b then a
                  else if f32_lt a b then b else a)"

definition f32_clamp :: "f32 \<Rightarrow> f32 \<Rightarrow> f32 \<Rightarrow> f32" where
  "f32_clamp lo hi x = (if f32_lt x lo then lo else if f32_lt hi x then hi else x)"

definition f32_round :: "f32 \<Rightarrow> f32" where
  "f32_round a = word_of_nat (fp_round_int 24 8 (unat a))"

definition f32_as_i8 :: "f32 \<Rightarrow> i8" where
  "f32_as_i8 a = word_of_int (fp_to_int 24 8 (- 128) 127 (unat a))"

definition f32_of_int :: "int \<Rightarrow> f32" where
  "f32_of_int i = word_of_nat (fp_of_int 24 8 i)"

text \<open>\<open>Iterator::sum\<close> folds from negative zero.\<close>

definition f32_sum :: "f32 list \<Rightarrow> f32" where
  "f32_sum xs = foldl f32_add f32_neg_zero xs"

section \<open>Double precision\<close>

definition f64_is_nan :: "f64 \<Rightarrow> bool" where
  "f64_is_nan a \<longleftrightarrow> 0x7FF0000000000000 < unat a mod 2 ^ 63"

definition f64_key :: "f64 \<Rightarrow> int" where
  "f64_key a = signed_int (2 ^ 63 \<le> unat a) (unat a mod 2 ^ 63)"

definition f64_lt :: "f64 \<Rightarrow> f64 \<Rightarrow> bool" where
  "f64_lt a b \<longleftrightarrow> \<not> f64_is_nan a \<and> \<not> f64_is_nan b \<and> f64_key a < f64_key b"

definition f64_le :: "f64 \<Rightarrow> f64 \<Rightarrow> bool" where
  "f64_le a b \<longleftrightarrow> \<not> f64_is_nan a \<and> \<not> f64_is_nan b \<and> f64_key a \<le> f64_key b"

definition f64_add :: "f64 \<Rightarrow> f64 \<Rightarrow> f64" where
  "f64_add a b = word_of_nat (fp_add 53 11 (unat a) (unat b))"

definition f64_mul :: "f64 \<Rightarrow> f64 \<Rightarrow> f64" where
  "f64_mul a b = word_of_nat (fp_mul 53 11 (unat a) (unat b))"

definition f64_div :: "f64 \<Rightarrow> f64 \<Rightarrow> f64" where
  "f64_div a b = word_of_nat (fp_div 53 11 (unat a) (unat b))"

definition f64_neg :: "f64 \<Rightarrow> f64" where
  "f64_neg a = a XOR 0x8000000000000000"

definition f64_floor :: "f64 \<Rightarrow> f64" where
  "f64_floor a = word_of_nat (fp_floor 53 11 (unat a))"

definition f64_min :: "f64 \<Rightarrow> f64 \<Rightarrow> f64" where
  "f64_min a b = (if f64_is_nan a then b else if f64_is_nan b then a
                  else if f64_lt b a then b else a)"

definition f64_clamp :: "f64 \<Rightarrow> f64 \<Rightarrow> f64 \<Rightarrow> f64" where
  "f64_clamp lo hi x = (if f64_lt x lo then lo else if f64_lt hi x then hi else x)"

definition f64_of_nat :: "nat \<Rightarrow> f64" where
  "f64_of_nat n = word_of_nat (fp_of_int 53 11 (int n))"

definition f64_as_nat :: "nat \<Rightarrow> f64 \<Rightarrow> nat" where
  "f64_as_nat hi a = nat (fp_to_int 53 11 0 (int hi) (unat a))"

definition f64_zero :: f64 where "f64_zero = 0"
definition f64_one :: f64 where "f64_one = 0x3FF0000000000000"
definition f64_31 :: f64 where "f64_31 = 0x403F000000000000"
definition f64_0_9 :: f64 where "f64_0_9 = 0x3FECCCCCCCCCCCCD"
definition f64_0_35 :: f64 where "f64_0_35 = 0x3FD6666666666666"
definition f64_0_2 :: f64 where "f64_0_2 = 0x3FC999999999999A"

section \<open>Lemmas: the single-precision format\<close>

lemma fp_consts_24_8:
  "fp_inf 24 8 = 2139095040" "fp_signbit 24 8 = 2147483648" "fp_nan 24 8 = 2143289344"
  "fp_emin 24 8 = - 149"
  by (simp_all add: fp_inf_def fp_signbit_def fp_nan_def fp_emin_def)

lemma fp_round_le_inf: "fp_round p w m e \<le> fp_inf p w"
  by (simp add: fp_round_def Let_def)

definition f32_dec :: "f32 \<Rightarrow> fpv" where
  "f32_dec a = fp_decode 24 8 (unat a)"

lemma f32_dec_unfold:
  "f32_dec a =
     (if f32_is_nan a then FNan
      else if f32_mag a = 2139095040 then FInf (f32_sign a)
      else if f32_mag a div 2 ^ 23 = 0 then FFin (f32_sign a) (f32_mag a mod 2 ^ 23) (- 149)
      else FFin (f32_sign a) (f32_mag a mod 2 ^ 23 + 2 ^ 23)
             (- 149 + int (f32_mag a div 2 ^ 23) - 1))"
  by (simp add: f32_dec_def fp_decode_def Let_def fp_consts_24_8 f32_is_nan_def f32_mag_def
      f32_sign_def)

lemma f32_dec_nan: "f32_dec a = FNan \<longleftrightarrow> f32_is_nan a"
  by (simp add: f32_dec_unfold)

lemma f32_dec_inf: "f32_dec a = FInf s \<Longrightarrow> f32_mag a = 2139095040 \<and> f32_sign a = s"
  by (auto simp: f32_dec_unfold split: if_splits)

lemma f32_dec_sign: "f32_dec a = FFin s m e \<Longrightarrow> f32_sign a = s"
  by (auto simp: f32_dec_unfold split: if_splits)

lemma f32_finite_dec: "f32_is_finite a \<Longrightarrow> \<exists>s m e. f32_dec a = FFin s m e"
  by (auto simp: f32_dec_unfold f32_is_finite_def f32_is_nan_def)

lemma f32_finite_not_nan: "f32_is_finite a \<Longrightarrow> \<not> f32_is_nan a"
  by (simp add: f32_is_finite_def f32_is_nan_def)

text \<open>A packed result has the sign and the magnitude it was packed from.\<close>

lemma unat_f32_pack:
  assumes "mag < 2 ^ 31"
  shows "unat (word_of_nat (fp_pack 24 8 s mag) :: f32) = mag + (if s then 2 ^ 31 else 0)"
  using assms by (simp add: fp_pack_def fp_consts_24_8 unat_of_nat)

lemma f32_pack:
  assumes "mag < 2 ^ 31"
  shows "f32_mag (word_of_nat (fp_pack 24 8 s mag)) = mag"
    and "f32_sign (word_of_nat (fp_pack 24 8 s mag)) = s"
  using assms unat_f32_pack [OF assms, of s] by (simp_all add: f32_mag_def f32_sign_def)

lemma f32_pack_round:
  "f32_mag (word_of_nat (fp_pack 24 8 s (fp_round 24 8 m e))) = fp_round 24 8 m e"
  "f32_sign (word_of_nat (fp_pack 24 8 s (fp_round 24 8 m e))) = s"
  using fp_round_le_inf [of 24 8 m e] by (simp_all add: f32_pack fp_consts_24_8)

lemma f32_round_not_nan: "\<not> f32_is_nan (word_of_nat (fp_pack 24 8 s (fp_round 24 8 m e)))"
  using fp_round_le_inf [of 24 8 m e]
  by (simp add: f32_is_nan_def f32_pack_round fp_consts_24_8)

lemma f32_pack_inf_not_nan: "\<not> f32_is_nan (word_of_nat (fp_pack 24 8 s (fp_inf 24 8)))"
  by (simp add: f32_is_nan_def f32_pack fp_consts_24_8)

lemma f32_pack_zero_not_nan: "\<not> f32_is_nan (word_of_nat (fp_pack 24 8 s 0))"
  by (simp add: f32_is_nan_def f32_pack)

lemma f32_pack_inf_sign: "f32_sign (word_of_nat (fp_pack 24 8 s (fp_inf 24 8))) = s"
  by (simp add: f32_pack fp_consts_24_8)

lemmas f32_packed = f32_pack_inf_sign f32_round_not_nan f32_pack_inf_not_nan f32_pack_zero_not_nan

lemma f32_mag_bound: "f32_mag a < 2 ^ 31"
  by (simp add: f32_mag_def)

lemma f32_neg [simp]:
  "f32_mag (f32_neg a) = f32_mag a"
  "f32_sign (f32_neg a) = (\<not> f32_sign a)"
  using f32_mag_bound [of a] by (simp_all add: f32_neg_def f32_pack)

lemma f32_neg_finite [simp]:
  "f32_is_finite (f32_neg a) = f32_is_finite a"
  "f32_is_nan (f32_neg a) = f32_is_nan a"
  by (simp_all add: f32_is_finite_def f32_is_nan_def)

lemma f32_dec_neg:
  "f32_dec a = FFin s m e \<Longrightarrow> f32_dec (f32_neg a) = FFin (\<not> s) m e"
  by (auto simp: f32_dec_unfold split: if_splits)

lemma f32_eqI: "f32_mag a = f32_mag b \<Longrightarrow> f32_sign a = f32_sign b \<Longrightarrow> a = b"
proof -
  have split: "unat x = f32_mag x + (if f32_sign x then 2 ^ 31 else 0)" for x :: f32
    using unat_bound [of x] by (auto simp: f32_mag_def f32_sign_def mod_if)
  show "f32_mag a = f32_mag b \<Longrightarrow> f32_sign a = f32_sign b \<Longrightarrow> a = b"
    using split [of a] split [of b] by (simp add: word_unat_eq_iff)
qed

section \<open>Lemmas: addition and multiplication\<close>

lemma f32_add_dec:
  "f32_add a b = word_of_nat
     (case (f32_dec a, f32_dec b) of
        (FNan, _) \<Rightarrow> fp_nan 24 8
      | (_, FNan) \<Rightarrow> fp_nan 24 8
      | (FInf s, FInf t) \<Rightarrow> if s = t then fp_pack 24 8 s (fp_inf 24 8) else fp_nan 24 8
      | (FInf s, FFin _ _ _) \<Rightarrow> fp_pack 24 8 s (fp_inf 24 8)
      | (FFin _ _ _, FInf t) \<Rightarrow> fp_pack 24 8 t (fp_inf 24 8)
      | (FFin s m e, FFin t n f) \<Rightarrow>
          (let g = min e f;
               c = signed_int s m * 2 ^ nat (e - g) + signed_int t n * 2 ^ nat (f - g)
           in if c = 0 then fp_pack 24 8 (s \<and> t) 0
              else fp_pack 24 8 (c < 0) (fp_round 24 8 (nat \<bar>c\<bar>) g)))"
  by (simp add: f32_add_def fp_add_def f32_dec_def)

lemma f32_mul_dec:
  "f32_mul a b = word_of_nat
     (case (f32_dec a, f32_dec b) of
        (FNan, _) \<Rightarrow> fp_nan 24 8
      | (_, FNan) \<Rightarrow> fp_nan 24 8
      | (FInf s, FInf t) \<Rightarrow> fp_pack 24 8 (s \<noteq> t) (fp_inf 24 8)
      | (FInf s, FFin t n _) \<Rightarrow>
          if n = 0 then fp_nan 24 8 else fp_pack 24 8 (s \<noteq> t) (fp_inf 24 8)
      | (FFin s m _, FInf t) \<Rightarrow>
          if m = 0 then fp_nan 24 8 else fp_pack 24 8 (s \<noteq> t) (fp_inf 24 8)
      | (FFin s m e, FFin t n f) \<Rightarrow> fp_pack 24 8 (s \<noteq> t) (fp_round 24 8 (m * n) (e + f)))"
  by (simp add: f32_mul_def fp_mul_def f32_dec_def)

lemma f32_add_commute: "f32_add a b = f32_add b a"
proof (cases "f32_dec a"; cases "f32_dec b")
  fix s m e t n f
  assume "f32_dec a = FFin s m e" "f32_dec b = FFin t n f"
  then show ?thesis
    by (simp add: f32_add_dec Let_def min.commute add.commute conj_commute)
qed (auto simp: f32_add_dec)

lemma f32_mul_commute: "f32_mul a b = f32_mul b a"
proof -
  have swap: "(s = (\<not> t)) = (t = (\<not> s))" for s t by blast
  show ?thesis
    by (cases "f32_dec a"; cases "f32_dec b"; simp add: f32_mul_dec mult.commute add.commute swap)
qed

text \<open>Sums of finite values are never NaN; neither are sums of values that are not negative.\<close>

lemma f32_add_not_nan:
  assumes "f32_is_finite a" and "f32_is_finite b"
  shows "\<not> f32_is_nan (f32_add a b)"
proof -
  obtain s m e t n f where "f32_dec a = FFin s m e" "f32_dec b = FFin t n f"
    using assms f32_finite_dec by blast
  then show ?thesis by (auto simp: f32_add_dec Let_def f32_packed)
qed

definition f32_nonneg :: "f32 \<Rightarrow> bool" where
  "f32_nonneg a \<longleftrightarrow> \<not> f32_is_nan a \<and> \<not> f32_sign a"

lemma f32_nonneg_add:
  assumes "f32_nonneg a" and "f32_nonneg b"
  shows "f32_nonneg (f32_add a b)"
proof -
  have sgn: "\<not> f32_sign a" "\<not> f32_sign b" and nan: "f32_dec a \<noteq> FNan" "f32_dec b \<noteq> FNan"
    using assms by (auto simp: f32_nonneg_def f32_dec_nan)
  note signs = f32_dec_sign [of a] f32_dec_sign [of b] f32_dec_inf [of a] f32_dec_inf [of b]
  show ?thesis
  proof (cases "f32_dec a"; cases "f32_dec b")
    fix s m e t n f
    assume *: "f32_dec a = FFin s m e" "f32_dec b = FFin t n f"
    then have "\<not> s" "\<not> t" using signs sgn by auto
    with * show ?thesis
      by (auto simp: f32_add_dec Let_def f32_nonneg_def f32_packed f32_pack_round f32_pack
          signed_int_def add_nonneg_nonneg not_less)
  qed (use signs sgn nan in \<open>auto simp: f32_add_dec f32_nonneg_def f32_packed\<close>)
qed

lemma f32_nonneg_zero [simp]: "f32_nonneg f32_zero"
  by (simp add: f32_nonneg_def f32_zero_def f32_is_nan_def f32_sign_def f32_mag_def)

lemma f32_square_nonneg: "\<not> f32_is_nan a \<Longrightarrow> f32_nonneg (f32_mul a a)"
  unfolding f32_dec_nan [symmetric]
  by (cases "f32_dec a")
    (auto simp: f32_mul_dec f32_nonneg_def f32_packed f32_pack_round f32_pack)

text \<open>Adding a value that is not negative to negative zero, the seed of a sum, gives it back.\<close>

lemma f32_neg_zero_dec: "f32_dec f32_neg_zero = FFin True 0 (- 149)"
  by (simp add: f32_neg_zero_def f32_dec_def fp_decode_def Let_def fp_consts_24_8)

lemma f32_nonneg_add_seed:
  assumes "f32_nonneg a"
  shows "f32_nonneg (f32_add f32_neg_zero a)"
proof (cases "f32_dec a")
  case (FFin s m e)
  then have "\<not> s" using assms f32_dec_sign by (auto simp: f32_nonneg_def)
  with FFin show ?thesis
    by (auto simp: f32_add_dec f32_neg_zero_dec Let_def f32_nonneg_def f32_packed
        f32_pack_round f32_pack signed_int_def mult_less_0_iff)
qed (use assms f32_dec_inf [of a] f32_dec_nan [of a] in \<open>auto simp: f32_add_dec f32_neg_zero_dec f32_nonneg_def
      f32_packed f32_pack\<close>)

lemma f32_sum_nonneg:
  assumes "xs \<noteq> []" and "\<forall>x\<in>set xs. f32_nonneg x"
  shows "f32_nonneg (f32_sum xs)"
proof -
  have step: "f32_nonneg acc \<Longrightarrow> \<forall>x\<in>set ys. f32_nonneg x \<Longrightarrow> f32_nonneg (foldl f32_add acc ys)"
    for acc ys by (induction ys arbitrary: acc) (auto simp: f32_nonneg_add)
  from assms obtain y ys where "xs = y # ys" by (cases xs) auto
  with assms(2) show ?thesis
    by (auto simp: f32_sum_def intro!: step f32_nonneg_add_seed)
qed

text \<open>Differences: exact zero on equal values, and antisymmetric up to the sign.\<close>

lemma f32_sub_self:
  assumes "f32_is_finite a"
  shows "f32_sub a a = f32_zero"
proof -
  obtain s m e where d: "f32_dec a = FFin s m e" using f32_finite_dec [OF assms] by blast
  have "f32_sub a a = word_of_nat (fp_pack 24 8 False 0)"
    using d f32_dec_neg [OF d] by (auto simp: f32_sub_def f32_add_dec signed_int_def Let_def)
  then show ?thesis by (simp add: fp_pack_def f32_zero_def)
qed

lemma f32_sub_swap:
  assumes "f32_is_finite a" and "f32_is_finite b"
  shows "f32_mag (f32_sub b a) = f32_mag (f32_sub a b)"
proof -
  obtain s m e t n f where d: "f32_dec a = FFin s m e" "f32_dec b = FFin t n f"
    using assms f32_finite_dec by blast
  define c where "c = signed_int s m * 2 ^ nat (e - min e f)
    + signed_int (\<not> t) n * 2 ^ nat (f - min e f)"
  have c': "signed_int t n * 2 ^ nat (f - min f e)
    + signed_int (\<not> s) m * 2 ^ nat (e - min f e) = - c"
    by (simp add: c_def signed_int_def min.commute)
  show ?thesis
    using d f32_dec_neg [OF d(1)] f32_dec_neg [OF d(2)] c'
    by (auto simp: f32_sub_def f32_add_dec Let_def c_def [symmetric] f32_pack_round f32_pack
        min.commute)
qed

lemma f32_mul_self_mag:
  assumes "f32_mag a = f32_mag b"
  shows "f32_mul a a = f32_mul b b"
proof -
  have "f32_dec a = FFin s m e \<Longrightarrow> \<exists>t. f32_dec b = FFin t m e" for s m e
    using assms by (auto simp: f32_dec_unfold f32_is_nan_def split: if_splits)
  moreover have "f32_dec a = FInf s \<Longrightarrow> \<exists>t. f32_dec b = FInf t" for s
    using assms by (auto simp: f32_dec_unfold f32_is_nan_def split: if_splits)
  moreover have "f32_dec a = FNan \<Longrightarrow> f32_dec b = FNan"
    using assms by (simp add: f32_dec_nan f32_is_nan_def)
  ultimately show ?thesis
    by (cases "f32_dec a") (fastforce simp: f32_mul_dec)+
qed

lemma f32_add_zero_zero [simp]: "f32_add f32_zero f32_zero = f32_zero"
  by code_simp

lemma f32_mul_zero_zero [simp]: "f32_mul f32_zero f32_zero = f32_zero"
  by code_simp

lemma f32_add_seed_zero [simp]: "f32_add f32_neg_zero f32_zero = f32_zero"
  by code_simp

section \<open>Lemmas: comparison and square root\<close>

lemma f32_key_zero: "f32_key f32_zero = 0" "f32_key f32_neg_zero = 0"
  by (simp_all add: f32_key_def f32_zero_def f32_neg_zero_def f32_sign_def f32_mag_def)

lemma f32_lt_irrefl [simp]: "\<not> f32_lt a a"
  by (simp add: f32_lt_def)

lemma f32_lt_trans: "f32_lt a b \<Longrightarrow> f32_lt b c \<Longrightarrow> f32_lt a c"
  by (auto simp: f32_lt_def)

lemma isqrt_bounds: "isqrt n * isqrt n \<le> n \<and> n < (isqrt n + 1) * (isqrt n + 1)"
proof (induction n rule: isqrt.induct)
  case (1 n)
  show ?case
  proof (cases "n = 0")
    case True
    then show ?thesis by (simp add: isqrt.simps)
  next
    case False
    define h where "h = isqrt (n div 4)"
    from 1 False have lo: "h * h \<le> n div 4" and hi: "n div 4 < (h + 1) * (h + 1)"
      by (simp_all add: h_def)
    have "4 * (n div 4) \<le> n" and "n < 4 * (n div 4) + 4" by presburger+
    with lo hi have lo': "(2 * h) * (2 * h) \<le> n" and hi': "n < (2 * h + 2) * (2 * h + 2)"
      by (auto simp: algebra_simps)
    have "isqrt n = (if (2 * h + 1) * (2 * h + 1) \<le> n then 2 * h + 1 else 2 * h)"
      using False by (subst isqrt.simps) (simp add: h_def Let_def)
    with lo' hi' show ?thesis by (auto simp: algebra_simps)
  qed
qed

section \<open>Lemmas: the double-precision casts\<close>

lemma fp_consts_53_11:
  "fp_inf 53 11 = 0x7FF0000000000000" "fp_signbit 53 11 = 2 ^ 63" "fp_emin 53 11 = - 1074"
  by (simp_all add: fp_inf_def fp_signbit_def fp_emin_def)

lemma f64_to_int_31:
  assumes "f64_key y \<le> f64_key f64_31" and "\<not> f64_is_nan y"
  shows "f64_as_nat 255 y \<le> 31"
proof -
  let ?mag = "unat y mod 2 ^ 63" and ?s = "2 ^ 63 \<le> unat y"
  let ?E = "?mag div 2 ^ 52" and ?F = "?mag mod 2 ^ 52"
  have neg: "nat (max 0 (min 255 (signed_int True q))) = 0" for q by (simp add: signed_int_def)
  have pos: "nat (max 0 (min 255 (signed_int False q))) \<le> 31" if "q \<le> 31" for q
    using that by (simp add: signed_int_def)
  have fin: "fp_decode 53 11 (unat y) = (if ?mag = 0x7FF0000000000000 then FInf ?s
      else if ?E = 0 then FFin ?s ?F (- 1074) else FFin ?s (?F + 2 ^ 52) (int ?E - 1075))"
    using assms(2) by (simp add: fp_decode_def fp_consts_53_11 f64_is_nan_def Let_def)
  have k31: "f64_key f64_31 = 0x403F000000000000" by (simp add: f64_key_def f64_31_def signed_int_def)
  show ?thesis
  proof (cases ?s)
    case True
    then show ?thesis using neg by (simp add: f64_as_nat_def fp_to_int_def fin)
  next
    case False
    then have mag: "?mag \<le> 0x403F000000000000"
      using assms(1) unfolding k31 f64_key_def [of y] signed_int_def by (simp only: if_False)
    have split: "?mag = ?E * 2 ^ 52 + ?F" by (rule div_mult_mod_eq [symmetric])
    have F: "?F < 2 ^ 52" by simp
    have E: "?E \<le> 1027" using div_le_mono [OF mag, of "2 ^ 52"] by simp
    have sub: "?F div 2 ^ 1074 \<le> 31" using F by (simp add: div_less)
    have small: "(?F + 2 ^ 52) div 2 ^ nat (1075 - int ?E) \<le> 31"
    proof (cases "?E = 1027")
      case True
      have "m = e * 2 ^ 52 + f \<Longrightarrow> e = 1027 \<Longrightarrow> m \<le> 0x403F000000000000 \<Longrightarrow>
          f + 2 ^ 52 \<le> 0x1F000000000000" for m e f :: nat by simp
      then have "?F + 2 ^ 52 \<le> 0x1F000000000000" using split True mag .
      then have "(?F + 2 ^ 52) div 2 ^ 48 \<le> 0x1F000000000000 div 2 ^ 48" by (rule div_le_mono)
      with True show ?thesis by simp
    next
      case False
      with E have "(2::nat) ^ 49 \<le> 2 ^ nat (1075 - int ?E)" by (intro power_increasing) auto
      then have "(?F + 2 ^ 52) div 2 ^ nat (1075 - int ?E) \<le> (?F + 2 ^ 52) div 2 ^ 49"
        by (rule div_le_mono2 [rotated]) simp
      also have "\<dots> \<le> 2 ^ 53 div 2 ^ 49" using F by (intro div_le_mono) simp
      finally show ?thesis by simp
    qed
    have ninf: "?mag \<noteq> 0x7FF0000000000000" using mag by auto
    have e: "0 \<le> int ?E - 1075 \<longleftrightarrow> False" "- (int ?E - 1075) = 1075 - int ?E" using E by auto
    have e0: "0 \<le> (- 1074 :: int) \<longleftrightarrow> False" "nat (- (- 1074)) = 1074" by simp_all
    have s: "?s \<longleftrightarrow> False" using False by blast
    have hi: "int 255 = 255" by simp
    show ?thesis
    proof (cases "?E = 0")
      case True
      have "fp_decode 53 11 (unat y) = FFin False ?F (- 1074)"
        using ninf True by (simp only: fin s if_False if_True refl)
      then have "f64_as_nat 255 y = nat (max 0 (min 255 (signed_int False (?F div 2 ^ 1074))))"
        by (simp only: f64_as_nat_def fp_to_int_def fpv.case e0 if_False hi)
      with pos [OF sub] show ?thesis by (simp only:)
    next
      case nz: False
      have "fp_decode 53 11 (unat y) = FFin False (?F + 2 ^ 52) (int ?E - 1075)"
        using ninf nz by (simp only: fin s if_False)
      then have "f64_as_nat 255 y =
          nat (max 0 (min 255 (signed_int False ((?F + 2 ^ 52) div 2 ^ nat (1075 - int ?E)))))"
        by (simp only: f64_as_nat_def fp_to_int_def fpv.case e if_False hi)
      with pos [OF small] show ?thesis by (simp only:)
    qed
  qed
qed

lemma f64_min_31: "f64_as_nat 255 (f64_min x f64_31) \<le> 31"
proof -
  have nan: "\<not> f64_is_nan f64_31" by (simp add: f64_is_nan_def f64_31_def)
  show ?thesis
    using f64_to_int_31 [of "f64_min x f64_31"] nan
    by (auto simp: f64_min_def f64_lt_def not_less)
qed

end
