(* ===== verification/Distance.thy ===== *)
theory Distance
  imports Float_Model
begin

text \<open>
  The metric of a collection (\<open>lib.rs\<close>) and the distance kernels (\<open>distance.rs\<close>), lane by
  lane as the unrolled loops add. The theorems: distances are symmetric bit for bit, a squared
  Euclidean distance between finite vectors is never NaN and never negative, and it is zero
  between a vector and itself.
\<close>

section \<open>Metrics\<close>

datatype metric = Cosine | Dot | L2

definition metric_parse :: "string \<Rightarrow> metric option" where
  "metric_parse value =
     (if value = ''cosine'' \<or> value = ''angular'' then Some Cosine
      else if value = ''dot'' \<or> value = ''ip'' then Some Dot
      else if value = ''l2'' \<or> value = ''euclidean'' then Some L2
      else None)"

fun metric_as_str :: "metric \<Rightarrow> string" where
  "metric_as_str Cosine = ''cosine''"
| "metric_as_str Dot = ''dot''"
| "metric_as_str L2 = ''l2''"

fun normalizes :: "metric \<Rightarrow> bool" where
  "normalizes Cosine = True"
| "normalizes _ = False"

section \<open>Kernels\<close>

definition LANES :: nat where
  "LANES = 8"

text \<open>One pass of the unrolled loop: every lane accumulates its own term.\<close>

definition lane_step :: "(f32 \<Rightarrow> f32 \<Rightarrow> f32) \<Rightarrow> f32 list \<Rightarrow> f32 list \<times> f32 list \<Rightarrow> f32 list" where
  "lane_step term acc xy =
     map (\<lambda>lane. f32_add (acc ! lane) (term (fst xy ! lane) (snd xy ! lane))) [0..<LANES]"

definition unrolled :: "(f32 \<Rightarrow> f32 \<Rightarrow> f32) \<Rightarrow> f32 list \<Rightarrow> f32 list \<Rightarrow> f32" where
  "unrolled term a b =
     (let acc = foldl (lane_step term) (replicate LANES f32_zero)
                  (zip (chunks LANES a) (chunks LANES b));
          total = f32_sum acc
      in foldl (\<lambda>s (x, y). f32_add s (term x y)) total
           (zip (remainder LANES a) (remainder LANES b)))"

definition sq_diff :: "f32 \<Rightarrow> f32 \<Rightarrow> f32" where
  "sq_diff x y = (let d = f32_sub x y in f32_mul d d)"

definition dot :: "f32 list \<Rightarrow> f32 list \<Rightarrow> f32" where
  "dot a b = unrolled f32_mul a b"

definition l2_squared :: "f32 list \<Rightarrow> f32 list \<Rightarrow> f32" where
  "l2_squared a b = unrolled sq_diff a b"

fun distance :: "metric \<Rightarrow> f32 list \<Rightarrow> f32 list \<Rightarrow> f32" where
  "distance Cosine a b = f32_sub f32_one (dot a b)"
| "distance Dot a b = f32_neg (dot a b)"
| "distance L2 a b = l2_squared a b"

definition dot_scalar :: "f32 list \<Rightarrow> f32 list \<Rightarrow> f32" where
  "dot_scalar a b = f32_sum (map (\<lambda>(x, y). f32_mul x y) (zip a b))"

definition l2_squared_scalar :: "f32 list \<Rightarrow> f32 list \<Rightarrow> f32" where
  "l2_squared_scalar a b =
     f32_sum (map (\<lambda>(x, y). f32_mul (f32_sub x y) (f32_sub x y)) (zip a b))"

text \<open>Unit-normalization in place: the flag and the vector afterwards.\<close>

definition normalize :: "f32 list \<Rightarrow> bool \<times> f32 list" where
  "normalize vector =
     (let norm = f32_sqrt (dot vector vector)
      in if f32_eq norm f32_zero \<or> \<not> f32_is_finite norm then (False, vector)
         else let inverse = f32_div f32_one norm
              in (True, map (\<lambda>value. f32_mul value inverse) vector))"

section \<open>Lemmas\<close>

lemma metric_parse_as_str [simp]: "metric_parse (metric_as_str m) = Some m"
  by (cases m) (simp_all add: metric_parse_def)

lemma length_normalize [simp]: "length (snd (normalize v)) = length v"
  by (simp add: normalize_def Let_def)

lemma normalize_False: "\<not> fst (normalize v) \<Longrightarrow> snd (normalize v) = v"
  by (auto simp: normalize_def Let_def split: if_splits)

lemma length_lane_step [simp]: "length (lane_step term acc xy) = LANES"
  by (simp add: lane_step_def)

lemma set_zipD: "(x, y) \<in> set (zip xs ys) \<Longrightarrow> x \<in> set xs \<and> y \<in> set ys"
  by (auto dest: set_zip_leftD set_zip_rightD)

lemma set_remainder: "set (remainder n xs) \<subseteq> set xs"
  by (simp add: remainder_def set_drop_subset)

lemma set_chunks: "c \<in> set (chunks n xs) \<Longrightarrow> set c \<subseteq> set xs"
proof (induction n xs rule: chunks.induct)
  case (1 n xs)
  then show ?case
    using set_take_subset [of n xs] set_drop_subset [of n xs]
    by (subst (asm) (2) chunks.simps) (auto split: if_splits)
qed

text \<open>
  The pairs of components a kernel combines, and the rule behind every bound on a kernel: a
  property that holds of the zero accumulator, is kept by adding the term of such a pair, and
  passes from the lanes to their sum, holds of the result.
\<close>

definition kernel_pairs :: "(f32 \<Rightarrow> f32 \<Rightarrow> bool) \<Rightarrow> f32 list \<Rightarrow> f32 list \<Rightarrow> bool" where
  "kernel_pairs Q a b \<longleftrightarrow>
     (\<forall>(u, v)\<in>set (zip (chunks LANES a) (chunks LANES b)). \<forall>l<LANES. Q (u ! l) (v ! l)) \<and>
     (\<forall>(x, y)\<in>set (zip (remainder LANES a) (remainder LANES b)). Q x y)"

lemma kernel_pairs_elems:
  assumes "\<And>x y. x \<in> set a \<Longrightarrow> y \<in> set b \<Longrightarrow> Q x y"
  shows "kernel_pairs Q a b"
proof -
  have "Q (u ! l) (v ! l)"
    if "(u, v) \<in> set (zip (chunks LANES a) (chunks LANES b))" "l < LANES" for u v l
  proof -
    from that(1) have u: "u \<in> set (chunks LANES a)" and v: "v \<in> set (chunks LANES b)"
      by (auto dest: set_zipD)
    have "u ! l \<in> set u" "v ! l \<in> set v"
      using that(2) chunks_elem_length [OF u] chunks_elem_length [OF v] by auto
    with set_chunks [OF u] set_chunks [OF v] show ?thesis by (auto intro: assms)
  qed
  moreover have "Q x y" if "(x, y) \<in> set (zip (remainder LANES a) (remainder LANES b))" for x y
    using set_zipD [OF that] set_remainder [of LANES a] set_remainder [of LANES b]
    by (auto intro: assms)
  ultimately show ?thesis by (auto simp: kernel_pairs_def)
qed

lemma kernel_pairs_self: "kernel_pairs (\<lambda>x y. x = y \<and> x \<in> set a) a a"
proof -
  have "u ! l \<in> set a" if "u \<in> set (chunks LANES a)" "l < LANES" for u l
    using set_chunks [OF that(1)] chunks_elem_length [OF that(1)] that(2) by (auto dest: nth_mem)
  then show ?thesis
    using set_remainder [of LANES a]
    by (auto simp: kernel_pairs_def zip_same_conv_map)
qed

lemma unrolled_rule:
  assumes pairs: "kernel_pairs Q a b"
    and zero: "P f32_zero"
    and step: "\<And>s x y. P s \<Longrightarrow> Q x y \<Longrightarrow> P (f32_add s (term x y))"
    and sum: "\<And>acc. length acc = LANES \<Longrightarrow> \<forall>s\<in>set acc. P s \<Longrightarrow> P (f32_sum acc)"
  shows "P (unrolled term a b)"
proof -
  have lanes: "length acc = LANES \<and> (\<forall>s\<in>set acc. P s) \<Longrightarrow>
      \<forall>(u, v)\<in>set cs. \<forall>l<LANES. Q (u ! l) (v ! l) \<Longrightarrow>
      length (foldl (lane_step term) acc cs) = LANES \<and>
      (\<forall>s\<in>set (foldl (lane_step term) acc cs). P s)" for acc cs
  proof (induction cs arbitrary: acc)
    case (Cons c cs)
    then have "\<forall>s\<in>set (lane_step term acc c). P s"
      by (cases c) (auto simp: lane_step_def intro!: step)
    then show ?case using Cons.IH [of "lane_step term acc c"] Cons.prems(2) by simp
  qed simp
  have tail: "P s \<Longrightarrow> \<forall>(x, y)\<in>set ps. Q x y \<Longrightarrow>
      P (foldl (\<lambda>s (x, y). f32_add s (term x y)) s ps)" for s ps
    by (induction ps arbitrary: s) (auto intro: step)
  show ?thesis
    unfolding unrolled_def Let_def
    by (rule tail [OF sum])
      (use lanes [of "replicate LANES f32_zero"] zero pairs in \<open>auto simp: kernel_pairs_def\<close>)
qed

lemma unrolled_swap:
  assumes "\<And>x y. x \<in> set a \<Longrightarrow> y \<in> set b \<Longrightarrow> term x y = term' y x"
  shows "unrolled term a b = unrolled term' b a"
proof -
  have lanes: "set cs \<subseteq> set (zip (chunks LANES a) (chunks LANES b)) \<Longrightarrow>
      foldl (lane_step term) acc cs = foldl (lane_step term') acc (map (\<lambda>(x, y). (y, x)) cs)"
    for acc cs
  proof (induction cs arbitrary: acc)
    case (Cons c cs)
    then obtain u v where c: "c = (u, v)" and
      u: "u \<in> set (chunks LANES a)" and v: "v \<in> set (chunks LANES b)"
      by (cases c) (auto dest: set_zipD)
    have "lane_step term acc c = lane_step term' acc (v, u)"
      using chunks_elem_length [OF u] chunks_elem_length [OF v] set_chunks [OF u]
        set_chunks [OF v] assms by (auto simp: lane_step_def c subset_iff)
    then show ?case using Cons c by simp
  qed simp
  have tail: "set ps \<subseteq> set (zip (remainder LANES a) (remainder LANES b)) \<Longrightarrow>
      foldl (\<lambda>s (x, y). f32_add s (term x y)) s ps =
      foldl (\<lambda>s (x, y). f32_add s (term' x y)) s (map (\<lambda>(x, y). (y, x)) ps)" for s ps
  proof (induction ps arbitrary: s)
    case (Cons q ps)
    obtain x y where q: "q = (x, y)" by (cases q)
    with Cons.prems have "x \<in> set a" "y \<in> set b"
      using set_remainder [of LANES a] set_remainder [of LANES b] by (auto dest: set_zipD)
    with Cons q show ?case by (simp add: assms)
  qed simp
  have swap: "zip ys xs = map (\<lambda>(x, y). (y, x)) (zip xs ys)" for xs ys :: "'x list"
    by (rule zip_commute)
  show ?thesis
    by (simp add: unrolled_def Let_def swap [of "chunks LANES b"] swap [of "remainder LANES b"]
        lanes tail)
qed

lemma sq_diff_swap: "f32_is_finite x \<Longrightarrow> f32_is_finite y \<Longrightarrow> sq_diff x y = sq_diff y x"
  unfolding sq_diff_def Let_def by (intro f32_mul_self_mag f32_sub_swap)

lemma sq_diff_nonneg: "f32_is_finite x \<Longrightarrow> f32_is_finite y \<Longrightarrow> f32_nonneg (sq_diff x y)"
  unfolding sq_diff_def Let_def f32_sub_def
  by (intro f32_square_nonneg f32_add_not_nan) simp_all

lemma dot_commute: "dot a b = dot b a"
  unfolding dot_def by (rule unrolled_swap) (rule f32_mul_commute)

lemma l2_squared_commute:
  assumes "\<forall>x\<in>set a. f32_is_finite x" and "\<forall>y\<in>set b. f32_is_finite y"
  shows "l2_squared a b = l2_squared b a"
  unfolding l2_squared_def by (rule unrolled_swap) (use assms in \<open>auto intro: sq_diff_swap\<close>)

lemma l2_squared_nonneg:
  assumes "\<forall>x\<in>set a. f32_is_finite x" and "\<forall>y\<in>set b. f32_is_finite y"
  shows "f32_nonneg (l2_squared a b)"
  unfolding l2_squared_def
proof (rule unrolled_rule [OF kernel_pairs_elems])
  fix acc :: "f32 list"
  assume "length acc = LANES" "\<forall>s\<in>set acc. f32_nonneg s"
  then show "f32_nonneg (f32_sum acc)"
    by (intro f32_sum_nonneg) (auto simp: LANES_def)
next
  show "f32_is_finite x \<and> f32_is_finite y" if "x \<in> set a" "y \<in> set b" for x y
    using assms that by blast
qed (auto intro: f32_nonneg_add sq_diff_nonneg)

lemma f32_sum_zeros: "length acc = LANES \<Longrightarrow> \<forall>s\<in>set acc. s = f32_zero \<Longrightarrow> f32_sum acc = f32_zero"
proof -
  assume "length acc = LANES" "\<forall>s\<in>set acc. s = f32_zero"
  then have "acc = replicate 8 f32_zero" by (intro replicate_eqI) (simp_all add: LANES_def)
  then show ?thesis by (simp add: f32_sum_def numeral_eq_Suc)
qed

lemma l2_squared_self:
  assumes "\<forall>x\<in>set a. f32_is_finite x"
  shows "l2_squared a a = f32_zero"
  unfolding l2_squared_def
  by (rule unrolled_rule [OF kernel_pairs_self])
    (use assms in \<open>auto simp: sq_diff_def f32_sub_self intro: f32_sum_zeros\<close>)

end
