(* ===== verification/Vectors.thy ===== *)
theory Vectors
  imports Distance
begin

text \<open>
  Flat vector storage (\<open>vector.rs\<close>): rows of a memory-mapped snapshot followed by an owned
  tail. A mapped file is its bytes, its address and the reinterpretation of a byte slice as
  floats (\<open>bytemuck::cast_slice\<close>), a parameter carried in \<open>mr_cast\<close>.
  The interface the graph relies on is the locale \<open>row_store\<close>: a store is a list of rows, of
  which \<open>get\<close> reads one and to which \<open>push\<close> appends one.
\<close>

section \<open>Data\<close>

datatype vector_error =
    ZeroDims
  | Ragged nat nat
  | WrongDims nat nat
  | NonFinite
  | MappedRegionOutOfBounds
  | MappedRegionMisaligned

record mapped_rows =
  mr_map :: bytes
  mr_addr :: nat
  mr_cast :: "bytes \<Rightarrow> f32 list"
  mr_offset :: nat
  mr_rows :: nat

record flat_vectors =
  fv_dims :: nat
  fv_base :: "mapped_rows option"
  fv_tail :: "f32 list"

section \<open>Operations\<close>

text \<open>\<open>usize::checked_mul\<close> on a 64-bit target.\<close>

definition checked_mul :: "nat \<Rightarrow> nat \<Rightarrow> nat option" where
  "checked_mul a b = (if a * b < 2 ^ 64 then Some (a * b) else None)"

definition mapped_rows_new ::
  "(bytes \<Rightarrow> f32 list) \<Rightarrow> nat \<Rightarrow> bytes \<Rightarrow> nat \<Rightarrow> nat \<Rightarrow> nat \<Rightarrow> vector_error + mapped_rows" where
  "mapped_rows_new cast addr mp offset rows dims =
     rbind (ok_or MappedRegionOutOfBounds
              (Option.bind (checked_mul rows dims) (\<lambda>v. checked_mul v 4)))
       (\<lambda>n. if length mp < offset + n then Inl MappedRegionOutOfBounds
            else if (addr + offset) mod 4 \<noteq> 0 then Inl MappedRegionMisaligned
            else Inr \<lparr>mr_map = mp, mr_addr = addr, mr_cast = cast, mr_offset = offset,
                      mr_rows = rows\<rparr>)"

definition mapped_slice :: "mapped_rows \<Rightarrow> nat \<Rightarrow> f32 list" where
  "mapped_slice b dims =
     mr_cast b (take (mr_rows b * dims * 4) (drop (mr_offset b) (mr_map b)))"

definition flat_new :: "nat \<Rightarrow> flat_vectors" where
  "flat_new dims = \<lparr>fv_dims = dims, fv_base = None, fv_tail = []\<rparr>"

definition from_vec :: "nat \<Rightarrow> f32 list \<Rightarrow> metric \<Rightarrow> vector_error + flat_vectors" where
  "from_vec dims data m =
     (if dims = 0 then Inl ZeroDims
      else if length data mod dims \<noteq> 0 then Inl (Ragged (length data) dims)
      else Inr \<lparr>fv_dims = dims, fv_base = None,
                fv_tail = (if normalizes m
                           then concat (map (\<lambda>row. snd (normalize row)) (chunks dims data))
                           else data)\<rparr>)"

definition from_mapped :: "nat \<Rightarrow> mapped_rows \<Rightarrow> vector_error + flat_vectors" where
  "from_mapped dims base =
     (if dims = 0 then Inl ZeroDims
      else Inr \<lparr>fv_dims = dims, fv_base = Some base, fv_tail = []\<rparr>)"

definition base_rows :: "flat_vectors \<Rightarrow> nat" where
  "base_rows v = (case fv_base v of None \<Rightarrow> 0 | Some b \<Rightarrow> mr_rows b)"

definition flat_len :: "flat_vectors \<Rightarrow> nat" where
  "flat_len v = base_rows v + length (fv_tail v) div fv_dims v"

definition flat_resident_bytes :: "flat_vectors \<Rightarrow> nat" where
  "flat_resident_bytes v = length (fv_tail v) * 4"

definition flat_mapped_bytes :: "flat_vectors \<Rightarrow> nat" where
  "flat_mapped_bytes v = base_rows v * fv_dims v * 4"

text \<open>Appending a row: the id of the row and the store afterwards.\<close>

definition flat_push :: "flat_vectors \<Rightarrow> f32 list \<Rightarrow> metric \<Rightarrow> vector_error + nat \<times> flat_vectors" where
  "flat_push v vector m =
     (if length vector \<noteq> fv_dims v then Inl (WrongDims (fv_dims v) (length vector))
      else if list_ex (\<lambda>x. \<not> f32_is_finite x) vector then Inl NonFinite
      else Inr (flat_len v,
                v\<lparr>fv_tail := fv_tail v @ (if normalizes m then snd (normalize vector) else vector)\<rparr>))"

definition flat_get :: "flat_vectors \<Rightarrow> nat \<Rightarrow> f32 list option" where
  "flat_get v i =
     (if i < base_rows v
      then (case fv_base v of None \<Rightarrow> None
            | Some b \<Rightarrow> slice (mapped_slice b (fv_dims v)) (i * fv_dims v) (fv_dims v))
      else Option.bind (checked_mul (i - base_rows v) (fv_dims v))
             (\<lambda>start. slice (fv_tail v) start (fv_dims v)))"

text \<open>\<open>rows()\<close> enumerates these.\<close>

definition flat_rows :: "flat_vectors \<Rightarrow> f32 list list" where
  "flat_rows v =
     chunks (fv_dims v) (case fv_base v of None \<Rightarrow> [] | Some b \<Rightarrow> mapped_slice b (fv_dims v))
       @ chunks (fv_dims v) (fv_tail v)"

definition flat_enum :: "flat_vectors \<Rightarrow> (nat \<times> f32 list) list" where
  "flat_enum v = zip [0..<length (flat_rows v)] (flat_rows v)"

section \<open>The invariant\<close>

text \<open>Dimensions are those a partition accepts, the tail holds whole rows, and the mapped
  region lies inside its file and reads as the promised number of values.\<close>

definition flat_wf :: "flat_vectors \<Rightarrow> bool" where
  "flat_wf v \<longleftrightarrow>
     0 < fv_dims v \<and> fv_dims v \<le> 65536 \<and> length (fv_tail v) mod fv_dims v = 0 \<and>
     (\<forall>b. fv_base v = Some b \<longrightarrow> length (mapped_slice b (fv_dims v)) = mr_rows b * fv_dims v)"

section \<open>The contract of a row store\<close>

locale row_store =
  fixes wf :: "'v \<Rightarrow> bool"
    and dims :: "'v \<Rightarrow> nat"
    and rows :: "'v \<Rightarrow> f32 list list"
    and len :: "'v \<Rightarrow> nat"
    and get :: "'v \<Rightarrow> nat \<Rightarrow> f32 list option"
    and push :: "'v \<Rightarrow> f32 list \<Rightarrow> metric \<Rightarrow> 'e + nat \<times> 'v"
  assumes len_rows: "wf v \<Longrightarrow> len v = length (rows v)"
    and get_rows: "wf v \<Longrightarrow> i < 2 ^ 32 \<Longrightarrow> get v i = index (rows v) i"
    and row_dims: "wf v \<Longrightarrow> r \<in> set (rows v) \<Longrightarrow> length r = dims v"
    and push_ok: "wf v \<Longrightarrow> push v x m = Inr (i, v') \<Longrightarrow>
      wf v' \<and> dims v' = dims v \<and> i = len v \<and>
      rows v' = rows v @ [if normalizes m then snd (normalize x) else x]"
begin

lemma get_in_range: "wf v \<Longrightarrow> i < len v \<Longrightarrow> i < 2 ^ 32 \<Longrightarrow> \<exists>r. get v i = Some r \<and> length r = dims v"
  by (auto simp: get_rows index_def len_rows intro!: row_dims)

lemma get_beyond: "wf v \<Longrightarrow> len v \<le> i \<Longrightarrow> i < 2 ^ 32 \<Longrightarrow> get v i = None"
  by (simp add: get_rows index_def len_rows)

lemma push_len: "wf v \<Longrightarrow> push v x m = Inr (i, v') \<Longrightarrow> len v' = Suc (len v)"
  using push_ok [of v x m i v'] by (simp add: len_rows)

text \<open>A pushed row is read back at its id, and every earlier row keeps its value.\<close>

lemma get_push:
  assumes "wf v" and "push v x m = Inr (i, v')" and "j < 2 ^ 32"
  shows "get v' j = (if j = i then Some (if normalizes m then snd (normalize x) else x)
                     else get v j)"
  using push_ok [OF assms(1,2)] assms
  by (auto simp: get_rows index_def len_rows nth_append)

end

lemma flat_wf_len: "flat_wf v \<Longrightarrow> flat_len v = length (flat_rows v)"
  by (auto simp: flat_wf_def flat_len_def flat_rows_def length_chunks base_rows_def
      split: option.splits)

lemma chunks_index:
  assumes "0 < n" and "length xs mod n = 0"
  shows "slice xs (i * n) n = index (chunks n xs) i"
proof (cases "i < length xs div n")
  case True
  then have "i * n + n \<le> length xs"
    using assms by (metis Suc_leI div_mult_mod_eq add.right_neutral mult_Suc mult_le_mono1 add.commute)
  with True assms show ?thesis
    by (simp add: slice_def index_def length_chunks nth_chunks)
next
  case False
  then have "\<not> i * n + n \<le> length xs"
    using assms by (metis add.commute div_le_mono div_mult_self_is_m le_less_linear mult_Suc
        not_less_eq_eq)
  with False assms show ?thesis by (simp add: slice_def index_def length_chunks)
qed

lemma flat_wf_get:
  assumes "flat_wf v" and "i < 2 ^ 32"
  shows "flat_get v i = index (flat_rows v) i"
proof -
  let ?d = "fv_dims v"
  have d: "0 < ?d" "?d \<le> 65536" and tail: "length (fv_tail v) mod ?d = 0"
    using assms(1) by (simp_all add: flat_wf_def)
  have nov: "checked_mul (i - k) ?d = Some ((i - k) * ?d)" for k
  proof -
    have "(i - k) * ?d \<le> 2 ^ 32 * 65536" using assms(2) d by (intro mult_le_mono) auto
    then show ?thesis by (simp add: checked_mul_def)
  qed
  show ?thesis
  proof (cases "fv_base v")
    case None
    then show ?thesis
      using nov [of 0] d tail
      by (simp add: flat_get_def flat_rows_def base_rows_def chunks_index)
  next
    case (Some b)
    then have len: "length (mapped_slice b ?d) = mr_rows b * ?d"
      using assms(1) by (simp add: flat_wf_def)
    have "flat_get v i = (if i < mr_rows b then index (chunks ?d (mapped_slice b ?d)) i
        else index (chunks ?d (fv_tail v)) (i - mr_rows b))"
      using Some nov d tail len by (simp add: flat_get_def base_rows_def chunks_index)
    moreover have "length (chunks ?d (mapped_slice b ?d)) = mr_rows b"
      using d len by (simp add: length_chunks)
    ultimately show ?thesis
      by (auto simp: flat_rows_def Some index_def nth_append)
  qed
qed

lemma flat_wf_push:
  assumes "flat_wf v" and "flat_push v x m = Inr (i, v')"
  shows "flat_wf v' \<and> fv_dims v' = fv_dims v \<and> i = flat_len v \<and>
    flat_rows v' = flat_rows v @ [if normalizes m then snd (normalize x) else x]"
proof -
  let ?r = "if normalizes m then snd (normalize x) else x"
  have v': "v' = v\<lparr>fv_tail := fv_tail v @ ?r\<rparr>" and i: "i = flat_len v" and
    len: "length ?r = fv_dims v"
    using assms(2) by (auto simp: flat_push_def split: if_splits)
  have d: "0 < fv_dims v" and tail: "length (fv_tail v) mod fv_dims v = 0"
    using assms(1) by (simp_all add: flat_wf_def)
  have "chunks (fv_dims v) ?r = [?r]"
    using chunks_append [OF len d, of "[]"] by simp
  with v' i len d tail assms(1) show ?thesis
    by (auto simp: flat_wf_def flat_rows_def chunks_append_mod split: option.splits)
qed

interpretation flat: row_store flat_wf fv_dims flat_rows flat_len flat_get flat_push
proof unfold_locales
  fix v r
  assume "flat_wf v" "r \<in> set (flat_rows v)"
  then show "length r = fv_dims v"
    by (auto simp: flat_rows_def dest: chunks_elem_length)
qed (rule flat_wf_len flat_wf_get flat_wf_push; assumption)+

lemma flat_new_wf: "0 < dims \<Longrightarrow> dims \<le> 65536 \<Longrightarrow> flat_wf (flat_new dims)"
  by (simp add: flat_wf_def flat_new_def)

lemma flat_new_rows [simp]: "flat_rows (flat_new dims) = []" "fv_dims (flat_new dims) = dims"
  by (simp_all add: flat_rows_def flat_new_def)

end
