(* ===== verification/Collections.thy ===== *)
theory Collections
  imports Prelude "HOL-Library.Multiset"
begin

text \<open>
  The parts of the Rust standard library whose order the engine depends on: \<open>Ordering\<close>,
  the stable \<open>slice::sort_by\<close> and \<open>BinaryHeap\<close>. The heap's clients rely on two contracts,
  stated as locales: \<open>bag_heap\<close> (what \<open>push\<close> and \<open>pop\<close> do to the elements, for any
  comparison) and \<open>max_heap\<close> (what \<open>peek\<close> and \<open>pop\<close> pick when the comparison is the
  order of a key).
\<close>

section \<open>Comparisons\<close>

datatype ordering = Less | Equal | Greater

definition cmp_of :: "'a::linorder \<Rightarrow> 'a \<Rightarrow> ordering" where
  "cmp_of a b = (if a < b then Less else if a = b then Equal else Greater)"

definition then_cmp :: "ordering \<Rightarrow> ordering \<Rightarrow> ordering" where
  "then_cmp a b = (case a of Equal \<Rightarrow> b | _ \<Rightarrow> a)"

fun rev_cmp :: "ordering \<Rightarrow> ordering" where
  "rev_cmp Less = Greater"
| "rev_cmp Equal = Equal"
| "rev_cmp Greater = Less"

text \<open>A comparison that is the order of a linearly ordered key.\<close>

definition cmp_by_key :: "('a \<Rightarrow> 'a \<Rightarrow> ordering) \<Rightarrow> ('a \<Rightarrow> 'k::linorder) \<Rightarrow> 'a set \<Rightarrow> bool" where
  "cmp_by_key cmp key A \<longleftrightarrow> (\<forall>a\<in>A. \<forall>b\<in>A. cmp a b = cmp_of (key a) (key b))"

section \<open>The stable sort\<close>

fun insert_by :: "('a \<Rightarrow> 'a \<Rightarrow> ordering) \<Rightarrow> 'a \<Rightarrow> 'a list \<Rightarrow> 'a list" where
  "insert_by cmp x [] = [x]"
| "insert_by cmp x (y # ys) =
     (if cmp x y = Greater then y # insert_by cmp x ys else x # y # ys)"

definition sort_by :: "('a \<Rightarrow> 'a \<Rightarrow> ordering) \<Rightarrow> 'a list \<Rightarrow> 'a list" where
  "sort_by cmp xs = foldr (insert_by cmp) xs []"

section \<open>The binary heap\<close>

text \<open>
  \<open>peek\<close> and \<open>pop\<close> give a greatest element. The model keeps the elements in descending
  order; \<open>into_vec\<close>, whose order the standard library leaves open, returns them in that order.
\<close>

definition heap_push :: "('a \<Rightarrow> 'a \<Rightarrow> ordering) \<Rightarrow> 'a \<Rightarrow> 'a list \<Rightarrow> 'a list" where
  "heap_push cmp x h = insert_by (\<lambda>a b. rev_cmp (cmp a b)) x h"

definition heap_peek :: "'a list \<Rightarrow> 'a option" where
  "heap_peek h = (case h of [] \<Rightarrow> None | x # _ \<Rightarrow> Some x)"

definition heap_pop :: "'a list \<Rightarrow> 'a list" where
  "heap_pop h = tl h"

section \<open>Lemmas: comparisons and sorting\<close>

lemma cmp_of_simps [simp]:
  "cmp_of a b = Less \<longleftrightarrow> a < b"
  "cmp_of a b = Equal \<longleftrightarrow> a = b"
  "cmp_of a b = Greater \<longleftrightarrow> b < a"
  by (auto simp: cmp_of_def)

lemma rev_cmp_simps [simp]:
  "rev_cmp c = Less \<longleftrightarrow> c = Greater"
  "rev_cmp c = Equal \<longleftrightarrow> c = Equal"
  "rev_cmp c = Greater \<longleftrightarrow> c = Less"
  by (cases c; simp)+

lemma rev_cmp_of: "rev_cmp (cmp_of a b) = cmp_of b a"
  by (auto simp: cmp_of_def)

lemma cmp_by_keyD: "cmp_by_key cmp key A \<Longrightarrow> a \<in> A \<Longrightarrow> b \<in> A \<Longrightarrow> cmp a b = cmp_of (key a) (key b)"
  by (auto simp: cmp_by_key_def)

lemma cmp_by_key_subset: "cmp_by_key cmp key A \<Longrightarrow> B \<subseteq> A \<Longrightarrow> cmp_by_key cmp key B"
  by (auto simp: cmp_by_key_def)

lemma mset_insert_by [simp]: "mset (insert_by cmp x xs) = add_mset x (mset xs)"
  by (induction xs) auto

lemma set_insert_by [simp]: "set (insert_by cmp x xs) = insert x (set xs)"
  by (induction xs) auto

lemma length_insert_by [simp]: "length (insert_by cmp x xs) = Suc (length xs)"
  by (induction xs) auto

lemma mset_sort_by [simp]: "mset (sort_by cmp xs) = mset xs"
  by (induction xs) (auto simp: sort_by_def)

lemma set_sort_by [simp]: "set (sort_by cmp xs) = set xs"
  by (metis mset_sort_by set_mset_mset)

lemma length_sort_by [simp]: "length (sort_by cmp xs) = length xs"
  by (metis mset_sort_by size_mset)

lemma distinct_sort_by [simp]: "distinct (sort_by cmp xs) = distinct xs"
  by (metis mset_sort_by mset_eq_imp_distinct_iff)

lemma insert_by_key:
  assumes "cmp_by_key cmp key (insert x (set xs))"
  shows "insert_by cmp x xs = insort_key key x xs"
  using assms
proof (induction xs)
  case (Cons y ys)
  have "insert_by cmp x ys = insort_key key x ys"
    by (rule Cons.IH) (rule cmp_by_key_subset [OF Cons.prems], auto)
  moreover have "cmp x y = cmp_of (key x) (key y)"
    by (rule cmp_by_keyD [OF Cons.prems]) auto
  ultimately show ?case by auto
qed simp

lemma sort_by_key_eq:
  assumes "cmp_by_key cmp key (set xs)"
  shows "sort_by cmp xs = sort_key key xs"
  using assms
proof (induction xs)
  case (Cons x xs)
  then have "sort_by cmp xs = sort_key key xs"
    by (meson cmp_by_key_subset set_subset_Cons)
  moreover have "insert_by cmp x (sort_by cmp xs) = insort_key key x (sort_by cmp xs)"
    by (rule insert_by_key) (use Cons.prems in auto)
  ultimately show ?case by (simp add: sort_by_def)
qed (simp add: sort_by_def)

section \<open>The contracts of a heap\<close>

locale bag_heap =
  fixes push :: "'a \<Rightarrow> 'h \<Rightarrow> 'h"
    and peek :: "'h \<Rightarrow> 'a option"
    and pop :: "'h \<Rightarrow> 'h"
    and elems :: "'h \<Rightarrow> 'a multiset"
  assumes elems_push: "elems (push x h) = add_mset x (elems h)"
    and peek_None: "peek h = None \<longleftrightarrow> elems h = {#}"
    and elems_pop: "peek h = Some x \<Longrightarrow> elems h = add_mset x (elems (pop h))"
begin

lemma peek_elem: "peek h = Some x \<Longrightarrow> x \<in># elems h"
  using elems_pop [of h x] by simp

lemma size_pop: "peek h = Some x \<Longrightarrow> size (elems h) = Suc (size (elems (pop h)))"
  using elems_pop [of h x] by simp

lemma pop_subset: "peek h = Some x \<Longrightarrow> elems (pop h) \<subseteq># elems h"
  using elems_pop [of h x] by (simp add: subseteq_mset_def)

end

locale max_heap = bag_heap +
  fixes key :: "'a \<Rightarrow> 'k::linorder" and invar :: "'h \<Rightarrow> bool"
  assumes invar_push: "invar h \<Longrightarrow> invar (push x h)"
    and invar_pop: "invar h \<Longrightarrow> invar (pop h)"
    and peek_max: "invar h \<Longrightarrow> peek h = Some x \<Longrightarrow> y \<in># elems h \<Longrightarrow> key y \<le> key x"
begin

text \<open>Replacing the greatest element by a smaller one keeps exactly the smaller elements.\<close>

lemma replace_max:
  assumes "invar h" and "peek h = Some w" and "key x < key w"
  shows "elems (push x (pop h)) + {#w#} = add_mset x (elems h)"
    and "\<forall>y\<in>#elems (push x (pop h)). key y \<le> key w"
proof -
  show "elems (push x (pop h)) + {#w#} = add_mset x (elems h)"
    using elems_pop [OF assms(2)] by (simp add: elems_push)
  show "\<forall>y\<in>#elems (push x (pop h)). key y \<le> key w"
    using assms peek_max [OF assms(1,2)] pop_subset [OF assms(2)]
    by (auto simp: elems_push dest: mset_subset_eqD)
qed

end

interpretation list_heap: bag_heap "heap_push cmp" heap_peek heap_pop mset
  by unfold_locales (auto simp: heap_push_def heap_peek_def heap_pop_def split: list.splits)

lemma length_heap [simp]:
  "length (heap_push cmp x h) = Suc (length h)"
  "length (heap_pop h) = length h - 1"
  by (simp_all add: heap_push_def heap_pop_def)

lemma set_heap_push [simp]: "set (heap_push cmp x h) = insert x (set h)"
  by (simp add: heap_push_def)

lemma set_heap_pop: "set (heap_pop h) \<subseteq> set h"
  by (cases h) (auto simp: heap_pop_def)

text \<open>The order invariant of the model: descending keys.\<close>

definition heap_sorted :: "('a \<Rightarrow> 'k::linorder) \<Rightarrow> 'a list \<Rightarrow> bool" where
  "heap_sorted key h = sorted_wrt (\<lambda>a b. key b \<le> key a) h"

lemma heap_sorted_insert:
  assumes "cmp_by_key cmp key UNIV" and "heap_sorted key h"
  shows "heap_sorted key (heap_push cmp x h)"
  using assms(2)
proof (induction h)
  case (Cons y ys)
  have "cmp x y = cmp_of (key x) (key y)"
    using assms(1) by (simp add: cmp_by_key_def)
  with Cons show ?case by (auto simp: heap_push_def heap_sorted_def)
qed (simp add: heap_push_def heap_sorted_def)

lemma max_heap_list:
  assumes "cmp_by_key cmp key UNIV"
  shows "max_heap (heap_push cmp) heap_peek heap_pop mset key (heap_sorted key)"
proof unfold_locales
  fix h x
  show "heap_sorted key h \<Longrightarrow> heap_sorted key (heap_push cmp x h)"
    by (rule heap_sorted_insert [OF assms])
  show "heap_sorted key h \<Longrightarrow> heap_sorted key (heap_pop h)"
    by (cases h) (auto simp: heap_sorted_def heap_pop_def)
  fix y
  show "heap_sorted key h \<Longrightarrow> heap_peek h = Some x \<Longrightarrow> y \<in># mset h \<Longrightarrow> key y \<le> key x"
    by (cases h) (auto simp: heap_sorted_def heap_peek_def)
qed

end
