(* ===== verification/Oracle.thy ===== *)
theory Oracle
  imports Vectors Collections "HOL-Library.Product_Lexorder"
begin

text \<open>
  Hits and their rank order (\<open>lib.rs\<close>), the bounded collector \<open>TopK\<close> and the exact search
  that defines the engine's semantics (\<open>oracle.rs\<close>). The rank order is total, NaN included;
  the collector keeps exactly the best \<open>k\<close> hits in any arrival order; the exact search returns
  the sorted prefix of all allowed rows.
\<close>

section \<open>Hits\<close>

record hit =
  hit_id :: nat
  hit_distance :: f32

definition partial_cmp :: "f32 \<Rightarrow> f32 \<Rightarrow> ordering option" where
  "partial_cmp a b =
     (if f32_is_nan a \<or> f32_is_nan b then None else Some (cmp_of (f32_key a) (f32_key b)))"

definition cmp_rank :: "hit \<Rightarrow> hit \<Rightarrow> ordering" where
  "cmp_rank a b =
     then_cmp
       (case partial_cmp (hit_distance a) (hit_distance b) of
          Some c \<Rightarrow> c
        | None \<Rightarrow>
            (case (f32_is_nan (hit_distance a), f32_is_nan (hit_distance b)) of
               (True, False) \<Rightarrow> Greater
             | (False, True) \<Rightarrow> Less
             | _ \<Rightarrow> Equal))
       (cmp_of (hit_id a) (hit_id b))"

text \<open>The key whose order the comparison is: NaN lies above every number.\<close>

definition rank_key :: "hit \<Rightarrow> int \<times> nat" where
  "rank_key h =
     (if f32_is_nan (hit_distance h) then 2 ^ 32 else f32_key (hit_distance h), hit_id h)"

section \<open>The bounded collector\<close>

record top_k =
  tk_k :: nat
  tk_heap :: "hit list"

definition topk_new :: "nat \<Rightarrow> top_k" where
  "topk_new k = \<lparr>tk_k = k, tk_heap = []\<rparr>"

definition topk_threshold :: "top_k \<Rightarrow> hit option" where
  "topk_threshold t = (if tk_k t \<le> length (tk_heap t) then heap_peek (tk_heap t) else None)"

definition topk_push :: "top_k \<Rightarrow> hit \<Rightarrow> top_k" where
  "topk_push t h =
     (if tk_k t = 0 then t
      else if length (tk_heap t) < tk_k t then t\<lparr>tk_heap := heap_push cmp_rank h (tk_heap t)\<rparr>
      else case heap_peek (tk_heap t) of
             None \<Rightarrow> t
           | Some worst \<Rightarrow>
               if cmp_rank h worst = Less
               then t\<lparr>tk_heap := heap_push cmp_rank h (heap_pop (tk_heap t))\<rparr>
               else t)"

definition into_sorted :: "top_k \<Rightarrow> hit list" where
  "into_sorted t = sort_by cmp_rank (tk_heap t)"

section \<open>Exact search\<close>

definition oracle_search ::
  "flat_vectors \<Rightarrow> metric \<Rightarrow> f32 list \<Rightarrow> nat \<Rightarrow> (nat \<Rightarrow> bool) \<Rightarrow> hit list" where
  "oracle_search vectors m query k allow =
     into_sorted
       (foldl (\<lambda>top (id, row).
            if \<not> allow id then top
            else topk_push top \<lparr>hit_id = id, hit_distance = distance m query row\<rparr>)
          (topk_new k) (flat_enum vectors))"

text \<open>One result per query row; a row out of range would panic.\<close>

definition search_batch ::
  "flat_vectors \<Rightarrow> metric \<Rightarrow> flat_vectors \<Rightarrow> nat \<Rightarrow> hit list list option" where
  "search_batch vectors m queries k =
     those (map (\<lambda>i. map_option (\<lambda>q. oracle_search vectors m q k (\<lambda>_. True)) (flat_get queries i))
              [0..<flat_len queries])"

section \<open>The rank order\<close>

lemma f32_key_bound: "\<not> f32_is_nan a \<Longrightarrow> f32_key a < 2 ^ 32"
  using f32_mag_bound [of a] by (auto simp: f32_key_def)

lemma cmp_rank_key: "cmp_rank a b = cmp_of (rank_key a) (rank_key b)"
proof -
  let ?a = "hit_distance a" and ?b = "hit_distance b"
  have "\<not> f32_is_nan ?a \<Longrightarrow> f32_key ?a < 4294967296"
    "\<not> f32_is_nan ?b \<Longrightarrow> f32_key ?b < 4294967296"
    using f32_key_bound by simp_all
  then show ?thesis
    by (cases "f32_is_nan ?a"; cases "f32_is_nan ?b")
      (auto simp: cmp_rank_def partial_cmp_def rank_key_def cmp_of_def then_cmp_def less_prod_def)
qed

lemma cmp_rank_by_key: "cmp_by_key cmp_rank rank_key A"
  by (simp add: cmp_by_key_def cmp_rank_key)

interpretation hit_heap: max_heap "heap_push cmp_rank" heap_peek heap_pop mset rank_key
  "heap_sorted rank_key"
  by (rule max_heap_list) (rule cmp_rank_by_key)

section \<open>The collector keeps the best\<close>

text \<open>The collector's heap and what it has dropped together are what was pushed; it is full
  unless fewer than \<open>k\<close> hits arrived, and nothing dropped ranks before anything kept.\<close>

definition topk_inv :: "top_k \<Rightarrow> hit multiset \<Rightarrow> bool" where
  "topk_inv t seen \<longleftrightarrow>
     heap_sorted rank_key (tk_heap t) \<and>
     (\<exists>dropped. mset (tk_heap t) + dropped = seen \<and>
        (dropped = {#} \<and> length (tk_heap t) \<le> tk_k t \<or> length (tk_heap t) = tk_k t) \<and>
        (\<forall>x\<in>#mset (tk_heap t). \<forall>y\<in>#dropped. rank_key x \<le> rank_key y))"

lemma topk_k [simp]: "tk_k (topk_push t h) = tk_k t"
  by (simp add: topk_push_def split: option.splits)

lemma topk_inv_new: "topk_inv (topk_new k) {#}"
  by (simp add: topk_inv_def topk_new_def heap_sorted_def)

lemma topk_inv_room:
  assumes "topk_inv t seen" and "length (tk_heap t) < tk_k t"
  shows "topk_inv (t\<lparr>tk_heap := heap_push cmp_rank h (tk_heap t)\<rparr>) (add_mset h seen)"
  using assms hit_heap.invar_push [of "tk_heap t" h]
  by (auto simp: topk_inv_def list_heap.elems_push)

lemma topk_inv_full_keep:
  assumes inv: "topk_inv t seen" and len: "length (tk_heap t) = tk_k t"
    and worst: "\<forall>x\<in>set (tk_heap t). rank_key x \<le> rank_key h"
  shows "topk_inv t (add_mset h seen)"
proof -
  from inv len obtain D where "heap_sorted rank_key (tk_heap t)" "mset (tk_heap t) + D = seen"
    "\<forall>x\<in>#mset (tk_heap t). \<forall>y\<in>#D. rank_key x \<le> rank_key y"
    by (auto simp: topk_inv_def)
  then show ?thesis
    using len worst unfolding topk_inv_def by (intro conjI exI [of _ "add_mset h D"]) auto
qed

lemma topk_inv_full_replace:
  assumes inv: "topk_inv t seen" and len: "length (tk_heap t) = tk_k t"
    and worst: "heap_peek (tk_heap t) = Some w" and less: "rank_key h < rank_key w"
  shows "topk_inv (t\<lparr>tk_heap := heap_push cmp_rank h (heap_pop (tk_heap t))\<rparr>) (add_mset h seen)"
proof -
  let ?h' = "heap_push cmp_rank h (heap_pop (tk_heap t))"
  from inv len obtain D where hs: "heap_sorted rank_key (tk_heap t)" and
    D: "mset (tk_heap t) + D = seen" "\<forall>x\<in>#mset (tk_heap t). \<forall>y\<in>#D. rank_key x \<le> rank_key y"
    by (auto simp: topk_inv_def)
  have w: "w \<in># mset (tk_heap t)" using worst by (rule list_heap.peek_elem)
  have eq: "mset ?h' + add_mset w D = add_mset h seen"
    using hit_heap.replace_max(1) [OF hs worst less] D(1) by (simp flip: D(1))
  have "\<forall>x\<in>#mset ?h'. \<forall>y\<in>#add_mset w D. rank_key x \<le> rank_key y"
    using hit_heap.replace_max(2) [OF hs worst less] D(2) w by (fastforce intro: order_trans)
  moreover have "length ?h' = tk_k t"
    using list_heap.size_pop [OF worst] len by simp
  ultimately show ?thesis
    using eq hit_heap.invar_push [OF hit_heap.invar_pop [OF hs], of h]
    unfolding topk_inv_def by (intro conjI exI [of _ "add_mset w D"]) auto
qed

lemma topk_inv_push:
  assumes "topk_inv t seen"
  shows "topk_inv (topk_push t h) (add_mset h seen)"
proof (cases "length (tk_heap t) < tk_k t")
  case True
  with topk_inv_room [OF assms True] show ?thesis by (simp add: topk_push_def)
next
  case False
  with assms have len: "length (tk_heap t) = tk_k t" by (auto simp: topk_inv_def)
  have hs: "heap_sorted rank_key (tk_heap t)" using assms by (simp add: topk_inv_def)
  show ?thesis
  proof (cases "heap_peek (tk_heap t)")
    case None
    then have "tk_heap t = []" by (simp add: heap_peek_def split: list.splits)
    with None len topk_inv_full_keep [OF assms len, of h] show ?thesis
      by (simp add: topk_push_def)
  next
    case (Some w)
    have worst: "\<forall>x\<in>set (tk_heap t). rank_key x \<le> rank_key w"
      using hit_heap.peek_max [OF hs Some] by simp
    have pos: "tk_k t \<noteq> 0" using Some len by (auto simp: heap_peek_def split: list.splits)
    show ?thesis
    proof (cases "rank_key h < rank_key w")
      case True
      with topk_inv_full_replace [OF assms len Some True] False Some pos show ?thesis
        by (simp add: topk_push_def cmp_rank_key)
    next
      case keep: False
      then have "\<forall>x\<in>set (tk_heap t). rank_key x \<le> rank_key h"
        using worst by (auto intro: order_trans simp: not_less)
      with topk_inv_full_keep [OF assms len] keep False Some pos show ?thesis
        by (simp add: topk_push_def cmp_rank_key)
    qed
  qed
qed

lemma topk_inv_foldl:
  "topk_inv t seen \<Longrightarrow> topk_inv (foldl topk_push t hs) (seen + mset hs)"
proof (induction hs arbitrary: t seen)
  case (Cons h hs)
  from Cons.IH [OF topk_inv_push [OF Cons.prems]] show ?case by simp
qed simp

lemma topk_foldl_k [simp]: "tk_k (foldl topk_push t hs) = tk_k t"
  by (induction hs arbitrary: t) auto

lemma sort_key_keys: "map f (sort_key f xs) = sort (map f xs)"
  by (rule properties_for_sort [symmetric]) (simp_all only: mset_map mset_sort sorted_sort_key)

lemma into_sorted_keys:
  assumes "topk_inv t (mset hs)"
  shows "map rank_key (into_sorted t) = take (tk_k t) (sort (map rank_key hs))"
proof -
  from assms obtain D where D: "mset (tk_heap t) + D = mset hs"
    "D = {#} \<and> length (tk_heap t) \<le> tk_k t \<or> length (tk_heap t) = tk_k t"
    "\<forall>x\<in>#mset (tk_heap t). \<forall>y\<in>#D. rank_key x \<le> rank_key y"
    by (auto simp: topk_inv_def)
  obtain ds where ds: "mset ds = D" using ex_mset by blast
  let ?kept = "sort (map rank_key (tk_heap t))" and ?rest = "sort (map rank_key ds)"
  have "sort (map rank_key hs) = ?kept @ ?rest"
  proof (rule properties_for_sort)
    have "mset (map rank_key hs) = image_mset rank_key (mset (tk_heap t) + D)" using D(1) by simp
    then show "mset (?kept @ ?rest) = mset (map rank_key hs)" using ds by simp
    show "sorted (?kept @ ?rest)"
      using D(3) ds by (auto simp: sorted_append simp flip: set_mset_mset)
  qed
  moreover have "map rank_key (into_sorted t) = ?kept"
    by (simp add: into_sorted_def sort_by_key_eq [OF cmp_rank_by_key] sort_key_keys)
  moreover have "take (tk_k t) (?kept @ ?rest) = ?kept"
    using D(2) ds by auto
  ultimately show ?thesis by simp
qed

lemma into_sorted_subset: "topk_inv t (mset hs) \<Longrightarrow> mset (into_sorted t) \<subseteq># mset hs"
  by (auto simp: topk_inv_def into_sorted_def) (metis mset_subset_eq_add_left)

text \<open>When no two hits share a rank, the keys determine the hits.\<close>

lemma map_inj_take_sort:
  assumes "inj_on f (set xs)" and "mset ys \<subseteq># mset xs" and "map f ys = take k (sort (map f xs))"
  shows "ys = take k (sort_key f xs)"
proof -
  have "map f ys = map f (take k (sort_key f xs))"
    using assms(3) by (simp add: take_map flip: sort_key_keys)
  moreover have "set ys \<subseteq> set xs"
    using assms(2) by (metis set_mset_mono set_mset_mset)
  moreover have "set (take k (sort_key f xs)) \<subseteq> set xs"
    by (metis set_sort set_take_subset)
  ultimately show ?thesis
    using assms(1) by (intro map_inj_on [of f]) (auto intro: inj_on_subset)
qed

lemma topk_exact:
  assumes "inj_on rank_key (set hs)"
  shows "into_sorted (foldl topk_push (topk_new k) hs) = take k (sort_key rank_key hs)"
proof -
  let ?t = "foldl topk_push (topk_new k) hs"
  have inv: "topk_inv ?t (mset hs)"
    using topk_inv_foldl [OF topk_inv_new, of k hs] by simp
  have "tk_k ?t = k" by (simp add: topk_new_def)
  with into_sorted_keys [OF inv] into_sorted_subset [OF inv] show ?thesis
    by (intro map_inj_take_sort [OF assms]) auto
qed

lemma inj_rank_key: "distinct (map hit_id hs) \<Longrightarrow> inj_on rank_key (set hs)"
  by (auto simp: inj_on_def rank_key_def distinct_map)

section \<open>The exact search\<close>

definition oracle_hits :: "flat_vectors \<Rightarrow> metric \<Rightarrow> f32 list \<Rightarrow> (nat \<Rightarrow> bool) \<Rightarrow> hit list" where
  "oracle_hits vectors m query allow =
     map (\<lambda>(id, row). \<lparr>hit_id = id, hit_distance = distance m query row\<rparr>)
       (filter (allow \<circ> fst) (flat_enum vectors))"

lemma oracle_search_foldl:
  "oracle_search vectors m query k allow =
     into_sorted (foldl topk_push (topk_new k) (oracle_hits vectors m query allow))"
proof -
  have "foldl (\<lambda>top (id, row). if \<not> allow id then top
            else topk_push top \<lparr>hit_id = id, hit_distance = distance m query row\<rparr>) t es =
      foldl topk_push t (map (\<lambda>(id, row). \<lparr>hit_id = id, hit_distance = distance m query row\<rparr>)
        (filter (allow \<circ> fst) es))" for t es
    by (induction es arbitrary: t) auto
  then show ?thesis by (simp add: oracle_search_def oracle_hits_def)
qed

lemma oracle_hits_distinct: "distinct (map hit_id (oracle_hits vectors m query allow))"
proof -
  have "map hit_id (oracle_hits vectors m query allow) =
      map fst (filter (allow \<circ> fst) (flat_enum vectors))"
    by (auto simp: oracle_hits_def)
  also have "\<dots> = filter allow (map fst (flat_enum vectors))"
    by (simp add: filter_map)
  finally show ?thesis by (simp add: flat_enum_def)
qed

end
