(* ===== verification/Quant.thy ===== *)
theory Quant
  imports Distance "HOL-Library.Product_Lexorder"
begin

text \<open>
  Int8 scalar quantization (\<open>quant.rs\<close>). Codes are bytes read as two's complement; the
  integer dot product accumulates in \<open>i32\<close> with wrap-around. The theorems: the unrolled
  product equals the mathematical one for every dimensionality a partition accepts, so the
  accumulator never overflows; codes stay within \<open>-127 .. 127\<close>; the row store keeps its shape.
\<close>

section \<open>Quantizing one vector\<close>

record quantized_query =
  qq_codes :: "i8 list"
  qq_scale :: f32
  qq_norm_sq :: f32

definition quant_code :: "f32 \<Rightarrow> f32 \<Rightarrow> i8" where
  "quant_code inv_scale x =
     f32_as_i8 (f32_clamp f32_neg_127 f32_127 (f32_round (f32_mul x inv_scale)))"

definition quantize :: "f32 list \<Rightarrow> quantized_query" where
  "quantize vector =
     (let max = foldl (\<lambda>m x. f32_max m (f32_abs x)) f32_zero vector;
          norm_sq = f32_sum (map (\<lambda>x. f32_mul x x) vector)
      in if f32_eq max f32_zero
         then \<lparr>qq_codes = replicate (length vector) 0, qq_scale = f32_zero, qq_norm_sq = norm_sq\<rparr>
         else let scale = f32_div max f32_127; inverse = f32_div f32_one scale
              in \<lparr>qq_codes = map (quant_code inverse) vector, qq_scale = scale,
                  qq_norm_sq = norm_sq\<rparr>)"

section \<open>The integer dot product\<close>

definition LANES_I8 :: nat where
  "LANES_I8 = 16"

definition mul_i8 :: "i8 \<Rightarrow> i8 \<Rightarrow> 32 word" where
  "mul_i8 x y = word_of_int (sint x * sint y)"

definition lane_step_i8 :: "32 word list \<Rightarrow> i8 list \<times> i8 list \<Rightarrow> 32 word list" where
  "lane_step_i8 acc xy =
     map (\<lambda>lane. acc ! lane + mul_i8 (fst xy ! lane) (snd xy ! lane)) [0..<LANES_I8]"

definition dot_i8 :: "i8 list \<Rightarrow> i8 list \<Rightarrow> 32 word" where
  "dot_i8 a b =
     (let acc = foldl lane_step_i8 (replicate LANES_I8 0)
                  (zip (chunks LANES_I8 a) (chunks LANES_I8 b));
          total = sum_list acc
      in foldl (\<lambda>s (x, y). s + mul_i8 x y) total
           (zip (remainder LANES_I8 a) (remainder LANES_I8 b)))"

text \<open>The reference: the dot product over the integers.\<close>

definition int_dot :: "i8 list \<Rightarrow> i8 list \<Rightarrow> int" where
  "int_dot a b = sum_list (map (\<lambda>(x, y). sint x * sint y) (zip a b))"

definition distance_i8 ::
  "metric \<Rightarrow> quantized_query \<Rightarrow> i8 list \<Rightarrow> f32 \<Rightarrow> f32 \<Rightarrow> f32" where
  "distance_i8 m query codes scale norm_sq =
     (let d = f32_mul (f32_mul (qq_scale query) scale)
                (f32_of_int (sint (dot_i8 (qq_codes query) codes)))
      in case m of
           Cosine \<Rightarrow> f32_sub f32_one d
         | Dot \<Rightarrow> f32_neg d
         | L2 \<Rightarrow> f32_max (f32_sub (f32_add (qq_norm_sq query) norm_sq) (f32_mul f32_two d)) f32_zero)"

section \<open>The row store\<close>

record quantized_vectors =
  qv_dims :: nat
  qv_data :: "i8 list"
  qv_scales :: "f32 list"
  qv_norms_sq :: "f32 list"

definition quant_new :: "nat \<Rightarrow> quantized_vectors" where
  "quant_new dims = \<lparr>qv_dims = dims, qv_data = [], qv_scales = [], qv_norms_sq = []\<rparr>"

definition quant_len :: "quantized_vectors \<Rightarrow> nat" where
  "quant_len q = length (qv_scales q)"

definition push_quantized :: "quantized_vectors \<Rightarrow> quantized_query \<Rightarrow> quantized_vectors" where
  "push_quantized s q =
     s\<lparr>qv_data := qv_data s @ qq_codes q, qv_scales := qv_scales s @ [qq_scale q],
       qv_norms_sq := qv_norms_sq s @ [qq_norm_sq q]\<rparr>"

definition quant_push :: "quantized_vectors \<Rightarrow> f32 list \<Rightarrow> quantized_vectors" where
  "quant_push s vector = push_quantized s (quantize vector)"

definition quant_distance ::
  "quantized_vectors \<Rightarrow> metric \<Rightarrow> quantized_query \<Rightarrow> nat \<Rightarrow> f32 option" where
  "quant_distance s m query slot =
     Option.bind (slice (qv_data s) (slot * qv_dims s) (qv_dims s)) (\<lambda>codes.
     Option.bind (index (qv_scales s) slot) (\<lambda>scale.
     Option.bind (index (qv_norms_sq s) slot) (\<lambda>norm_sq.
       Some (distance_i8 m query codes scale norm_sq))))"

definition quant_from_parts ::
  "nat \<Rightarrow> i8 list \<Rightarrow> f32 list \<Rightarrow> f32 list \<Rightarrow> quantized_vectors option" where
  "quant_from_parts dims data scales norms_sq =
     (if dims = 0 \<or> length data \<noteq> length scales * dims \<or> length scales \<noteq> length norms_sq
      then None
      else Some \<lparr>qv_dims = dims, qv_data = data, qv_scales = scales, qv_norms_sq = norms_sq\<rparr>)"

definition quant_bytes_per_vector :: "quantized_vectors \<Rightarrow> nat" where
  "quant_bytes_per_vector s = qv_dims s + 8"

definition quant_accounted_bytes :: "quantized_vectors \<Rightarrow> nat" where
  "quant_accounted_bytes s =
     length (qv_data s) + length (qv_scales s) * 4 + length (qv_norms_sq s) * 4"

definition quant_wf :: "quantized_vectors \<Rightarrow> bool" where
  "quant_wf s \<longleftrightarrow>
     0 < qv_dims s \<and> length (qv_data s) = length (qv_scales s) * qv_dims s \<and>
     length (qv_norms_sq s) = length (qv_scales s)"

section \<open>Lemmas: the unrolled integer product\<close>

lemma remainder_short: "length xs < n \<Longrightarrow> remainder n xs = xs"
  by (simp add: remainder_def)

lemma remainder_long:
  assumes "n \<le> length xs" and "0 < n"
  shows "remainder n xs = remainder n (drop n xs)"
proof -
  have "length xs div n * n = n + (length xs - n) div n * n"
    using assms by (simp add: le_div_geq)
  then show ?thesis by (simp add: remainder_def add.commute)
qed

lemma sum_chunks:
  fixes f :: "'a \<Rightarrow> 'b \<Rightarrow> 'c::comm_monoid_add"
  assumes "length a = length b" and "0 < n"
  shows "sum_list (map (\<lambda>(x, y). f x y) (zip a b)) =
    sum_list (map (\<lambda>(u, v). sum_list (map (\<lambda>(x, y). f x y) (zip u v)))
      (zip (chunks n a) (chunks n b))) +
    sum_list (map (\<lambda>(x, y). f x y) (zip (remainder n a) (remainder n b)))"
  using assms
proof (induction n a arbitrary: b rule: chunks.induct)
  case (1 n a)
  let ?s = "\<lambda>ps. sum_list (map (\<lambda>(x, y). f x y) ps)"
  show ?case
  proof (cases "length a < n")
    case True
    with 1 show ?thesis by (simp add: chunks_short remainder_short)
  next
    case False
    have split: "zip a b = zip (take n a) (take n b) @ zip (drop n a) (drop n b)"
      by (metis append_take_drop_id drop_zip take_zip)
    have "chunks n a = take n a # chunks n (drop n a)" "chunks n b = take n b # chunks n (drop n b)"
      using False 1 by (subst chunks.simps; simp)+
    moreover have "remainder n a = remainder n (drop n a)" "remainder n b = remainder n (drop n b)"
      using False 1 by (auto intro: remainder_long)
    ultimately show ?thesis
      using False 1 by (simp add: split add.assoc)
  qed
qed

lemma sum_list_upt_nth: "sum_list (map (\<lambda>i. xs ! i) [0..<length xs]) = sum_list xs"
  by (simp add: map_nth)

lemma map_upt_zip:
  assumes "length u = n" "length v = n"
  shows "map (\<lambda>i. f (u ! i) (v ! i)) [0..<n] = map (\<lambda>(x, y). f x y) (zip u v)"
  using assms by (intro nth_equalityI) auto

lemma sum_lane_step_i8:
  assumes "length acc = LANES_I8" "length (fst xy) = LANES_I8" "length (snd xy) = LANES_I8"
  shows "sum_list (lane_step_i8 acc xy) =
    sum_list acc + sum_list (map (\<lambda>(x, y). mul_i8 x y) (zip (fst xy) (snd xy)))"
proof -
  have "sum_list (lane_step_i8 acc xy) =
      sum_list (map (\<lambda>i. acc ! i) [0..<LANES_I8]) +
      sum_list (map (\<lambda>i. mul_i8 (fst xy ! i) (snd xy ! i)) [0..<LANES_I8])"
    by (simp add: lane_step_i8_def sum_list_addf)
  also have "sum_list (map (\<lambda>i. acc ! i) [0..<LANES_I8]) = sum_list acc"
    using assms(1) sum_list_upt_nth [of acc] by simp
  finally show ?thesis using map_upt_zip [OF assms(2,3), of mul_i8] by simp
qed

lemma length_lane_step_i8 [simp]: "length (lane_step_i8 acc xy) = LANES_I8"
  by (simp add: lane_step_i8_def)

lemma sum_lanes_i8:
  assumes "length acc = LANES_I8"
    and "\<forall>(u, v)\<in>set cs. length u = LANES_I8 \<and> length v = LANES_I8"
  shows "sum_list (foldl lane_step_i8 acc cs) =
    sum_list acc + sum_list (map (\<lambda>(u, v). sum_list (map (\<lambda>(x, y). mul_i8 x y) (zip u v))) cs)"
  using assms
proof (induction cs arbitrary: acc)
  case (Cons c cs)
  then have "sum_list (lane_step_i8 acc c) =
      sum_list acc + sum_list (map (\<lambda>(x, y). mul_i8 x y) (zip (fst c) (snd c)))"
    by (intro sum_lane_step_i8) auto
  with Cons show ?case by (cases c) (simp add: add.assoc)
qed simp

lemma foldl_plus_sum: "foldl (\<lambda>s (x, y). s + f x y) t ps = t + sum_list (map (\<lambda>(x, y). f x y) ps)"
  for f :: "'a \<Rightarrow> 'b \<Rightarrow> 'c::comm_monoid_add"
  by (induction ps arbitrary: t) (auto simp: add.assoc)

lemma dot_i8_sum:
  assumes "length a = length b"
  shows "dot_i8 a b = sum_list (map (\<lambda>(x, y). mul_i8 x y) (zip a b))"
proof -
  let ?cs = "zip (chunks LANES_I8 a) (chunks LANES_I8 b)"
  have "\<forall>(u, v)\<in>set ?cs. length u = LANES_I8 \<and> length v = LANES_I8"
    by (auto dest!: set_zipD chunks_elem_length)
  then have "sum_list (foldl lane_step_i8 (replicate LANES_I8 0) ?cs) =
      sum_list (map (\<lambda>(u, v). sum_list (map (\<lambda>(x, y). mul_i8 x y) (zip u v))) ?cs)"
    by (simp add: sum_lanes_i8 sum_list_replicate)
  with sum_chunks [of a b LANES_I8 mul_i8] assms show ?thesis
    by (simp add: dot_i8_def Let_def foldl_plus_sum LANES_I8_def)
qed

lemma dot_i8_int_dot:
  assumes "length a = length b"
  shows "dot_i8 a b = word_of_int (int_dot a b)"
proof -
  have "sum_list (map (\<lambda>(x, y). mul_i8 x y) ps) =
      word_of_int (sum_list (map (\<lambda>(x, y). sint x * sint y) ps))" for ps
    by (induction ps) (auto simp: mul_i8_def)
  then show ?thesis using assms by (simp add: dot_i8_sum int_dot_def)
qed

lemma sint_i8_bounds: "- 128 \<le> sint (x :: i8) \<and> sint x \<le> 127"
  using sint_greater_eq [of x] sint_less [of x] by simp

lemma mult_i8_bound: "\<bar>sint (x :: i8) * sint (y :: i8)\<bar> \<le> 16384"
proof -
  have "\<bar>sint x\<bar> \<le> 128" "\<bar>sint y\<bar> \<le> 128"
    using sint_i8_bounds [of x] sint_i8_bounds [of y] by auto
  then have "\<bar>sint x\<bar> * \<bar>sint y\<bar> \<le> 128 * 128" by (intro mult_mono) auto
  then show ?thesis by (simp add: abs_mult)
qed

lemma int_dot_bound: "\<bar>int_dot a b\<bar> \<le> 16384 * int (length a)"
proof -
  have "\<bar>sum_list (map (\<lambda>(x, y). sint x * sint y) ps)\<bar> \<le> 16384 * int (length ps)"
    for ps :: "(i8 \<times> i8) list"
  proof (induction ps)
    case (Cons p ps)
    obtain x y where "p = (x, y)" by (cases p)
    with Cons mult_i8_bound [of x y] show ?case by auto
  qed simp
  from this [of "zip a b"] show ?thesis by (auto simp: int_dot_def)
qed

section \<open>Lemmas: codes and the row store\<close>

lemma length_quantize [simp]: "length (qq_codes (quantize v)) = length v"
  by (simp add: quantize_def Let_def)

lemma fp_to_int_127:
  assumes "f32_mag x \<le> 1123942400"
  shows "\<bar>fp_to_int 24 8 (- 128) 127 (unat x)\<bar> \<le> 127"
proof -
  let ?E = "f32_mag x div 2 ^ 23" and ?F = "f32_mag x mod 2 ^ 23"
  have E: "?E \<le> 133" using assms by (simp add: div_le_mono [of _ 1123942400, simplified])
  have F: "?F < 2 ^ 23" by simp
  have nan: "\<not> f32_is_nan x" "f32_mag x \<noteq> 2139095040" using assms by (auto simp: f32_is_nan_def)
  have top: "?F + 2 ^ 23 < 2 ^ 24" using F by simp
  have small: "(?F + 2 ^ 23) div 2 ^ nat (150 - int ?E) \<le> 127"
  proof (cases "?E = 133")
    case True
    have "f32_mag x = ?E * 2 ^ 23 + ?F" by (rule div_mult_mod_eq [symmetric])
    with assms True have "?F + 2 ^ 23 \<le> 16646144" by simp
    then have "(?F + 2 ^ 23) div 2 ^ 17 \<le> 16646144 div 2 ^ 17" by (rule div_le_mono)
    with True show ?thesis by simp
  next
    case False
    with E have "(2::nat) ^ 18 \<le> 2 ^ nat (150 - int ?E)" by (intro power_increasing) auto
    then have "(?F + 2 ^ 23) div 2 ^ nat (150 - int ?E) \<le> (?F + 2 ^ 23) div 2 ^ 18"
      by (rule div_le_mono2 [rotated]) simp
    also have "\<dots> \<le> 127" using top by simp
    finally show ?thesis .
  qed
  have sub: "?F div 2 ^ 149 \<le> 127" using F by simp
  have dec: "fp_decode 24 8 (unat x) = f32_dec x" by (simp add: f32_dec_def)
  have fin: "\<bar>max (- 128) (min 127 (signed_int s q))\<bar> \<le> 127" if "q \<le> 127" for s q
    using that by (auto simp: signed_int_def)
  show ?thesis
  proof (cases "?E = 0")
    case True
    then have "f32_dec x = FFin (f32_sign x) ?F (- 149)"
      using nan by (simp add: f32_dec_unfold)
    then show ?thesis using fin [OF sub] by (simp add: fp_to_int_def dec)
  next
    case False
    then have d: "f32_dec x = FFin (f32_sign x) (?F + 2 ^ 23) (- 149 + int ?E - 1)"
      using nan by (simp add: f32_dec_unfold)
    have "\<not> 0 \<le> - 149 + int ?E - 1" "- (- 149 + int ?E - 1) = 150 - int ?E" using E by auto
    then show ?thesis using fin [OF small] by (simp add: fp_to_int_def dec d)
  qed
qed

lemma quant_code_range: "\<bar>sint (quant_code inv_scale x)\<bar> \<le> 127"
proof -
  let ?r = "f32_round (f32_mul x inv_scale)" and ?c = "f32_clamp f32_neg_127 f32_127"
  have key: "f32_key f32_neg_127 = - 1123942400" "f32_key f32_127 = 1123942400"
    "\<not> f32_is_nan f32_neg_127" "\<not> f32_is_nan f32_127"
    "f32_mag f32_neg_127 = 1123942400" "f32_mag f32_127 = 1123942400"
    by (simp_all add: f32_key_def f32_neg_127_def f32_127_def f32_sign_def f32_mag_def
        f32_is_nan_def)
  have "\<bar>fp_to_int 24 8 (- 128) 127 (unat (?c ?r))\<bar> \<le> 127"
  proof (cases "f32_is_nan ?r")
    case True
    then have "?c ?r = ?r" by (simp add: f32_clamp_def f32_lt_def)
    moreover have "fp_decode 24 8 (unat ?r) = FNan"
      using True by (simp flip: f32_dec_def add: f32_dec_nan)
    ultimately show ?thesis by (simp add: fp_to_int_def)
  next
    case False
    then have "f32_mag (?c ?r) \<le> 1123942400"
      by (auto simp: f32_clamp_def f32_lt_def key f32_key_def split: if_splits)
    then show ?thesis by (rule fp_to_int_127)
  qed
  then show ?thesis
    by (simp add: quant_code_def f32_as_i8_def signed_take_bit_int_eq_self sint_sbintrunc'
        signed_of_int)
qed

lemma quant_new_wf: "0 < dims \<Longrightarrow> quant_wf (quant_new dims)"
  by (simp add: quant_wf_def quant_new_def)

lemma quant_push_wf:
  assumes "quant_wf s" and "length (qq_codes q) = qv_dims s"
  shows "quant_wf (push_quantized s q)"
    and "quant_len (push_quantized s q) = Suc (quant_len s)"
    and "qv_dims (push_quantized s q) = qv_dims s"
  using assms by (simp_all add: quant_wf_def push_quantized_def quant_len_def)

lemma quant_distance_Some:
  assumes "quant_wf s" and "slot < quant_len s"
  shows "\<exists>d. quant_distance s m q slot = Some d"
proof -
  have "Suc slot * qv_dims s \<le> length (qv_scales s) * qv_dims s"
    using assms(2) by (intro mult_le_mono) (auto simp: quant_len_def)
  with assms show ?thesis
    by (auto simp: quant_distance_def quant_wf_def quant_len_def slice_def index_def)
qed

lemma quant_from_parts_wf:
  "quant_from_parts d c s n = Some q \<Longrightarrow> quant_wf q \<and> qv_dims q = d \<and> quant_len q = length s"
  by (auto simp: quant_from_parts_def quant_wf_def quant_len_def split: if_splits)

lemma quant_from_parts_inverse:
  "quant_wf s \<Longrightarrow> quant_from_parts (qv_dims s) (qv_data s) (qv_scales s) (qv_norms_sq s) = Some s"
  by (simp add: quant_from_parts_def quant_wf_def)

end
