(* ===== verification/Hnsw_Visited.thy ===== *)
theory Hnsw_Visited
  imports Prelude
begin

text \<open>
  The reusable visited set of the graph searches (\<open>Visited\<close> in \<open>hnsw.rs\<close>): a bitset and the
  list of slots whose word it must clear. Clearing only the recorded words is enough because
  every word that is not zero has a recorded slot. The client's view is the locale
  \<open>visited_set\<close>: after a reset nothing is visited, and an insert reports whether the slot was
  new.
\<close>

section \<open>State and operations\<close>

record visited =
  vis_bits :: "u64 list"
  vis_touched :: "nat list"

definition visited_new :: visited where
  "visited_new = \<lparr>vis_bits = [], vis_touched = []\<rparr>"

definition slot_mask :: "nat \<Rightarrow> u64" where
  "slot_mask slot = push_bit (slot mod 64) 1"

fun clear_touched :: "nat list \<Rightarrow> u64 list \<Rightarrow> u64 list option" where
  "clear_touched [] bits = Some bits"
| "clear_touched (slot # slots) bits = Option.bind (store bits (slot div 64) 0) (clear_touched slots)"

definition visited_reset :: "nat \<Rightarrow> visited \<Rightarrow> visited option" where
  "visited_reset slots v =
     Option.bind (clear_touched (vis_touched v) (vis_bits v)) (\<lambda>bits.
       let words = div_ceil slots 64
       in Some \<lparr>vis_bits = (if length bits < words then bits @ replicate (words - length bits) 0
                            else bits),
                vis_touched = []\<rparr>)"

text \<open>The flag says whether the slot was not yet visited.\<close>

definition visited_insert :: "nat \<Rightarrow> visited \<Rightarrow> (bool \<times> visited) option" where
  "visited_insert slot v =
     Option.bind (index (vis_bits v) (slot div 64)) (\<lambda>word.
       if word AND slot_mask slot \<noteq> 0 then Some (False, v)
       else Some (True,
         \<lparr>vis_bits = (vis_bits v)[slot div 64 := word OR slot_mask slot],
          vis_touched = (if word = 0 then vis_touched v @ [slot] else vis_touched v)\<rparr>))"

section \<open>The abstract set\<close>

definition visited_slots :: "visited \<Rightarrow> nat set" where
  "visited_slots v = {s. s div 64 < length (vis_bits v) \<and> bit (vis_bits v ! (s div 64)) (s mod 64)}"

definition visited_room :: "visited \<Rightarrow> nat" where
  "visited_room v = 64 * length (vis_bits v)"

text \<open>Every word that is not zero belongs to a recorded slot, and recorded slots are in range.\<close>

definition visited_wf :: "visited \<Rightarrow> bool" where
  "visited_wf v \<longleftrightarrow>
     (\<forall>t\<in>set (vis_touched v). t div 64 < length (vis_bits v)) \<and>
     (\<forall>i<length (vis_bits v). vis_bits v ! i \<noteq> 0 \<longrightarrow> (\<exists>t\<in>set (vis_touched v). t div 64 = i))"

section \<open>The contract of a visited set\<close>

locale visited_set =
  fixes wf :: "'v \<Rightarrow> bool"
    and room :: "'v \<Rightarrow> nat"
    and slots :: "'v \<Rightarrow> nat set"
    and reset :: "nat \<Rightarrow> 'v \<Rightarrow> 'v option"
    and insert_slot :: "nat \<Rightarrow> 'v \<Rightarrow> (bool \<times> 'v) option"
  assumes slots_room: "slots v \<subseteq> {..<room v}"
    and reset_ok: "wf v \<Longrightarrow> \<exists>v'. reset n v = Some v' \<and> wf v' \<and> slots v' = {} \<and> n \<le> room v'"
    and insert_ok: "s < room v \<Longrightarrow> \<exists>v'. insert_slot s v = Some (s \<notin> slots v, v') \<and>
      slots v' = insert s (slots v) \<and> room v' = room v \<and> (wf v \<longrightarrow> wf v')"
    and insert_range: "insert_slot s v = Some r \<Longrightarrow> s < room v"
begin

text \<open>The number of slots still to visit, the measure of every search.\<close>

definition unvisited :: "'v \<Rightarrow> nat" where
  "unvisited v = card ({..<room v} - slots v)"

lemma insert_new:
  assumes "insert_slot s v = Some (True, v')"
  shows "s \<notin> slots v" "slots v' = insert s (slots v)" "room v' = room v"
    "unvisited v = Suc (unvisited v')" "wf v \<Longrightarrow> wf v'"
proof -
  have s: "s < room v" using assms by (rule insert_range)
  obtain v'' where "insert_slot s v = Some (s \<notin> slots v, v'')" "slots v'' = insert s (slots v)"
    "room v'' = room v" "wf v \<longrightarrow> wf v''" using insert_ok [OF s] by blast
  with assms show new: "s \<notin> slots v" and sl: "slots v' = insert s (slots v)" and
    rm: "room v' = room v" and "wf v \<Longrightarrow> wf v'" by auto
  have "{..<room v} - slots v = insert s ({..<room v'} - slots v')" using new sl rm s by auto
  moreover have "s \<notin> {..<room v'} - slots v'" using sl by auto
  ultimately show "unvisited v = Suc (unvisited v')" by (simp add: unvisited_def)
qed

lemma insert_old:
  assumes "insert_slot s v = Some (False, v')"
  shows "s \<in> slots v" "slots v' = slots v" "room v' = room v" "unvisited v' = unvisited v"
    "wf v \<Longrightarrow> wf v'"
proof -
  have s: "s < room v" using assms by (rule insert_range)
  obtain v'' where "insert_slot s v = Some (s \<notin> slots v, v'')" "slots v'' = insert s (slots v)"
    "room v'' = room v" "wf v \<longrightarrow> wf v''" using insert_ok [OF s] by blast
  with assms show "s \<in> slots v" "slots v' = slots v" "room v' = room v" "wf v \<Longrightarrow> wf v'"
    by auto
  then show "unvisited v' = unvisited v" by (simp add: unvisited_def)
qed

end

section \<open>Lemmas\<close>

lemma bit_slot_mask: "bit (slot_mask s) i \<longleftrightarrow> i = s mod 64"
  using mod_less_divisor [of 64 s]
  by (simp only: slot_mask_def bit_push_bit_iff bit_1_iff possible_bit_word) auto

lemma and_slot_mask: "w AND slot_mask s \<noteq> 0 \<longleftrightarrow> bit w (s mod 64)"
proof -
  have "w AND slot_mask s \<noteq> 0 \<longleftrightarrow> (\<exists>i. bit (w AND slot_mask s) i)"
    by (metis bit_0_eq bit_eqI bot_apply bot_bool_def)
  then show ?thesis by (auto simp: bit_and_iff bit_slot_mask)
qed

lemma bit_or_mask: "bit (w OR slot_mask s) i \<longleftrightarrow> bit w i \<or> i = s mod 64"
  by (auto simp: bit_or_iff bit_slot_mask)

lemma clear_touched_ok:
  assumes "\<forall>t\<in>set ts. t div 64 < length bits"
  shows "\<exists>bits'. clear_touched ts bits = Some bits' \<and> length bits' = length bits \<and>
    (\<forall>i<length bits. bits' ! i = (if \<exists>t\<in>set ts. t div 64 = i then 0 else bits ! i))"
  using assms
proof (induction ts arbitrary: bits)
  case (Cons t ts)
  let ?b = "bits[t div 64 := 0]"
  have t: "t div 64 < length bits" and rest: "\<forall>u\<in>set ts. u div 64 < length ?b"
    using Cons.prems by auto
  from Cons.IH [OF rest] obtain b' where "clear_touched ts ?b = Some b'" "length b' = length bits"
    "\<forall>i<length bits. b' ! i = (if \<exists>u\<in>set ts. u div 64 = i then 0 else ?b ! i)" by auto
  with t show ?case by (auto simp: store_def nth_list_update)
qed simp

lemma visited_reset_ok:
  assumes "visited_wf v"
  shows "\<exists>v'. visited_reset n v = Some v' \<and> visited_wf v' \<and> visited_slots v' = {} \<and>
    n \<le> visited_room v'"
proof -
  from assms have "\<forall>t\<in>set (vis_touched v). t div 64 < length (vis_bits v)"
    by (simp add: visited_wf_def)
  from clear_touched_ok [OF this] obtain b where
    b: "clear_touched (vis_touched v) (vis_bits v) = Some b" "length b = length (vis_bits v)"
      "\<forall>i<length b. b ! i = (if \<exists>t\<in>set (vis_touched v). t div 64 = i then 0 else vis_bits v ! i)"
    by auto
  have zero: "\<forall>i<length b. b ! i = 0"
    using b(2,3) assms by (auto simp: visited_wf_def)
  let ?b = "if length b < div_ceil n 64 then b @ replicate (div_ceil n 64 - length b) 0 else b"
  have z: "i < length ?b \<Longrightarrow> ?b ! i = 0" for i
    using zero by (auto simp: nth_append split: if_splits)
  have "div_ceil n 64 \<le> length ?b" by simp
  then have "n \<le> 64 * length ?b" using div_ceil_ge [of 64 n] by linarith
  with b(1) z show ?thesis
    by (auto simp: visited_reset_def Let_def visited_wf_def visited_slots_def visited_room_def)
qed

lemma visited_insert_slots:
  assumes "s < visited_room v"
  shows "\<exists>v'. visited_insert s v = Some (s \<notin> visited_slots v, v') \<and>
    visited_slots v' = insert s (visited_slots v) \<and> visited_room v' = visited_room v \<and>
    (visited_wf v \<longrightarrow> visited_wf v')"
proof -
  let ?i = "s div 64" and ?w = "vis_bits v ! (s div 64)"
  have i: "?i < length (vis_bits v)" using assms by (simp add: visited_room_def less_mult_imp_div_less)
  show ?thesis
  proof (cases "bit ?w (s mod 64)")
    case True
    then show ?thesis
      using i by (auto simp: visited_insert_def index_def and_slot_mask visited_slots_def)
  next
    case False
    let ?v = "\<lparr>vis_bits = (vis_bits v)[?i := ?w OR slot_mask s],
          vis_touched = (if ?w = 0 then vis_touched v @ [s] else vis_touched v)\<rparr>"
    have "visited_insert s v = Some (True, ?v)"
      using i False by (simp add: visited_insert_def index_def and_slot_mask)
    moreover have "s \<notin> visited_slots v" using False by (simp add: visited_slots_def)
    moreover have "visited_slots ?v = insert s (visited_slots v)"
    proof -
      have "t div 64 = ?i \<and> t mod 64 = s mod 64 \<longleftrightarrow> t = s" for t
        by (metis div_mult_mod_eq)
      then show ?thesis
        using i by (simp add: visited_slots_def nth_list_update bit_or_mask set_eq_iff) metis
    qed
    moreover have "visited_wf v \<longrightarrow> visited_wf ?v"
      using i by (auto simp: visited_wf_def nth_list_update)
    ultimately show ?thesis by (simp add: visited_room_def)
  qed
qed

interpretation vis: visited_set visited_wf visited_room visited_slots visited_reset visited_insert
proof unfold_locales
  fix v
  show "visited_slots v \<subseteq> {..<visited_room v}"
    by (auto simp: visited_slots_def visited_room_def div_less_iff_less_mult mult.commute)
next
  fix s v r
  assume "visited_insert s v = Some r"
  then show "s < visited_room v"
    by (auto simp: visited_insert_def index_def visited_room_def bind_eq_Some_conv
        div_less_iff_less_mult mult.commute split: if_splits)
qed (fact visited_reset_ok visited_insert_slots)+

lemma visited_new_wf [simp]: "visited_wf visited_new"
  by (simp add: visited_wf_def visited_new_def)

end
