(* ===== verification/Hnsw_Graph.thy ===== *)
theory Hnsw_Graph
  imports Oracle Quant Hnsw_Visited
begin

text \<open>
  The graph structure of \<open>hnsw.rs\<close>: parameters, the orders \<open>Far\<close> and \<open>Near\<close>, the record
  \<open>Hnsw\<close> with its flat neighbour arrays, tombstones and the deterministic level of a slot.
  Slots and levels are natural numbers; the \<open>u8\<close> counters and the \<open>u32\<close> slot type have their
  casts written out. The natural logarithm of a double is a parameter of \<open>level_for\<close>.

  The neighbour arrays are presented to their clients through the locale \<open>link_store\<close>: a list
  per slot and level that is read back as it was written, independently of every other list.
\<close>

section \<open>Parameters\<close>

record hnsw_params =
  hp_m :: nat
  hp_m0 :: nat
  hp_ef_construction :: nat
  hp_seed :: u64

definition for_metric :: "metric \<Rightarrow> hnsw_params" where
  "for_metric metric =
     (let m = (case metric of Cosine \<Rightarrow> 32 | Dot \<Rightarrow> 16 | L2 \<Rightarrow> 16)
      in \<lparr>hp_m = m, hp_m0 = 2 * m, hp_ef_construction = 200, hp_seed = 0\<rparr>)"

definition default_ef_search :: "metric \<Rightarrow> nat" where
  "default_ef_search metric = (case metric of Cosine \<Rightarrow> 500 | Dot \<Rightarrow> 100 | L2 \<Rightarrow> 100)"

section \<open>Candidates\<close>

type_synonym far = "f32 \<times> nat"

definition far_cmp :: "far \<Rightarrow> far \<Rightarrow> ordering" where
  "far_cmp a b =
     then_cmp (case partial_cmp (fst a) (fst b) of Some c \<Rightarrow> c | None \<Rightarrow> Equal)
       (cmp_of (snd a) (snd b))"

definition near_cmp :: "far \<Rightarrow> far \<Rightarrow> ordering" where
  "near_cmp a b = far_cmp b a"

section \<open>The graph\<close>

record hnsw =
  hn_params :: hnsw_params
  hn_metric :: metric
  hn_vectors :: flat_vectors
  hn_quantized :: quantized_vectors
  hn_levels :: "nat list"
  hn_level0 :: "nat list"
  hn_level0_len :: "nat list"
  hn_upper :: "nat list list"
  hn_upper_len :: "nat list list"
  hn_tombstones :: "u64 list"
  hn_tombstone_count :: nat
  hn_entry :: "nat option"
  hn_max_level :: nat

abbreviation "hn_m g \<equiv> hp_m (hn_params g)"
abbreviation "hn_m0 g \<equiv> hp_m0 (hn_params g)"

definition hnsw_new :: "nat \<Rightarrow> metric \<Rightarrow> hnsw_params \<Rightarrow> hnsw" where
  "hnsw_new dims metric params =
     \<lparr>hn_params = params, hn_metric = metric, hn_vectors = flat_new dims,
      hn_quantized = quant_new dims, hn_levels = [], hn_level0 = [], hn_level0_len = [],
      hn_upper = [], hn_upper_len = [], hn_tombstones = [], hn_tombstone_count = 0,
      hn_entry = None, hn_max_level = 0\<rparr>"

definition hn_dims :: "hnsw \<Rightarrow> nat" where
  "hn_dims g = fv_dims (hn_vectors g)"

definition hn_len :: "hnsw \<Rightarrow> nat" where
  "hn_len g = length (hn_levels g)"

definition live_len :: "hnsw \<Rightarrow> nat" where
  "live_len g = hn_len g - hn_tombstone_count g"

definition hn_level :: "hnsw \<Rightarrow> nat \<Rightarrow> nat option" where
  "hn_level g slot = index (hn_levels g) slot"

definition is_tombstoned :: "hnsw \<Rightarrow> nat \<Rightarrow> bool" where
  "is_tombstoned g slot =
     (case index (hn_tombstones g) (slot div 64) of
        None \<Rightarrow> False | Some word \<Rightarrow> word AND slot_mask slot \<noteq> 0)"

definition tombstone :: "hnsw \<Rightarrow> nat \<Rightarrow> (bool \<times> hnsw) option" where
  "tombstone g slot =
     (if \<not> slot < hn_len g then None
      else Option.bind (index (hn_tombstones g) (slot div 64)) (\<lambda>word.
        if word AND slot_mask slot \<noteq> 0 then Some (False, g)
        else Some (True,
          g\<lparr>hn_tombstones := (hn_tombstones g)[slot div 64 := word OR slot_mask slot],
            hn_tombstone_count := hn_tombstone_count g + 1\<rparr>)))"

text \<open>The draw of a level: splitmix64 over the seed and the slot, then a geometric level.\<close>

definition splitmix :: "u64 \<Rightarrow> u32 \<Rightarrow> u64" where
  "splitmix seed slot =
     (let x = (seed * 0x9E3779B97F4A7C15) XOR (ucast slot + 0x6A09E667F3BCC909);
          x = x + 0x9E3779B97F4A7C15;
          x = (x XOR drop_bit 30 x) * 0xBF58476D1CE4E5B9;
          x = (x XOR drop_bit 27 x) * 0x94D049BB133111EB
      in x XOR drop_bit 31 x)"

definition level_for :: "(f64 \<Rightarrow> f64) \<Rightarrow> hnsw_params \<Rightarrow> nat \<Rightarrow> nat" where
  "level_for ln64 params slot =
     (let x = splitmix (hp_seed params) (word_of_nat slot);
          unit = f64_div (f64_add (f64_of_nat (unat (drop_bit 11 x))) f64_one)
                   (f64_add (f64_of_nat (2 ^ 53)) f64_one);
          multiplier = f64_div f64_one (ln64 (f64_of_nat (hp_m params)));
          level = f64_floor (f64_mul (f64_neg (ln64 unit)) multiplier)
      in f64_as_nat 255 (f64_min level f64_31))"

definition hn_dist :: "hnsw \<Rightarrow> f32 list \<Rightarrow> nat \<Rightarrow> f32 option" where
  "hn_dist g query slot = map_option (distance (hn_metric g) query) (flat_get (hn_vectors g) slot)"

definition neighbours :: "hnsw \<Rightarrow> nat \<Rightarrow> nat \<Rightarrow> nat list option" where
  "neighbours g slot level =
     (if level = 0
      then Option.bind (index (hn_level0_len g) slot) (slice (hn_level0 g) (slot * hn_m0 g))
      else Option.bind (index (hn_upper_len g) slot) (\<lambda>lens.
           Option.bind (index lens (level - 1)) (\<lambda>len.
           Option.bind (index (hn_upper g) slot) (\<lambda>links.
             slice links ((level - 1) * hn_m g) len))))"

definition set_neighbours :: "hnsw \<Rightarrow> nat \<Rightarrow> nat \<Rightarrow> nat list \<Rightarrow> hnsw option" where
  "set_neighbours g slot level list =
     (if level = 0
      then Option.bind (splice (hn_level0 g) (slot * hn_m0 g) list) (\<lambda>level0.
           Option.bind (store (hn_level0_len g) slot (length list mod 256)) (\<lambda>level0_len.
             Some (g\<lparr>hn_level0 := level0, hn_level0_len := level0_len\<rparr>)))
      else Option.bind (index (hn_upper g) slot) (\<lambda>links.
           Option.bind (splice links ((level - 1) * hn_m g) list) (\<lambda>links'.
           Option.bind (index (hn_upper_len g) slot) (\<lambda>lens.
           Option.bind (store lens (level - 1) (length list mod 256)) (\<lambda>lens'.
             Some (g\<lparr>hn_upper := (hn_upper g)[slot := links'],
                     hn_upper_len := (hn_upper_len g)[slot := lens']\<rparr>))))))"

definition capacity :: "hnsw \<Rightarrow> nat \<Rightarrow> nat" where
  "capacity g level = (if level = 0 then hn_m0 g else hn_m g)"

text \<open>Adding one neighbour in place to a list of \<open>len\<close> neighbours; the \<open>u8\<close> counter wraps.\<close>

definition append_link :: "hnsw \<Rightarrow> nat \<Rightarrow> nat \<Rightarrow> nat \<Rightarrow> nat \<Rightarrow> hnsw option" where
  "append_link g host level len slot =
     (if level = 0
      then Option.bind (store (hn_level0 g) (host * hn_m0 g + len) slot) (\<lambda>level0.
           Option.bind (index (hn_level0_len g) host) (\<lambda>n.
             Some (g\<lparr>hn_level0 := level0, hn_level0_len := (hn_level0_len g)[host := (n + 1) mod 256]\<rparr>)))
      else Option.bind (index (hn_upper g) host) (\<lambda>links.
           Option.bind (store links ((level - 1) * hn_m g + len) slot) (\<lambda>links'.
           Option.bind (index (hn_upper_len g) host) (\<lambda>lens.
           Option.bind (index lens (level - 1)) (\<lambda>n.
             Some (g\<lparr>hn_upper := (hn_upper g)[host := links'],
                     hn_upper_len := (hn_upper_len g)[host := lens[level - 1 := (n + 1) mod 256]]\<rparr>))))))"

section \<open>Serialized parts, memory accounting\<close>

record graph_parts =
  gp_levels :: "nat list"
  gp_level0 :: "nat list"
  gp_level0_len :: "nat list"
  gp_upper :: "nat list list"
  gp_upper_len :: "nat list list"
  gp_tombstones :: "u64 list"
  gp_tombstone_count :: nat
  gp_entry :: "nat option"
  gp_max_level :: nat

definition hnsw_graph_parts :: "hnsw \<Rightarrow> graph_parts" where
  "hnsw_graph_parts g =
     \<lparr>gp_levels = hn_levels g, gp_level0 = hn_level0 g, gp_level0_len = hn_level0_len g,
      gp_upper = hn_upper g, gp_upper_len = hn_upper_len g, gp_tombstones = hn_tombstones g,
      gp_tombstone_count = hn_tombstone_count g, gp_entry = hn_entry g,
      gp_max_level = hn_max_level g\<rparr>"

definition hnsw_from_parts ::
  "hnsw_params \<Rightarrow> metric \<Rightarrow> flat_vectors \<Rightarrow> quantized_vectors \<Rightarrow> graph_parts \<Rightarrow> hnsw option" where
  "hnsw_from_parts params metric vectors quantized parts =
     (let slots = flat_len vectors
      in if quant_len quantized \<noteq> slots \<or> length (gp_levels parts) \<noteq> slots
            \<or> length (gp_level0_len parts) \<noteq> slots
            \<or> length (gp_level0 parts) \<noteq> slots * hp_m0 params
            \<or> length (gp_upper parts) \<noteq> slots \<or> length (gp_upper_len parts) \<noteq> slots
            \<or> length (gp_tombstones parts) \<noteq> div_ceil slots 64
         then None
         else if list_ex (\<lambda>(level, upper, upper_len).
                   length upper \<noteq> level * hp_m params \<or> length upper_len \<noteq> level)
                 (zip (gp_levels parts) (zip (gp_upper parts) (gp_upper_len parts)))
         then None
         else if (case gp_entry parts of Some entry \<Rightarrow> slots \<le> entry | None \<Rightarrow> slots \<noteq> 0)
         then None
         else Some
           \<lparr>hn_params = params, hn_metric = metric, hn_vectors = vectors,
            hn_quantized = quantized, hn_levels = gp_levels parts, hn_level0 = gp_level0 parts,
            hn_level0_len = gp_level0_len parts, hn_upper = gp_upper parts,
            hn_upper_len = gp_upper_len parts, hn_tombstones = gp_tombstones parts,
            hn_tombstone_count = gp_tombstone_count parts, hn_entry = gp_entry parts,
            hn_max_level = gp_max_level parts\<rparr>)"

definition replace_vectors :: "hnsw \<Rightarrow> flat_vectors \<Rightarrow> bool \<times> hnsw" where
  "replace_vectors g vectors =
     (if fv_dims vectors \<noteq> hn_dims g \<or> flat_len vectors \<noteq> flat_len (hn_vectors g) then (False, g)
      else (True, g\<lparr>hn_vectors := vectors\<rparr>))"

text \<open>A \<open>Vec\<close> header is three machine words.\<close>

definition VEC_BYTES :: nat where
  "VEC_BYTES = 24"

definition hn_accounted_bytes :: "hnsw \<Rightarrow> nat" where
  "hn_accounted_bytes g =
     (let vectors = flat_resident_bytes (hn_vectors g) + quant_accounted_bytes (hn_quantized g);
          level0 = length (hn_level0 g) * 4 + length (hn_level0_len g);
          upper = sum_list (map (\<lambda>links. length links * 4 + VEC_BYTES) (hn_upper g))
            + sum_list (map (\<lambda>lens. length lens + VEC_BYTES) (hn_upper_len g))
      in vectors + level0 + upper + length (hn_levels g) + length (hn_tombstones g) * 8)"

definition accounted_breakdown :: "hnsw \<Rightarrow> nat \<times> nat \<times> nat" where
  "accounted_breakdown g =
     (let f32_bytes = flat_resident_bytes (hn_vectors g);
          int8_bytes = quant_accounted_bytes (hn_quantized g)
      in (f32_bytes, int8_bytes, hn_accounted_bytes g - f32_bytes - int8_bytes))"

section \<open>The invariant\<close>

text \<open>The arrays have the shape the accessors assume.\<close>

definition shape_ok :: "hnsw \<Rightarrow> bool" where
  "shape_ok g \<longleftrightarrow>
     hn_m g \<le> 255 \<and> hn_m0 g \<le> 255 \<and>
     length (hn_level0 g) = hn_len g * hn_m0 g \<and> length (hn_level0_len g) = hn_len g \<and>
     length (hn_upper g) = hn_len g \<and> length (hn_upper_len g) = hn_len g \<and>
     (\<forall>s<hn_len g. hn_levels g ! s \<le> 31 \<and> hn_level0_len g ! s \<le> hn_m0 g \<and>
        length (hn_upper g ! s) = hn_levels g ! s * hn_m g \<and>
        length (hn_upper_len g ! s) = hn_levels g ! s \<and>
        (\<forall>l<hn_levels g ! s. hn_upper_len g ! s ! l \<le> hn_m g))"

definition has_level :: "hnsw \<Rightarrow> nat \<Rightarrow> nat \<Rightarrow> bool" where
  "has_level g s l \<longleftrightarrow> s < hn_len g \<and> l \<le> hn_levels g ! s"

text \<open>Every link leads to a slot that has the link's level.\<close>

definition links_ok :: "hnsw \<Rightarrow> bool" where
  "links_ok g \<longleftrightarrow>
     (\<forall>s l ns. has_level g s l \<longrightarrow> neighbours g s l = Some ns \<longrightarrow> (\<forall>t\<in>set ns. has_level g t l))"

text \<open>The arrays hold \<open>u32\<close> values, the unused entries included.\<close>

definition words_ok :: "hnsw \<Rightarrow> bool" where
  "words_ok g \<longleftrightarrow>
     set (hn_level0 g) \<subseteq> {..<2 ^ 32} \<and> (\<forall>links\<in>set (hn_upper g). set links \<subseteq> {..<2 ^ 32})"

definition rows_ok :: "hnsw \<Rightarrow> bool" where
  "rows_ok g \<longleftrightarrow>
     flat_wf (hn_vectors g) \<and> flat_len (hn_vectors g) = hn_len g \<and>
     quant_wf (hn_quantized g) \<and> quant_len (hn_quantized g) = hn_len g \<and>
     qv_dims (hn_quantized g) = hn_dims g \<and> hn_len g \<le> 2 ^ 32"

definition tombstones_ok :: "hnsw \<Rightarrow> bool" where
  "tombstones_ok g \<longleftrightarrow>
     length (hn_tombstones g) = div_ceil (hn_len g) 64 \<and>
     {s. is_tombstoned g s} \<subseteq> {..<hn_len g} \<and>
     hn_tombstone_count g = card {s. is_tombstoned g s}"

definition entry_ok :: "hnsw \<Rightarrow> bool" where
  "entry_ok g \<longleftrightarrow>
     (case hn_entry g of
        None \<Rightarrow> hn_len g = 0 \<and> hn_max_level g < 256
      | Some e \<Rightarrow> e < hn_len g \<and> hn_levels g ! e = hn_max_level g \<and>
                  (\<forall>s<hn_len g. hn_levels g ! s \<le> hn_max_level g))"

definition graph_ok :: "hnsw \<Rightarrow> bool" where
  "graph_ok g \<longleftrightarrow> shape_ok g \<and> links_ok g \<and> words_ok g \<and> rows_ok g \<and> tombstones_ok g"

definition hnsw_wf :: "hnsw \<Rightarrow> bool" where
  "hnsw_wf g \<longleftrightarrow> graph_ok g \<and> entry_ok g"

section \<open>The contract of a link store\<close>

locale link_store =
  fixes inv :: "'g \<Rightarrow> bool"
    and valid :: "'g \<Rightarrow> nat \<Rightarrow> nat \<Rightarrow> bool"
    and cap :: "'g \<Rightarrow> nat \<Rightarrow> nat"
    and get :: "'g \<Rightarrow> nat \<Rightarrow> nat \<Rightarrow> nat list option"
    and put :: "'g \<Rightarrow> nat \<Rightarrow> nat \<Rightarrow> nat list \<Rightarrow> 'g option"
  assumes get_ok: "inv g \<Longrightarrow> valid g s l \<Longrightarrow> \<exists>ns. get g s l = Some ns \<and> length ns \<le> cap g l"
    and put_ok: "inv g \<Longrightarrow> valid g s l \<Longrightarrow> length xs \<le> cap g l \<Longrightarrow>
      \<exists>g'. put g s l xs = Some g' \<and> inv g' \<and> valid g' = valid g \<and> cap g' = cap g"
    and get_put: "inv g \<Longrightarrow> valid g s l \<Longrightarrow> length xs \<le> cap g l \<Longrightarrow> put g s l xs = Some g' \<Longrightarrow>
      valid g s' l' \<Longrightarrow> get g' s' l' = (if s' = s \<and> l' = l then Some xs else get g s' l')"
begin

text \<open>A store is closed when links lead to lists that exist.\<close>

definition closed :: "'g \<Rightarrow> bool" where
  "closed g \<longleftrightarrow> (\<forall>s l ns. valid g s l \<longrightarrow> get g s l = Some ns \<longrightarrow> (\<forall>t\<in>set ns. valid g t l))"

lemma closedD: "closed g \<Longrightarrow> valid g s l \<Longrightarrow> get g s l = Some ns \<Longrightarrow> t \<in> set ns \<Longrightarrow> valid g t l"
  by (auto simp: closed_def)

lemma put_closed:
  assumes "inv g" "closed g" "valid g s l" "length xs \<le> cap g l" "\<forall>t\<in>set xs. valid g t l"
  shows "\<exists>g'. put g s l xs = Some g' \<and> inv g' \<and> closed g' \<and> valid g' = valid g \<and> cap g' = cap g"
proof -
  obtain g' where g': "put g s l xs = Some g'" "inv g'" "valid g' = valid g" "cap g' = cap g"
    using put_ok [OF assms(1,3,4)] by blast
  have "closed g'"
    unfolding closed_def
  proof (intro allI impI)
    fix s' l' ns
    assume v: "valid g' s' l'" and n: "get g' s' l' = Some ns"
    show "\<forall>t\<in>set ns. valid g' t l'"
      using n get_put [OF assms(1,3,4) g'(1)] v assms(2,5)
      by (auto simp: g'(3) closed_def split: if_splits)
  qed
  with g' show ?thesis by blast
qed

end

section \<open>Lemmas: the flat arrays as a link store\<close>

lemma block_disjoint:
  fixes s t m :: nat
  assumes "s \<noteq> t" and "a \<le> m" and "b \<le> m"
  shows "s * m + a \<le> t * m \<or> t * m + b \<le> s * m"
proof (cases "s < t")
  case True
  then have "Suc s * m \<le> t * m" by (intro mult_le_mono) auto
  with assms show ?thesis by simp
next
  case False
  with assms have "Suc t * m \<le> s * m" by (intro mult_le_mono) auto
  with assms show ?thesis by simp
qed

lemma block_bound: "s < (n::nat) \<Longrightarrow> a \<le> m \<Longrightarrow> s * m + a \<le> n * m"
proof -
  assume "s < n" "a \<le> m"
  moreover from this have "Suc s * m \<le> n * m" by (intro mult_le_mono) auto
  ultimately show ?thesis by simp
qed

lemma neighbours_level0:
  assumes "shape_ok g" and "s < hn_len g"
  shows "neighbours g s 0 = slice (hn_level0 g) (s * hn_m0 g) (hn_level0_len g ! s)"
    and "\<exists>ns. neighbours g s 0 = Some ns \<and> length ns = hn_level0_len g ! s"
proof -
  show eq: "neighbours g s 0 = slice (hn_level0 g) (s * hn_m0 g) (hn_level0_len g ! s)"
    using assms by (simp add: neighbours_def index_def shape_ok_def)
  have "s * hn_m0 g + hn_level0_len g ! s \<le> length (hn_level0 g)"
    using assms block_bound [of s "hn_len g"] by (simp add: shape_ok_def)
  then show "\<exists>ns. neighbours g s 0 = Some ns \<and> length ns = hn_level0_len g ! s"
    by (auto simp: eq slice_def)
qed

lemma neighbours_upper:
  assumes "shape_ok g" and "s < hn_len g" and "l < hn_levels g ! s"
  shows "neighbours g s (Suc l) = slice (hn_upper g ! s) (l * hn_m g) (hn_upper_len g ! s ! l)"
    and "\<exists>ns. neighbours g s (Suc l) = Some ns \<and> length ns = hn_upper_len g ! s ! l"
proof -
  show eq: "neighbours g s (Suc l) = slice (hn_upper g ! s) (l * hn_m g) (hn_upper_len g ! s ! l)"
    using assms by (simp add: neighbours_def index_def shape_ok_def)
  have "l * hn_m g + hn_upper_len g ! s ! l \<le> length (hn_upper g ! s)"
    using assms block_bound [of l "hn_levels g ! s"] by (simp add: shape_ok_def)
  then show "\<exists>ns. neighbours g s (Suc l) = Some ns \<and> length ns = hn_upper_len g ! s ! l"
    by (auto simp: eq slice_def)
qed

lemma neighbours_ok:
  assumes "shape_ok g" and "has_level g s l"
  shows "\<exists>ns. neighbours g s l = Some ns \<and> length ns \<le> capacity g l"
proof (cases l)
  case 0
  with neighbours_level0 (2) [OF assms(1)] assms show ?thesis
    by (fastforce simp: has_level_def capacity_def shape_ok_def)
next
  case (Suc k)
  with neighbours_upper (2) [OF assms(1), of s k] assms show ?thesis
    by (fastforce simp: has_level_def capacity_def shape_ok_def)
qed

definition put_level0 :: "hnsw \<Rightarrow> nat \<Rightarrow> nat list \<Rightarrow> nat list \<Rightarrow> hnsw" where
  "put_level0 g s level0 list =
     g\<lparr>hn_level0 := level0, hn_level0_len := (hn_level0_len g)[s := length list]\<rparr>"

definition put_upper :: "hnsw \<Rightarrow> nat \<Rightarrow> nat \<Rightarrow> nat list \<Rightarrow> nat list \<Rightarrow> hnsw" where
  "put_upper g s l links list =
     g\<lparr>hn_upper := (hn_upper g)[s := links],
       hn_upper_len := (hn_upper_len g)[s := (hn_upper_len g ! s)[l := length list]]\<rparr>"

lemma set_neighbours_level0:
  assumes "shape_ok g" and "s < hn_len g" and "length xs \<le> hn_m0 g"
  obtains level0 where "splice (hn_level0 g) (s * hn_m0 g) xs = Some level0"
    and "set_neighbours g s 0 xs = Some (put_level0 g s level0 xs)"
proof -
  have "s * hn_m0 g + length xs \<le> length (hn_level0 g)"
    using assms block_bound [of s "hn_len g"] by (simp add: shape_ok_def)
  then obtain level0 where sp: "splice (hn_level0 g) (s * hn_m0 g) xs = Some level0"
    by (simp add: splice_def)
  moreover have "length xs < 256" using assms by (simp add: shape_ok_def)
  ultimately show ?thesis
    using assms that by (simp add: set_neighbours_def put_level0_def store_def shape_ok_def)
qed

lemma set_neighbours_upper:
  assumes "shape_ok g" and "s < hn_len g" and "l < hn_levels g ! s" and "length xs \<le> hn_m g"
  obtains links where "splice (hn_upper g ! s) (l * hn_m g) xs = Some links"
    and "set_neighbours g s (Suc l) xs = Some (put_upper g s l links xs)"
proof -
  have "l * hn_m g + length xs \<le> length (hn_upper g ! s)"
    using assms block_bound [of l "hn_levels g ! s"] by (simp add: shape_ok_def)
  then obtain links where sp: "splice (hn_upper g ! s) (l * hn_m g) xs = Some links"
    by (simp add: splice_def)
  moreover have "length xs < 256" using assms by (simp add: shape_ok_def)
  ultimately show ?thesis
    using assms that
    by (simp add: set_neighbours_def put_upper_def store_def index_def shape_ok_def)
qed

lemma put_fields [simp]:
  "hn_levels (put_level0 g s a xs) = hn_levels g" "hn_levels (put_upper g s l a xs) = hn_levels g"
  "hn_params (put_level0 g s a xs) = hn_params g" "hn_params (put_upper g s l a xs) = hn_params g"
  by (simp_all add: put_level0_def put_upper_def)

lemma put_level0_shape:
  assumes "shape_ok g" and "s < hn_len g" and "length xs \<le> hn_m0 g"
    and "splice (hn_level0 g) (s * hn_m0 g) xs = Some level0"
  shows "shape_ok (put_level0 g s level0 xs)"
  using assms length_splice [OF assms(4)]
  by (auto simp: shape_ok_def put_level0_def hn_len_def nth_list_update)

lemma put_upper_shape:
  assumes "shape_ok g" and "s < hn_len g" and "l < hn_levels g ! s" and "length xs \<le> hn_m g"
    and "splice (hn_upper g ! s) (l * hn_m g) xs = Some links"
  shows "shape_ok (put_upper g s l links xs)"
  using assms length_splice [OF assms(5)]
  by (auto simp: shape_ok_def put_upper_def hn_len_def nth_list_update)

lemma neighbours_put_level0:
  assumes ok: "shape_ok g" and s: "s < hn_len g" and xs: "length xs \<le> hn_m0 g"
    and sp: "splice (hn_level0 g) (s * hn_m0 g) xs = Some level0" and v: "has_level g s' l'"
  shows "neighbours (put_level0 g s level0 xs) s' l' =
    (if s' = s \<and> l' = 0 then Some xs else neighbours g s' l')"
proof (cases "l' = 0")
  case True
  let ?g = "put_level0 g s level0 xs"
  have s': "s' < hn_len g" using v by (simp add: has_level_def)
  then have "neighbours ?g s' 0 = slice level0 (s' * hn_m0 g) (hn_level0_len ?g ! s')"
    using neighbours_level0 (1) [OF put_level0_shape [OF ok s xs sp]]
    by (simp add: put_level0_def hn_len_def)
  moreover have "hn_level0_len g ! s' \<le> hn_m0 g" using ok s' by (simp add: shape_ok_def)
  then have "s' \<noteq> s \<Longrightarrow> slice level0 (s' * hn_m0 g) (hn_level0_len g ! s') =
      slice (hn_level0 g) (s' * hn_m0 g) (hn_level0_len g ! s')"
    using block_disjoint [of s' s] xs by (intro slice_splice_other [OF sp]) auto
  ultimately show ?thesis
    using True s s' ok neighbours_level0 (1) [OF ok s'] slice_splice_same [OF sp]
    by (auto simp: put_level0_def nth_list_update shape_ok_def)
next
  case False
  then show ?thesis by (simp add: neighbours_def put_level0_def)
qed

lemma neighbours_put_upper:
  assumes ok: "shape_ok g" and s: "s < hn_len g" and l: "l < hn_levels g ! s"
    and xs: "length xs \<le> hn_m g"
    and sp: "splice (hn_upper g ! s) (l * hn_m g) xs = Some links" and v: "has_level g s' l'"
  shows "neighbours (put_upper g s l links xs) s' l' =
    (if s' = s \<and> l' = Suc l then Some xs else neighbours g s' l')"
proof (cases l')
  case 0
  then show ?thesis by (simp add: neighbours_def put_upper_def)
next
  case (Suc k)
  let ?g = "put_upper g s l links xs"
  have s': "s' < hn_len g" "k < hn_levels g ! s'" using v Suc by (auto simp: has_level_def)
  then have "neighbours ?g s' (Suc k) =
      slice (hn_upper ?g ! s') (k * hn_m g) (hn_upper_len ?g ! s' ! k)"
    using neighbours_upper (1) [OF put_upper_shape [OF ok s l xs sp]]
    by (simp add: hn_len_def)
  moreover have "hn_upper_len g ! s ! k \<le> hn_m g" if "k < hn_levels g ! s"
    using ok s that by (simp add: shape_ok_def)
  then have "s' = s \<Longrightarrow> k \<noteq> l \<Longrightarrow> slice links (k * hn_m g) (hn_upper_len g ! s ! k) =
      slice (hn_upper g ! s) (k * hn_m g) (hn_upper_len g ! s ! k)"
    using block_disjoint [of k l] xs s' by (intro slice_splice_other [OF sp]) auto
  ultimately show ?thesis
    using Suc s s' l ok neighbours_upper (1) [OF ok s'] slice_splice_same [OF sp]
    by (auto simp: put_upper_def nth_list_update shape_ok_def)
qed

lemma put_has_level [simp]:
  "has_level (put_level0 g s a xs) = has_level g" "has_level (put_upper g s l a xs) = has_level g"
  "capacity (put_level0 g s a xs) = capacity g" "capacity (put_upper g s l a xs) = capacity g"
  by (auto simp: has_level_def hn_len_def capacity_def fun_eq_iff)

interpretation lk: link_store shape_ok has_level capacity neighbours set_neighbours
proof unfold_locales
  fix g s l and xs :: "nat list"
  assume ok: "shape_ok g" and v: "has_level g s l" and len: "length xs \<le> capacity g l"
  have s: "s < hn_len g" using v by (simp add: has_level_def)
  show "\<exists>g'. set_neighbours g s l xs = Some g' \<and> shape_ok g' \<and> has_level g' = has_level g \<and>
      capacity g' = capacity g"
  proof (cases l)
    case 0
    with len have xs: "length xs \<le> hn_m0 g" by (simp add: capacity_def)
    from set_neighbours_level0 [OF ok s xs] obtain a where
      a: "splice (hn_level0 g) (s * hn_m0 g) xs = Some a"
        "set_neighbours g s 0 xs = Some (put_level0 g s a xs)" .
    with 0 put_level0_shape [OF ok s xs a(1)] show ?thesis by simp
  next
    case (Suc k)
    with len v have xs: "length xs \<le> hn_m g" and k: "k < hn_levels g ! s"
      by (auto simp: capacity_def has_level_def)
    from set_neighbours_upper [OF ok s k xs] obtain a where
      a: "splice (hn_upper g ! s) (k * hn_m g) xs = Some a"
        "set_neighbours g s (Suc k) xs = Some (put_upper g s k a xs)" .
    with Suc put_upper_shape [OF ok s k xs a(1)] show ?thesis by simp
  qed
  fix g' s' l'
  assume put: "set_neighbours g s l xs = Some g'" and v': "has_level g s' l'"
  show "neighbours g' s' l' = (if s' = s \<and> l' = l then Some xs else neighbours g s' l')"
  proof (cases l)
    case 0
    with len have xs: "length xs \<le> hn_m0 g" by (simp add: capacity_def)
    from set_neighbours_level0 [OF ok s xs] obtain a where
      a: "splice (hn_level0 g) (s * hn_m0 g) xs = Some a"
        "set_neighbours g s 0 xs = Some (put_level0 g s a xs)" .
    with 0 put neighbours_put_level0 [OF ok s xs a(1) v'] show ?thesis by simp
  next
    case (Suc k)
    with len v have xs: "length xs \<le> hn_m g" and k: "k < hn_levels g ! s"
      by (auto simp: capacity_def has_level_def)
    from set_neighbours_upper [OF ok s k xs] obtain a where
      a: "splice (hn_upper g ! s) (k * hn_m g) xs = Some a"
        "set_neighbours g s (Suc k) xs = Some (put_upper g s k a xs)" .
    with Suc put neighbours_put_upper [OF ok s k xs a(1) v'] show ?thesis by simp
  qed
qed (rule neighbours_ok)

lemma links_ok_closed: "links_ok g = lk.closed g"
  by (simp add: links_ok_def lk.closed_def)

lemma set_neighbours_frame:
  assumes "set_neighbours g s l xs = Some g'"
  shows "\<exists>a b c d. g' = g\<lparr>hn_level0 := a, hn_level0_len := b, hn_upper := c, hn_upper_len := d\<rparr>"
proof -
  have "g' = g'\<lparr>hn_level0 := hn_level0 g', hn_level0_len := hn_level0_len g',
      hn_upper := hn_upper g', hn_upper_len := hn_upper_len g'\<rparr>" by simp
  also have "\<dots> = g\<lparr>hn_level0 := hn_level0 g', hn_level0_len := hn_level0_len g',
      hn_upper := hn_upper g', hn_upper_len := hn_upper_len g'\<rparr>"
    using assms by (auto simp: set_neighbours_def bind_eq_Some_conv split: if_splits)
  finally show ?thesis by blast
qed

text \<open>What a rewrite of links cannot touch.\<close>

definition same_rows :: "hnsw \<Rightarrow> hnsw \<Rightarrow> bool" where
  "same_rows g g' \<longleftrightarrow>
     hn_params g' = hn_params g \<and> hn_metric g' = hn_metric g \<and> hn_vectors g' = hn_vectors g \<and>
     hn_quantized g' = hn_quantized g \<and> hn_levels g' = hn_levels g \<and>
     hn_tombstones g' = hn_tombstones g \<and> hn_tombstone_count g' = hn_tombstone_count g \<and>
     hn_entry g' = hn_entry g \<and> hn_max_level g' = hn_max_level g"

lemma same_rows_refl [simp]: "same_rows g g"
  by (simp add: same_rows_def)

lemma same_rows_trans: "same_rows a b \<Longrightarrow> same_rows b c \<Longrightarrow> same_rows a c"
  by (simp add: same_rows_def)

lemma set_neighbours_same_rows: "set_neighbours g s l xs = Some g' \<Longrightarrow> same_rows g g'"
  using set_neighbours_frame [of g s l xs g'] by (auto simp: same_rows_def)

lemma same_rowsD:
  assumes "same_rows g g'"
  shows "hn_len g' = hn_len g" "has_level g' = has_level g" "capacity g' = capacity g"
    "hn_dist g' = hn_dist g" "rows_ok g' = rows_ok g" "tombstones_ok g' = tombstones_ok g"
    "entry_ok g' = entry_ok g" "is_tombstoned g' = is_tombstoned g" "hn_dims g' = hn_dims g"
  using assms
  by (auto simp: same_rows_def hn_len_def has_level_def capacity_def hn_dist_def rows_ok_def
      tombstones_ok_def entry_ok_def is_tombstoned_def hn_dims_def fun_eq_iff split: option.splits)

lemma set_splice: "splice xs i ys = Some zs \<Longrightarrow> set zs \<subseteq> set xs \<union> set ys"
  by (auto simp: splice_eq_Some dest: in_set_takeD in_set_dropD)

lemma set_neighbours_words:
  assumes put: "set_neighbours g s l xs = Some g'" and ok: "words_ok g" and xs: "set xs \<subseteq> {..<2 ^ 32}"
  shows "words_ok g'"
proof (cases "l = 0")
  case True
  with put obtain a where a: "splice (hn_level0 g) (s * hn_m0 g) xs = Some a" "hn_level0 g' = a"
    "hn_upper g' = hn_upper g" by (auto simp: set_neighbours_def bind_eq_Some_conv)
  with set_splice [OF a(1)] ok xs show ?thesis by (auto simp: words_ok_def)
next
  case False
  with put obtain a where a: "splice (hn_upper g ! s) ((l - 1) * hn_m g) xs = Some a"
    "hn_upper g' = (hn_upper g)[s := a]" "hn_level0 g' = hn_level0 g" "s < length (hn_upper g)"
    by (auto simp: set_neighbours_def bind_eq_Some_conv index_eq_Some)
  have "set a \<subseteq> {..<2 ^ 32}"
    using set_splice [OF a(1)] ok xs nth_mem [OF a(4)] unfolding words_ok_def by blast
  then have "\<forall>links\<in>set (hn_upper g'). set links \<subseteq> {..<2 ^ 32}"
    using ok set_update_subset_insert [of "hn_upper g" s a] unfolding a(2) words_ok_def by blast
  then show ?thesis using ok by (simp add: words_ok_def a(3))
qed

text \<open>Rewriting one list with valid links keeps the invariant.\<close>

lemma set_neighbours_graph_ok:
  assumes "graph_ok g" and "has_level g s l" and "length xs \<le> capacity g l"
    and "\<forall>t\<in>set xs. has_level g t l"
  shows "\<exists>g'. set_neighbours g s l xs = Some g' \<and> graph_ok g' \<and> same_rows g g'"
proof -
  have "shape_ok g" "lk.closed g" using assms(1) by (simp_all add: graph_ok_def links_ok_closed)
  from lk.put_closed [OF this assms(2-4)] obtain g' where
    g': "set_neighbours g s l xs = Some g'" "shape_ok g'" "lk.closed g'" by auto
  moreover have "same_rows g g'" by (rule set_neighbours_same_rows [OF g'(1)])
  moreover have "words_ok g'"
    using assms(1,4)
    by (intro set_neighbours_words [OF g'(1)]) (fastforce simp: graph_ok_def rows_ok_def has_level_def)+
  ultimately show ?thesis
    using assms(1) by (auto simp: graph_ok_def links_ok_closed same_rowsD)
qed

text \<open>Appending in place is rewriting the list.\<close>

lemma append_link_set:
  assumes ok: "shape_ok g" and v: "has_level g s l" and ns: "neighbours g s l = Some ns"
    and room: "length ns < capacity g l"
  shows "append_link g s l (length ns) t = set_neighbours g s l (ns @ [t])"
proof (cases l)
  case 0
  have s: "s < hn_len g" using v by (simp add: has_level_def)
  have len: "length ns = hn_level0_len g ! s"
    using neighbours_level0 (2) [OF ok s] ns 0 by auto
  have "slice (hn_level0 g) (s * hn_m0 g) (length ns) = Some ns"
    using neighbours_level0 (1) [OF ok s] ns 0 len by simp
  from splice_extend [OF this, of t] len s ok 0 show ?thesis
    by (cases "store (hn_level0 g) (s * hn_m0 g + hn_level0_len g ! s) t")
      (simp_all add: append_link_def set_neighbours_def index_def store_def [of "hn_level0_len g"]
        shape_ok_def)
next
  case (Suc k)
  have s: "s < hn_len g" and k: "k < hn_levels g ! s" using v Suc by (auto simp: has_level_def)
  have len: "length ns = hn_upper_len g ! s ! k"
    using neighbours_upper (2) [OF ok s k] ns Suc by auto
  have "slice (hn_upper g ! s) (k * hn_m g) (length ns) = Some ns"
    using neighbours_upper (1) [OF ok s k] ns Suc len by simp
  from splice_extend [OF this, of t] len s k ok Suc show ?thesis
    by (cases "store (hn_upper g ! s) (k * hn_m g + hn_upper_len g ! s ! k) t")
      (simp_all add: append_link_def set_neighbours_def index_def
        store_def [of "hn_upper_len g ! s"] shape_ok_def)
qed

section \<open>Lemmas: tombstones\<close>

definition tomb_set :: "hnsw \<Rightarrow> visited" where
  "tomb_set g = \<lparr>vis_bits = hn_tombstones g, vis_touched = []\<rparr>"

lemma is_tombstoned_iff: "is_tombstoned g s \<longleftrightarrow> s \<in> visited_slots (tomb_set g)"
  by (simp add: is_tombstoned_def visited_slots_def tomb_set_def index_def and_slot_mask)

lemma tombstone_insert:
  assumes "s < hn_len g"
  shows "tombstone g s = map_option (\<lambda>(new, v).
    (new, g\<lparr>hn_tombstones := vis_bits v,
           hn_tombstone_count := hn_tombstone_count g + (if new then 1 else 0)\<rparr>))
    (visited_insert s (tomb_set g))"
  using assms
  by (cases "index (hn_tombstones g) (s div 64)")
    (auto simp: tombstone_def visited_insert_def tomb_set_def)

lemma tombstone_ok:
  assumes ok: "tombstones_ok g" and s: "s < hn_len g"
  shows "\<exists>g'. tombstone g s = Some (\<not> is_tombstoned g s, g') \<and> tombstones_ok g' \<and>
    (\<forall>t. is_tombstoned g' t \<longleftrightarrow> t = s \<or> is_tombstoned g t) \<and>
    g' = g\<lparr>hn_tombstones := hn_tombstones g', hn_tombstone_count := hn_tombstone_count g'\<rparr>"
proof -
  let ?T = "{t. is_tombstoned g t}"
  have room: "s < visited_room (tomb_set g)"
    using ok s div_ceil_ge [of 64 "hn_len g"]
    by (simp add: tombstones_ok_def visited_room_def tomb_set_def)
  from vis.insert_ok [OF room] obtain v where
    v: "visited_insert s (tomb_set g) = Some (s \<notin> visited_slots (tomb_set g), v)"
      "visited_slots v = insert s (visited_slots (tomb_set g))"
      "visited_room v = visited_room (tomb_set g)" by blast
  define g' where "g' = g\<lparr>hn_tombstones := vis_bits v,
      hn_tombstone_count := hn_tombstone_count g + (if is_tombstoned g s then 0 else 1)\<rparr>"
  have tomb: "is_tombstoned g' t \<longleftrightarrow> t = s \<or> is_tombstoned g t" for t
    using v(2) by (simp add: is_tombstoned_iff visited_slots_def tomb_set_def g'_def set_eq_iff)
  have eq: "{t. is_tombstoned g' t} = insert s ?T" using tomb by auto
  have "finite ?T" using ok by (auto simp: tombstones_ok_def intro: finite_subset)
  then have "hn_tombstone_count g' = card (insert s ?T)"
    using ok by (auto simp: g'_def tombstones_ok_def card_insert_if)
  moreover have "insert s ?T \<subseteq> {..<hn_len g'}"
    using ok s by (auto simp: tombstones_ok_def g'_def hn_len_def)
  moreover have "length (hn_tombstones g') = div_ceil (hn_len g') 64"
    using ok v(3) by (simp add: tombstones_ok_def visited_room_def tomb_set_def g'_def hn_len_def)
  ultimately have "tombstones_ok g'" by (simp add: tombstones_ok_def eq)
  moreover have "tombstone g s = Some (\<not> is_tombstoned g s, g')"
    by (simp add: tombstone_insert [OF s] v(1) is_tombstoned_iff g'_def)
  ultimately show ?thesis using tomb by (simp add: g'_def)
qed

lemma tombstones_update [simp]:
  "hn_len (g\<lparr>hn_tombstones := t, hn_tombstone_count := c\<rparr>) = hn_len g"
  "neighbours (g\<lparr>hn_tombstones := t, hn_tombstone_count := c\<rparr>) = neighbours g"
  "has_level (g\<lparr>hn_tombstones := t, hn_tombstone_count := c\<rparr>) = has_level g"
  "hn_dims (g\<lparr>hn_tombstones := t, hn_tombstone_count := c\<rparr>) = hn_dims g"
  by (auto simp: hn_len_def neighbours_def has_level_def hn_dims_def fun_eq_iff)

lemma hnsw_wf_tombstone:
  assumes wf: "hnsw_wf g" and s: "s < hn_len g"
  shows "\<exists>g'. tombstone g s = Some (\<not> is_tombstoned g s, g') \<and> hnsw_wf g' \<and>
    (\<forall>t. is_tombstoned g' t \<longleftrightarrow> t = s \<or> is_tombstoned g t) \<and>
    g' = g\<lparr>hn_tombstones := hn_tombstones g', hn_tombstone_count := hn_tombstone_count g'\<rparr>"
proof -
  have ok: "graph_ok g" "entry_ok g" using wf by (simp_all add: hnsw_wf_def)
  then have "tombstones_ok g" by (simp add: graph_ok_def)
  from tombstone_ok [OF this s] obtain g' where g': "tombstone g s = Some (\<not> is_tombstoned g s, g')"
    "tombstones_ok g'" "\<forall>t. is_tombstoned g' t \<longleftrightarrow> t = s \<or> is_tombstoned g t"
    "g' = g\<lparr>hn_tombstones := hn_tombstones g', hn_tombstone_count := hn_tombstone_count g'\<rparr>" by blast
  obtain t c where eq: "g' = g\<lparr>hn_tombstones := t, hn_tombstone_count := c\<rparr>" using g'(4) by blast
  have "shape_ok g'" "links_ok g'" "words_ok g'" "rows_ok g'" "entry_ok g'"
    using ok unfolding eq
    by (simp_all add: graph_ok_def shape_ok_def links_ok_def words_ok_def rows_ok_def entry_ok_def
        split: option.splits)
  then have "hnsw_wf g'" using g'(2) by (simp add: hnsw_wf_def graph_ok_def)
  with g' show ?thesis by blast
qed

section \<open>Lemmas: rows and levels\<close>

lemma hn_dist_Some:
  assumes "rows_ok g" and "s < hn_len g"
  shows "\<exists>row. flat_get (hn_vectors g) s = Some row \<and> length row = hn_dims g \<and>
    hn_dist g q s = Some (distance (hn_metric g) q row)"
proof -
  have "s < 2 ^ 32" "s < flat_len (hn_vectors g)" "flat_wf (hn_vectors g)"
    using assms by (auto simp: rows_ok_def)
  from flat.get_in_range [OF this(3,2,1)] show ?thesis
    by (auto simp: hn_dist_def hn_dims_def)
qed

lemma hn_dist_out_of_range:
  assumes "rows_ok g" and "hn_len g \<le> s" and "s < 2 ^ 32"
  shows "hn_dist g q s = None"
  using flat.get_beyond [of "hn_vectors g" s] assms by (simp add: hn_dist_def rows_ok_def)

lemma hnsw_new_wf:
  assumes "0 < dims" "dims \<le> 65536" "hp_m params \<le> 255" "hp_m0 params \<le> 255"
  shows "hnsw_wf (hnsw_new dims metric params)"
  using assms flat_new_wf [of dims] quant_new_wf [of dims]
  by (simp add: hnsw_wf_def graph_ok_def entry_ok_def shape_ok_def links_ok_def words_ok_def rows_ok_def
      tombstones_ok_def hnsw_new_def hn_len_def hn_dims_def has_level_def is_tombstoned_def
      index_def quant_len_def quant_new_def flat_wf_len)

lemma hnsw_from_parts_graph_parts:
  assumes "hnsw_wf g"
  shows "hnsw_from_parts (hn_params g) (hn_metric g) (hn_vectors g) (hn_quantized g)
    (hnsw_graph_parts g) = Some g"
proof -
  have "\<not> list_ex (\<lambda>(level, upper, upper_len). length upper \<noteq> level * hn_m g \<or> length upper_len \<noteq> level)
      (zip (hn_levels g) (zip (hn_upper g) (hn_upper_len g)))"
    using assms by (auto simp: hnsw_wf_def graph_ok_def shape_ok_def list_ex_iff in_set_zip hn_len_def)
  with assms show ?thesis
    by (auto simp: hnsw_from_parts_def hnsw_graph_parts_def hnsw_wf_def graph_ok_def shape_ok_def
        rows_ok_def tombstones_ok_def entry_ok_def hn_len_def Let_def split: option.splits)
qed

lemma level_for_le: "level_for ln64 params slot \<le> 31"
  by (simp add: level_for_def Let_def f64_min_31)

end
