(* ===== verification/Hnsw_Traverse.thy ===== *)
theory Hnsw_Traverse
  imports Hnsw_Graph
begin

text \<open>
  The two traversals of a level (\<open>greedy_closest\<close> and \<open>search_layer\<close> in \<open>hnsw.rs\<close>), once for
  \<open>Hnsw\<close> and \<open>BuildCore\<close>, whose loops are the same up to where they read links and whether
  results are masked. A traversal takes a reader of neighbour lists, which also sees how many
  lists have been read before (under a parallel build the lists change between two reads), and
  a distance, both of which may panic.

  Both loops terminate whatever the reader returns: the greedy walk because the pair of
  distance and slot decreases, the beam search because a slot is visited once.
  The locale \<open>search_space\<close> states what a traversal relies on; \<open>static_space\<close> adds that the
  links do not change, under which a beam as wide as the level returns every reachable slot.
\<close>

type_synonym reader = "nat \<Rightarrow> nat \<Rightarrow> nat list option"

section \<open>The greedy walk\<close>

definition improves :: "f32 \<Rightarrow> nat \<Rightarrow> f32 \<Rightarrow> nat \<Rightarrow> bool" where
  "improves d n best current \<longleftrightarrow> f32_lt d best \<or> (f32_eq d best \<and> n < current)"

fun greedy_scan ::
  "(nat \<Rightarrow> f32 option) \<Rightarrow> nat list \<Rightarrow> f32 \<Rightarrow> nat \<Rightarrow> bool \<Rightarrow> (f32 \<times> nat \<times> bool) option" where
  "greedy_scan dist [] best current improved = Some (best, current, improved)"
| "greedy_scan dist (neighbour # ns) best current improved =
     (case dist neighbour of
        None \<Rightarrow> None
      | Some d \<Rightarrow>
          if improves d neighbour best current then greedy_scan dist ns d neighbour True
          else greedy_scan dist ns best current improved)"

definition walk_order :: "((f32 \<times> nat) \<times> f32 \<times> nat) set" where
  "walk_order = {((d, n), best, current). improves d n best current}"

lemma wf_walk_order: "wf walk_order"
proof (rule wf_subset)
  show "wf (measures [\<lambda>(d, n). nat (f32_key d + 2 ^ 32), \<lambda>(d :: f32, n). n])" by simp
  have "0 < f32_key b + 4294967296" for b
    using f32_mag_bound [of b] by (auto simp: f32_key_def signed_int_def)
  then show "walk_order \<subseteq> measures [\<lambda>(d, n). nat (f32_key d + 2 ^ 32), \<lambda>(d :: f32, n). n]"
    by (auto simp: walk_order_def improves_def f32_lt_def f32_eq_def)
qed

lemma improves_trans: "improves a i b j \<Longrightarrow> improves b j c k \<Longrightarrow> improves a i c k"
  by (auto simp: improves_def f32_lt_def f32_eq_def)

lemma greedy_scan_improves:
  "greedy_scan dist ns best current improved = Some (best', current', improved') \<Longrightarrow>
    improved' = improved \<and> best' = best \<and> current' = current \<or>
    improved' \<and> improves best' current' best current"
proof (induction ns arbitrary: best current improved)
  case (Cons n ns)
  then show ?case
    by (auto split: option.splits if_splits dest: Cons.IH intro: improves_trans)
qed simp

function greedy_loop :: "reader \<Rightarrow> (nat \<Rightarrow> f32 option) \<Rightarrow> nat \<Rightarrow> f32 \<Rightarrow> nat \<Rightarrow> nat option" where
  "greedy_loop read dist clock best current =
     (case read clock current of
        None \<Rightarrow> None
      | Some ns \<Rightarrow>
          (case greedy_scan dist ns best current False of
             None \<Rightarrow> None
           | Some (best', current', improved) \<Rightarrow>
               if improved then greedy_loop read dist (Suc clock) best' current'
               else Some current'))"
  by pat_completeness auto
termination
proof (relation "inv_image walk_order (\<lambda>(read, dist, clock, best, current). (best, current))")
  show "wf (inv_image walk_order (\<lambda>(read :: reader, dist :: nat \<Rightarrow> f32 option, clock :: nat, best, current).
      (best, current)))"
    by (rule wf_inv_image [OF wf_walk_order])
qed (auto simp: walk_order_def dest!: greedy_scan_improves)

declare greedy_loop.simps [simp del]

definition greedy_closest :: "reader \<Rightarrow> (nat \<Rightarrow> f32 option) \<Rightarrow> nat \<Rightarrow> nat option" where
  "greedy_closest read dist current =
     Option.bind (dist current) (\<lambda>best. greedy_loop read dist 0 best current)"

text \<open>\<open>while level > target\<close>: one walk per level on the way down.\<close>

fun greedy_descend :: "(nat \<Rightarrow> nat \<Rightarrow> nat option) \<Rightarrow> nat \<Rightarrow> nat \<Rightarrow> nat \<Rightarrow> nat option" where
  "greedy_descend walk target entry 0 = Some entry"
| "greedy_descend walk target entry (Suc level) =
     (if target < Suc level
      then Option.bind (walk (Suc level) entry) (\<lambda>e. greedy_descend walk target e level)
      else Some entry)"

section \<open>The beam search\<close>

record beam =
  bm_visited :: visited
  bm_candidates :: "far list"
  bm_results :: "far list"

definition beam_admits :: "nat \<Rightarrow> far list \<Rightarrow> far \<Rightarrow> bool" where
  "beam_admits ef results x \<longleftrightarrow>
     length results < ef \<or>
     (case heap_peek results of None \<Rightarrow> False | Some worst \<Rightarrow> far_cmp x worst = Less)"

definition beam_done :: "nat \<Rightarrow> far list \<Rightarrow> far \<Rightarrow> bool" where
  "beam_done ef results x \<longleftrightarrow>
     ef \<le> length results \<and>
     (case heap_peek results of None \<Rightarrow> False | Some worst \<Rightarrow> far_cmp x worst = Greater)"

fun beam_seed :: "(nat \<Rightarrow> f32 option) \<Rightarrow> (nat \<Rightarrow> bool) \<Rightarrow> nat list \<Rightarrow> beam \<Rightarrow> beam option" where
  "beam_seed dist accepts [] b = Some b"
| "beam_seed dist accepts (entry # entries) b =
     (case visited_insert entry (bm_visited b) of
        None \<Rightarrow> None
      | Some (False, v) \<Rightarrow> beam_seed dist accepts entries (b\<lparr>bm_visited := v\<rparr>)
      | Some (True, v) \<Rightarrow>
          (case dist entry of
             None \<Rightarrow> None
           | Some d \<Rightarrow>
               beam_seed dist accepts entries
                 \<lparr>bm_visited = v,
                  bm_candidates = heap_push near_cmp (d, entry) (bm_candidates b),
                  bm_results = (if accepts entry then heap_push far_cmp (d, entry) (bm_results b)
                                else bm_results b)\<rparr>))"

fun beam_expand ::
  "(nat \<Rightarrow> f32 option) \<Rightarrow> (nat \<Rightarrow> bool) \<Rightarrow> nat \<Rightarrow> nat list \<Rightarrow> beam \<Rightarrow> beam option" where
  "beam_expand dist accepts ef [] b = Some b"
| "beam_expand dist accepts ef (neighbour # ns) b =
     (case visited_insert neighbour (bm_visited b) of
        None \<Rightarrow> None
      | Some (False, v) \<Rightarrow> beam_expand dist accepts ef ns (b\<lparr>bm_visited := v\<rparr>)
      | Some (True, v) \<Rightarrow>
          (case dist neighbour of
             None \<Rightarrow> None
           | Some d \<Rightarrow>
               if beam_admits ef (bm_results b) (d, neighbour)
               then beam_expand dist accepts ef ns
                 \<lparr>bm_visited = v,
                  bm_candidates = heap_push near_cmp (d, neighbour) (bm_candidates b),
                  bm_results =
                    (if accepts neighbour
                     then let r = heap_push far_cmp (d, neighbour) (bm_results b)
                          in if ef < length r then heap_pop r else r
                     else bm_results b)\<rparr>
               else beam_expand dist accepts ef ns (b\<lparr>bm_visited := v\<rparr>)))"

definition beam_size :: "beam \<Rightarrow> nat" where
  "beam_size b = vis.unvisited (bm_visited b) + length (bm_candidates b)"

lemma beam_expand_size: "beam_expand dist accepts ef ns b = Some b' \<Longrightarrow> beam_size b' \<le> beam_size b"
proof (induction ns arbitrary: b)
  case (Cons n ns)
  then obtain new v where ins: "visited_insert n (bm_visited b) = Some (new, v)"
    by (auto split: option.splits)
  show ?case
  proof (cases new)
    case True
    with ins have "vis.unvisited (bm_visited b) = Suc (vis.unvisited v)"
      by (auto dest: vis.insert_new)
    with True ins Cons.prems show ?thesis
      by (fastforce simp: beam_size_def split: option.splits if_splits dest: Cons.IH)
  next
    case False
    with ins have "vis.unvisited v = vis.unvisited (bm_visited b)" by (auto dest: vis.insert_old)
    with False ins Cons.prems show ?thesis by (fastforce simp: beam_size_def dest: Cons.IH)
  qed
qed simp

function beam_loop ::
  "reader \<Rightarrow> (nat \<Rightarrow> f32 option) \<Rightarrow> (nat \<Rightarrow> bool) \<Rightarrow> nat \<Rightarrow> nat \<Rightarrow> beam \<Rightarrow> beam option" where
  "beam_loop read dist accepts ef clock b =
     (case heap_peek (bm_candidates b) of
        None \<Rightarrow> Some b
      | Some x \<Rightarrow>
          if beam_done ef (bm_results b) x
          then Some (b\<lparr>bm_candidates := heap_pop (bm_candidates b)\<rparr>)
          else (case read clock (snd x) of
                  None \<Rightarrow> None
                | Some ns \<Rightarrow>
                    (case beam_expand dist accepts ef ns
                            (b\<lparr>bm_candidates := heap_pop (bm_candidates b)\<rparr>) of
                       None \<Rightarrow> None
                     | Some b' \<Rightarrow> beam_loop read dist accepts ef (Suc clock) b')))"
  by pat_completeness auto
termination
proof (relation "measure (\<lambda>(read, dist, accepts, ef, clock, b). beam_size b)")
  fix read dist accepts ef clock and b :: beam and x ns b'
  assume x: "heap_peek (bm_candidates b) = Some x"
    and b': "beam_expand dist accepts ef ns
      (b\<lparr>bm_candidates := heap_pop (bm_candidates b)\<rparr>) = Some b'"
  have "length (bm_candidates b) \<noteq> 0" using x by (auto simp: heap_peek_def split: list.splits)
  then have "beam_size (b\<lparr>bm_candidates := heap_pop (bm_candidates b)\<rparr>) < beam_size b"
    by (simp add: beam_size_def)
  with beam_expand_size [OF b']
  show "((read, dist, accepts, ef, Suc clock, b'), read, dist, accepts, ef, clock, b)
      \<in> measure (\<lambda>(read, dist, accepts, ef, clock, b). beam_size b)" by simp
qed simp

declare beam_loop.simps [simp del]

text \<open>The scratch set of the thread is reset first; the beam holds the results and the scratch
  set afterwards.\<close>

definition search_layer ::
  "visited \<Rightarrow> nat \<Rightarrow> reader \<Rightarrow> (nat \<Rightarrow> f32 option) \<Rightarrow> nat list \<Rightarrow> nat \<Rightarrow> (nat \<Rightarrow> bool) \<Rightarrow>
    beam option" where
  "search_layer scratch slots read dist entries ef accepts =
     Option.bind (visited_reset slots scratch) (\<lambda>v.
     Option.bind (beam_seed dist accepts entries
         \<lparr>bm_visited = v, bm_candidates = [], bm_results = []\<rparr>) (\<lambda>b.
       beam_loop read dist accepts ef 0 b))"

text \<open>The slots a traversal can reach from its entries.\<close>

inductive reachable :: "(nat \<Rightarrow> nat list option) \<Rightarrow> nat set \<Rightarrow> nat \<Rightarrow> bool" for links entries where
  entry: "s \<in> entries \<Longrightarrow> reachable links entries s"
| link: "reachable links entries s \<Longrightarrow> links s = Some ns \<Longrightarrow> t \<in> set ns \<Longrightarrow>
    reachable links entries t"

section \<open>What a traversal relies on\<close>

lemma distinct_snd_push: "distinct (map snd (heap_push cmp x h)) \<longleftrightarrow>
  snd x \<notin> snd ` set h \<and> distinct (map snd h)"
proof -
  have "mset (map snd (heap_push cmp x h)) = mset (map snd (x # h))"
    by (simp only: mset_map list_heap.elems_push mset.simps)
  then have "distinct (map snd (heap_push cmp x h)) = distinct (map snd (x # h))"
    by (rule mset_eq_imp_distinct_iff)
  then show ?thesis by simp
qed

lemma distinct_snd_pop: "distinct (map snd h) \<Longrightarrow> distinct (map snd (heap_pop h))"
  by (cases h) (auto simp: heap_pop_def)

locale search_space =
  fixes inv :: "'g \<Rightarrow> bool"
    and slots :: "'g \<Rightarrow> nat"
    and valid :: "'g \<Rightarrow> nat \<Rightarrow> nat \<Rightarrow> bool"
    and read :: "'g \<Rightarrow> nat \<Rightarrow> reader"
    and dist :: "'g \<Rightarrow> 'q \<Rightarrow> nat \<Rightarrow> f32 option"
  assumes valid_range: "inv g \<Longrightarrow> valid g s l \<Longrightarrow> s < slots g"
    and valid_down: "inv g \<Longrightarrow> valid g s (Suc l) \<Longrightarrow> valid g s l"
    and read_ok: "inv g \<Longrightarrow> valid g s l \<Longrightarrow> \<exists>ns. read g l c s = Some ns \<and> (\<forall>t\<in>set ns. valid g t l)"
    and dist_ok: "inv g \<Longrightarrow> s < slots g \<Longrightarrow> \<exists>d. dist g q s = Some d"
begin

lemma dist_valid: "inv g \<Longrightarrow> valid g s l \<Longrightarrow> \<exists>d. dist g q s = Some d"
  by (rule dist_ok) (auto intro: valid_range)

text \<open>The walk ends on a valid slot at least as good as its start, none of whose last-read
  neighbours is better.\<close>

lemma greedy_scan_ok:
  assumes "inv g" and "\<forall>n\<in>set ns. valid g n l" and "valid g cur l" and "dist g q cur = Some best"
  shows "\<exists>best' cur' imp. greedy_scan (dist g q) ns best cur flag = Some (best', cur', imp) \<and>
    valid g cur' l \<and> dist g q cur' = Some best' \<and>
    (\<not> imp \<longrightarrow> (\<forall>n\<in>set ns. \<forall>d. dist g q n = Some d \<longrightarrow> \<not> improves d n best cur))"
  using assms(2-)
proof (induction ns arbitrary: best cur flag)
  case (Cons n ns)
  then have "valid g n l" by simp
  then obtain d where d: "dist g q n = Some d" using dist_valid [OF assms(1)] by blast
  show ?case
  proof (cases "improves d n best cur")
    case True
    from Cons.IH [of n d True] Cons.prems d obtain b' c' i where
      r: "greedy_scan (dist g q) ns d n True = Some (b', c', i)" "valid g c' l"
        "dist g q c' = Some b'" by auto
    moreover have i by (use greedy_scan_improves [OF r(1)] in auto)
    ultimately show ?thesis using True d by auto
  next
    case False
    from Cons.IH [of cur best flag] Cons.prems d False show ?thesis by auto
  qed
qed simp

lemma greedy_loop_ok:
  assumes "inv g" and "valid g cur l" and "dist g q cur = Some best"
  shows "\<exists>r d c ns. greedy_loop (read g l) (dist g q) clock best cur = Some r \<and> valid g r l \<and>
    dist g q r = Some d \<and> (r = cur \<or> improves d r best cur) \<and> read g l c r = Some ns \<and>
    (\<forall>n\<in>set ns. \<forall>d'. dist g q n = Some d' \<longrightarrow> \<not> improves d' n d r)"
  using assms(2,3)
proof (induction "(best, cur)" arbitrary: best cur clock rule: wf_induct_rule [OF wf_walk_order])
  case (1 best cur)
  obtain ns where ns: "read g l clock cur = Some ns" "\<forall>t\<in>set ns. valid g t l"
    using read_ok [OF assms(1) "1.prems"(1)] by blast
  obtain b' c' imp where sc: "greedy_scan (dist g q) ns best cur False = Some (b', c', imp)"
    "valid g c' l" "dist g q c' = Some b'"
    "\<not> imp \<longrightarrow> (\<forall>n\<in>set ns. \<forall>d. dist g q n = Some d \<longrightarrow> \<not> improves d n best cur)"
    using greedy_scan_ok [OF assms(1) ns(2) "1.prems"] by blast
  show ?case
  proof (cases imp)
    case True
    then have better: "improves b' c' best cur" using greedy_scan_improves [OF sc(1)] by auto
    then have "((b', c'), best, cur) \<in> walk_order" by (simp add: walk_order_def)
    from "1.hyps" [OF this sc(2,3), of "Suc clock"] obtain r d c ms where
      r: "greedy_loop (read g l) (dist g q) (Suc clock) b' c' = Some r" "valid g r l"
        "dist g q r = Some d" "r = c' \<or> improves d r b' c'" "read g l c r = Some ms"
        "\<forall>n\<in>set ms. \<forall>d'. dist g q n = Some d' \<longrightarrow> \<not> improves d' n d r" by blast
    have "improves d r best cur" using r(3,4) sc(3) better by (auto intro: improves_trans)
    moreover have "greedy_loop (read g l) (dist g q) clock best cur = Some r"
      using r(1) True sc(1) ns(1) by (subst greedy_loop.simps) simp
    ultimately show ?thesis using r by blast
  next
    case False
    then have "b' = best" "c' = cur" using greedy_scan_improves [OF sc(1)] by auto
    with False sc ns(1) show ?thesis by (subst greedy_loop.simps) auto
  qed
qed

lemma greedy_closest_ok:
  assumes "inv g" and "valid g cur l"
  shows "\<exists>r. greedy_closest (read g l) (dist g q) cur = Some r \<and> valid g r l"
  using dist_valid [OF assms, of q] greedy_loop_ok [OF assms]
  by (fastforce simp: greedy_closest_def)

lemma valid_mono: "inv g \<Longrightarrow> l' \<le> l \<Longrightarrow> valid g s l \<Longrightarrow> valid g s l'"
  by (induction l) (auto simp: le_Suc_eq dest: valid_down)

lemma greedy_descend_ok:
  assumes "inv g" and "valid g entry level"
  shows "\<exists>r. greedy_descend (\<lambda>l. greedy_closest (read g l) (dist g q)) target entry level = Some r \<and>
    valid g r (min target level)"
  using assms(2)
proof (induction level arbitrary: entry)
  case (Suc level)
  show ?case
  proof (cases "target < Suc level")
    case True
    obtain e where e: "greedy_closest (read g (Suc level)) (dist g q) entry = Some e"
      "valid g e (Suc level)" using greedy_closest_ok [OF assms(1) Suc.prems] by blast
    from Suc.IH [OF valid_down [OF assms(1) e(2)]] e(1) True show ?thesis by auto
  next
    case False
    then show ?thesis using Suc.prems by (simp add: min_def split: if_splits)
  qed
qed simp

text \<open>The invariant of the beam: visited slots are valid, candidates and results are visited
  and carry their distance, results are accepted and appear once.\<close>

definition beam_inv :: "'g \<Rightarrow> nat \<Rightarrow> 'q \<Rightarrow> (nat \<Rightarrow> bool) \<Rightarrow> beam \<Rightarrow> bool" where
  "beam_inv g l q accepts b \<longleftrightarrow>
     visited_wf (bm_visited b) \<and> slots g \<le> visited_room (bm_visited b) \<and>
     (\<forall>s\<in>visited_slots (bm_visited b). valid g s l) \<and>
     (\<forall>x\<in>set (bm_candidates b) \<union> set (bm_results b).
        snd x \<in> visited_slots (bm_visited b) \<and> dist g q (snd x) = Some (fst x)) \<and>
     (\<forall>x\<in>set (bm_results b). accepts (snd x)) \<and> distinct (map snd (bm_results b))"

lemma beam_inv_push:
  assumes b: "beam_inv g l q accepts b" and s: "valid g s l" "dist g q s = Some d"
    and v: "visited_wf v" "visited_room v = visited_room (bm_visited b)"
      "visited_slots v = insert s (visited_slots (bm_visited b))"
    and r: "set r \<subseteq> insert (d, s) (set (bm_results b))" "(d, s) \<in> set r \<Longrightarrow> accepts s"
      "distinct (map snd r)"
    and c: "set c \<subseteq> insert (d, s) (set (bm_candidates b))"
  shows "beam_inv g l q accepts \<lparr>bm_visited = v, bm_candidates = c, bm_results = r\<rparr>"
proof -
  have "accepts (snd x)" if "x \<in> set r" for x
    using that r(1,2) b by (cases "x = (d, s)") (auto simp: beam_inv_def)
  moreover have "snd x \<in> visited_slots v \<and> dist g q (snd x) = Some (fst x)"
    if "x \<in> set c \<union> set r" for x
  proof -
    from that r(1) c have "x = (d, s) \<or> x \<in> set (bm_candidates b) \<union> set (bm_results b)" by blast
    then show ?thesis using b s v(3) by (auto simp: beam_inv_def)
  qed
  ultimately show ?thesis
    using b s v r(3) by (auto simp: beam_inv_def)
qed

lemma visit_new:
  assumes "inv g" and "beam_inv g l q accepts b" and "valid g s l"
    and "s \<notin> visited_slots (bm_visited b)"
  obtains v where "visited_insert s (bm_visited b) = Some (True, v)" "visited_wf v"
    "visited_room v = visited_room (bm_visited b)"
    "visited_slots v = insert s (visited_slots (bm_visited b))"
proof -
  have "s < visited_room (bm_visited b)"
    using valid_range [OF assms(1,3)] assms(2) by (simp add: beam_inv_def)
  from vis.insert_ok [OF this] assms that show ?thesis by (auto simp: beam_inv_def)
qed

lemma visit_old:
  assumes "beam_inv g l q accepts b" and "s \<in> visited_slots (bm_visited b)"
  obtains v where "visited_insert s (bm_visited b) = Some (False, v)"
    "visited_slots v = visited_slots (bm_visited b)"
    "beam_inv g l q accepts (b\<lparr>bm_visited := v\<rparr>)"
proof -
  have "s < visited_room (bm_visited b)" using vis.slots_room assms(2) by blast
  from vis.insert_ok [OF this] obtain v where v: "visited_insert s (bm_visited b) = Some (False, v)"
    "visited_slots v = insert s (visited_slots (bm_visited b))"
    "visited_room v = visited_room (bm_visited b)"
    "visited_wf (bm_visited b) \<longrightarrow> visited_wf v" using assms(2) by auto
  moreover from this have "beam_inv g l q accepts (b\<lparr>bm_visited := v\<rparr>)"
    using assms by (auto simp: beam_inv_def insert_absorb)
  ultimately show ?thesis using assms(2) that by (auto simp: insert_absorb)
qed

lemma results_fresh: "beam_inv g l q accepts b \<Longrightarrow> s \<notin> visited_slots (bm_visited b) \<Longrightarrow>
    s \<notin> snd ` set (bm_results b)"
  by (auto simp: beam_inv_def)

text \<open>Seeding visits the entries, expanding visits the neighbours; both keep the invariant and
  neither panics. Without pruning, every visited slot is a candidate, and a result if accepted.\<close>

definition beam_full :: "(nat \<Rightarrow> bool) \<Rightarrow> beam \<Rightarrow> bool" where
  "beam_full accepts b \<longleftrightarrow>
     {s\<in>visited_slots (bm_visited b). accepts s} \<subseteq> snd ` set (bm_results b)"

lemma beam_seed_ok:
  assumes "inv g" and "\<forall>s\<in>set es. valid g s l" and "beam_inv g l q accepts b"
  shows "\<exists>b'. beam_seed (dist g q) accepts es b = Some b' \<and> beam_inv g l q accepts b' \<and>
    visited_slots (bm_visited b') = visited_slots (bm_visited b) \<union> set es \<and>
    length (bm_results b') \<le> length (bm_results b) + length es \<and>
    snd ` set (bm_candidates b) \<union> (set es - visited_slots (bm_visited b))
      \<subseteq> snd ` set (bm_candidates b') \<and>
    (beam_full accepts b \<longrightarrow> beam_full accepts b')"
  using assms(2,3)
proof (induction es arbitrary: b)
  case (Cons s es)
  show ?case
  proof (cases "s \<in> visited_slots (bm_visited b)")
    case True
    from visit_old [OF Cons.prems(2) True] obtain v where
      v: "visited_insert s (bm_visited b) = Some (False, v)"
        "visited_slots v = visited_slots (bm_visited b)"
        "beam_inv g l q accepts (b\<lparr>bm_visited := v\<rparr>)" .
    from Cons.IH [OF _ v(3)] Cons.prems(1) v True show ?thesis
      by (auto simp: beam_full_def)
  next
    case False
    from visit_new [OF assms(1) Cons.prems(2) _ False] Cons.prems(1) obtain v where
      v: "visited_insert s (bm_visited b) = Some (True, v)" "visited_wf v"
        "visited_room v = visited_room (bm_visited b)"
        "visited_slots v = insert s (visited_slots (bm_visited b))" by auto
    obtain d where d: "dist g q s = Some d" using dist_valid [OF assms(1)] Cons.prems(1) by fastforce
    let ?r = "if accepts s then heap_push far_cmp (d, s) (bm_results b) else bm_results b"
    let ?b = "\<lparr>bm_visited = v, bm_candidates = heap_push near_cmp (d, s) (bm_candidates b),
        bm_results = ?r\<rparr>"
    have "beam_inv g l q accepts ?b"
    proof (rule beam_inv_push [OF Cons.prems(2) _ d v(2-4)])
      show "valid g s l" using Cons.prems(1) by simp
      show "distinct (map snd ?r)"
        using results_fresh [OF Cons.prems(2) False] Cons.prems(2)
        by (simp add: distinct_snd_push beam_inv_def)
      show "accepts s" if "(d, s) \<in> set ?r"
        using that results_fresh [OF Cons.prems(2) False] by (force split: if_splits)
    qed auto
    from Cons.IH [OF _ this] Cons.prems(1) obtain b' where
      b': "beam_seed (dist g q) accepts es ?b = Some b'" "beam_inv g l q accepts b'"
        "visited_slots (bm_visited b') = visited_slots v \<union> set es"
        "length (bm_results b') \<le> length ?r + length es"
        "snd ` set (bm_candidates ?b) \<union> (set es - visited_slots v) \<subseteq> snd ` set (bm_candidates b')"
        "beam_full accepts ?b \<longrightarrow> beam_full accepts b'" by auto
    have "beam_full accepts b \<Longrightarrow> beam_full accepts ?b" by (auto simp: beam_full_def v(4))
    moreover have "length ?r \<le> Suc (length (bm_results b))" by simp
    ultimately show ?thesis using b' v d by (intro exI [of _ b']) auto
  qed
qed auto

lemma beam_expand_ok:
  assumes "inv g" and "\<forall>s\<in>set ns. valid g s l" and "beam_inv g l q accepts b"
  shows "\<exists>b'. beam_expand (dist g q) accepts ef ns b = Some b' \<and> beam_inv g l q accepts b' \<and>
    visited_slots (bm_visited b') = visited_slots (bm_visited b) \<union> set ns \<and>
    length (bm_results b') \<le> max ef (length (bm_results b))"
  using assms(2,3)
proof (induction ns arbitrary: b)
  case (Cons s ns)
  show ?case
  proof (cases "s \<in> visited_slots (bm_visited b)")
    case True
    from visit_old [OF Cons.prems(2) True] obtain v where
      v: "visited_insert s (bm_visited b) = Some (False, v)"
        "visited_slots v = visited_slots (bm_visited b)"
        "beam_inv g l q accepts (b\<lparr>bm_visited := v\<rparr>)" .
    from Cons.IH [OF _ v(3)] Cons.prems(1) v True show ?thesis by (auto simp: insert_absorb)
  next
    case False
    from visit_new [OF assms(1) Cons.prems(2) _ False] Cons.prems(1) obtain v where
      v: "visited_insert s (bm_visited b) = Some (True, v)" "visited_wf v"
        "visited_room v = visited_room (bm_visited b)"
        "visited_slots v = insert s (visited_slots (bm_visited b))" by auto
    obtain d where d: "dist g q s = Some d" using dist_valid [OF assms(1)] Cons.prems(1) by fastforce
    let ?p = "heap_push far_cmp (d, s) (bm_results b)"
    let ?r = "if accepts s then if ef < length ?p then heap_pop ?p else ?p else bm_results b"
    define a where "a = (if beam_admits ef (bm_results b) (d, s)
      then \<lparr>bm_visited = v, bm_candidates = heap_push near_cmp (d, s) (bm_candidates b),
            bm_results = ?r\<rparr>
      else b\<lparr>bm_visited := v\<rparr>)"
    have fresh: "s \<notin> snd ` set (bm_results b)" by (rule results_fresh [OF Cons.prems(2) False])
    have "set ?r \<subseteq> insert (d, s) (set (bm_results b))"
      using set_heap_pop [of ?p] by auto
    moreover have "distinct (map snd ?r)"
      using fresh Cons.prems(2) by (simp add: distinct_snd_push distinct_snd_pop beam_inv_def)
    moreover have "(d, s) \<in> set ?r \<Longrightarrow> accepts s" using fresh by (force split: if_splits)
    ultimately have "beam_inv g l q accepts
        \<lparr>bm_visited = v, bm_candidates = heap_push near_cmp (d, s) (bm_candidates b),
         bm_results = ?r\<rparr>"
      using Cons.prems(1) by (intro beam_inv_push [OF Cons.prems(2) _ d v(2-4)]) auto
    moreover have "beam_inv g l q accepts (b\<lparr>bm_visited := v\<rparr>)"
      using Cons.prems v by (auto simp: beam_inv_def)
    ultimately have inv: "beam_inv g l q accepts a" by (simp add: a_def)
    have len: "length (bm_results a) \<le> max ef (length (bm_results b))"
      by (auto simp: a_def)
    have slots: "visited_slots (bm_visited a) = visited_slots v" by (simp add: a_def)
    have "beam_expand (dist g q) accepts ef (s # ns) b = beam_expand (dist g q) accepts ef ns a"
      using v(1) d by (simp add: a_def Let_def)
    with Cons.IH [OF _ inv] Cons.prems(1) slots v(4) len show ?thesis by auto
  qed
qed simp

lemma beam_loop_ok:
  assumes "inv g" and "beam_inv g l q accepts b"
  shows "\<exists>b'. beam_loop (read g l) (dist g q) accepts ef clock b = Some b' \<and>
    beam_inv g l q accepts b' \<and> length (bm_results b') \<le> max ef (length (bm_results b))"
  using assms(2)
proof (induction "beam_size b" arbitrary: b clock rule: less_induct)
  case less
  let ?pop = "b\<lparr>bm_candidates := heap_pop (bm_candidates b)\<rparr>"
  have pop: "beam_inv g l q accepts ?pop"
    using less.prems set_heap_pop [of "bm_candidates b"] by (auto simp: beam_inv_def)
  show ?case
  proof (cases "heap_peek (bm_candidates b)")
    case None
    with less.prems show ?thesis by (subst beam_loop.simps) simp
  next
    case (Some x)
    then have size: "beam_size ?pop < beam_size b"
      by (auto simp: beam_size_def heap_peek_def split: list.splits)
    show ?thesis
    proof (cases "beam_done ef (bm_results b) x")
      case True
      with Some pop show ?thesis by (subst beam_loop.simps) simp
    next
      case False
      have "x \<in> set (bm_candidates b)" using list_heap.peek_elem [OF Some] by simp
      with less.prems have "valid g (snd x) l" by (auto simp: beam_inv_def)
      then obtain ns where ns: "read g l clock (snd x) = Some ns" "\<forall>t\<in>set ns. valid g t l"
        using read_ok [OF assms(1)] by blast
      from beam_expand_ok [OF assms(1) ns(2) pop, of ef] obtain b1 where
        b1: "beam_expand (dist g q) accepts ef ns ?pop = Some b1" "beam_inv g l q accepts b1"
          "length (bm_results b1) \<le> max ef (length (bm_results b))" by auto
      from beam_expand_size [OF b1(1)] size have "beam_size b1 < beam_size b" by simp
      from less.hyps [OF this b1(2), of "Suc clock"] obtain b' where
        "beam_loop (read g l) (dist g q) accepts ef (Suc clock) b1 = Some b'"
        "beam_inv g l q accepts b'" "length (bm_results b') \<le> max ef (length (bm_results b1))" by blast
      with Some False ns(1) b1 show ?thesis by (subst beam_loop.simps) auto
    qed
  qed
qed

lemma beam_start: "visited_wf v \<Longrightarrow> visited_slots v = {} \<Longrightarrow> slots g \<le> visited_room v \<Longrightarrow>
    beam_inv g l q accepts \<lparr>bm_visited = v, bm_candidates = [], bm_results = []\<rparr>"
  by (simp add: beam_inv_def)

lemma search_layer_ok:
  assumes "inv g" and "visited_wf scratch" and "\<forall>s\<in>set es. valid g s l"
  shows "\<exists>b. search_layer scratch (slots g) (read g l) (dist g q) es ef accepts = Some b \<and>
    beam_inv g l q accepts b \<and> length (bm_results b) \<le> max ef (length es)"
proof -
  obtain v where v: "visited_reset (slots g) scratch = Some v" "visited_wf v" "visited_slots v = {}"
    "slots g \<le> visited_room v" using vis.reset_ok [OF assms(2)] by blast
  have "beam_inv g l q accepts \<lparr>bm_visited = v, bm_candidates = [], bm_results = []\<rparr>"
    using v(2-4) by (rule beam_start)
  from beam_seed_ok [OF assms(1,3) this] obtain b where b: "beam_seed (dist g q) accepts es
      \<lparr>bm_visited = v, bm_candidates = [], bm_results = []\<rparr> = Some b"
    "beam_inv g l q accepts b" "length (bm_results b) \<le> length es" by auto
  from beam_loop_ok [OF assms(1) b(2), of ef 0] v(1) b(1,3) show ?thesis
    by (fastforce simp: search_layer_def)
qed

end

context search_space
begin

text \<open>The results do not depend on what an earlier search left in the scratch set: two beams with
  the same visited slots proceed in lockstep.\<close>

definition beam_eq :: "beam \<Rightarrow> beam \<Rightarrow> bool" where
  "beam_eq b c \<longleftrightarrow>
     visited_slots (bm_visited b) = visited_slots (bm_visited c) \<and>
     bm_candidates b = bm_candidates c \<and> bm_results b = bm_results c"

lemma visit_eq:
  assumes "s < visited_room v" and "s < visited_room w" and "visited_slots v = visited_slots w"
  obtains new v' w' where "visited_insert s v = Some (new, v')" "visited_insert s w = Some (new, w')"
    "visited_slots v' = visited_slots w'" "visited_room v' = visited_room v"
    "visited_room w' = visited_room w"
  using vis.insert_ok [OF assms(1)] vis.insert_ok [OF assms(2)] assms(3) by fastforce

definition roomy :: "'g \<Rightarrow> beam \<Rightarrow> bool" where
  "roomy g b \<longleftrightarrow> slots g \<le> visited_room (bm_visited b)"

lemma beam_seed_eq:
  assumes "\<forall>s\<in>set es. s < slots g" and "roomy g b" and "roomy g c" and "beam_eq b c"
  shows "rel_option (\<lambda>b' c'. beam_eq b' c' \<and> roomy g b' \<and> roomy g c')
    (beam_seed dst accepts es b) (beam_seed dst accepts es c)"
  using assms
proof (induction es arbitrary: b c)
  case (Cons s es)
  then have room: "s < visited_room (bm_visited b)" "s < visited_room (bm_visited c)"
    "visited_slots (bm_visited b) = visited_slots (bm_visited c)"
    by (auto simp: roomy_def beam_eq_def)
  obtain new v w where ins: "visited_insert s (bm_visited b) = Some (new, v)"
    "visited_insert s (bm_visited c) = Some (new, w)" "visited_slots v = visited_slots w"
    "visited_room v = visited_room (bm_visited b)" "visited_room w = visited_room (bm_visited c)"
    using room by (rule visit_eq)
  with Cons.prems show ?case
    by (cases new; cases "dst s")
      (auto simp: beam_eq_def roomy_def intro!: Cons.IH [unfolded beam_eq_def roomy_def conj_assoc])
qed simp

lemma beam_expand_eq:
  assumes "\<forall>s\<in>set ns. s < slots g" and "roomy g b" and "roomy g c" and "beam_eq b c"
  shows "rel_option (\<lambda>b' c'. beam_eq b' c' \<and> roomy g b' \<and> roomy g c')
    (beam_expand dst accepts ef ns b) (beam_expand dst accepts ef ns c)"
  using assms
proof (induction ns arbitrary: b c)
  case (Cons s ns)
  then have room: "s < visited_room (bm_visited b)" "s < visited_room (bm_visited c)"
    "visited_slots (bm_visited b) = visited_slots (bm_visited c)"
    by (auto simp: roomy_def beam_eq_def)
  obtain new v w where ins: "visited_insert s (bm_visited b) = Some (new, v)"
    "visited_insert s (bm_visited c) = Some (new, w)" "visited_slots v = visited_slots w"
    "visited_room v = visited_room (bm_visited b)" "visited_room w = visited_room (bm_visited c)"
    using room by (rule visit_eq)
  with Cons.prems show ?case
    by (cases new; cases "dst s")
      (auto simp: beam_eq_def roomy_def Let_def
        intro!: Cons.IH [unfolded beam_eq_def roomy_def conj_assoc])
qed simp

lemma beam_loop_eq:
  assumes "inv g" and "beam_inv g l q accepts b" and "roomy g b" and "roomy g c" and "beam_eq b c"
  shows "rel_option beam_eq (beam_loop (read g l) (dist g q) accepts ef clock b)
    (beam_loop (read g l) (dist g q) accepts ef clock c)"
  using assms(2-)
proof (induction "beam_size b" arbitrary: b c clock rule: less_induct)
  case less
  let ?pop = "\<lambda>b. b\<lparr>bm_candidates := heap_pop (bm_candidates b)\<rparr>"
  have cs: "bm_candidates c = bm_candidates b" "bm_results c = bm_results b"
    using less.prems(4) by (simp_all add: beam_eq_def)
  have eqs: "beam_eq (?pop b) (?pop c)" "roomy g (?pop b)" "roomy g (?pop c)"
    using less.prems by (simp_all add: beam_eq_def roomy_def)
  have pop: "beam_inv g l q accepts (?pop b)"
    using less.prems(1) set_heap_pop [of "bm_candidates b"] by (auto simp: beam_inv_def)
  show ?case
  proof (cases "heap_peek (bm_candidates b)")
    case None
    with less.prems(4) cs show ?thesis by (subst (1 2) beam_loop.simps) simp
  next
    case (Some x)
    then have size: "beam_size (?pop b) < beam_size b"
      by (auto simp: beam_size_def heap_peek_def split: list.splits)
    show ?thesis
    proof (cases "beam_done ef (bm_results b) x")
      case True
      with Some cs eqs(1) show ?thesis by (subst (1 2) beam_loop.simps) simp
    next
      case False
      have "x \<in> set (bm_candidates b)" using list_heap.peek_elem [OF Some] by simp
      with less.prems have "valid g (snd x) l" by (auto simp: beam_inv_def)
      then obtain ns where ns: "read g l clock (snd x) = Some ns" "\<forall>t\<in>set ns. valid g t l"
        using read_ok [OF assms(1)] by blast
      from beam_expand_ok [OF assms(1) ns(2) pop, of ef] obtain b1 where
        b1: "beam_expand (dist g q) accepts ef ns (?pop b) = Some b1" "beam_inv g l q accepts b1"
        by auto
      have "\<forall>s\<in>set ns. s < slots g" using ns(2) valid_range [OF assms(1)] by blast
      from beam_expand_eq [OF this eqs(2,3,1), of "dist g q" accepts ef] b1(1) obtain c1 where
        c1: "beam_expand (dist g q) accepts ef ns (?pop c) = Some c1" "beam_eq b1 c1" "roomy g b1"
          "roomy g c1" by (auto simp: option_rel_Some1)
      from beam_expand_size [OF b1(1)] size have "beam_size b1 < beam_size b" by simp
      from less.hyps [OF this b1(2) c1(3,4,2), of "Suc clock"] Some False ns(1) b1(1) c1(1) cs
      show ?thesis by (subst (1 2) beam_loop.simps) simp
    qed
  qed
qed

lemma search_layer_scratch:
  assumes "inv g" and "visited_wf scratch" and "visited_wf scratch'" and "\<forall>s\<in>set es. valid g s l"
  shows "map_option bm_results (search_layer scratch (slots g) (read g l) (dist g q) es ef accepts) =
    map_option bm_results (search_layer scratch' (slots g) (read g l) (dist g q) es ef accepts)"
proof -
  let ?start = "\<lambda>v. \<lparr>bm_visited = v, bm_candidates = [], bm_results = []\<rparr>"
  obtain v where v: "visited_reset (slots g) scratch = Some v" "visited_wf v" "visited_slots v = {}"
    "slots g \<le> visited_room v" using vis.reset_ok [OF assms(2)] by blast
  obtain w where w: "visited_reset (slots g) scratch' = Some w" "visited_wf w" "visited_slots w = {}"
    "slots g \<le> visited_room w" using vis.reset_ok [OF assms(3)] by blast
  have start: "beam_inv g l q accepts (?start v)" using v(2-4) by (rule beam_start)
  from beam_seed_ok [OF assms(1,4) start] obtain b where
    b: "beam_seed (dist g q) accepts es (?start v) = Some b" "beam_inv g l q accepts b" by auto
  have "\<forall>s\<in>set es. s < slots g" using assms(4) valid_range [OF assms(1)] by blast
  then have "rel_option (\<lambda>b' c'. beam_eq b' c' \<and> roomy g b' \<and> roomy g c')
      (beam_seed (dist g q) accepts es (?start v)) (beam_seed (dist g q) accepts es (?start w))"
    using v(3,4) w(3,4) by (intro beam_seed_eq) (simp_all add: roomy_def beam_eq_def)
  with b(1) obtain c where
    c: "beam_seed (dist g q) accepts es (?start w) = Some c" "beam_eq b c" "roomy g b" "roomy g c"
    by (auto simp: option_rel_Some1)
  from beam_loop_eq [OF assms(1) b(2) c(3,4,2), of ef 0] v(1) w(1) b(1) c(1) show ?thesis
    by (auto simp: search_layer_def beam_eq_def elim: option.rel_cases)
qed

end

locale static_space = search_space +
  fixes links :: "'a \<Rightarrow> nat \<Rightarrow> nat \<Rightarrow> nat list option"
  assumes read_links: "read g l c s = links g s l"
begin

lemma results_room:
  assumes "inv g" and "beam_inv g l q accepts b" and "valid g s l"
    and "s \<notin> visited_slots (bm_visited b)"
  shows "length (bm_results b) < slots g"
proof -
  have "snd ` set (bm_results b) \<subseteq> {..<slots g} - {s}"
    using assms valid_range [OF assms(1)] by (auto simp: beam_inv_def)
  then have "card (snd ` set (bm_results b)) \<le> card ({..<slots g} - {s})"
    by (intro card_mono) auto
  moreover have "length (bm_results b) = card (set (map snd (bm_results b)))"
    using assms(2) by (simp only: beam_inv_def distinct_card length_map)
  ultimately show ?thesis using valid_range [OF assms(1,3)] by auto
qed

text \<open>A beam as wide as the level prunes nothing.\<close>

lemma beam_expand_full:
  assumes "inv g" and "slots g \<le> ef" and "\<forall>s\<in>set ns. valid g s l" and "beam_inv g l q accepts b"
    and "beam_expand (dist g q) accepts ef ns b = Some b'"
  shows "snd ` set (bm_candidates b) \<union> (set ns - visited_slots (bm_visited b))
      \<subseteq> snd ` set (bm_candidates b') \<and> (beam_full accepts b \<longrightarrow> beam_full accepts b')"
  using assms(3-)
proof (induction ns arbitrary: b)
  case (Cons s ns)
  show ?case
  proof (cases "s \<in> visited_slots (bm_visited b)")
    case True
    from visit_old [OF Cons.prems(2) True] obtain v where
      v: "visited_insert s (bm_visited b) = Some (False, v)"
        "visited_slots v = visited_slots (bm_visited b)"
        "beam_inv g l q accepts (b\<lparr>bm_visited := v\<rparr>)" .
    from Cons.IH [OF _ v(3)] Cons.prems v True show ?thesis by (auto simp: beam_full_def)
  next
    case False
    from visit_new [OF assms(1) Cons.prems(2) _ False] Cons.prems(1) obtain v where
      v: "visited_insert s (bm_visited b) = Some (True, v)" "visited_wf v"
        "visited_room v = visited_room (bm_visited b)"
        "visited_slots v = insert s (visited_slots (bm_visited b))" by auto
    obtain d where d: "dist g q s = Some d" using dist_valid [OF assms(1)] Cons.prems(1) by fastforce
    let ?r = "if accepts s then heap_push far_cmp (d, s) (bm_results b) else bm_results b"
    let ?b = "\<lparr>bm_visited = v, bm_candidates = heap_push near_cmp (d, s) (bm_candidates b),
        bm_results = ?r\<rparr>"
    have room: "length (bm_results b) < ef"
      using results_room [OF assms(1) Cons.prems(2) _ False] Cons.prems(1) assms(2) by auto
    have rest: "beam_expand (dist g q) accepts ef ns ?b = Some b'"
      using Cons.prems(3) v(1) d room by (simp add: beam_admits_def Let_def if_distrib cong: if_cong)
    have fresh: "s \<notin> snd ` set (bm_results b)" by (rule results_fresh [OF Cons.prems(2) False])
    then have "distinct (map snd ?r)" "(d, s) \<in> set ?r \<Longrightarrow> accepts s"
      using Cons.prems(2) by (force simp: distinct_snd_push beam_inv_def split: if_splits)+
    then have "beam_inv g l q accepts ?b"
      using Cons.prems(1) by (intro beam_inv_push [OF Cons.prems(2) _ d v(2-4)]) auto
    moreover have "beam_full accepts b \<Longrightarrow> beam_full accepts ?b" by (auto simp: beam_full_def v(4))
    ultimately show ?thesis using Cons.IH [OF _ _ rest] Cons.prems(1) v(4) by auto
  qed
qed simp

definition explored :: "'a \<Rightarrow> nat \<Rightarrow> beam \<Rightarrow> bool" where
  "explored g l b \<longleftrightarrow>
     (\<forall>s\<in>visited_slots (bm_visited b). s \<in> snd ` set (bm_candidates b) \<or>
        (\<forall>ns. links g s l = Some ns \<longrightarrow> set ns \<subseteq> visited_slots (bm_visited b)))"

lemma beam_loop_full:
  assumes "inv g" and "slots g \<le> ef" and "beam_inv g l q accepts b" and "beam_full accepts b"
    and "explored g l b" and "\<forall>s\<in>visited_slots (bm_visited b). reachable (\<lambda>s. links g s l) E s"
    and "E \<subseteq> visited_slots (bm_visited b)" and "\<forall>s\<in>E. valid g s l"
    and "beam_loop (read g l) (dist g q) accepts ef clock b = Some b'"
  shows "snd ` set (bm_results b') = {s. reachable (\<lambda>s. links g s l) E s \<and> accepts s}"
  using assms(3-)
proof (induction "beam_size b" arbitrary: b clock rule: less_induct)
  case less
  let ?pop = "b\<lparr>bm_candidates := heap_pop (bm_candidates b)\<rparr>"
  let ?R = "reachable (\<lambda>s. links g s l) E"
  have pop: "beam_inv g l q accepts ?pop"
    using less.prems(1) set_heap_pop [of "bm_candidates b"] by (auto simp: beam_inv_def)
  have sound: "snd ` set (bm_results b) = {s\<in>visited_slots (bm_visited b). accepts s}"
    using less.prems(1,2) by (auto simp: beam_inv_def beam_full_def)
  have valid: "valid g s l" if "?R s" for s
    using that
  proof induction
    case (link s ns t)
    then show ?case using read_ok [OF assms(1), of s l 0] by (auto simp: read_links)
  qed (use less.prems(6) in blast)
  show ?case
  proof (cases "heap_peek (bm_candidates b)")
    case None
    then have empty: "bm_candidates b = []" by (simp add: heap_peek_def split: list.splits)
    have "?R s \<Longrightarrow> s \<in> visited_slots (bm_visited b)" for s
      by (induction rule: reachable.induct)
        (use less.prems(3,5) empty in \<open>auto simp: explored_def\<close>)
    moreover have "b' = b" using less.prems(7) None by (subst (asm) beam_loop.simps) simp
    ultimately show ?thesis using sound less.prems(4) by auto
  next
    case (Some x)
    then have size: "beam_size ?pop < beam_size b"
      by (auto simp: beam_size_def heap_peek_def split: list.splits)
    have xc: "x \<in> set (bm_candidates b)" using list_heap.peek_elem [OF Some] by simp
    have xv: "snd x \<in> visited_slots (bm_visited b)"
      using xc less.prems(1) by (auto simp: beam_inv_def)
    have pops: "insert (snd x) (snd ` set (heap_pop (bm_candidates b))) = snd ` set (bm_candidates b)"
      using Some by (auto simp: heap_peek_def heap_pop_def split: list.splits)
    show ?thesis
    proof (cases "beam_done ef (bm_results b) x")
      case True
      then have "slots g \<le> length (bm_results b)" using assms(2) by (simp add: beam_done_def)
      then have "?R s \<Longrightarrow> s \<in> visited_slots (bm_visited b)" for s
        using results_room [OF assms(1) less.prems(1) valid] by force
      moreover have "bm_results b' = bm_results b"
        using less.prems(7) Some True by (subst (asm) beam_loop.simps) auto
      ultimately show ?thesis using sound less.prems(4) by auto
    next
      case False
      have "valid g (snd x) l" using xv less.prems(1) by (auto simp: beam_inv_def)
      then obtain ns where ns: "links g (snd x) l = Some ns" "\<forall>t\<in>set ns. valid g t l"
        using read_ok [OF assms(1), of "snd x" l clock] by (auto simp: read_links)
      from beam_expand_ok [OF assms(1) ns(2) pop, of ef] obtain b1 where
        b1: "beam_expand (dist g q) accepts ef ns ?pop = Some b1" "beam_inv g l q accepts b1"
          "visited_slots (bm_visited b1) = visited_slots (bm_visited b) \<union> set ns" by auto
      note full = beam_expand_full [OF assms(1,2) ns(2) pop b1(1)]
      have smaller: "beam_size b1 < beam_size b" using beam_expand_size [OF b1(1)] size by simp
      have "explored g l b1"
      proof -
        have "snd ` set (heap_pop (bm_candidates b)) \<union> (set ns - visited_slots (bm_visited b))
            \<subseteq> snd ` set (bm_candidates b1)" using full by simp
        then have "s \<in> snd ` set (bm_candidates b1)"
          if "s \<in> snd ` set (bm_candidates b) \<or> s \<in> set ns - visited_slots (bm_visited b)"
            "s \<noteq> snd x" for s
          using that pops by blast
        with less.prems(3) ns(1) show ?thesis
          unfolding explored_def b1(3) by (metis Diff_iff UnE Un_upper2 le_supI1 option.inject)
      qed
      moreover have "beam_full accepts b1" using full less.prems(2) by (simp add: beam_full_def)
      moreover have "\<forall>s\<in>visited_slots (bm_visited b1). ?R s"
        using less.prems(4) xv ns(1) by (auto simp: b1(3) intro: reachable.link)
      moreover have "beam_loop (read g l) (dist g q) accepts ef (Suc clock) b1 = Some b'"
        using less.prems(7) Some False ns(1) b1(1)
        by (subst (asm) beam_loop.simps) (simp add: read_links)
      ultimately show ?thesis
        using less.hyps [OF smaller b1(2)] less.prems(5,6) b1(3) by blast
    qed
  qed
qed

lemma search_layer_full:
  assumes "inv g" and "slots g \<le> ef" and "visited_wf scratch" and "\<forall>s\<in>set es. valid g s l"
    and "search_layer scratch (slots g) (read g l) (dist g q) es ef accepts = Some b'"
  shows "snd ` set (bm_results b') = {s. reachable (\<lambda>s. links g s l) (set es) s \<and> accepts s}"
proof -
  obtain v where v: "visited_reset (slots g) scratch = Some v" "visited_wf v" "visited_slots v = {}"
    "slots g \<le> visited_room v" using vis.reset_ok [OF assms(3)] by blast
  have "beam_inv g l q accepts \<lparr>bm_visited = v, bm_candidates = [], bm_results = []\<rparr>"
    using v(2-4) by (rule beam_start)
  from beam_seed_ok [OF assms(1,4) this] obtain b where b: "beam_seed (dist g q) accepts es
      \<lparr>bm_visited = v, bm_candidates = [], bm_results = []\<rparr> = Some b"
    "beam_inv g l q accepts b" "visited_slots (bm_visited b) = set es"
    "set es \<subseteq> snd ` set (bm_candidates b)" "beam_full accepts b"
    using v(3) by (auto simp: beam_full_def)
  have "beam_loop (read g l) (dist g q) accepts ef 0 b = Some b'"
    using assms(5) v(1) b(1) by (simp add: search_layer_def)
  moreover have "explored g l b" using b(3,4) by (auto simp: explored_def)
  moreover have "\<forall>s\<in>set es. reachable (\<lambda>s. links g s l) (set es) s"
    by (auto intro: reachable.entry)
  ultimately show ?thesis
    using beam_loop_full [OF assms(1,2) b(2,5), of "set es" 0 b'] b(3) assms(4) by simp
qed

end

end
