(* ===== verification/Hnsw_Search.thy ===== *)
theory Hnsw_Search
  imports Hnsw_Traverse
begin

text \<open>
  Search over the graph (\<open>search_with\<close>, \<open>search_filtered\<close>, \<open>search_exact_over\<close> in
  \<open>hnsw.rs\<close>). The Roaring bitmap of a filter is a parameter: the record of the four observers
  the code calls, related by \<open>bitmap_ok\<close>. The scratch set is taken fresh in each search; lemma
  \<open>search_layer_scratch\<close> of the traversals shows the results are those with any scratch set an
  earlier search left.
\<close>

section \<open>Operations\<close>

datatype search_mode = F32 | Int8 nat

definition int8_default :: "nat \<Rightarrow> search_mode" where
  "int8_default k = Int8 (max (min (k * 4) (2 ^ 64 - 1)) 100)"

definition traverse_dist :: "hnsw \<Rightarrow> search_mode \<times> f32 list \<Rightarrow> nat \<Rightarrow> f32 option" where
  "traverse_dist g mq =
     (case fst mq of
        F32 \<Rightarrow> hn_dist g (snd mq)
      | Int8 _ \<Rightarrow> quant_distance (hn_quantized g) (hn_metric g) (quantize (snd mq)))"

definition hn_reader :: "hnsw \<Rightarrow> nat \<Rightarrow> reader" where
  "hn_reader g level clock slot = neighbours g slot level"

definition hn_greedy_closest :: "hnsw \<Rightarrow> (nat \<Rightarrow> f32 option) \<Rightarrow> nat \<Rightarrow> nat \<Rightarrow> nat option" where
  "hn_greedy_closest g dist level current = greedy_closest (hn_reader g level) dist current"

definition hn_search_layer ::
  "hnsw \<Rightarrow> (nat \<Rightarrow> f32 option) \<Rightarrow> nat list \<Rightarrow> nat \<Rightarrow> nat \<Rightarrow> (nat \<Rightarrow> bool) \<Rightarrow> far list option" where
  "hn_search_layer g dist entries ef level accepts =
     map_option bm_results
       (search_layer visited_new (hn_len g) (hn_reader g level) dist entries ef accepts)"

definition hn_accepts :: "hnsw \<Rightarrow> (nat \<Rightarrow> bool) option \<Rightarrow> nat \<Rightarrow> bool" where
  "hn_accepts g allow slot \<longleftrightarrow>
     \<not> is_tombstoned g slot \<and> (case allow of None \<Rightarrow> True | Some f \<Rightarrow> f slot)"

text \<open>Collecting the candidates: with their distance, or with the exact distance of the best.\<close>

definition exact_hit :: "hnsw \<Rightarrow> f32 list \<Rightarrow> nat \<Rightarrow> hit option" where
  "exact_hit g query slot =
     map_option (\<lambda>d. \<lparr>hit_id = slot, hit_distance = d\<rparr>) (hn_dist g query slot)"

definition collect_hits :: "hnsw \<Rightarrow> f32 list \<Rightarrow> nat \<Rightarrow> search_mode \<Rightarrow> far list \<Rightarrow> hit list option" where
  "collect_hits g query k mode candidates =
     map_option (\<lambda>hits. into_sorted (foldl topk_push (topk_new k) hits))
       (case mode of
          F32 \<Rightarrow> Some (map (\<lambda>(d, slot). \<lparr>hit_id = slot, hit_distance = d\<rparr>) candidates)
        | Int8 rescore \<Rightarrow>
            those (map (exact_hit g query \<circ> snd)
              (take (max rescore k) (sort_by far_cmp candidates))))"

definition search_with ::
  "hnsw \<Rightarrow> f32 list \<Rightarrow> nat \<Rightarrow> nat \<Rightarrow> search_mode \<Rightarrow> (nat \<Rightarrow> bool) option \<Rightarrow> hit list option" where
  "search_with g query k ef mode allow =
     (if length query \<noteq> hn_dims g then None
      else case hn_entry g of
             None \<Rightarrow> Some []
           | Some entry \<Rightarrow>
               if k = 0 then Some []
               else let dist = traverse_dist g (mode, query)
                    in Option.bind (greedy_descend (hn_greedy_closest g dist) 0 entry (hn_max_level g))
                         (\<lambda>entry. Option.bind
                           (hn_search_layer g dist [entry] (max ef k) 0 (hn_accepts g allow))
                           (collect_hits g query k mode)))"

definition hn_search ::
  "hnsw \<Rightarrow> f32 list \<Rightarrow> nat \<Rightarrow> nat \<Rightarrow> (nat \<Rightarrow> bool) option \<Rightarrow> hit list option" where
  "hn_search g query k ef allow = search_with g query k ef F32 allow"

record bitmap =
  rb_is_empty :: bool
  rb_len :: nat
  rb_contains :: "nat \<Rightarrow> bool"
  rb_iter :: "nat list"

definition FILTER_CUTOVER_PER_EF :: nat where
  "FILTER_CUTOVER_PER_EF = 200"

definition filter_cutover :: "nat \<Rightarrow> nat" where
  "filter_cutover ef = min (FILTER_CUTOVER_PER_EF * max ef 1) (2 ^ 64 - 1)"

fun push_exact :: "hnsw \<Rightarrow> f32 list \<Rightarrow> nat list \<Rightarrow> top_k \<Rightarrow> top_k option" where
  "push_exact g query [] best = Some best"
| "push_exact g query (slot # slots) best =
     (if hn_len g \<le> slot \<or> is_tombstoned g slot then push_exact g query slots best
      else Option.bind (exact_hit g query slot) (\<lambda>h. push_exact g query slots (topk_push best h)))"

definition search_exact_over :: "hnsw \<Rightarrow> f32 list \<Rightarrow> nat \<Rightarrow> bitmap \<Rightarrow> hit list option" where
  "search_exact_over g query k allowed =
     (if length query \<noteq> hn_dims g then None
      else map_option into_sorted (push_exact g query (rb_iter allowed) (topk_new k)))"

definition search_filtered ::
  "hnsw \<Rightarrow> f32 list \<Rightarrow> nat \<Rightarrow> nat \<Rightarrow> search_mode \<Rightarrow> bitmap \<Rightarrow> nat \<Rightarrow> hit list option" where
  "search_filtered g query k ef mode allowed cutover =
     (if k = 0 \<or> rb_is_empty allowed then Some []
      else if rb_len allowed \<le> cutover then search_exact_over g query k allowed
      else search_with g query k ef mode (Some (rb_contains allowed)))"

text \<open>What the bitmap promises: its observers describe one set of 32-bit integers, iterated in
  ascending order.\<close>

definition bitmap_ok :: "bitmap \<Rightarrow> bool" where
  "bitmap_ok b \<longleftrightarrow>
     sorted (rb_iter b) \<and> distinct (rb_iter b) \<and> rb_len b = length (rb_iter b) \<and>
     (rb_is_empty b \<longleftrightarrow> rb_iter b = []) \<and> (\<forall>s. rb_contains b s \<longleftrightarrow> s \<in> set (rb_iter b))"

section \<open>The graph as a search space\<close>

interpretation hs: static_space graph_ok hn_len has_level hn_reader traverse_dist neighbours
proof unfold_locales
  fix g s l c and q :: "search_mode \<times> f32 list"
  assume ok: "graph_ok g"
  show "has_level g s l \<Longrightarrow> s < hn_len g" by (simp add: has_level_def)
  show "has_level g s (Suc l) \<Longrightarrow> has_level g s l" by (simp add: has_level_def)
  have "shape_ok g" "lk.closed g" using ok by (simp_all add: graph_ok_def links_ok_closed)
  then show "has_level g s l \<Longrightarrow>
      \<exists>ns. hn_reader g l c s = Some ns \<and> (\<forall>t\<in>set ns. has_level g t l)"
    by (metis hn_reader_def lk.closedD lk.get_ok)
  assume "s < hn_len g"
  then show "\<exists>d. traverse_dist g q s = Some d"
    using ok hn_dist_Some [of g s "snd q"] quant_distance_Some [of "hn_quantized g" s]
    by (cases "fst q") (auto simp: traverse_dist_def graph_ok_def rows_ok_def)
qed (simp add: hn_reader_def)

section \<open>Lemmas: collecting\<close>

lemma sort_key_mset_inj:
  assumes "mset xs = mset ys" and "inj_on f (set xs)"
  shows "sort_key f xs = sort_key f ys"
proof (rule map_inj_on)
  have "mset (map f xs) = mset (map f ys)" using assms(1) by simp
  then have "sort (map f xs) = sort (map f ys)" by (metis properties_for_sort mset_sort sorted_sort)
  then show "map f (sort_key f xs) = map f (sort_key f ys)" by (simp only: sort_key_keys)
  show "inj_on f (set (sort_key f xs) \<union> set (sort_key f ys))"
    using assms mset_eq_setD [OF assms(1)] by simp
qed

text \<open>The slots in ascending order that pass a test, as exact hits.\<close>

definition ranked_hits :: "hnsw \<Rightarrow> f32 list \<Rightarrow> (nat \<Rightarrow> bool) \<Rightarrow> hit list" where
  "ranked_hits g query P =
     sort_key rank_key (List.map_filter (exact_hit g query) (filter P [0..<hn_len g]))"

lemma those_map_Some: "\<forall>x\<in>set xs. f x \<noteq> None \<Longrightarrow> those (map f xs) = Some (List.map_filter f xs)"
  by (induction xs) (auto simp: map_filter_simps)

lemma exact_hit_Some:
  assumes "rows_ok g" and "s < hn_len g"
  shows "\<exists>h. exact_hit g query s = Some h \<and> hit_id h = s \<and> hn_dist g query s = Some (hit_distance h)"
  using hn_dist_Some [OF assms, of query] by (auto simp: exact_hit_def)

lemma exact_hit_id: "exact_hit g query s = Some h \<Longrightarrow> hit_id h = s"
  by (auto simp: exact_hit_def)

lemma exact_hits_ids:
  assumes "rows_ok g" and "\<forall>s\<in>set xs. s < hn_len g"
  shows "map hit_id (List.map_filter (exact_hit g query) xs) = xs"
  using assms(2)
proof (induction xs)
  case (Cons s xs)
  with exact_hit_Some [OF assms(1), of s query] show ?case by (auto simp: map_filter_simps)
qed (simp add: map_filter_simps)

lemma topk_ranked:
  assumes "rows_ok g" and "distinct xs" and "\<forall>s\<in>set xs. s < hn_len g"
  shows "into_sorted (foldl topk_push (topk_new k) (List.map_filter (exact_hit g query) xs)) =
    take k (ranked_hits g query (\<lambda>s. s \<in> set xs))"
proof -
  let ?h = "List.map_filter (exact_hit g query)" and ?ys = "filter (\<lambda>s. s \<in> set xs) [0..<hn_len g]"
  have "distinct (map hit_id (?h xs))" using exact_hits_ids [OF assms(1,3)] assms(2) by simp
  then have inj: "inj_on rank_key (set (?h xs))" by (rule inj_rank_key)
  have "mset xs = mset ?ys" using assms(2,3) by (intro set_eq_iff_mset_eq_distinct [THEN iffD1]) auto
  then have "mset (?h xs) = mset (?h ?ys)"
    by (simp only: List.map_filter_def comp_def mset_map mset_filter)
  then have "sort_key rank_key (?h xs) = sort_key rank_key (?h ?ys)"
    using inj by (rule sort_key_mset_inj)
  then show ?thesis by (simp add: topk_exact [OF inj] ranked_hits_def)
qed

text \<open>Candidates of a layer carry their slot's traversal distance.\<close>

lemma candidate_hits:
  assumes "\<forall>x\<in>set cs. hn_dist g query (snd x) = Some (fst x)"
  shows "map (\<lambda>(d, slot). \<lparr>hit_id = slot, hit_distance = d\<rparr>) cs =
    List.map_filter (exact_hit g query) (map snd cs)"
  using assms by (induction cs) (auto simp: map_filter_simps exact_hit_def)

definition rescored :: "nat \<Rightarrow> search_mode \<Rightarrow> far list \<Rightarrow> nat list" where
  "rescored k mode cs =
     (case mode of F32 \<Rightarrow> map snd cs
      | Int8 rescore \<Rightarrow> map snd (take (max rescore k) (sort_by far_cmp cs)))"

lemma distinct_snd_sort_by: "distinct (map snd (sort_by cmp cs)) = distinct (map snd cs)"
  by (metis mset_eq_imp_distinct_iff mset_map mset_sort_by)

lemma rescored_ok:
  "set (rescored k mode cs) \<subseteq> snd ` set cs"
  "distinct (map snd cs) \<Longrightarrow> distinct (rescored k mode cs)"
proof -
  show "set (rescored k mode cs) \<subseteq> snd ` set cs"
    by (force simp: rescored_def split: search_mode.splits dest: in_set_takeD)
  assume "distinct (map snd cs)"
  then show "distinct (rescored k mode cs)"
    by (auto simp: rescored_def distinct_snd_sort_by simp flip: take_map split: search_mode.splits)
qed

lemma collect_hits_eq:
  assumes "rows_ok g" and "\<forall>x\<in>set cs. snd x < hn_len g" and "distinct (map snd cs)"
    and "mode = F32 \<Longrightarrow> \<forall>x\<in>set cs. hn_dist g query (snd x) = Some (fst x)"
  shows "collect_hits g query k mode cs =
    Some (take k (ranked_hits g query (\<lambda>s. s \<in> set (rescored k mode cs))))"
proof -
  have range: "\<forall>s\<in>set (rescored k mode cs). s < hn_len g"
    using rescored_ok(1) [of k mode cs] assms(2) by auto
  have "collect_hits g query k mode cs = Some (into_sorted (foldl topk_push (topk_new k)
      (List.map_filter (exact_hit g query) (rescored k mode cs))))"
  proof (cases mode)
    case F32
    with candidate_hits [OF assms(4) [OF F32]] show ?thesis
      by (simp add: collect_hits_def rescored_def)
  next
    case (Int8 r)
    have "\<forall>s\<in>set (rescored k mode cs). exact_hit g query s \<noteq> None"
      using exact_hit_Some [OF assms(1)] range by fastforce
    from those_map_Some [OF this] Int8 show ?thesis
      by (simp add: collect_hits_def rescored_def comp_def)
  qed
  with topk_ranked [OF assms(1) rescored_ok(2) [OF assms(3)] range] show ?thesis by simp
qed

section \<open>Lemmas: search\<close>

lemma hnsw_wf_entry:
  assumes "hnsw_wf g" and "hn_entry g = Some e"
  shows "has_level g e (hn_max_level g)" "graph_ok g"
  using assms by (simp_all add: hnsw_wf_def entry_ok_def has_level_def)

text \<open>What a search returns: the best of a set of live, allowed slots.\<close>

lemma search_with_ranked:
  assumes wf: "hnsw_wf g" and q: "length query = hn_dims g"
  shows "\<exists>P. search_with g query k ef mode allow = Some (take k (ranked_hits g query P)) \<and>
    (\<forall>s. P s \<longrightarrow> s < hn_len g \<and> hn_accepts g allow s)"
proof (cases "hn_entry g = None \<or> k = 0")
  case True
  have "search_with g query k ef mode allow = Some (take k (ranked_hits g query (\<lambda>_. False)))"
  proof (cases "hn_entry g")
    case None
    with q show ?thesis by (simp add: search_with_def ranked_hits_def map_filter_simps)
  next
    case (Some e)
    with True q show ?thesis by (simp add: search_with_def)
  qed
  then show ?thesis by blast
next
  case False
  then obtain e where e: "hn_entry g = Some e" and k: "k \<noteq> 0" by auto
  let ?d = "traverse_dist g (mode, query)"
  have ok: "graph_ok g" "has_level g e (hn_max_level g)" using hnsw_wf_entry [OF wf e] by simp_all
  obtain r where r: "greedy_descend (hn_greedy_closest g ?d) 0 e (hn_max_level g) = Some r"
    "has_level g r 0"
    using hs.greedy_descend_ok [OF ok, of "(mode, query)" 0]
    by (auto simp: hn_greedy_closest_def [abs_def])
  from r(2) hs.search_layer_ok [OF ok(1) visited_new_wf, of "[r]" 0 "(mode, query)" "max ef k"
      "hn_accepts g allow"] obtain b where
    b: "search_layer visited_new (hn_len g) (hn_reader g 0) ?d [r] (max ef k) (hn_accepts g allow) = Some b"
      "hs.beam_inv g 0 (mode, query) (hn_accepts g allow) b" by auto
  let ?cs = "bm_results b"
  have cs: "\<forall>x\<in>set ?cs. snd x < hn_len g \<and> hn_accepts g allow (snd x)" "distinct (map snd ?cs)"
    "\<forall>x\<in>set ?cs. ?d (snd x) = Some (fst x)"
    using b(2) by (auto simp: hs.beam_inv_def has_level_def)
  have "collect_hits g query k mode ?cs =
      Some (take k (ranked_hits g query (\<lambda>s. s \<in> set (rescored k mode ?cs))))"
    using ok(1) cs by (intro collect_hits_eq) (auto simp: graph_ok_def traverse_dist_def)
  moreover have "search_with g query k ef mode allow = collect_hits g query k mode ?cs"
    using q e k r(1) b(1) by (simp add: search_with_def hn_search_layer_def Let_def)
  moreover have "s \<in> set (rescored k mode ?cs) \<Longrightarrow> s < hn_len g \<and> hn_accepts g allow s" for s
    using rescored_ok(1) [of k mode ?cs] cs(1) by auto
  ultimately show ?thesis by auto
qed

text \<open>With a beam at least as wide as the graph, search is exact over the reachable slots.\<close>

lemma search_with_full:
  assumes wf: "hnsw_wf g" and q: "length query = hn_dims g" and e: "hn_entry g = Some e"
    and ef: "hn_len g \<le> ef"
    and r: "greedy_descend (hn_greedy_closest g (hn_dist g query)) 0 e (hn_max_level g) = Some r"
  shows "search_with g query k ef F32 allow = Some (take k (ranked_hits g query
    (\<lambda>s. reachable (\<lambda>s. neighbours g s 0) {r} s \<and> hn_accepts g allow s)))"
proof (cases "k = 0")
  case True
  with q e show ?thesis by (simp add: search_with_def)
next
  case False
  let ?d = "traverse_dist g (F32, query)"
  have d: "?d = hn_dist g query" by (simp add: traverse_dist_def)
  have ok: "graph_ok g" "has_level g e (hn_max_level g)" using hnsw_wf_entry [OF wf e] by simp_all
  have rv: "has_level g r 0"
    using hs.greedy_descend_ok [OF ok, of "(F32, query)" 0] r
    by (auto simp: hn_greedy_closest_def [abs_def] d)
  from rv hs.search_layer_ok [OF ok(1) visited_new_wf, of "[r]" 0 "(F32, query)" "max ef k"
      "hn_accepts g allow"] obtain b where
    b: "search_layer visited_new (hn_len g) (hn_reader g 0) ?d [r] (max ef k) (hn_accepts g allow) = Some b"
      "hs.beam_inv g 0 (F32, query) (hn_accepts g allow) b" by auto
  have full: "snd ` set (bm_results b) =
      {s. reachable (\<lambda>s. neighbours g s 0) {r} s \<and> hn_accepts g allow s}"
    using hs.search_layer_full [OF ok(1) _ visited_new_wf _ b(1)] ef rv by simp
  let ?cs = "bm_results b"
  have cs: "\<forall>x\<in>set ?cs. snd x < hn_len g" "distinct (map snd ?cs)"
    "\<forall>x\<in>set ?cs. ?d (snd x) = Some (fst x)"
    using b(2) by (auto simp: hs.beam_inv_def has_level_def)
  have "collect_hits g query k F32 ?cs =
      Some (take k (ranked_hits g query (\<lambda>s. s \<in> set (rescored k F32 ?cs))))"
    using ok(1) cs by (intro collect_hits_eq) (auto simp: graph_ok_def d)
  moreover have "search_with g query k ef F32 allow = collect_hits g query k F32 ?cs"
    using q e False r b(1) by (simp add: search_with_def hn_search_layer_def Let_def d)
  moreover have "set (rescored k F32 ?cs) =
      {s. reachable (\<lambda>s. neighbours g s 0) {r} s \<and> hn_accepts g allow s}"
    using full by (simp add: rescored_def)
  ultimately show ?thesis by simp
qed

section \<open>Lemmas: the exact route\<close>

lemma push_exact_foldl:
  assumes "rows_ok g"
  shows "push_exact g query xs acc = Some (foldl topk_push acc
    (List.map_filter (exact_hit g query) (filter (\<lambda>s. s < hn_len g \<and> \<not> is_tombstoned g s) xs)))"
proof (induction xs arbitrary: acc)
  case (Cons s xs)
  then show ?case
    using exact_hit_Some [OF assms, of s query]
    by (cases "s < hn_len g"; cases "is_tombstoned g s") (auto simp: map_filter_simps)
qed (simp add: map_filter_simps)

lemma search_exact_over_ranked:
  assumes "rows_ok g" and "distinct (rb_iter allowed)" and "length query = hn_dims g"
  shows "search_exact_over g query k allowed =
    Some (take k (ranked_hits g query (\<lambda>s. s \<in> set (rb_iter allowed) \<and> \<not> is_tombstoned g s)))"
proof -
  let ?xs = "filter (\<lambda>s. s < hn_len g \<and> \<not> is_tombstoned g s) (rb_iter allowed)"
  have "search_exact_over g query k allowed =
      Some (take k (ranked_hits g query (\<lambda>s. s \<in> set ?xs)))"
  proof -
    have "distinct ?xs" "\<forall>s\<in>set ?xs. s < hn_len g" using assms(2) by simp_all
    from topk_ranked [OF assms(1) this, of k query] show ?thesis
      by (simp only: search_exact_over_def push_exact_foldl [OF assms(1)] assms(3) option.map
          simp_thms if_False)
  qed
  moreover have "filter (\<lambda>s. s \<in> set ?xs) [0..<hn_len g] =
      filter (\<lambda>s. s \<in> set (rb_iter allowed) \<and> \<not> is_tombstoned g s) [0..<hn_len g]"
    by (rule filter_cong) auto
  ultimately show ?thesis by (simp add: ranked_hits_def)
qed

text \<open>The ranked hits of a predicate are the exact search of \<open>oracle.rs\<close>.\<close>

lemma oracle_search_ranked:
  assumes "rows_ok g"
  shows "oracle_search (hn_vectors g) (hn_metric g) query k P = take k (ranked_hits g query P)"
proof -
  let ?rows = "flat_rows (hn_vectors g)"
  have len: "length ?rows = hn_len g" "flat_wf (hn_vectors g)" "hn_len g \<le> 2 ^ 32"
    using assms by (auto simp: rows_ok_def flat.len_rows)
  have hit: "exact_hit g query s = Some \<lparr>hit_id = s, hit_distance = distance (hn_metric g) query (?rows ! s)\<rparr>"
    if "s < hn_len g" for s
    using that len by (simp add: exact_hit_def hn_dist_def flat.get_rows index_def)
  have enum: "flat_enum (hn_vectors g) = map (\<lambda>s. (s, ?rows ! s)) [0..<hn_len g]"
    by (rule nth_equalityI) (auto simp: flat_enum_def len)
  have "oracle_hits (hn_vectors g) (hn_metric g) query P =
      map (\<lambda>s. \<lparr>hit_id = s, hit_distance = distance (hn_metric g) query (?rows ! s)\<rparr>)
        (filter P [0..<hn_len g])"
    by (simp add: oracle_hits_def enum filter_map comp_def)
  also have "\<dots> = map (the \<circ> exact_hit g query) (filter P [0..<hn_len g])"
    using hit by simp
  also have "\<dots> = List.map_filter (exact_hit g query) (filter P [0..<hn_len g])"
  proof -
    have "filter (\<lambda>s. exact_hit g query s \<noteq> None) (filter P [0..<hn_len g]) = filter P [0..<hn_len g]"
      using hit by (intro filter_True) auto
    then show ?thesis by (simp add: List.map_filter_def)
  qed
  finally have hits: "oracle_hits (hn_vectors g) (hn_metric g) query P =
      List.map_filter (exact_hit g query) (filter P [0..<hn_len g])" .
  show ?thesis
    using topk_exact [OF inj_rank_key [OF oracle_hits_distinct],
        of k "hn_vectors g" "hn_metric g" query P]
    unfolding oracle_search_foldl ranked_hits_def hits .
qed

section \<open>Ranked hits\<close>

lemma ranked_hits_empty [simp]: "ranked_hits g query (\<lambda>_. False) = []"
  by (simp add: ranked_hits_def map_filter_simps)

lemma exact_hits_member:
  "h \<in> set (List.map_filter (exact_hit g query) xs) \<longleftrightarrow>
     hit_id h \<in> set xs \<and> hn_dist g query (hit_id h) = Some (hit_distance h)"
  by (force simp: List.map_filter_def exact_hit_def)

lemma exact_hits_distinct:
  "distinct xs \<Longrightarrow> distinct (map hit_id (List.map_filter (exact_hit g query) xs))"
  by (induction xs)
    (auto simp: map_filter_simps exact_hit_def exact_hits_member split: option.splits)

text \<open>Ranked hits are strictly ascending and carry exact distances of slots that pass the test.\<close>

lemma ranked_hits_ok:
  shows "sorted_wrt (\<lambda>a b. cmp_rank a b = Less) (ranked_hits g query P)"
    and "h \<in> set (ranked_hits g query P) \<Longrightarrow> hit_id h < hn_len g \<and> P (hit_id h) \<and>
      hn_dist g query (hit_id h) = Some (hit_distance h)"
proof -
  let ?hs = "List.map_filter (exact_hit g query) (filter P [0..<hn_len g])"
  have ids: "distinct (map hit_id ?hs)" by (rule exact_hits_distinct) simp
  then have "inj_on rank_key (set ?hs)" by (rule inj_rank_key)
  moreover have "distinct ?hs" using ids by (simp add: distinct_map)
  ultimately have "distinct (map rank_key (ranked_hits g query P))"
    by (simp add: ranked_hits_def distinct_map)
  moreover have "sorted (map rank_key (ranked_hits g query P))"
    by (simp add: ranked_hits_def)
  ultimately have "sorted_wrt (<) (map rank_key (ranked_hits g query P))"
    by (simp add: strict_sorted_iff)
  then show "sorted_wrt (\<lambda>a b. cmp_rank a b = Less) (ranked_hits g query P)"
    by (simp add: sorted_wrt_map cmp_rank_key)
  show "h \<in> set (ranked_hits g query P) \<Longrightarrow> hit_id h < hn_len g \<and> P (hit_id h) \<and>
      hn_dist g query (hit_id h) = Some (hit_distance h)"
    by (simp add: ranked_hits_def exact_hits_member)
qed

end
