(* ===== verification/Hnsw_Insert.thy ===== *)
theory Hnsw_Insert
  imports Hnsw_Search
begin

text \<open>
  Sequential insertion (\<open>insert\<close>, \<open>link_back\<close> and \<open>select_heuristic\<close> in \<open>hnsw.rs\<close>). The
  neighbour selection keeps as many candidates as fit, the nearest first; an insertion never
  panics on a well-formed graph below the slot limit, appends exactly one row and keeps the
  invariant.
\<close>

section \<open>Neighbour selection\<close>

fun closer_to_selected ::
  "flat_vectors \<Rightarrow> metric \<Rightarrow> f32 list \<Rightarrow> f32 \<Rightarrow> nat list \<Rightarrow> bool option" where
  "closer_to_selected vectors metric candidate_vector d_q [] = Some False"
| "closer_to_selected vectors metric candidate_vector d_q (s # selected) =
     Option.bind (flat_get vectors s) (\<lambda>v.
       if f32_lt (distance metric candidate_vector v) d_q then Some True
       else closer_to_selected vectors metric candidate_vector d_q selected)"

fun select_loop ::
  "flat_vectors \<Rightarrow> metric \<Rightarrow> nat \<Rightarrow> far list \<Rightarrow> nat list \<Rightarrow> nat list \<Rightarrow> (nat list \<times> nat list) option" where
  "select_loop vectors metric m [] selected pruned = Some (selected, pruned)"
| "select_loop vectors metric m ((d_q, candidate) # rest) selected pruned =
     (if m \<le> length selected then Some (selected, pruned)
      else Option.bind (flat_get vectors candidate) (\<lambda>candidate_vector.
           Option.bind (closer_to_selected vectors metric candidate_vector d_q selected) (\<lambda>closer.
             if closer then select_loop vectors metric m rest selected (pruned @ [candidate])
             else select_loop vectors metric m rest (selected @ [candidate]) pruned)))"

fun backfill :: "nat \<Rightarrow> nat list \<Rightarrow> nat list \<Rightarrow> nat list" where
  "backfill m selected [] = selected"
| "backfill m selected (slot # pruned) =
     (if m \<le> length selected then selected else backfill m (selected @ [slot]) pruned)"

definition select_heuristic :: "flat_vectors \<Rightarrow> metric \<Rightarrow> far list \<Rightarrow> nat \<Rightarrow> nat list option" where
  "select_heuristic vectors metric candidates m =
     map_option (\<lambda>(selected, pruned). backfill m selected pruned)
       (select_loop vectors metric m (sort_by far_cmp candidates) [] [])"

section \<open>Linking\<close>

definition far_from :: "(nat \<Rightarrow> f32 option) \<Rightarrow> nat \<Rightarrow> far option" where
  "far_from dist s = map_option (\<lambda>d. (d, s)) (dist s)"

definition link_back :: "hnsw \<Rightarrow> nat \<Rightarrow> nat \<Rightarrow> nat \<Rightarrow> hnsw option" where
  "link_back g neighbour slot level =
     Option.bind (neighbours g neighbour level) (\<lambda>ns.
       if length ns < capacity g level then append_link g neighbour level (length ns) slot
       else Option.bind (flat_get (hn_vectors g) neighbour) (\<lambda>base.
            Option.bind (those (map (far_from (hn_dist g base)) (ns @ [slot]))) (\<lambda>candidates.
            Option.bind (select_heuristic (hn_vectors g) (hn_metric g) candidates (capacity g level))
              (set_neighbours g neighbour level))))"

fun link_back_all :: "nat list \<Rightarrow> nat \<Rightarrow> nat \<Rightarrow> hnsw \<Rightarrow> hnsw option" where
  "link_back_all [] slot level g = Some g"
| "link_back_all (neighbour # ns) slot level g =
     Option.bind (link_back g neighbour slot level) (link_back_all ns slot level)"

text \<open>One level of an insertion: the graph and the entries of the level below.\<close>

definition link_level ::
  "f32 list \<Rightarrow> nat \<Rightarrow> nat \<Rightarrow> hnsw \<times> nat list \<Rightarrow> (hnsw \<times> nat list) option" where
  "link_level query slot lc = (\<lambda>(g, entries).
     Option.bind (hn_search_layer g (hn_dist g query) entries
         (hp_ef_construction (hn_params g)) lc (\<lambda>_. True)) (\<lambda>candidates.
     Option.bind (select_heuristic (hn_vectors g) (hn_metric g) candidates (capacity g lc)) (\<lambda>selected.
     Option.bind (set_neighbours g slot lc selected) (\<lambda>g'.
       map_option (\<lambda>g''. (g'', map snd candidates)) (link_back_all selected slot lc g')))))"

fun link_levels :: "f32 list \<Rightarrow> nat \<Rightarrow> nat \<Rightarrow> hnsw \<times> nat list \<Rightarrow> (hnsw \<times> nat list) option" where
  "link_levels query slot 0 st = link_level query slot 0 st"
| "link_levels query slot (Suc lc) st =
     Option.bind (link_level query slot (Suc lc) st) (link_levels query slot lc)"

section \<open>Insertion\<close>

definition grow :: "hnsw \<Rightarrow> flat_vectors \<Rightarrow> f32 list \<Rightarrow> nat \<Rightarrow> hnsw" where
  "grow g vectors row level =
     (let n = Suc (hn_len g)
      in g\<lparr>hn_vectors := vectors, hn_quantized := quant_push (hn_quantized g) row,
           hn_levels := hn_levels g @ [level],
           hn_level0 := hn_level0 g @ replicate (hn_m0 g) 0,
           hn_level0_len := hn_level0_len g @ [0],
           hn_upper := hn_upper g @ [replicate (level * hn_m g) 0],
           hn_upper_len := hn_upper_len g @ [replicate level 0],
           hn_tombstones := (if length (hn_tombstones g) * 64 < n then hn_tombstones g @ [0]
                             else hn_tombstones g)\<rparr>)"

definition raise_entry :: "nat \<Rightarrow> nat \<Rightarrow> hnsw \<Rightarrow> hnsw" where
  "raise_entry slot level g =
     (if hn_max_level g < level then g\<lparr>hn_entry := Some slot, hn_max_level := level\<rparr> else g)"

definition hnsw_insert ::
  "(f64 \<Rightarrow> f64) \<Rightarrow> hnsw \<Rightarrow> f32 list \<Rightarrow> (vector_error + nat \<times> hnsw) option" where
  "hnsw_insert ln64 g vector =
     (case flat_push (hn_vectors g) vector (hn_metric g) of
        Inl e \<Rightarrow> Some (Inl e)
      | Inr (slot, vectors) \<Rightarrow>
          if \<not> slot < 2 ^ 32 then None
          else Option.bind (flat_get vectors slot) (\<lambda>query.
            let level = level_for ln64 (hn_params g) slot; g1 = grow g vectors query level
            in case hn_entry g of
                 None \<Rightarrow> Some (Inr (slot, g1\<lparr>hn_entry := Some slot, hn_max_level := level\<rparr>))
               | Some entry \<Rightarrow>
                   Option.bind (greedy_descend (hn_greedy_closest g1 (hn_dist g1 query)) level entry
                       (hn_max_level g)) (\<lambda>e.
                     map_option (\<lambda>(g2, _). Inr (slot, raise_entry slot level g2))
                       (link_levels query slot (min level (hn_max_level g)) (g1, [e])))))"

section \<open>Lemmas: neighbour selection\<close>

text \<open>The rows a selection looks at are present.\<close>

definition rows_present :: "flat_vectors \<Rightarrow> nat set \<Rightarrow> bool" where
  "rows_present vectors S \<longleftrightarrow> (\<forall>s\<in>S. flat_get vectors s \<noteq> None)"

lemma closer_Some:
  "rows_present vectors (set selected) \<Longrightarrow> \<exists>b. closer_to_selected vectors metric v d selected = Some b"
  by (induction selected) (auto simp: rows_present_def)

lemma select_loop_ok:
  assumes "rows_present vectors (snd ` set cs \<union> set selected)" and "length selected \<le> m"
  shows "\<exists>sel pru used rest. select_loop vectors metric m cs selected pruned = Some (sel, pru) \<and>
    cs = used @ rest \<and> mset sel + mset pru = mset selected + mset pruned + mset (map snd used) \<and>
    length sel \<le> m \<and> (rest \<noteq> [] \<longrightarrow> length sel = m) \<and> (\<exists>ext. sel = selected @ ext) \<and>
    (selected = [] \<and> pruned = [] \<and> cs \<noteq> [] \<and> 0 < m \<longrightarrow> sel \<noteq> [] \<and> hd sel = snd (hd cs))"
  using assms
proof (induction cs arbitrary: selected pruned)
  case (Cons x cs)
  obtain d c where x: "x = (d, c)" by force
  show ?case
  proof (cases "m \<le> length selected")
    case True
    with Cons.prems(2) x show ?thesis
      by (intro exI [of _ selected] exI [of _ pruned] exI [of _ "[]"] exI [of _ "x # cs"]) auto
  next
    case False
    obtain v where v: "flat_get vectors c = Some v"
      using Cons.prems(1) x by (auto simp: rows_present_def)
    obtain cl where cl: "closer_to_selected vectors metric v d selected = Some cl"
      using closer_Some [of vectors selected metric v d] Cons.prems(1)
      by (auto simp: rows_present_def)
    define sel1 where "sel1 = (if cl then selected else selected @ [c])"
    define pru1 where "pru1 = (if cl then pruned @ [c] else pruned)"
    have "select_loop vectors metric m (x # cs) selected pruned =
        select_loop vectors metric m cs sel1 pru1"
      using x False v cl by (simp add: sel1_def pru1_def)
    moreover have "rows_present vectors (snd ` set cs \<union> set sel1)" "length sel1 \<le> m"
      using Cons.prems x False by (auto simp: rows_present_def sel1_def)
    from Cons.IH [OF this, of pru1] obtain sel pru used rest where
      r: "select_loop vectors metric m cs sel1 pru1 = Some (sel, pru)" "cs = used @ rest"
        "mset sel + mset pru = mset sel1 + mset pru1 + mset (map snd used)" "length sel \<le> m"
        "rest \<noteq> [] \<longrightarrow> length sel = m" "\<exists>ext. sel = sel1 @ ext" by blast
    moreover have "mset sel1 + mset pru1 = mset selected + mset pruned + {#c#}"
      by (simp add: sel1_def pru1_def)
    moreover have "selected = [] \<Longrightarrow> \<not> cl" using cl by auto
    ultimately show ?thesis
      using x by (intro exI [of _ sel] exI [of _ pru] exI [of _ "x # used"] exI [of _ rest])
        (auto simp: sel1_def)
  qed
qed auto

lemma backfill_ok:
  "length selected \<le> m \<Longrightarrow>
    backfill m selected pruned = selected @ take (m - length selected) pruned"
proof (induction m selected pruned rule: backfill.induct)
  case (2 m selected slot pruned)
  show ?case
  proof (cases "m \<le> length selected")
    case False
    then have "m - length selected = Suc (m - Suc (length selected))" by simp
    with 2 False show ?thesis by simp
  qed (use 2 in simp)
qed simp

lemma select_heuristic_ok:
  assumes "rows_present vectors (snd ` set cs)"
  shows "\<exists>sel. select_heuristic vectors metric cs m = Some sel \<and>
    length sel = min m (length cs) \<and> mset sel \<subseteq># mset (map snd cs) \<and>
    (cs \<noteq> [] \<and> 0 < m \<longrightarrow> hd sel = snd (hd (sort_by far_cmp cs)))"
proof -
  let ?s = "sort_by far_cmp cs"
  from assms have "rows_present vectors (snd ` set ?s \<union> set [])" by simp
  from select_loop_ok [OF this, of m metric "[]"] obtain sel pru used rest where
    r: "select_loop vectors metric m ?s [] [] = Some (sel, pru)" "?s = used @ rest"
      "mset sel + mset pru = mset [] + mset [] + mset (map snd used)" "length sel \<le> m" "rest \<noteq> [] \<longrightarrow> length sel = m"
      "[] = [] \<and> [] = [] \<and> ?s \<noteq> [] \<and> 0 < m \<longrightarrow> sel \<noteq> [] \<and> hd sel = snd (hd ?s)"
    unfolding list.size by blast
  let ?out = "backfill m sel pru"
  have out: "?out = sel @ take (m - length sel) pru" using r(4) by (rule backfill_ok)
  have sz: "length sel + length pru = length used"
    using arg_cong [OF r(3), of size] by simp
  have len: "length ?out = min m (length cs)"
  proof (cases "rest = []")
    case True
    then have "length used = length cs" using arg_cong [OF r(2), of length] by simp
    moreover have "a \<le> m \<Longrightarrow> a + p = c \<Longrightarrow> a + min p (m - a) = min m c" for a p c :: nat
      by auto
    ultimately show ?thesis using sz r(4) by (simp add: out)
  next
    case False
    then have "length sel = m" using r(5) by simp
    moreover have "length cs = length used + length rest"
      using arg_cong [OF r(2), of length] by simp
    ultimately show ?thesis using sz by (simp add: out)
  qed
  have "mset (take (m - length sel) pru) \<subseteq># mset pru"
    by (metis append_take_drop_id mset_append mset_subset_eq_add_left)
  then have "mset ?out \<subseteq># mset (map snd used)"
    using r(3) by (metis add_0 empty_neutral(1) mset.simps(1) mset_append out
        subset_mset.add_le_cancel_left)
  moreover have "mset (map snd cs) = mset (map snd used) + mset (map snd rest)"
    using arg_cong [OF r(2), of "\<lambda>xs. image_mset snd (mset xs)"] by simp
  ultimately have "mset ?out \<subseteq># mset (map snd cs)"
    by (metis mset_subset_eq_add_left subset_mset.trans)
  moreover have "cs \<noteq> [] \<and> 0 < m \<longrightarrow> hd ?out = snd (hd ?s)"
    using r(6) by (auto simp: out hd_append dest: arg_cong [of _ _ length])
  ultimately show ?thesis using r(1) len by (simp add: select_heuristic_def)
qed

section \<open>Lemmas: linking keeps the invariant\<close>

lemma rows_present_valid:
  assumes "graph_ok g" and "\<forall>s\<in>S. has_level g s l"
  shows "rows_present (hn_vectors g) S"
  using assms hn_dist_Some [of g] by (fastforce simp: rows_present_def graph_ok_def has_level_def)

text \<open>Selecting among valid candidates gives a list that may replace the links of a level.\<close>

lemma select_valid:
  assumes "graph_ok g" and "\<forall>x\<in>set cs. has_level g (snd x) l"
  shows "\<exists>sel. select_heuristic (hn_vectors g) (hn_metric g) cs (capacity g l) = Some sel \<and>
    length sel \<le> capacity g l \<and> (\<forall>s\<in>set sel. has_level g s l)"
proof -
  have "rows_present (hn_vectors g) (snd ` set cs)"
    using rows_present_valid [OF assms(1)] assms(2) by blast
  from select_heuristic_ok [OF this, of "hn_metric g" "capacity g l"] obtain sel where
    sel: "select_heuristic (hn_vectors g) (hn_metric g) cs (capacity g l) = Some sel"
      "length sel = min (capacity g l) (length cs)" "mset sel \<subseteq># mset (map snd cs)" by blast
  have "set sel \<subseteq> snd ` set cs"
    using set_mset_mono [OF sel(3)] by (simp del: mset_map)
  with sel assms(2) show ?thesis by auto
qed

lemma far_from_all:
  assumes "graph_ok g" and "\<forall>s\<in>set xs. has_level g s l"
  shows "\<exists>cs. those (map (far_from (hn_dist g q)) xs) = Some cs \<and> map snd cs = xs"
  using assms(2)
proof (induction xs)
  case (Cons s xs)
  obtain d where "hn_dist g q s = Some d"
    using hn_dist_Some [of g s q] Cons.prems assms(1) by (auto simp: graph_ok_def has_level_def)
  with Cons show ?case by (auto simp: far_from_def)
qed simp

lemma link_back_ok:
  assumes ok: "graph_ok g" and n: "has_level g n l" and s: "has_level g s l"
  shows "\<exists>g'. link_back g n s l = Some g' \<and> graph_ok g' \<and> same_rows g g'"
proof -
  have shape: "shape_ok g" and closed: "lk.closed g"
    using ok by (simp_all add: graph_ok_def links_ok_closed)
  obtain ns where ns: "neighbours g n l = Some ns" "length ns \<le> capacity g l"
    using lk.get_ok [OF shape n] by blast
  have valid: "\<forall>t\<in>set (ns @ [s]). has_level g t l"
    using lk.closedD [OF closed n ns(1)] s by auto
  show ?thesis
  proof (cases "length ns < capacity g l")
    case True
    with set_neighbours_graph_ok [OF ok n, of "ns @ [s]"] valid show ?thesis
      by (simp add: link_back_def ns(1) append_link_set [OF shape n ns(1) True])
  next
    case False
    obtain base where base: "flat_get (hn_vectors g) n = Some base"
      using hn_dist_Some [of g n] ok n by (auto simp: graph_ok_def has_level_def)
    obtain cs where cs: "those (map (far_from (hn_dist g base)) (ns @ [s])) = Some cs"
      "map snd cs = ns @ [s]" using far_from_all [OF ok valid] by blast
    have "snd x \<in> set (ns @ [s])" if "x \<in> set cs" for x using that cs(2) by (metis imageI set_map)
    then have "\<forall>x\<in>set cs. has_level g (snd x) l" using valid by blast
    from select_valid [OF ok this] obtain sel where
      sel: "select_heuristic (hn_vectors g) (hn_metric g) cs (capacity g l) = Some sel"
        "length sel \<le> capacity g l" "\<forall>t\<in>set sel. has_level g t l" by blast
    from set_neighbours_graph_ok [OF ok n sel(2,3)] cs(1) sel(1) base False show ?thesis
      by (simp add: link_back_def ns(1) del: map_append)
  qed
qed

lemma link_back_all_ok:
  assumes "graph_ok g" and "\<forall>n\<in>set ns. has_level g n l" and "has_level g s l"
  shows "\<exists>g'. link_back_all ns s l g = Some g' \<and> graph_ok g' \<and> same_rows g g'"
  using assms
proof (induction ns arbitrary: g)
  case (Cons n ns)
  from link_back_ok [OF Cons.prems(1) _ Cons.prems(3)] Cons.prems(2) obtain g1 where
    g1: "link_back g n s l = Some g1" "graph_ok g1" "same_rows g g1" by auto
  have "has_level g1 = has_level g" using same_rowsD(2) [OF g1(3)] .
  with Cons.IH [OF g1(2)] Cons.prems g1 show ?case by (auto intro: same_rows_trans)
qed simp

lemma link_level_ok:
  assumes ok: "graph_ok g" and es: "\<forall>e\<in>set es. has_level g e l" and s: "has_level g s l"
  shows "\<exists>g' es'. link_level q s l (g, es) = Some (g', es') \<and> graph_ok g' \<and> same_rows g g' \<and>
    (\<forall>e\<in>set es'. has_level g' e l)"
proof -
  have d: "traverse_dist g (F32, q) = hn_dist g q" by (simp add: traverse_dist_def)
  from hs.search_layer_ok [OF ok visited_new_wf es, of "(F32, q)"] obtain b where
    b: "search_layer visited_new (hn_len g) (hn_reader g l) (hn_dist g q) es
          (hp_ef_construction (hn_params g)) (\<lambda>_. True) = Some b"
      "hs.beam_inv g l (F32, q) (\<lambda>_. True) b" unfolding d by blast
  have cs: "\<forall>x\<in>set (bm_results b). has_level g (snd x) l"
    using b(2) by (auto simp: hs.beam_inv_def)
  from select_valid [OF ok cs] obtain sel where
    sel: "select_heuristic (hn_vectors g) (hn_metric g) (bm_results b) (capacity g l) = Some sel"
      "length sel \<le> capacity g l" "\<forall>t\<in>set sel. has_level g t l" by blast
  from set_neighbours_graph_ok [OF ok s sel(2,3)] obtain g1 where
    g1: "set_neighbours g s l sel = Some g1" "graph_ok g1" "same_rows g g1" by blast
  note lev1 = same_rowsD(2) [OF g1(3)]
  from link_back_all_ok [OF g1(2), of sel l s] sel(3) s obtain g2 where
    g2: "link_back_all sel s l g1 = Some g2" "graph_ok g2" "same_rows g1 g2" by (auto simp: lev1)
  have "link_level q s l (g, es) = Some (g2, map snd (bm_results b))"
    using b(1) sel(1) g1(1) g2(1) by (simp add: link_level_def hn_search_layer_def)
  moreover have "same_rows g g2" using g1(3) g2(3) by (rule same_rows_trans)
  ultimately show ?thesis using g2(2) cs same_rowsD(2) [of g g2] by auto
qed

lemma link_levels_ok:
  assumes "graph_ok g" and "\<forall>e\<in>set es. has_level g e l" and "has_level g s l"
  shows "\<exists>g' es'. link_levels q s l (g, es) = Some (g', es') \<and> graph_ok g' \<and> same_rows g g'"
  using assms
proof (induction l arbitrary: g es)
  case 0
  with link_level_ok [of g es 0 s q] show ?case by auto
next
  case (Suc l)
  from link_level_ok [OF Suc.prems, of q] obtain g1 es1 where
    g1: "link_level q s (Suc l) (g, es) = Some (g1, es1)" "graph_ok g1" "same_rows g g1"
      "\<forall>e\<in>set es1. has_level g1 e (Suc l)" by blast
  have "has_level g1 s l" "\<forall>e\<in>set es1. has_level g1 e l"
    using g1(4) Suc.prems(3) same_rowsD(2) [OF g1(3)] by (auto simp: has_level_def)
  with Suc.IH [OF g1(2)] g1(1,3) show ?case by (fastforce intro: same_rows_trans)
qed

section \<open>Lemmas: growing by one slot\<close>

lemma grow_fields [simp]:
  "hn_len (grow g v row level) = Suc (hn_len g)" "hn_params (grow g v row level) = hn_params g"
  "hn_levels (grow g v row level) = hn_levels g @ [level]" "hn_vectors (grow g v row level) = v"
  "hn_metric (grow g v row level) = hn_metric g" "hn_entry (grow g v row level) = hn_entry g"
  "hn_max_level (grow g v row level) = hn_max_level g"
  by (simp_all add: grow_def Let_def hn_len_def)

lemma grow_shape: "shape_ok g \<Longrightarrow> level \<le> 31 \<Longrightarrow> shape_ok (grow g v row level)"
  by (simp add: shape_ok_def hn_len_def grow_def Let_def nth_append less_Suc_eq)

lemma grow_has_level:
  "has_level (grow g v row level) s l \<longleftrightarrow> has_level g s l \<or> s = hn_len g \<and> l \<le> level"
  by (auto simp: has_level_def nth_append hn_len_def)

lemma slice_append: "slice xs i n = Some ys \<Longrightarrow> slice (xs @ zs) i n = Some ys"
  by (auto simp: slice_def split: if_splits)

lemma neighbours_grow_old:
  assumes "shape_ok g" and "has_level g s l"
  shows "neighbours (grow g v row level) s l = neighbours g s l"
proof (cases l)
  case 0
  have s: "s < hn_len g" using assms(2) by (simp add: has_level_def)
  from neighbours_level0 [OF assms(1) s] obtain ns where
    "neighbours g s 0 = Some ns" "slice (hn_level0 g) (s * hn_m0 g) (hn_level0_len g ! s) = Some ns"
    by auto
  with slice_append [OF this(2)] 0 s assms(1) show ?thesis
    by (simp add: neighbours_def grow_def Let_def index_def nth_append shape_ok_def)
next
  case (Suc k)
  with assms show ?thesis
    by (auto simp: neighbours_def grow_def Let_def index_def nth_append shape_ok_def has_level_def)
qed

lemma neighbours_grow_new:
  assumes "shape_ok g" and "l \<le> level"
  shows "neighbours (grow g v row level) (hn_len g) l = Some []"
proof -
  have "l * m \<le> level * m" for m using assms(2) by (rule mult_le_mono1)
  moreover from this have "(l - 1) * hn_m g \<le> level * hn_m g"
    using assms(2) by (intro mult_le_mono1) simp
  ultimately show ?thesis
    using assms
    by (auto simp: neighbours_def grow_def Let_def index_def nth_append shape_ok_def slice_def)
qed

lemma grow_links:
  assumes "shape_ok g" and "links_ok g"
  shows "links_ok (grow g v row level)"
  unfolding links_ok_def grow_has_level
proof (intro allI impI)
  fix s l ns
  assume "has_level g s l \<or> s = hn_len g \<and> l \<le> level"
    and ns: "neighbours (grow g v row level) s l = Some ns"
  then show "\<forall>t\<in>set ns. has_level g t l \<or> t = hn_len g \<and> l \<le> level"
    using assms neighbours_grow_old [OF assms(1)] neighbours_grow_new [OF assms(1)]
    by (auto simp: links_ok_def)
qed

lemma grow_words: "words_ok g \<Longrightarrow> words_ok (grow g v row level)"
  by (auto simp: words_ok_def grow_def Let_def)

lemma grow_tombstoned:
  "tombstones_ok g \<Longrightarrow> is_tombstoned (grow g v row level) s \<longleftrightarrow> is_tombstoned g s"
  by (auto simp: is_tombstoned_def grow_def Let_def index_def nth_append tombstones_ok_def less_Suc_eq
      split: option.splits if_splits)

lemma grow_tombstones:
  assumes "tombstones_ok g"
  shows "tombstones_ok (grow g v row level)"
proof -
  have "{s. is_tombstoned (grow g v row level) s} = {s. is_tombstoned g s}"
    using grow_tombstoned [OF assms] by blast
  moreover have "length (hn_tombstones (grow g v row level)) = div_ceil (Suc (hn_len g)) 64"
    using assms by (simp add: tombstones_ok_def grow_def Let_def div_ceil_Suc)
  moreover have "hn_tombstone_count (grow g v row level) = hn_tombstone_count g"
    by (simp add: grow_def Let_def)
  ultimately show ?thesis using assms by (auto simp: tombstones_ok_def)
qed

lemma push_rows:
  assumes "rows_ok g" and "flat_push (hn_vectors g) x m = Inr (slot, v)"
  shows "slot = hn_len g" "flat_wf v" "fv_dims v = hn_dims g" "flat_len v = Suc (hn_len g)"
    "flat_rows v = flat_rows (hn_vectors g) @ [if normalizes m then snd (normalize x) else x]"
  using flat.push_ok [OF _ assms(2)] flat.push_len [OF _ assms(2)] assms(1)
  by (auto simp: rows_ok_def hn_dims_def)

lemma grow_rows:
  assumes "rows_ok g" and "flat_push (hn_vectors g) x m = Inr (slot, v)" and "hn_len g < 2 ^ 32"
  shows "\<exists>row. flat_get v slot = Some row \<and> length row = hn_dims g \<and> rows_ok (grow g v row level)"
proof -
  note p = push_rows [OF assms(1,2)]
  obtain row where row: "flat_get v slot = Some row" "length row = hn_dims g"
    using flat.get_in_range [OF p(2), of slot] p assms(3) by auto
  have "quant_wf (hn_quantized g)" "qv_dims (hn_quantized g) = hn_dims g"
    "quant_len (hn_quantized g) = hn_len g" using assms(1) by (simp_all add: rows_ok_def)
  moreover from this have "length (qq_codes (quantize row)) = qv_dims (hn_quantized g)"
    using row(2) by simp
  ultimately have "rows_ok (grow g v row level)"
    using quant_push_wf [of "hn_quantized g" "quantize row"] p assms(3)
    by (simp add: rows_ok_def) (simp add: grow_def Let_def quant_push_def hn_dims_def)
  with row show ?thesis by blast
qed

lemma grow_graph_ok:
  assumes "graph_ok g" and "flat_push (hn_vectors g) x m = Inr (slot, v)" and "hn_len g < 2 ^ 32"
    and "level \<le> 31"
  shows "\<exists>row. flat_get v slot = Some row \<and> length row = hn_dims g \<and> graph_ok (grow g v row level)"
  using assms grow_rows [of g x m slot v level]
  by (fastforce simp: graph_ok_def grow_shape grow_links grow_words grow_tombstones)

section \<open>Lemmas: insertion\<close>

lemma entry_update [simp]:
  "hn_len (g\<lparr>hn_entry := e, hn_max_level := l\<rparr>) = hn_len g"
  "neighbours (g\<lparr>hn_entry := e, hn_max_level := l\<rparr>) = neighbours g"
  "has_level (g\<lparr>hn_entry := e, hn_max_level := l\<rparr>) = has_level g"
  "is_tombstoned (g\<lparr>hn_entry := e, hn_max_level := l\<rparr>) = is_tombstoned g"
  "hn_dims (g\<lparr>hn_entry := e, hn_max_level := l\<rparr>) = hn_dims g"
  by (auto simp: hn_len_def neighbours_def has_level_def is_tombstoned_def hn_dims_def fun_eq_iff)

lemma graph_ok_entry [simp]: "graph_ok (g\<lparr>hn_entry := e, hn_max_level := l\<rparr>) \<longleftrightarrow> graph_ok g"
  by (simp add: graph_ok_def shape_ok_def links_ok_def words_ok_def rows_ok_def tombstones_ok_def)

lemma raise_entry_ok:
  assumes ok: "graph_ok g" and n: "hn_len g = Suc n" "hn_levels g = ls @ [level]"
    and e: "hn_entry g = Some e" "e < n" "ls ! e = hn_max_level g"
      "\<forall>s<n. ls ! s \<le> hn_max_level g"
  shows "hnsw_wf (raise_entry n level g)"
proof -
  have len: "length ls = n" using n by (simp add: hn_len_def)
  have "graph_ok (raise_entry n level g)"
    using ok by (simp add: raise_entry_def)
  moreover have "entry_ok (raise_entry n level g)"
    using e n len
    by (auto simp: entry_ok_def raise_entry_def hn_len_def nth_append less_Suc_eq)
  ultimately show ?thesis by (simp add: hnsw_wf_def)
qed

lemma hnsw_insert_ok:
  assumes wf: "hnsw_wf g" and room: "hn_len g < 2 ^ 32"
    and push: "flat_push (hn_vectors g) x (hn_metric g) = Inr (slot, v)"
  shows "\<exists>g'. hnsw_insert ln64 g x = Some (Inr (hn_len g, g')) \<and> hnsw_wf g' \<and>
    hn_len g' = Suc (hn_len g) \<and> hn_vectors g' = v \<and> hn_params g' = hn_params g \<and>
    hn_metric g' = hn_metric g \<and> (\<forall>s. is_tombstoned g' s \<longleftrightarrow> is_tombstoned g s)"
proof -
  have ok: "graph_ok g" "entry_ok g" and tomb: "tombstones_ok g"
    using wf by (simp_all add: hnsw_wf_def graph_ok_def)
  have slot: "slot = hn_len g" using push_rows(1) [OF _ push] ok by (simp add: graph_ok_def)
  define level where "level = level_for ln64 (hn_params g) slot"
  obtain row where row: "flat_get v slot = Some row" "graph_ok (grow g v row level)"
    using grow_graph_ok [OF ok(1) push room, of level] by (auto simp: level_def level_for_le)
  let ?g = "grow g v row level"
  show ?thesis
  proof (cases "hn_entry g")
    case None
    let ?r = "?g\<lparr>hn_entry := Some slot, hn_max_level := level\<rparr>"
    have "hn_len g = 0" using ok(2) None by (simp add: entry_ok_def)
    then have "entry_ok ?r" by (simp add: entry_ok_def slot nth_append hn_len_def)
    moreover have "graph_ok ?r" using row(2) by simp
    moreover have "is_tombstoned ?r s \<longleftrightarrow> is_tombstoned g s" for s
      using grow_tombstoned [OF tomb] by simp
    moreover have "hnsw_insert ln64 g x = Some (Inr (hn_len g, ?r))"
      using push row(1) room None slot by (simp add: hnsw_insert_def Let_def level_def)
    ultimately show ?thesis by (simp add: hnsw_wf_def hn_len_def)
  next
    case (Some e)
    then have e: "e < hn_len g" "hn_levels g ! e = hn_max_level g"
      "\<forall>s<hn_len g. hn_levels g ! s \<le> hn_max_level g" using ok(2) by (simp_all add: entry_ok_def)
    then have ev: "has_level ?g e (hn_max_level g)"
      unfolding grow_has_level by (simp add: has_level_def)
    have d: "traverse_dist ?g (F32, row) = hn_dist ?g row" by (simp add: traverse_dist_def)
    obtain r where r: "greedy_descend (hn_greedy_closest ?g (hn_dist ?g row)) level e (hn_max_level g)
        = Some r" "has_level ?g r (min level (hn_max_level g))"
      using hs.greedy_descend_ok [OF row(2) ev, of "(F32, row)" level]
      by (auto simp: hn_greedy_closest_def [abs_def] d)
    have "has_level ?g slot (min level (hn_max_level g))" by (simp add: grow_has_level slot)
    with link_levels_ok [OF row(2), of "[r]" "min level (hn_max_level g)" slot row] r(2) obtain g2 es where
      g2: "link_levels row slot (min level (hn_max_level g)) (?g, [r]) = Some (g2, es)"
        "graph_ok g2" "same_rows ?g g2" by auto
    have f: "hn_levels g2 = hn_levels g @ [level]" "hn_len g2 = Suc (hn_len g)"
      "hn_entry g2 = Some e" "hn_max_level g2 = hn_max_level g" "hn_vectors g2 = v"
      "hn_params g2 = hn_params g" "hn_metric g2 = hn_metric g"
      using g2(3) Some by (simp_all add: same_rows_def hn_len_def)
    have "hnsw_wf (raise_entry slot level g2)"
      unfolding slot using g2(2) f(2,1,3) e by (intro raise_entry_ok) (simp_all add: f(4))
    moreover have "is_tombstoned (raise_entry slot level g2) s \<longleftrightarrow> is_tombstoned g s" for s
      using grow_tombstoned [OF tomb] same_rowsD(8) [OF g2(3)] by (simp add: raise_entry_def)
    moreover have "hnsw_insert ln64 g x = Some (Inr (hn_len g, raise_entry slot level g2))"
      using push row(1) room Some slot r(1) g2(1) by (simp add: hnsw_insert_def Let_def level_def)
    ultimately show ?thesis using f by (simp add: raise_entry_def hn_len_def)
  qed
qed

end
