(* ===== verification/Wal_Codec.thy ===== *)
theory Wal_Codec
  imports Float_Model
begin

text \<open>
  The framing of write-ahead log entries (\<open>wal.rs\<close>): \<open>Entry::encode\<close>, \<open>Entry::decode\<close>, the
  bounded reader and \<open>parse_entry\<close>. CRC32C comes from the \<open>crc32c\<close> crate and is the argument
  \<open>crc\<close>, a function of bytes; nothing is assumed of it. The theorems: what is encoded is
  parsed back, whatever follows it, and what is parsed is exactly the encoding of the result,
  so a frame has one encoding.
\<close>

section \<open>Entries\<close>

datatype operation =
    Upsert (op_key: bytes) (op_payload: bytes) (op_vector: "f32 list")
  | Delete (op_key: bytes)

record entry =
  e_seq :: u64
  e_op_id :: bytes
  e_operation :: operation

datatype wal_error =
    BadHeader path string
  | UnsupportedVersion u16
  | WrongPartition path uuid uuid
  | Corrupt path nat string
  | SequenceGap path u64 u64
  | Malformed string
  | FieldTooLarge string
  | Poisoned
  | WalIo

definition MAX_KEY_LEN :: nat where "MAX_KEY_LEN = 512"
definition MAX_PAYLOAD_LEN :: nat where "MAX_PAYLOAD_LEN = 64 * 1024"
definition MAX_DIMS :: nat where "MAX_DIMS = 2 ^ 16"
definition MIN_FRAME_LEN :: nat where "MIN_FRAME_LEN = 4 + 8 + 16 + 1 + 2 + 1"

definition MAX_FRAME_LEN :: nat where
  "MAX_FRAME_LEN = 4 + 8 + 16 + 1 + 2 + MAX_KEY_LEN + 4 + MAX_PAYLOAD_LEN + 4 + 4 * MAX_DIMS"

lemmas frame_consts =
  MAX_KEY_LEN_def MAX_PAYLOAD_LEN_def MAX_DIMS_def MIN_FRAME_LEN_def MAX_FRAME_LEN_def

section \<open>Encoding\<close>

definition check_key :: "bytes \<Rightarrow> wal_error + unit" where
  "check_key key =
     (if key = [] \<or> MAX_KEY_LEN < length key then Inl (FieldTooLarge ''key'') else Inr ())"

definition encode_operation :: "operation \<Rightarrow> wal_error + bytes" where
  "encode_operation op =
     (case op of
        Upsert key payload vector \<Rightarrow>
          rbind (check_key key) (\<lambda>_.
          if MAX_PAYLOAD_LEN < length payload then Inl (FieldTooLarge ''payload'')
          else if vector = [] \<or> MAX_DIMS < length vector then Inl (FieldTooLarge ''vector'')
          else Inr ([1] @ u16_le (word_of_nat (length key)) @ key
                     @ u32_le (word_of_nat (length payload)) @ payload
                     @ u32_le (word_of_nat (length vector)) @ concat (map u32_le vector)))
      | Delete key \<Rightarrow>
          rbind (check_key key) (\<lambda>_.
            Inr ([2] @ u16_le (word_of_nat (length key)) @ key)))"

definition entry_encode :: "(bytes \<Rightarrow> u32) \<Rightarrow> entry \<Rightarrow> wal_error + bytes" where
  "entry_encode crc e =
     rbind (encode_operation (e_operation e)) (\<lambda>op.
       let body = u64_le (e_seq e) @ e_op_id e @ op
       in Inr (u32_le (word_of_nat (length body + 4)) @ u32_le (crc body) @ body))"

section \<open>Decoding\<close>

definition rd_take :: "nat \<Rightarrow> bytes \<Rightarrow> wal_error + bytes \<times> bytes" where
  "rd_take n bs =
     (if length bs < n then Inl (Malformed ''truncated entry body'')
      else Inr (take n bs, drop n bs))"

definition rd_u8 :: "bytes \<Rightarrow> wal_error + u8 \<times> bytes" where
  "rd_u8 bs = rbind (rd_take 1 bs) (\<lambda>(h, r). Inr (hd h, r))"

definition rd_u16 :: "bytes \<Rightarrow> wal_error + u16 \<times> bytes" where
  "rd_u16 bs = rbind (rd_take 2 bs) (\<lambda>(h, r). Inr (u16_of_le h, r))"

definition rd_u32 :: "bytes \<Rightarrow> wal_error + u32 \<times> bytes" where
  "rd_u32 bs = rbind (rd_take 4 bs) (\<lambda>(h, r). Inr (u32_of_le h, r))"

definition rd_u64 :: "bytes \<Rightarrow> wal_error + u64 \<times> bytes" where
  "rd_u64 bs = rbind (rd_take 8 bs) (\<lambda>(h, r). Inr (u64_of_le h, r))"

definition decode_upsert :: "bytes \<Rightarrow> bytes \<Rightarrow> wal_error + operation \<times> bytes" where
  "decode_upsert key bs =
     rbind (rd_u32 bs) (\<lambda>(plen, bs).
     if MAX_PAYLOAD_LEN < unat plen then Inl (Malformed ''payload length'')
     else rbind (rd_take (unat plen) bs) (\<lambda>(payload, bs).
     rbind (rd_u32 bs) (\<lambda>(dims, bs).
     if dims = 0 \<or> MAX_DIMS < unat dims then Inl (Malformed ''vector length'')
     else rbind (rd_take (unat dims * 4) bs) (\<lambda>(raw, bs).
       Inr (Upsert key payload (map u32_of_le (chunks 4 raw)), bs)))))"

definition entry_decode :: "bytes \<Rightarrow> wal_error + entry" where
  "entry_decode body =
     rbind (rd_u64 body) (\<lambda>(seq, bs).
     rbind (rd_take 16 bs) (\<lambda>(op_id, bs).
     rbind (rd_u8 bs) (\<lambda>(op, bs).
     rbind (rd_u16 bs) (\<lambda>(key_len, bs).
     rbind (rd_take (unat key_len) bs) (\<lambda>(key, bs).
     rbind (check_key key) (\<lambda>_.
     rbind (if op = 1 then decode_upsert key bs
            else if op = 2 then Inr (Delete key, bs)
            else Inl (Malformed ''operation code'')) (\<lambda>(operation, bs).
     if bs \<noteq> [] then Inl (Malformed ''trailing bytes in entry'')
     else Inr \<lparr>e_seq = seq, e_op_id = op_id, e_operation = operation\<rparr>)))))))"

section \<open>Frames\<close>

datatype frame_error = Unreadable string | FCorrupt string

definition frame_len :: "bytes \<Rightarrow> nat option" where
  "frame_len bs =
     (if length bs < 4 then None
      else let len = unat (u32_of_le (take 4 bs))
           in if MIN_FRAME_LEN \<le> len \<and> len \<le> MAX_FRAME_LEN then Some len else None)"

definition parse_entry :: "(bytes \<Rightarrow> u32) \<Rightarrow> bytes \<Rightarrow> frame_error + entry \<times> nat" where
  "parse_entry crc bs =
     (if length bs < 8 then Inl (Unreadable ''short frame'')
      else case frame_len bs of
        None \<Rightarrow> Inl (Unreadable ''frame length out of range'')
      | Some len \<Rightarrow>
          if length bs < 4 + len then Inl (Unreadable ''frame runs past the end of the segment'')
          else let c = u32_of_le (take 4 (drop 4 bs)); body = take (len - 4) (drop 8 bs)
               in if crc body \<noteq> c then Inl (Unreadable ''crc mismatch'')
                  else map_err (\<lambda>err. case err of Malformed reason \<Rightarrow> FCorrupt reason
                                      | _ \<Rightarrow> FCorrupt ''entry body'')
                         (rbind (entry_decode body) (\<lambda>e. Inr (e, 4 + len))))"

text \<open>A complete frame with a matching CRC starts at offset \<open>at\<close>.\<close>

definition valid_frame_at :: "(bytes \<Rightarrow> u32) \<Rightarrow> bytes \<Rightarrow> nat \<Rightarrow> bool" where
  "valid_frame_at crc bs at =
     (let rest = drop at bs
      in case frame_len rest of
           None \<Rightarrow> False
         | Some len \<Rightarrow>
             4 + len \<le> length rest \<and>
             crc (take (len - 4) (drop 8 rest)) = u32_of_le (take 4 (drop 4 rest)))"

definition next_valid_frame :: "(bytes \<Rightarrow> u32) \<Rightarrow> bytes \<Rightarrow> nat \<Rightarrow> nat option" where
  "next_valid_frame crc bs from = find (valid_frame_at crc bs) [from..<length bs - 7]"

section \<open>Lemmas\<close>

lemma concat_u32_le_length [simp]: "length (concat (map u32_le v)) = 4 * length v"
  by (induction v) auto

lemma rd_simps [simp, codec_simps]:
  "rd_take (length xs) (xs @ ys) = Inr (xs, ys)"
  "rd_u16 (u16_le a @ ys) = Inr (a, ys)"
  "rd_u32 (u32_le b @ ys) = Inr (b, ys)"
  "rd_u64 (u64_le c @ ys) = Inr (c, ys)"
  "rd_u8 (x # ys) = Inr (x, ys)"
  by (simp_all add: rd_take_def rd_u16_def rd_u32_def rd_u64_def rd_u8_def)

lemma rd_take_n: "length xs = n \<Longrightarrow> rd_take n (xs @ ys) = Inr (xs, ys)"
  by (auto simp: rd_take_def)

lemma rd_inv:
  "rd_take n bs = Inr (h, r) \<Longrightarrow> bs = h @ r \<and> length h = n"
  "rd_u8 bs = Inr (x, r) \<Longrightarrow> bs = x # r"
  "rd_u16 bs = Inr (a, r) \<Longrightarrow> bs = u16_le a @ r"
  "rd_u32 bs = Inr (b, r) \<Longrightarrow> bs = u32_le b @ r"
  "rd_u64 bs = Inr (c, r) \<Longrightarrow> bs = u64_le c @ r"
proof -
  show "rd_take n bs = Inr (h, r) \<Longrightarrow> bs = h @ r \<and> length h = n"
    by (auto simp: rd_take_def split: if_splits)
  show "rd_u8 bs = Inr (x, r) \<Longrightarrow> bs = x # r"
    by (cases bs) (auto simp: rd_u8_def rd_take_def split: if_splits)
  show "rd_u16 bs = Inr (a, r) \<Longrightarrow> bs = u16_le a @ r"
    "rd_u32 bs = Inr (b, r) \<Longrightarrow> bs = u32_le b @ r"
    "rd_u64 bs = Inr (c, r) \<Longrightarrow> bs = u64_le c @ r"
    by (auto simp: rd_u16_def rd_u32_def rd_u64_def rd_take_def u16_le_of_le u32_le_of_le
        u64_le_of_le split: if_splits)
qed

lemma chunks_u32_le: "map u32_of_le (chunks 4 (concat (map u32_le v))) = v"
  by (simp add: chunks_concat [of v u32_le 4] map_idI)

lemma concat_u32_of_le:
  assumes "length raw = 4 * n"
  shows "concat (map u32_le (map u32_of_le (chunks 4 raw))) = raw"
  using assms
proof (induction n arbitrary: raw)
  case (Suc n)
  have "chunks 4 raw = take 4 raw # chunks 4 (drop 4 raw)"
    using Suc.prems by (subst chunks.simps) simp
  with Suc show ?case by (simp add: u32_le_of_le)
qed simp

lemma unat_of_length16: "n \<le> MAX_KEY_LEN \<Longrightarrow> unat (word_of_nat n :: u16) = n"
  by (simp add: unat_of_nat MAX_KEY_LEN_def)

lemma unat_of_length32: "n \<le> MAX_FRAME_LEN \<Longrightarrow> unat (word_of_nat n :: u32) = n"
  by (simp add: unat_of_nat frame_consts)

lemma check_key_Inr [simp]: "check_key k = Inr u \<longleftrightarrow> k \<noteq> [] \<and> length k \<le> MAX_KEY_LEN"
  by (auto simp: check_key_def)

lemma rbind_check_key [simp]:
  "k \<noteq> [] \<Longrightarrow> length k \<le> MAX_KEY_LEN \<Longrightarrow> rbind (check_key k) f = f ()"
  by (simp add: check_key_def)

subsection \<open>Decoding inverts encoding\<close>

lemma decode_upsert_encode:
  assumes "length p \<le> MAX_PAYLOAD_LEN" and "v \<noteq> []" and "length v \<le> MAX_DIMS"
  shows "decode_upsert k (u32_le (word_of_nat (length p)) @ p
      @ u32_le (word_of_nat (length v)) @ concat (map u32_le v)) = Inr (Upsert k p v, [])"
proof -
  have p: "unat (word_of_nat (length p) :: u32) = length p"
    and v: "unat (word_of_nat (length v) :: u32) = length v"
    using assms by (simp_all add: unat_of_length32 frame_consts)
  have "(word_of_nat (length v) :: u32) \<noteq> 0"
    using v assms(2) by (metis length_greater_0_conv not_less_zero unat_eq_zero)
  with p v assms show ?thesis
    using rd_take_n [of "concat (map u32_le v)" "length v * 4" "[]"]
    by (simp add: decode_upsert_def chunks_u32_le)
qed

definition entry_wf :: "entry \<Rightarrow> bool" where
  "entry_wf e \<longleftrightarrow> length (e_op_id e) = 16"

definition entry_body :: "entry \<Rightarrow> bytes \<Rightarrow> bytes" where
  "entry_body e op = u64_le (e_seq e) @ e_op_id e @ op"

lemma entry_decode_body:
  assumes "entry_wf e" and "encode_operation (e_operation e) = Inr op"
  shows "entry_decode (entry_body e op) = Inr e"
proof (cases "e_operation e")
  case (Upsert k p v)
  with assms(2) have op: "op = [1] @ u16_le (word_of_nat (length k)) @ k
      @ u32_le (word_of_nat (length p)) @ p @ u32_le (word_of_nat (length v)) @ concat (map u32_le v)"
    and k: "k \<noteq> []" "length k \<le> MAX_KEY_LEN"
    and pv: "length p \<le> MAX_PAYLOAD_LEN" "v \<noteq> []" "length v \<le> MAX_DIMS"
    by (auto simp: encode_operation_def rbind_eq_Inr split: if_splits)
  show ?thesis
    using assms(1) k Upsert decode_upsert_encode [OF pv, of k]
    by (simp add: entry_decode_def entry_body_def op entry_wf_def rd_take_n unat_of_length16)
next
  case (Delete k)
  with assms(2) have op: "op = [2] @ u16_le (word_of_nat (length k)) @ k"
    and k: "k \<noteq> []" "length k \<le> MAX_KEY_LEN"
    by (auto simp: encode_operation_def rbind_eq_Inr)
  show ?thesis
    using assms(1) k Delete rd_take_n [of k "length k" "[]"]
    by (simp add: entry_decode_def entry_body_def op entry_wf_def rd_take_n unat_of_length16)
qed

lemma encode_operation_length:
  assumes "encode_operation op = Inr bs"
  shows "4 \<le> length bs" and "length bs \<le> MAX_FRAME_LEN - 28"
  using assms
  by (auto simp: encode_operation_def rbind_eq_Inr frame_consts Suc_le_eq
      split: operation.splits if_splits)

lemma entry_encode_Inr:
  assumes "entry_encode crc e = Inr frame"
  obtains op where "encode_operation (e_operation e) = Inr op"
    and "frame = u32_le (word_of_nat (length (entry_body e op) + 4))
           @ u32_le (crc (entry_body e op)) @ entry_body e op"
  using assms by (auto simp: entry_encode_def rbind_eq_Inr entry_body_def Let_def)

text \<open>Every encodable entry has a frame length the reader accepts.\<close>

lemma entry_body_length:
  assumes "entry_wf e" and "encode_operation (e_operation e) = Inr op"
  shows "MIN_FRAME_LEN \<le> length (entry_body e op) + 4"
    and "length (entry_body e op) + 4 \<le> MAX_FRAME_LEN"
  using encode_operation_length [OF assms(2)] assms(1)
  by (auto simp: entry_body_def entry_wf_def frame_consts)

lemma parse_frame:
  assumes "MIN_FRAME_LEN \<le> length body + 4" and "length body + 4 \<le> MAX_FRAME_LEN"
  shows "parse_entry crc (u32_le (word_of_nat (length body + 4)) @ u32_le (crc body) @ body @ rest) =
    map_err (\<lambda>err. case err of Malformed reason \<Rightarrow> FCorrupt reason | _ \<Rightarrow> FCorrupt ''entry body'')
      (rbind (entry_decode body) (\<lambda>e. Inr (e, 4 + (length body + 4))))"
proof -
  let ?n = "length body + 4"
  have n: "unat (word_of_nat ?n :: u32) = ?n" by (rule unat_of_length32) (rule assms(2))
  have "frame_len (u32_le (word_of_nat ?n) @ u32_le (crc body) @ body @ rest) = Some ?n"
    using assms n by (simp add: frame_len_def Let_def del: of_nat_add)
  then show ?thesis by (simp add: parse_entry_def Let_def del: of_nat_add)
qed

lemma parse_entry_encode:
  assumes "entry_wf e" and "entry_encode crc e = Inr frame"
  shows "parse_entry crc (frame @ rest) = Inr (e, length frame)"
proof -
  obtain op where op: "encode_operation (e_operation e) = Inr op" and
    frame: "frame = u32_le (word_of_nat (length (entry_body e op) + 4))
      @ u32_le (crc (entry_body e op)) @ entry_body e op"
    using assms(2) by (rule entry_encode_Inr)
  have "parse_entry crc (frame @ rest) = Inr (e, 4 + (length (entry_body e op) + 4))"
    using parse_frame [OF entry_body_length [OF assms(1) op], of crc rest]
      entry_decode_body [OF assms(1) op] by (simp add: frame del: of_nat_add)
  then show ?thesis by (simp add: frame)
qed

subsection \<open>Encoding inverts decoding\<close>

lemma decode_upsert_inv:
  assumes "decode_upsert k bs = Inr (operation, r)"
  obtains p v where "operation = Upsert k p v" "length p \<le> MAX_PAYLOAD_LEN" "v \<noteq> []"
    "length v \<le> MAX_DIMS"
    "bs = u32_le (word_of_nat (length p)) @ p @ u32_le (word_of_nat (length v))
       @ concat (map u32_le v) @ r"
proof -
  from assms obtain plen p bs2 dims bs3 raw where
    1: "bs = u32_le plen @ p @ bs2" "unat plen \<le> MAX_PAYLOAD_LEN" "length p = unat plen" and
    2: "bs2 = u32_le dims @ raw @ r" "dims \<noteq> 0" "unat dims \<le> MAX_DIMS" and
    3: "length raw = unat dims * 4" "operation = Upsert k p (map u32_of_le (chunks 4 raw))"
    by (auto simp: decode_upsert_def rbind_eq_Inr not_less dest!: rd_inv split: if_splits)
  let ?v = "map u32_of_le (chunks 4 raw)"
  have raw: "concat (map u32_le ?v) = raw" using concat_u32_of_le [of raw "unat dims"] 3 by simp
  have len: "length ?v = unat dims" using 3(1) by (simp add: length_chunks)
  show ?thesis
  proof (rule that [of p ?v])
    show "?v \<noteq> []" using len 2(2) by (metis length_0_conv unat_eq_zero)
    show "bs = u32_le (word_of_nat (length p)) @ p @ u32_le (word_of_nat (length ?v))
        @ concat (map u32_le ?v) @ r"
      using 1 2(1) len raw by simp
  qed (use 1 2 3 len in auto)
qed

lemma entry_decode_inv:
  assumes "entry_decode body = Inr e"
  shows "entry_wf e \<and> (\<exists>op. encode_operation (e_operation e) = Inr op \<and> body = entry_body e op)"
proof -
  from assms obtain seq op_id opc klen k bs operation where
    b: "body = u64_le seq @ op_id @ opc # u16_le klen @ k @ bs" "length op_id = 16"
      "length k = unat klen" and
    k: "k \<noteq> []" "length k \<le> MAX_KEY_LEN" and
    d: "(if opc = 1 then decode_upsert k bs else if opc = 2 then Inr (Delete k, bs)
        else Inl (Malformed ''operation code'')) = Inr (operation, [])" and
    e: "e = \<lparr>e_seq = seq, e_op_id = op_id, e_operation = operation\<rparr>"
    by (auto simp: entry_decode_def rbind_eq_Inr dest!: rd_inv split: if_splits)
  have klen: "klen = word_of_nat (length k)" using b(3) by simp
  show ?thesis
  proof (cases "opc = 1")
    case True
    with d have "decode_upsert k bs = Inr (operation, [])" by simp
    then obtain p v where o: "operation = Upsert k p v" "length p \<le> MAX_PAYLOAD_LEN" "v \<noteq> []"
      "length v \<le> MAX_DIMS" "bs = u32_le (word_of_nat (length p)) @ p
        @ u32_le (word_of_nat (length v)) @ concat (map u32_le v) @ []"
      by (rule decode_upsert_inv)
    with k True b(1,2) e klen show ?thesis
      by (auto simp: entry_wf_def encode_operation_def entry_body_def)
  next
    case False
    with d have o: "opc = 2" "operation = Delete k" "bs = []" by (auto split: if_splits)
    with k b(1,2) e klen show ?thesis
      by (auto simp: entry_wf_def encode_operation_def entry_body_def)
  qed
qed

lemma frame_len_inv:
  "frame_len bs = Some len \<Longrightarrow> 4 \<le> length bs \<and> MIN_FRAME_LEN \<le> len \<and> len \<le> MAX_FRAME_LEN \<and>
     take 4 bs = u32_le (word_of_nat len)"
  by (auto simp: frame_len_def Let_def u32_le_of_le split: if_splits)

lemma parse_entry_inv:
  assumes "parse_entry crc bs = Inr (e, n)"
  shows "entry_wf e \<and> n \<le> length bs \<and> 8 < n \<and> entry_encode crc e = Inr (take n bs)"
proof -
  from assms obtain len where len: "frame_len bs = Some len" "4 + len \<le> length bs"
    "crc (take (len - 4) (drop 8 bs)) = u32_of_le (take 4 (drop 4 bs))"
    "entry_decode (take (len - 4) (drop 8 bs)) = Inr e" "n = 4 + len"
    by (auto simp: parse_entry_def Let_def rbind_eq_Inr split: if_splits option.splits)
  let ?body = "take (len - 4) (drop 8 bs)"
  have f: "4 \<le> length bs" "MIN_FRAME_LEN \<le> len" "len \<le> MAX_FRAME_LEN"
    "take 4 bs = u32_le (word_of_nat len)" using frame_len_inv [OF len(1)] by auto
  have min: "32 \<le> len" using f(2) by (simp add: MIN_FRAME_LEN_def)
  have crc: "u32_le (crc ?body) = take 4 (drop 4 bs)"
    using len(2,3) min by (simp add: u32_le_of_le)
  have blen: "length ?body + 4 = len" using len(2) min by auto
  have "take n bs = take 4 bs @ take 4 (drop 4 bs) @ ?body"
    using min by (simp add: len(5) take_add [symmetric] flip: take_add [of 4 4] append_assoc)
  then have frame: "take n bs = u32_le (word_of_nat (length ?body + 4)) @ u32_le (crc ?body) @ ?body"
    using f(4) crc blen by simp
  from entry_decode_inv [OF len(4)] obtain op where "entry_wf e"
    "encode_operation (e_operation e) = Inr op" "?body = entry_body e op" by auto
  with frame len(2,5) min show ?thesis
    by (auto simp: entry_encode_def entry_body_def Let_def)
qed

end
