(* ===== verification/Snapshot_Sections.thy ===== *)
theory Snapshot_Sections
  imports Hnsw_Insert Wal_Codec
begin

text \<open>
  The sections of a snapshot file (\<open>snapshot.rs\<close>): \<open>encode_section\<close> per kind, the \<open>Cursor\<close>
  and the decoding loops of \<open>load\<close>. Every section read back from its encoding is the section
  that was written, for values that fit their fields.
\<close>

section \<open>Data\<close>

datatype snapshot_error =
    HeaderCrc
  | BadMagic
  | SnapVersion u16
  | SnapWrongPartition uuid uuid
  | FooterHash
  | SectionHash u16
  | MissingSection u16
  | SnapMalformed string
  | SnapInconsistent string
  | SnapIo

record slot_record =
  rec_version :: u64
  rec_tombstone :: bool
  rec_key_index :: nat
  rec_payload :: bytes

definition SECTION_KEYS :: u16 where "SECTION_KEYS = 1"
definition SECTION_SLOTS :: u16 where "SECTION_SLOTS = 2"
definition SECTION_PAYLOADS :: u16 where "SECTION_PAYLOADS = 3"
definition SECTION_VECTORS_F32 :: u16 where "SECTION_VECTORS_F32 = 4"
definition SECTION_VECTORS_I8 :: u16 where "SECTION_VECTORS_I8 = 5"
definition SECTION_GRAPH :: u16 where "SECTION_GRAPH = 6"
definition SECTION_IDEMPOTENCY :: u16 where "SECTION_IDEMPOTENCY = 7"

lemmas section_kinds = SECTION_KEYS_def SECTION_SLOTS_def SECTION_PAYLOADS_def
  SECTION_VECTORS_F32_def SECTION_VECTORS_I8_def SECTION_GRAPH_def SECTION_IDEMPOTENCY_def

text \<open>The casts \<open>as u8\<close>, \<open>as u32\<close>, \<open>as u64\<close> of a length or a slot.\<close>

definition nat_u8 :: "nat \<Rightarrow> u8" where "nat_u8 n = word_of_nat n"
definition nat_u32 :: "nat \<Rightarrow> bytes" where "nat_u32 n = u32_le (word_of_nat n)"
definition nat_u64 :: "nat \<Rightarrow> bytes" where "nat_u64 n = u64_le (word_of_nat n)"

section \<open>Encoding\<close>

definition encode_keys :: "(bytes \<times> nat) list \<Rightarrow> bytes" where
  "encode_keys keys =
     concat (map (\<lambda>(key, slot). u16_le (word_of_nat (length key)) @ key @ nat_u32 slot) keys)"

fun encode_slots :: "nat \<Rightarrow> slot_record list \<Rightarrow> bytes" where
  "encode_slots payload_offset [] = []"
| "encode_slots payload_offset (r # rs) =
     u64_le (rec_version r) @ [if rec_tombstone r then 1 else 0] @ nat_u32 (rec_key_index r)
       @ nat_u64 payload_offset @ nat_u32 (length (rec_payload r))
       @ encode_slots (payload_offset + length (rec_payload r)) rs"

definition encode_payloads :: "slot_record list \<Rightarrow> bytes" where
  "encode_payloads slots = concat (map rec_payload slots)"

text \<open>\<open>write_le\<close> writes the values through a fixed block, which leaves their concatenation.\<close>

definition write_le :: "('a \<Rightarrow> bytes) \<Rightarrow> 'a list \<Rightarrow> bytes" where
  "write_le to_le values = concat (map to_le values)"

definition encode_f32 :: "flat_vectors \<Rightarrow> bytes" where
  "encode_f32 vectors = concat (map (write_le u32_le) (flat_rows vectors))"

definition encode_i8 :: "quantized_vectors \<Rightarrow> bytes" where
  "encode_i8 q = write_le u32_le (qv_scales q) @ write_le u32_le (qv_norms_sq q) @ qv_data q"

definition encode_upper :: "nat \<times> nat list \<times> nat list \<Rightarrow> bytes" where
  "encode_upper = (\<lambda>(level, lens, links).
     if level = 0 then [] else map nat_u8 lens @ write_le nat_u32 links)"

definition encode_graph :: "hnsw_params \<Rightarrow> nat \<Rightarrow> graph_parts \<Rightarrow> bytes" where
  "encode_graph params slot_count g =
     nat_u32 (hp_m params) @ nat_u32 (hp_m0 params) @ nat_u32 (hp_ef_construction params)
       @ u64_le (hp_seed params)
       @ nat_u32 (case gp_entry g of Some e \<Rightarrow> e | None \<Rightarrow> 2 ^ 32 - 1)
       @ [nat_u8 (gp_max_level g)] @ nat_u64 (gp_tombstone_count g)
       @ map nat_u8 (gp_levels g) @ map nat_u8 (gp_level0_len g)
       @ write_le nat_u32 (gp_level0 g) @ write_le u64_le (gp_tombstones g)
       @ concat (map encode_upper
           (take slot_count (zip (gp_levels g) (zip (gp_upper_len g) (gp_upper g)))))"

definition encode_idempotency :: "(bytes \<times> u64) list \<Rightarrow> bytes" where
  "encode_idempotency window = concat (map (\<lambda>(op_id, seq). op_id @ u64_le seq) window)"

section \<open>The cursor\<close>

definition cur_take :: "nat \<Rightarrow> string \<Rightarrow> bytes \<Rightarrow> snapshot_error + bytes \<times> bytes" where
  "cur_take n what bs =
     (if length bs < n then Inl (SnapMalformed what) else Inr (take n bs, drop n bs))"

definition cur_u8 :: "string \<Rightarrow> bytes \<Rightarrow> snapshot_error + nat \<times> bytes" where
  "cur_u8 what bs = rbind (cur_take 1 what bs) (\<lambda>(h, r). Inr (unat (hd h), r))"

definition cur_u16 :: "string \<Rightarrow> bytes \<Rightarrow> snapshot_error + u16 \<times> bytes" where
  "cur_u16 what bs = rbind (cur_take 2 what bs) (\<lambda>(h, r). Inr (u16_of_le h, r))"

definition cur_u32 :: "string \<Rightarrow> bytes \<Rightarrow> snapshot_error + nat \<times> bytes" where
  "cur_u32 what bs = rbind (cur_take 4 what bs) (\<lambda>(h, r). Inr (unat (u32_of_le h), r))"

definition cur_u64 :: "string \<Rightarrow> bytes \<Rightarrow> snapshot_error + u64 \<times> bytes" where
  "cur_u64 what bs = rbind (cur_take 8 what bs) (\<lambda>(h, r). Inr (u64_of_le h, r))"

definition cur_f32 :: "string \<Rightarrow> bytes \<Rightarrow> snapshot_error + f32 \<times> bytes" where
  "cur_f32 what bs = rbind (cur_take 4 what bs) (\<lambda>(h, r). Inr (u32_of_le h, r))"

text \<open>The check that nothing follows.\<close>

definition at_end :: "string \<Rightarrow> 'a \<times> bytes \<Rightarrow> snapshot_error + 'a" where
  "at_end what = (\<lambda>(x, rest). if rest \<noteq> [] then Inl (SnapMalformed what) else Inr x)"

section \<open>Decoding\<close>

definition dec_key :: "bytes \<Rightarrow> snapshot_error + (bytes \<times> nat) \<times> bytes" where
  "dec_key bs =
     rbind (cur_u16 ''key length'' bs) (\<lambda>(len, bs).
     rbind (cur_take (unat len) ''key'' bs) (\<lambda>(key, bs).
     rbind (cur_u32 ''key slot'' bs) (\<lambda>(slot, bs). Inr ((key, slot), bs))))"

definition decode_keys :: "nat \<Rightarrow> bytes \<Rightarrow> snapshot_error + (bytes \<times> nat) list" where
  "decode_keys key_count bs =
     rbind (rep_dec key_count dec_key bs) (at_end ''keys section trailing bytes'')"

definition dec_slot :: "bytes \<Rightarrow> bytes \<Rightarrow> snapshot_error + slot_record \<times> bytes" where
  "dec_slot payloads bs =
     rbind (cur_u64 ''slot version'' bs) (\<lambda>(version, bs).
     rbind (cur_u8 ''tombstone'' bs) (\<lambda>(flag, bs).
     if 1 < flag then Inl (SnapMalformed ''tombstone flag'')
     else rbind (cur_u32 ''key index'' bs) (\<lambda>(key_index, bs).
     rbind (cur_u64 ''payload offset'' bs) (\<lambda>(offset, bs).
     rbind (cur_u32 ''payload length'' bs) (\<lambda>(len, bs).
     rbind (ok_or (SnapMalformed ''payload bounds'') (slice payloads (unat offset) len)) (\<lambda>payload.
       Inr (\<lparr>rec_version = version, rec_tombstone = flag = 1, rec_key_index = key_index,
             rec_payload = payload\<rparr>, bs)))))))"

definition decode_slots :: "nat \<Rightarrow> bytes \<Rightarrow> bytes \<Rightarrow> snapshot_error + slot_record list" where
  "decode_slots slot_count payloads bs =
     rbind (rep_dec slot_count (dec_slot payloads) bs) (at_end ''slots section trailing bytes'')"

definition decode_i8 :: "nat \<Rightarrow> nat \<Rightarrow> bytes \<Rightarrow> snapshot_error + quantized_vectors" where
  "decode_i8 slot_count dims bs =
     rbind (rep_dec slot_count (cur_f32 ''scale'') bs) (\<lambda>(scales, bs).
     rbind (rep_dec slot_count (cur_f32 ''norm'') bs) (\<lambda>(norms, bs).
     rbind (rbind (cur_take (slot_count * dims) ''int8 codes'' bs)
       (at_end ''int8 section trailing bytes'')) (\<lambda>codes.
       ok_or (SnapMalformed ''int8 shape'') (quant_from_parts dims codes scales norms))))"

definition as_u32s :: "bytes \<Rightarrow> nat list" where
  "as_u32s bs = map (unat \<circ> u32_of_le) (chunks 4 bs)"

definition dec_upper :: "nat \<Rightarrow> nat \<Rightarrow> bytes \<Rightarrow> snapshot_error + (nat list \<times> nat list) \<times> bytes" where
  "dec_upper m level bs =
     (if level = 0 then Inr (([], []), bs)
      else rbind (cur_take level ''upper lengths'' bs) (\<lambda>(lens, bs).
           rbind (cur_take (level * m * 4) ''upper links'' bs) (\<lambda>(links, bs).
             Inr ((map unat lens, as_u32s links), bs))))"

fun dec_uppers :: "nat \<Rightarrow> nat list \<Rightarrow> bytes \<Rightarrow> snapshot_error + (nat list \<times> nat list) list \<times> bytes" where
  "dec_uppers m [] bs = Inr ([], bs)"
| "dec_uppers m (level # levels) bs =
     rbind (dec_upper m level bs) (\<lambda>(x, bs).
     rbind (dec_uppers m levels bs) (\<lambda>(xs, bs). Inr (x # xs, bs)))"

definition dec_params :: "bytes \<Rightarrow> snapshot_error + hnsw_params \<times> bytes" where
  "dec_params bs =
     rbind (cur_u32 ''m'' bs) (\<lambda>(m, bs).
     rbind (cur_u32 ''m0'' bs) (\<lambda>(m0, bs).
     rbind (cur_u32 ''ef_construction'' bs) (\<lambda>(ef, bs).
     rbind (cur_u64 ''seed'' bs) (\<lambda>(seed, bs).
     if m = 0 \<or> m0 = 0 \<or> 255 < m \<or> 255 < m0 then Inl (SnapMalformed ''graph parameters'')
     else Inr (\<lparr>hp_m = m, hp_m0 = m0, hp_ef_construction = ef, hp_seed = seed\<rparr>, bs)))))"

definition decode_graph :: "nat \<Rightarrow> bytes \<Rightarrow> snapshot_error + hnsw_params \<times> graph_parts" where
  "decode_graph slot_count bs =
     rbind (dec_params bs) (\<lambda>(params, bs).
     rbind (cur_u32 ''entry'' bs) (\<lambda>(entry_raw, bs).
     rbind (cur_u8 ''max level'' bs) (\<lambda>(max_level, bs).
     rbind (cur_u64 ''tombstone count'' bs) (\<lambda>(tombstone_count, bs).
     rbind (cur_take slot_count ''levels'' bs) (\<lambda>(levels, bs).
     rbind (cur_take slot_count ''level0 lengths'' bs) (\<lambda>(level0_len, bs).
     rbind (cur_take (slot_count * hp_m0 params * 4) ''level0 links'' bs) (\<lambda>(level0, bs).
     rbind (cur_take (div_ceil slot_count 64 * 8) ''tombstone words'' bs) (\<lambda>(tombstones, bs).
     rbind (rbind (dec_uppers (hp_m params) (map unat levels) bs)
       (at_end ''graph section trailing bytes'')) (\<lambda>uppers.
       Inr (params,
         \<lparr>gp_levels = map unat levels, gp_level0 = as_u32s level0,
          gp_level0_len = map unat level0_len, gp_upper = map snd uppers,
          gp_upper_len = map fst uppers, gp_tombstones = map u64_of_le (chunks 8 tombstones),
          gp_tombstone_count = unat tombstone_count,
          gp_entry = (if entry_raw \<noteq> 2 ^ 32 - 1 then Some entry_raw else None),
          gp_max_level = max_level\<rparr>))))))))))"

definition dec_idempotency :: "bytes \<Rightarrow> snapshot_error + (bytes \<times> u64) \<times> bytes" where
  "dec_idempotency bs =
     rbind (cur_take 16 ''op id'' bs) (\<lambda>(op_id, bs).
     rbind (cur_u64 ''op seq'' bs) (\<lambda>(seq, bs). Inr ((op_id, seq), bs)))"

definition decode_idempotency :: "nat \<Rightarrow> bytes \<Rightarrow> snapshot_error + (bytes \<times> u64) list" where
  "decode_idempotency idem_count bs =
     rbind (rep_dec idem_count dec_idempotency bs) (at_end ''idempotency section trailing bytes'')"

section \<open>Lemmas: the cursor\<close>

lemma cur_take_append: "length xs = n \<Longrightarrow> cur_take n what (xs @ ys) = Inr (xs, ys)"
  by (auto simp: cur_take_def)

lemma unat_nat32: "n < 2 ^ 32 \<Longrightarrow> unat (word_of_nat n :: u32) = n"
  by (simp add: unat_of_nat)

lemma unat_nat64: "n < 2 ^ 64 \<Longrightarrow> unat (word_of_nat n :: u64) = n"
  by (simp add: unat_of_nat)

lemma cur_simps [simp, codec_simps]:
  "cur_u8 what (x # ys) = Inr (unat x, ys)"
  "cur_u16 what (u16_le a @ ys) = Inr (a, ys)"
  "cur_u32 what (u32_le b @ ys) = Inr (unat b, ys)"
  "cur_u64 what (u64_le c @ ys) = Inr (c, ys)"
  "cur_f32 what (u32_le b @ ys) = Inr (b, ys)"
  by (simp_all add: cur_u8_def cur_u16_def cur_u32_def cur_u64_def cur_f32_def cur_take_def)

lemma cur_nat_u32: "n < 2 ^ 32 \<Longrightarrow> cur_u32 what (nat_u32 n @ ys) = Inr (n, ys)"
  by (simp add: nat_u32_def unat_nat32)

lemma unat_nat_u8: "n < 256 \<Longrightarrow> unat (nat_u8 n) = n"
  by (simp add: nat_u8_def unat_of_nat)

lemma map_unat_nat_u8: "\<forall>n\<in>set ns. n < 256 \<Longrightarrow> map unat (map nat_u8 ns) = ns"
  by (induction ns) (auto simp: unat_nat_u8)

lemma at_end_Nil [simp]: "at_end what (x, []) = Inr x"
  by (simp add: at_end_def)

section \<open>Lemmas: round trips\<close>

lemma decode_encode_keys [codec_simps]:
  assumes "\<forall>(key, slot)\<in>set keys. length key < 2 ^ 16 \<and> slot < 2 ^ 32"
  shows "decode_keys (length keys) (encode_keys keys) = Inr keys"
proof -
  have "dec_key ((case x of (key, slot) \<Rightarrow> u16_le (word_of_nat (length key)) @ key @ nat_u32 slot) @ r)
      = Inr (x, r)" if "x \<in> set keys" for x r
    using that assms
    by (auto simp: dec_key_def cur_take_append cur_nat_u32 unat_of_nat split: prod.splits)
  from rep_dec_concat [OF this, where r = "[]"] show ?thesis
    by (simp add: decode_keys_def encode_keys_def)
qed

lemma rep_dec_slots:
  assumes "length pre + length (encode_payloads slots) < 2 ^ 64"
    and "\<forall>r\<in>set slots. rec_key_index r < 2 ^ 32 \<and> length (rec_payload r) < 2 ^ 32"
  shows "rep_dec (length slots) (dec_slot (pre @ encode_payloads slots @ post))
    (encode_slots (length pre) slots @ rest) = Inr (slots, rest)"
  using assms
proof (induction slots arbitrary: pre)
  case (Cons r rs)
  let ?p = "pre @ encode_payloads (r # rs) @ post"
  have len: "length pre < 2 ^ 64" using Cons.prems(1) by simp
  have "slice ?p (length pre) (length (rec_payload r)) = Some (rec_payload r)"
    by (simp add: slice_def encode_payloads_def)
  then have "dec_slot ?p (encode_slots (length pre) (r # rs) @ rest) =
      Inr (r, encode_slots (length pre + length (rec_payload r)) rs @ rest)"
    using Cons.prems(2) len
    by (cases "rec_tombstone r") (simp_all add: dec_slot_def cur_nat_u32 nat_u64_def unat_nat64)
  moreover have "?p = (pre @ rec_payload r) @ encode_payloads rs @ post"
    by (simp add: encode_payloads_def)
  moreover have "rep_dec (length rs) (dec_slot ((pre @ rec_payload r) @ encode_payloads rs @ post))
      (encode_slots (length (pre @ rec_payload r)) rs @ rest) = Inr (rs, rest)"
    using Cons.prems by (intro Cons.IH) (auto simp: encode_payloads_def)
  ultimately show ?case by simp
qed simp

lemma decode_encode_slots [codec_simps]:
  assumes "length (encode_payloads slots) < 2 ^ 64"
    and "\<forall>r\<in>set slots. rec_key_index r < 2 ^ 32 \<and> length (rec_payload r) < 2 ^ 32"
  shows "decode_slots (length slots) (encode_payloads slots) (encode_slots 0 slots) = Inr slots"
  using rep_dec_slots [of "[]" slots "[]" "[]"] assms by (simp add: decode_slots_def)

lemma decode_encode_i8 [codec_simps]:
  assumes "quant_wf q"
  shows "decode_i8 (quant_len q) (qv_dims q) (encode_i8 q) = Inr q"
proof -
  have f: "rep_dec (length xs) (cur_f32 what) (write_le u32_le xs @ r) = Inr (xs, r)" for xs what r
    unfolding write_le_def by (rule rep_dec_concat) simp
  have len: "length (qv_norms_sq q) = quant_len q" "length (qv_data q) = quant_len q * qv_dims q"
    "length (qv_scales q) = quant_len q" using assms by (auto simp: quant_wf_def quant_len_def)
  have "rep_dec (quant_len q) (cur_f32 ''norm'') (write_le u32_le (qv_norms_sq q) @ qv_data q) =
      Inr (qv_norms_sq q, qv_data q)" using f [of "qv_norms_sq q"] by (simp add: len)
  moreover have "rep_dec (quant_len q) (cur_f32 ''scale'') (encode_i8 q) =
      Inr (qv_scales q, write_le u32_le (qv_norms_sq q) @ qv_data q)"
    using f [of "qv_scales q"] by (simp add: len encode_i8_def)
  moreover have "cur_take (quant_len q * qv_dims q) ''int8 codes'' (qv_data q) = Inr (qv_data q, [])"
    using cur_take_append [of "qv_data q" "quant_len q * qv_dims q" _ "[]"] by (simp add: len)
  ultimately show ?thesis
    using quant_from_parts_inverse [OF assms] by (simp add: decode_i8_def)
qed

lemma write_nat_u32:
  assumes "\<forall>n\<in>set ns. n < 2 ^ 32"
  shows "as_u32s (write_le nat_u32 ns) = ns" and "length (write_le nat_u32 ns) = length ns * 4"
proof -
  have "chunks 4 (concat (map nat_u32 ns)) = map nat_u32 ns"
    by (rule chunks_concat) (simp_all add: nat_u32_def)
  with assms show "as_u32s (write_le nat_u32 ns) = ns"
    by (simp add: as_u32s_def write_le_def nat_u32_def unat_nat32 map_idI)
  show "length (write_le nat_u32 ns) = length ns * 4"
    by (induction ns) (simp_all add: write_le_def nat_u32_def)
qed

lemma write_u64:
  "map u64_of_le (chunks 8 (write_le u64_le ws)) = ws" "length (write_le u64_le ws) = length ws * 8"
proof -
  have "chunks 8 (concat (map u64_le ws)) = map u64_le ws"
    by (rule chunks_concat) simp_all
  then show "map u64_of_le (chunks 8 (write_le u64_le ws)) = ws"
    by (simp add: write_le_def map_idI)
  show "length (write_le u64_le ws) = length ws * 8"
    by (induction ws) (simp_all add: write_le_def)
qed

lemma decode_encode_idempotency [codec_simps]:
  assumes "\<forall>(op_id, seq)\<in>set window. length op_id = 16"
  shows "decode_idempotency (length window) (encode_idempotency window) = Inr window"
proof -
  have "dec_idempotency ((case x of (op_id, seq) \<Rightarrow> op_id @ u64_le seq) @ r) = Inr (x, r)"
    if "x \<in> set window" for x r
    using that assms by (auto simp: dec_idempotency_def cur_take_append split: prod.splits)
  from rep_dec_concat [OF this, where r = "[]"] show ?thesis
    by (simp add: decode_idempotency_def encode_idempotency_def)
qed

text \<open>Graph parts whose values fit the fields and whose arrays have the shape of \<open>n\<close> slots.\<close>

definition parts_fit :: "hnsw_params \<Rightarrow> nat \<Rightarrow> graph_parts \<Rightarrow> bool" where
  "parts_fit params n g \<longleftrightarrow>
     0 < hp_m params \<and> hp_m params \<le> 255 \<and> 0 < hp_m0 params \<and> hp_m0 params \<le> 255 \<and>
     hp_ef_construction params < 2 ^ 32 \<and>
     length (gp_levels g) = n \<and> length (gp_level0_len g) = n \<and>
     length (gp_level0 g) = n * hp_m0 params \<and> length (gp_upper g) = n \<and>
     length (gp_upper_len g) = n \<and> length (gp_tombstones g) = div_ceil n 64 \<and>
     (\<forall>s<n. gp_levels g ! s < 256 \<and> gp_level0_len g ! s < 256 \<and>
        length (gp_upper g ! s) = gp_levels g ! s * hp_m params \<and>
        length (gp_upper_len g ! s) = gp_levels g ! s \<and>
        (\<forall>x\<in>set (gp_upper_len g ! s). x < 256) \<and> (\<forall>x\<in>set (gp_upper g ! s). x < 2 ^ 32)) \<and>
     (\<forall>x\<in>set (gp_level0 g). x < 2 ^ 32) \<and>
     (\<forall>e. gp_entry g = Some e \<longrightarrow> e < 2 ^ 32 - 1) \<and>
     gp_max_level g < 256 \<and> gp_tombstone_count g < 2 ^ 64"

lemma dec_upper_encode:
  assumes "length links = level * m" and "length lens = level"
    and "\<forall>x\<in>set lens. x < 256" and "\<forall>x\<in>set links. x < 2 ^ 32"
  shows "dec_upper m level (encode_upper (level, lens, links) @ r) = Inr ((lens, links), r)"
proof (cases "level = 0")
  case True
  with assms show ?thesis by (simp add: dec_upper_def encode_upper_def)
next
  case False
  have "cur_take level what (map nat_u8 lens @ xs) = Inr (map nat_u8 lens, xs)" for what xs
    using assms(2) by (simp add: cur_take_append)
  moreover have "cur_take (level * m * 4) what (write_le nat_u32 links @ r) =
      Inr (write_le nat_u32 links, r)" for what
    using assms(1) write_nat_u32(2) [OF assms(4)] by (simp add: cur_take_append)
  ultimately show ?thesis
    using False map_unat_nat_u8 [OF assms(3)] write_nat_u32(1) [OF assms(4)]
    by (simp add: dec_upper_def encode_upper_def)
qed

lemma dec_uppers_encode:
  assumes "\<forall>(level, lens, links)\<in>set xs. length links = level * m \<and> length lens = level \<and>
    (\<forall>x\<in>set lens. x < 256) \<and> (\<forall>x\<in>set links. x < 2 ^ 32)"
  shows "dec_uppers m (map fst xs) (concat (map encode_upper xs) @ r) = Inr (map snd xs, r)"
  using assms
proof (induction xs)
  case (Cons x xs)
  obtain level lens links where x: "x = (level, lens, links)" by (cases x) auto
  have "dec_upper m level (encode_upper x @ concat (map encode_upper xs) @ r) =
      Inr ((lens, links), concat (map encode_upper xs) @ r)"
    unfolding x using Cons.prems by (intro dec_upper_encode) (auto simp: x)
  with Cons show ?case by (simp add: x)
qed simp

lemma dec_params_encode:
  assumes "parts_fit params n g"
  shows "dec_params (nat_u32 (hp_m params) @ nat_u32 (hp_m0 params)
    @ nat_u32 (hp_ef_construction params) @ u64_le (hp_seed params) @ r) = Inr (params, r)"
  using assms by (simp add: dec_params_def cur_nat_u32 parts_fit_def)

lemma decode_encode_graph [codec_simps]:
  assumes fit: "parts_fit params n g"
  shows "decode_graph n (encode_graph params n g) = Inr (params, g)"
proof -
  let ?z = "zip (gp_levels g) (zip (gp_upper_len g) (gp_upper g))"
  let ?u = "concat (map encode_upper ?z)"
  let ?e = "case gp_entry g of Some e \<Rightarrow> e | None \<Rightarrow> 2 ^ 32 - 1"
  have len: "length (gp_levels g) = n" "length (gp_upper g) = n" "length (gp_upper_len g) = n"
    "length (gp_level0_len g) = n" "length (gp_level0 g) = n * hp_m0 params"
    "length (gp_tombstones g) = div_ceil n 64"
    using fit by (simp_all add: parts_fit_def)
  have "dec_uppers (hp_m params) (map fst ?z) (?u @ []) = Inr (map snd ?z, [])"
    using fit len by (intro dec_uppers_encode) (auto simp: parts_fit_def set_zip)
  moreover have "map fst ?z = gp_levels g" "map snd ?z = zip (gp_upper_len g) (gp_upper g)"
    using len by simp_all
  ultimately have up: "dec_uppers (hp_m params) (gp_levels g) ?u =
      Inr (zip (gp_upper_len g) (gp_upper g), [])" by simp
  have l: "\<forall>x\<in>set (gp_levels g). x < 256" "\<forall>x\<in>set (gp_level0_len g). x < 256"
    "\<forall>x\<in>set (gp_level0 g). x < 2 ^ 32"
    using fit by (auto simp: parts_fit_def in_set_conv_nth)
  have e: "?e < 2 ^ 32" "gp_entry g = (if ?e \<noteq> 2 ^ 32 - 1 then Some ?e else None)"
    using fit by (auto simp: parts_fit_def split: option.splits)
  have "gp_max_level g < 256" "gp_tombstone_count g < 2 ^ 64" using fit by (simp_all add: parts_fit_def)
  then have small: "unat (nat_u8 (gp_max_level g)) = gp_max_level g"
    "unat (word_of_nat (gp_tombstone_count g) :: u64) = gp_tombstone_count g"
    by (simp_all add: unat_nat_u8 unat_nat64)
  have t: "cur_take n w (map nat_u8 (gp_levels g) @ r) = Inr (map nat_u8 (gp_levels g), r)"
    "cur_take n w (map nat_u8 (gp_level0_len g) @ r) = Inr (map nat_u8 (gp_level0_len g), r)"
    "cur_take (n * hp_m0 params * 4) w (write_le nat_u32 (gp_level0 g) @ r) =
       Inr (write_le nat_u32 (gp_level0 g), r)"
    "cur_take (div_ceil n 64 * 8) w (write_le u64_le (gp_tombstones g) @ r) =
       Inr (write_le u64_le (gp_tombstones g), r)" for w r
    using len write_nat_u32(2) [OF l(3)] write_u64(2) [of "gp_tombstones g"]
    by (simp_all add: cur_take_append)
  have "encode_graph params n g = nat_u32 (hp_m params) @ nat_u32 (hp_m0 params)
      @ nat_u32 (hp_ef_construction params) @ u64_le (hp_seed params) @ nat_u32 ?e
      @ nat_u8 (gp_max_level g) # u64_le (word_of_nat (gp_tombstone_count g))
      @ map nat_u8 (gp_levels g) @ map nat_u8 (gp_level0_len g) @ write_le nat_u32 (gp_level0 g)
      @ write_le u64_le (gp_tombstones g) @ ?u"
    using len by (simp add: encode_graph_def nat_u64_def)
  then show ?thesis
    using e(2) small l
    by (simp add: decode_graph_def dec_params_encode [OF fit] cur_nat_u32 [OF e(1)] t
        map_unat_nat_u8 [unfolded map_map] write_nat_u32(1) write_u64(1) up len)
qed

end
