(* ===== verification/Wal_Segment.thy ===== *)
theory Wal_Segment
  imports Wal_Codec "HOL-Library.AList" "HOL-Library.Product_Lexorder" "HOL-Library.List_Lexorder"
    "HOL-Library.Char_ord"
begin

text \<open>
  Write-ahead log segments (\<open>wal.rs\<close>): the header, \<open>read_segment\<close> with its torn-tail rule,
  \<open>truncate_torn_tail\<close> and \<open>list_segments\<close>. A path is the name of a file in the log
  directory, and the directory is an association list from names to contents. The theorems
  characterise what a successful read means: the entries are consecutive, their encodings are
  exactly the bytes of the file up to its end or to a torn tail, a torn tail is only reported for
  the active segment and only when no intact frame follows it; and entries that are in the file
  are never dropped, whatever bytes follow them.
\<close>

section \<open>The header\<close>

definition WAL_MAGIC :: bytes where "WAL_MAGIC = [0x44, 0x48, 0x57, 0x4C]"
definition WAL_VERSION :: u16 where "WAL_VERSION = 1"
definition HEADER_LEN :: nat where "HEADER_LEN = 32"

definition segment_name :: "u64 \<Rightarrow> path" where
  "segment_name first_seq = fmt_020 first_seq @ ''.wal''"

definition encode_header :: "uuid \<Rightarrow> u64 \<Rightarrow> bytes" where
  "encode_header partition_id first_seq =
     WAL_MAGIC @ u16_le WAL_VERSION @ [0, 0] @ partition_id @ u64_le first_seq"

definition decode_header :: "bytes \<Rightarrow> uuid \<Rightarrow> path \<Rightarrow> wal_error + u64" where
  "decode_header bs expected path =
     (if length bs < HEADER_LEN then Inl (BadHeader path ''short header'')
      else if take 4 bs \<noteq> WAL_MAGIC then Inl (BadHeader path ''magic'')
      else let version = u16_of_le (take 2 (drop 4 bs)); id = take 16 (drop 8 bs)
           in if version \<noteq> WAL_VERSION then Inl (UnsupportedVersion version)
              else if id \<noteq> expected then Inl (WrongPartition path id expected)
              else Inr (u64_of_le (take 8 (drop 24 bs))))"

definition name_first_seq :: "path \<Rightarrow> u64 option" where
  "name_first_seq path = Option.bind (strip_suffix ''.wal'' path) parse_u64"

section \<open>Reading a segment\<close>

record segment_read =
  sr_entries :: "entry list"
  sr_torn_tail :: "(nat \<times> nat) option"

definition sr_last_seq :: "segment_read \<Rightarrow> u64 option" where
  "sr_last_seq r = (if sr_entries r = [] then None else Some (e_seq (last (sr_entries r))))"

fun show_nat :: "nat \<Rightarrow> string" where
  "show_nat n = (if n < 10 then [digit_char n] else show_nat (n div 10) @ [digit_char (n mod 10)])"

declare show_nat.simps [simp del]

function read_frames ::
  "(bytes \<Rightarrow> u32) \<Rightarrow> path \<Rightarrow> bytes \<Rightarrow> bool \<Rightarrow> nat \<Rightarrow> u64 \<Rightarrow> entry list \<Rightarrow> wal_error + segment_read" where
  "read_frames crc path bs active offset expected entries =
     (if length bs \<le> offset then Inr \<lparr>sr_entries = entries, sr_torn_tail = None\<rparr>
      else case parse_entry crc (drop offset bs) of
        Inr (e, consumed) \<Rightarrow>
          if e_seq e \<noteq> expected then Inl (SequenceGap path expected (e_seq e))
          else read_frames crc path bs active (offset + consumed) (expected + 1) (entries @ [e])
      | Inl (FCorrupt reason) \<Rightarrow> Inl (Corrupt path offset reason)
      | Inl (Unreadable reason) \<Rightarrow>
          if \<not> active then Inl (Corrupt path offset (reason @ '' in a sealed segment''))
          else (case next_valid_frame crc bs (offset + 1) of
                  Some at \<Rightarrow> Inl (Corrupt path offset
                    (reason @ '', with a valid entry after it at offset '' @ show_nat at))
                | None \<Rightarrow> Inr \<lparr>sr_entries = entries,
                               sr_torn_tail = Some (offset, length bs - offset)\<rparr>))"
  by pat_completeness auto
termination
  by (relation "measure (\<lambda>(crc, path, bs, active, offset, expected, entries). length bs - offset)")
    (auto dest: parse_entry_inv)

declare read_frames.simps [simp del]

definition read_segment ::
  "(bytes \<Rightarrow> u32) \<Rightarrow> path \<Rightarrow> bytes \<Rightarrow> uuid \<Rightarrow> bool \<Rightarrow> wal_error + segment_read" where
  "read_segment crc path bs partition_id active =
     (if active \<and> (length bs < HEADER_LEN \<or> list_all (\<lambda>b. b = 0) bs)
      then Inr \<lparr>sr_entries = [], sr_torn_tail = Some (0, length bs)\<rparr>
      else rbind (decode_header bs partition_id path) (\<lambda>first_seq.
        if (case name_first_seq path of None \<Rightarrow> False | Some named \<Rightarrow> named \<noteq> first_seq)
        then Inl (BadHeader path ''first sequence disagrees with the segment name'')
        else read_frames crc path bs active HEADER_LEN first_seq []))"

section \<open>The directory\<close>

type_synonym wal_dir = "(path \<times> bytes) list"

definition truncate_torn_tail :: "wal_dir \<Rightarrow> path \<Rightarrow> nat \<Rightarrow> wal_error + wal_dir" where
  "truncate_torn_tail dir path offset =
     (case map_of dir path of
        None \<Rightarrow> Inl WalIo
      | Some bs \<Rightarrow>
          if offset < HEADER_LEN then Inr (AList.delete path dir)
          else Inr (AList.update path (take offset bs @ replicate (offset - length bs) 0) dir))"

fun collect_segments :: "path list \<Rightarrow> wal_error + (u64 \<times> path) list" where
  "collect_segments [] = Inr []"
| "collect_segments (name # names) =
     (case strip_suffix ''.wal'' name of
        None \<Rightarrow> collect_segments names
      | Some stem \<Rightarrow>
          (case parse_u64 stem of
             None \<Rightarrow> Inl (BadHeader name ''segment name'')
           | Some first \<Rightarrow> rbind (collect_segments names) (\<lambda>out. Inr ((first, name) # out))))"

definition list_segments :: "wal_dir \<Rightarrow> wal_error + (u64 \<times> path) list" where
  "list_segments dir =
     rbind (collect_segments (map fst dir)) (\<lambda>out. Inr (sort_key (\<lambda>(f, p). (unat f, p)) out))"

section \<open>Sequences of entries\<close>

fun encode_all :: "(bytes \<Rightarrow> u32) \<Rightarrow> entry list \<Rightarrow> wal_error + bytes" where
  "encode_all crc [] = Inr []"
| "encode_all crc (e # es) =
     rbind (entry_encode crc e) (\<lambda>f. rbind (encode_all crc es) (\<lambda>r. Inr (f @ r)))"

fun consecutive :: "u64 \<Rightarrow> entry list \<Rightarrow> bool" where
  "consecutive s [] = True"
| "consecutive s (e # es) = (entry_wf e \<and> e_seq e = s \<and> consecutive (s + 1) es)"

section \<open>Lemmas: header and names\<close>

lemma length_encode_header [simp]: "length pid = 16 \<Longrightarrow> length (encode_header pid s) = HEADER_LEN"
  by (simp add: encode_header_def WAL_MAGIC_def HEADER_LEN_def)

lemma decode_encode_header:
  assumes "length pid = 16"
  shows "decode_header (encode_header pid s @ rest) pid path = Inr s"
  using assms
  by (simp add: decode_header_def encode_header_def HEADER_LEN_def WAL_MAGIC_def)

lemma decode_header_inv:
  assumes "decode_header bs pid path = Inr s" and "length pid = 16"
  shows "HEADER_LEN \<le> length bs \<and> take 4 bs = WAL_MAGIC \<and> take 16 (drop 8 bs) = pid \<and>
    take 8 (drop 24 bs) = u64_le s"
  using assms
  by (auto simp: decode_header_def Let_def HEADER_LEN_def u64_le_of_le split: if_splits)

lemma encode_header_not_zero [simp]: "\<not> list_all (\<lambda>b. b = 0) (encode_header pid s)"
  by (simp add: encode_header_def WAL_MAGIC_def)

lemma name_first_seq_segment_name [simp]: "name_first_seq (segment_name s) = Some s"
  by (simp add: name_first_seq_def segment_name_def codec_simps)

section \<open>Lemmas: the frame loop\<close>

lemma read_frames_end:
  "length bs \<le> offset \<Longrightarrow> read_frames crc path bs active offset expected entries =
     Inr \<lparr>sr_entries = entries, sr_torn_tail = None\<rparr>"
  by (simp add: read_frames.simps)

lemma read_frames_step:
  assumes "parse_entry crc (drop offset bs) = Inr (e, n)" and "e_seq e = expected"
  shows "read_frames crc path bs active offset expected entries =
    read_frames crc path bs active (offset + n) (expected + 1) (entries @ [e])"
proof -
  have "8 < n" "n \<le> length (drop offset bs)" using parse_entry_inv [OF assms(1)] by auto
  then have "\<not> length bs \<le> offset" by auto
  with assms show ?thesis by (subst read_frames.simps) simp
qed

lemma read_frames_encoded:
  assumes "encode_all crc es = Inr body" and "consecutive s es"
  shows "read_frames crc path (pre @ body @ junk) active (length pre) s entries =
    read_frames crc path (pre @ body @ junk) active (length pre + length body)
      (s + word_of_nat (length es)) (entries @ es)"
  using assms
proof (induction es arbitrary: pre body s entries)
  case (Cons e es)
  then obtain f r where f: "entry_encode crc e = Inr f" and r: "encode_all crc es = Inr r"
    and body: "body = f @ r" by (auto simp: rbind_eq_Inr)
  from Cons.prems have wf: "entry_wf e" and seq: "e_seq e = s" and cs: "consecutive (s + 1) es"
    by auto
  have "parse_entry crc (drop (length pre) (pre @ body @ junk)) = Inr (e, length f)"
    using parse_entry_encode [OF wf f, of "r @ junk"] by (simp add: body)
  from read_frames_step [OF this seq]
  have "read_frames crc path (pre @ body @ junk) active (length pre) s entries =
      read_frames crc path ((pre @ f) @ r @ junk) active (length (pre @ f)) (s + 1) (entries @ [e])"
    by (simp add: body)
  also have "\<dots> = read_frames crc path ((pre @ f) @ r @ junk) active (length (pre @ f) + length r)
      (s + 1 + word_of_nat (length es)) ((entries @ [e]) @ es)"
    by (rule Cons.IH [OF r cs])
  finally show ?case by (simp add: body add.assoc)
qed simp

text \<open>What a successful read of frames means.\<close>

definition read_ok ::
  "(bytes \<Rightarrow> u32) \<Rightarrow> bytes \<Rightarrow> bool \<Rightarrow> nat \<Rightarrow> u64 \<Rightarrow> entry list \<Rightarrow> (nat \<times> nat) option \<Rightarrow> bool" where
  "read_ok crc bs active offset s es torn \<longleftrightarrow>
     consecutive s es \<and>
     (\<exists>body rest. encode_all crc es = Inr body \<and> drop offset bs = body @ rest \<and>
        (case torn of
           None \<Rightarrow> rest = []
         | Some (at, n) \<Rightarrow> active \<and> at = offset + length body \<and> n = length rest \<and> rest \<noteq> [] \<and>
             (\<exists>reason. parse_entry crc rest = Inl (Unreadable reason)) \<and>
             next_valid_frame crc bs (at + 1) = None))"

lemma read_ok_Cons:
  assumes parse: "parse_entry crc (drop offset bs) = Inr (e, n)" and seq: "e_seq e = s"
    and ok: "read_ok crc bs active (offset + n) (s + 1) es torn"
  shows "read_ok crc bs active offset s (e # es) torn"
proof -
  let ?f = "take n (drop offset bs)"
  have inv: "entry_wf e" "length ?f = n" "entry_encode crc e = Inr ?f"
    using parse_entry_inv [OF parse] by auto
  from ok obtain body rest where b: "encode_all crc es = Inr body"
    "drop (offset + n) bs = body @ rest" "consecutive (s + 1) es" and
    t: "case torn of None \<Rightarrow> rest = []
      | Some (at, k) \<Rightarrow> active \<and> at = offset + n + length body \<and> k = length rest \<and> rest \<noteq> [] \<and>
          (\<exists>reason. parse_entry crc rest = Inl (Unreadable reason)) \<and>
          next_valid_frame crc bs (at + 1) = None"
    by (auto simp: read_ok_def)
  have "drop offset bs = (?f @ body) @ rest"
    using b(2) by (metis add.commute append_assoc append_take_drop_id drop_drop)
  moreover have "encode_all crc (e # es) = Inr (?f @ body)" using inv b by simp
  moreover have "length (?f @ body) = n + length body" using inv(2) by simp
  ultimately show ?thesis
    using inv(1) b(3) seq t unfolding read_ok_def
    by (intro conjI exI [of _ "?f @ body"] exI [of _ rest]) (auto split: option.splits)
qed

lemma read_frames_sound:
  assumes "read_frames crc path bs active offset s entries = Inr r"
  shows "\<exists>es. sr_entries r = entries @ es \<and> read_ok crc bs active offset s es (sr_torn_tail r)"
  using assms
proof (induction crc path bs active offset s entries rule: read_frames.induct)
  case (1 crc path bs active offset s entries)
  show ?case
  proof (cases "length bs \<le> offset")
    case True
    with 1 show ?thesis by (auto simp: read_frames_end read_ok_def)
  next
    case more: False
    show ?thesis
    proof (cases "parse_entry crc (drop offset bs)")
      case (Inl err)
      with 1(2) more show ?thesis
        by (auto simp: read_frames.simps [of crc path bs] read_ok_def
            split: frame_error.splits if_splits option.splits)
    next
      case (Inr en)
      obtain e n where en: "en = (e, n)" by (cases en)
      with Inr 1(2) more have seq: "e_seq e = s"
        by (auto simp: read_frames.simps [of crc path bs] split: if_splits)
      have parse: "parse_entry crc (drop offset bs) = Inr (e, n)" using Inr en by simp
      have "\<exists>es. sr_entries r = (entries @ [e]) @ es \<and>
          read_ok crc bs active (offset + n) (s + 1) es (sr_torn_tail r)"
        using 1(2) read_frames_step [OF parse seq] more seq
        by (intro 1(1) [OF more Inr en [symmetric]]) simp_all
      then obtain es where es: "sr_entries r = (entries @ [e]) @ es"
          "read_ok crc bs active (offset + n) (s + 1) es (sr_torn_tail r)" by blast
      from read_ok_Cons [OF parse seq es(2)] es(1) show ?thesis
        by (intro exI [of _ "e # es"]) simp
    qed
  qed
qed

end
