(* ===== verification/Snapshot_File.thy ===== *)
theory Snapshot_File
  imports Snapshot_Sections Wal_Segment
begin

text \<open>
  Snapshot files (\<open>snapshot.rs\<close>): header, section table, aligned sections and footer; writing
  through a temporary file, loading with every check, mapping the vectors of a file just written,
  and listing a directory. CRC32C, BLAKE3, the address of the memory map and the cast of its bytes
  to floats are parameters. The main theorem is the round trip: loading an encoded snapshot gives
  the snapshot back, with its rows served from the map.
\<close>

section \<open>Data\<close>

record snapshot_input =
  si_partition_id :: uuid
  si_dims :: nat
  si_metric :: metric
  si_params :: hnsw_params
  si_high_water :: u64
  si_keys :: "(bytes \<times> nat) list"
  si_slots :: "slot_record list"
  si_vectors :: flat_vectors
  si_quantized :: quantized_vectors
  si_graph :: graph_parts
  si_idempotency :: "(bytes \<times> u64) list"

record loaded_snapshot =
  ls_path :: path
  ls_partition_id :: uuid
  ls_dims :: nat
  ls_metric :: metric
  ls_params :: hnsw_params
  ls_high_water :: u64
  ls_keys :: "(bytes \<times> nat) list"
  ls_slots :: "slot_record list"
  ls_vectors :: flat_vectors
  ls_quantized :: quantized_vectors
  ls_graph :: graph_parts
  ls_idempotency :: "(bytes \<times> u64) list"
  ls_file_bytes :: nat

record snap_header =
  sh_partition_id :: uuid
  sh_dims :: nat
  sh_metric :: metric
  sh_high_water :: u64
  sh_slot_count :: nat
  sh_key_count :: nat
  sh_idem_count :: nat
  sh_section_count :: nat
  sh_table_offset :: nat

definition SNAPSHOT_MAGIC :: bytes where "SNAPSHOT_MAGIC = [0x44, 0x48, 0x53, 0x4E]"
definition SNAPSHOT_VERSION :: u16 where "SNAPSHOT_VERSION = 1"
definition SNAP_HEADER_LEN :: nat where "SNAP_HEADER_LEN = 128"
definition SECTION_ENTRY_LEN :: nat where "SECTION_ENTRY_LEN = 52"
definition ALIGN :: nat where "ALIGN = 64"
definition FOOTER_LEN :: nat where "FOOTER_LEN = 32"

definition SECTION_ORDER :: "u16 list" where
  "SECTION_ORDER = [SECTION_KEYS, SECTION_SLOTS, SECTION_PAYLOADS, SECTION_VECTORS_F32,
     SECTION_VECTORS_I8, SECTION_GRAPH, SECTION_IDEMPOTENCY]"

lemmas snap_consts = SNAP_HEADER_LEN_def SECTION_ENTRY_LEN_def ALIGN_def FOOTER_LEN_def

definition snapshot_name :: "u64 \<Rightarrow> path" where
  "snapshot_name high_water = fmt_020 high_water @ ''.snap''"

fun metric_code :: "metric \<Rightarrow> u8" where
  "metric_code Cosine = 1"
| "metric_code Dot = 2"
| "metric_code L2 = 3"

definition metric_from :: "nat \<Rightarrow> metric option" where
  "metric_from code =
     (if code = 1 then Some Cosine else if code = 2 then Some Dot else if code = 3 then Some L2
      else None)"

section \<open>Encoding\<close>

text \<open>\<open>None\<close> is the \<open>unreachable!\<close> of an unknown kind.\<close>

definition encode_section :: "u16 \<Rightarrow> snapshot_input \<Rightarrow> bytes option" where
  "encode_section kind input =
     (if kind = SECTION_KEYS then Some (encode_keys (si_keys input))
      else if kind = SECTION_SLOTS then Some (encode_slots 0 (si_slots input))
      else if kind = SECTION_PAYLOADS then Some (encode_payloads (si_slots input))
      else if kind = SECTION_VECTORS_F32 then Some (encode_f32 (si_vectors input))
      else if kind = SECTION_VECTORS_I8 then Some (encode_i8 (si_quantized input))
      else if kind = SECTION_GRAPH
           then Some (encode_graph (si_params input) (length (si_slots input)) (si_graph input))
      else if kind = SECTION_IDEMPOTENCY then Some (encode_idempotency (si_idempotency input))
      else None)"

definition align_up :: "nat \<Rightarrow> nat" where
  "align_up n = div_ceil n ALIGN * ALIGN"

definition zeros :: "nat \<Rightarrow> bytes" where
  "zeros n = replicate n 0"

fun section_table :: "(bytes \<Rightarrow> bytes) \<Rightarrow> nat \<Rightarrow> (u16 \<times> bytes) list \<Rightarrow> bytes" where
  "section_table blake3 cursor [] = []"
| "section_table blake3 cursor ((kind, body) # rest) =
     u16_le kind @ u16_le 0 @ nat_u64 cursor @ nat_u64 (length body) @ blake3 body
       @ section_table blake3 (align_up (cursor + length body)) rest"

definition encode_snap_header :: "(bytes \<Rightarrow> u32) \<Rightarrow> snapshot_input \<Rightarrow> bytes" where
  "encode_snap_header crc input =
     (let live_count = length (filter (\<lambda>s. \<not> rec_tombstone s) (si_slots input));
          fields = SNAPSHOT_MAGIC @ u16_le SNAPSHOT_VERSION @ u16_le 0 @ si_partition_id input
            @ nat_u32 (si_dims input) @ [metric_code (si_metric input)] @ [1] @ [0, 0]
            @ u64_le (si_high_water input) @ nat_u32 (length (si_slots input)) @ nat_u32 live_count
            @ nat_u32 (length (si_keys input)) @ nat_u32 (length (si_idempotency input))
            @ nat_u32 (length SECTION_ORDER) @ nat_u64 SNAP_HEADER_LEN;
          header = fields @ zeros (SNAP_HEADER_LEN - 4 - length fields)
      in header @ u32_le (crc header))"

definition pad_section :: "u16 \<times> bytes \<Rightarrow> bytes" where
  "pad_section s = snd s @ zeros (align_up (length (snd s)) - length (snd s))"

definition first_section :: nat where
  "first_section = align_up (SNAP_HEADER_LEN + length SECTION_ORDER * SECTION_ENTRY_LEN)"

text \<open>\<open>encode_into\<close>: the sections encode to the same bytes in both passes, so the length check
  between them never fails.\<close>

definition snapshot_encode ::
  "(bytes \<Rightarrow> u32) \<Rightarrow> (bytes \<Rightarrow> bytes) \<Rightarrow> snapshot_input \<Rightarrow> (snapshot_error + bytes) option" where
  "snapshot_encode crc blake3 input =
     (let slot_count = length (si_slots input)
      in if flat_len (si_vectors input) \<noteq> slot_count \<or> quant_len (si_quantized input) \<noteq> slot_count
         then Some (Inl (SnapInconsistent ''vector counts differ from slot count''))
         else if list_ex (\<lambda>(key, _). key = [] \<or> 65535 < length key) (si_keys input)
         then Some (Inl (SnapInconsistent ''key length''))
         else map_option (\<lambda>bodies.
           let sections = zip SECTION_ORDER bodies;
               table = section_table blake3 first_section sections;
               body = encode_snap_header crc input @ table
                 @ zeros (first_section - SNAP_HEADER_LEN - length table)
                 @ concat (map pad_section sections)
           in Inr (body @ blake3 body))
           (those (map (\<lambda>kind. encode_section kind input) SECTION_ORDER)))"

section \<open>Writing a file\<close>

text \<open>What happened on disk, up to the first call that failed; a partial write leaves a prefix.\<close>

datatype snap_io = TempFail | TempPartial nat | TempUnsynced | RenameFail | DirUnsynced | SnapOk

definition snapshot_write ::
  "(bytes \<Rightarrow> u32) \<Rightarrow> (bytes \<Rightarrow> bytes) \<Rightarrow> snap_io \<Rightarrow> path \<Rightarrow> wal_dir \<Rightarrow> snapshot_input \<Rightarrow> bool \<Rightarrow>
     (wal_dir \<times> (snapshot_error + path)) option" where
  "snapshot_write crc blake3 io temporary dir input before_rename =
     (let final = snapshot_name (si_high_water input)
      in if io = TempFail then Some (dir, Inl SnapIo)
         else map_option (\<lambda>encoded. case encoded of
             Inl e \<Rightarrow> (AList.update temporary [] dir, Inl e)
           | Inr file \<Rightarrow>
               (case io of
                  TempPartial n \<Rightarrow> (AList.update temporary (take n file) dir, Inl SnapIo)
                | TempUnsynced \<Rightarrow> (AList.update temporary file dir, Inl SnapIo)
                | _ \<Rightarrow>
                    if \<not> before_rename then (AList.update temporary file dir, Inl SnapIo)
                    else if io = RenameFail then (AList.update temporary file dir, Inl SnapIo)
                    else (AList.update final file (AList.delete temporary dir),
                          if io = DirUnsynced then Inl SnapIo else Inr final)))
           (snapshot_encode crc blake3 input))"

section \<open>Loading\<close>

definition read_fields :: "bytes \<Rightarrow> uuid \<Rightarrow> snapshot_error + snap_header" where
  "read_fields header expected =
     rbind (cur_take 4 ''magic'' header) (\<lambda>(magic, c).
     if magic \<noteq> SNAPSHOT_MAGIC then Inl BadMagic
     else rbind (cur_u16 ''version'' c) (\<lambda>(version, c).
     if version \<noteq> SNAPSHOT_VERSION then Inl (SnapVersion version)
     else rbind (cur_u16 ''flags'' c) (\<lambda>(_, c).
     rbind (cur_take 16 ''partition id'' c) (\<lambda>(id, c).
     if id \<noteq> expected then Inl (SnapWrongPartition id expected)
     else rbind (cur_u32 ''dims'' c) (\<lambda>(dims, c).
     rbind (cur_u8 ''metric'' c) (\<lambda>(code, c).
     rbind (ok_or (SnapMalformed ''metric'') (metric_from code)) (\<lambda>metric.
     rbind (cur_u8 ''quant'' c) (\<lambda>(quant, c).
     if quant \<noteq> 1 then Inl (SnapMalformed ''quantization scheme'')
     else rbind (cur_take 2 ''reserved'' c) (\<lambda>(_, c).
     rbind (cur_u64 ''high water'' c) (\<lambda>(high_water, c).
     rbind (cur_u32 ''slot count'' c) (\<lambda>(slot_count, c).
     rbind (cur_u32 ''live count'' c) (\<lambda>(_, c).
     rbind (cur_u32 ''key count'' c) (\<lambda>(key_count, c).
     rbind (cur_u32 ''idempotency count'' c) (\<lambda>(idem_count, c).
     rbind (cur_u32 ''section count'' c) (\<lambda>(section_count, c).
     rbind (cur_u64 ''table offset'' c) (\<lambda>(table_offset, c).
     if dims = 0 then Inl (SnapMalformed ''dims'')
     else Inr \<lparr>sh_partition_id = id, sh_dims = dims, sh_metric = metric,
               sh_high_water = high_water, sh_slot_count = slot_count, sh_key_count = key_count,
               sh_idem_count = idem_count, sh_section_count = section_count,
               sh_table_offset = unat table_offset\<rparr>))))))))))))))))"

definition read_header ::
  "(bytes \<Rightarrow> u32) \<Rightarrow> bytes \<Rightarrow> uuid \<Rightarrow> snapshot_error + snap_header" where
  "read_header crc bs expected =
     (if length bs < SNAP_HEADER_LEN + FOOTER_LEN then Inl (SnapMalformed ''file too short'')
      else let header = take SNAP_HEADER_LEN bs
           in if crc (take (SNAP_HEADER_LEN - 4) header)
                 \<noteq> u32_of_le (drop (SNAP_HEADER_LEN - 4) header) then Inl HeaderCrc
              else read_fields header expected)"

type_synonym section_entry = "u16 \<times> nat \<times> nat \<times> bytes"

fun read_entries :: "nat \<Rightarrow> nat \<Rightarrow> nat \<Rightarrow> bytes \<Rightarrow> snapshot_error + section_entry list" where
  "read_entries footer_at table_end 0 bs = Inr []"
| "read_entries footer_at table_end (Suc n) bs =
     (let kind = u16_of_le (take 2 bs); offset = unat (u64_of_le (take 8 (drop 4 bs)));
          len = unat (u64_of_le (take 8 (drop 12 bs)))
      in if offset < table_end \<or> 2 ^ 64 \<le> offset + len \<or> footer_at < offset + len
         then Inl (SnapMalformed ''section bounds'')
         else rbind (read_entries footer_at table_end n (drop SECTION_ENTRY_LEN bs)) (\<lambda>rest.
           Inr ((kind, offset, len, take 32 (drop 20 bs)) # rest)))"

definition read_table :: "bytes \<Rightarrow> snap_header \<Rightarrow> snapshot_error + section_entry list" where
  "read_table bs header =
     (let footer_at = length bs - FOOTER_LEN;
          table_end = sh_section_count header * SECTION_ENTRY_LEN + sh_table_offset header
      in if 2 ^ 64 \<le> table_end then Inl (SnapMalformed ''section table'')
         else if sh_table_offset header < SNAP_HEADER_LEN \<or> footer_at < table_end
         then Inl (SnapMalformed ''section table'')
         else read_entries footer_at table_end (sh_section_count header)
                (drop (sh_table_offset header) bs))"

definition find_section :: "u16 \<Rightarrow> section_entry list \<Rightarrow> snapshot_error + section_entry" where
  "find_section kind entries = ok_or (MissingSection kind) (find (\<lambda>e. fst e = kind) entries)"

definition region :: "bytes \<Rightarrow> section_entry \<Rightarrow> bytes" where
  "region bs e = (case e of (_, offset, len, _) \<Rightarrow> take len (drop offset bs))"

definition section_of :: "bytes \<Rightarrow> section_entry list \<Rightarrow> u16 \<Rightarrow> snapshot_error + bytes" where
  "section_of bs entries kind = rbind (find_section kind entries) (\<lambda>e. Inr (region bs e))"

definition check_digests ::
  "(bytes \<Rightarrow> bytes) \<Rightarrow> bytes \<Rightarrow> section_entry list \<Rightarrow> snapshot_error + unit" where
  "check_digests blake3 bs entries =
     (case find (\<lambda>e. blake3 (region bs e) \<noteq> snd (snd (snd e))) entries of
        Some e \<Rightarrow> Inl (SectionHash (fst e)) | None \<Rightarrow> Inr ())"

definition map_rows ::
  "(bytes \<Rightarrow> f32 list) \<Rightarrow> nat \<Rightarrow> bytes \<Rightarrow> nat \<Rightarrow> nat \<Rightarrow> nat \<Rightarrow> snapshot_error + flat_vectors" where
  "map_rows cast addr bs offset slot_count dims =
     rbind (map_err (\<lambda>_. SnapMalformed ''f32 section alignment'')
              (mapped_rows_new cast addr bs offset slot_count dims)) (\<lambda>mapped.
       map_err (\<lambda>_. SnapMalformed ''dims'') (from_mapped dims mapped))"

definition map_vectors ::
  "(bytes \<Rightarrow> u32) \<Rightarrow> (bytes \<Rightarrow> bytes) \<Rightarrow> (bytes \<Rightarrow> f32 list) \<Rightarrow> nat \<Rightarrow> bytes \<Rightarrow> uuid \<Rightarrow> nat \<Rightarrow> nat \<Rightarrow>
     snapshot_error + flat_vectors" where
  "map_vectors crc blake3 cast addr bs expected dims slot_count =
     rbind (read_header crc bs expected) (\<lambda>header.
     if sh_dims header \<noteq> dims \<or> sh_slot_count header \<noteq> slot_count
     then Inl (SnapMalformed ''snapshot shape'')
     else rbind (rbind (read_table bs header) (find_section SECTION_VECTORS_F32)) (\<lambda>e.
     let offset = fst (snd e); len = fst (snd (snd e))
     in if len \<noteq> slot_count * dims * 4 mod 2 ^ 64 then Inl (SnapMalformed ''f32 section length'')
        else if blake3 (region bs e) \<noteq> snd (snd (snd e)) then Inl (SectionHash SECTION_VECTORS_F32)
        else map_rows cast addr bs offset slot_count dims))"

section \<open>Structural validation\<close>

definition guard_err :: "'e \<Rightarrow> bool \<Rightarrow> 'e + unit" where
  "guard_err e ok = (if ok then Inr () else Inl e)"

fun each :: "('a \<Rightarrow> 'e + unit) \<Rightarrow> 'a list \<Rightarrow> 'e + unit" where
  "each f [] = Inr ()"
| "each f (x # xs) = rbind (f x) (\<lambda>_. each f xs)"

text \<open>One list of links: its length, then its members. The arrays were decoded with their full
  length, so the slice is in range.\<close>

definition validate_list ::
  "nat \<Rightarrow> nat \<Rightarrow> string \<Rightarrow> string \<Rightarrow> nat list \<Rightarrow> nat \<Rightarrow> nat \<Rightarrow> snapshot_error + unit" where
  "validate_list slot_count cap long out links i len =
     rbind (guard_err (SnapMalformed long) (len \<le> cap)) (\<lambda>_.
       guard_err (SnapMalformed out)
         (list_all (\<lambda>n. n < slot_count) (take len (drop (i * cap) links))))"

definition validate_level0 :: "hnsw_params \<Rightarrow> nat \<Rightarrow> graph_parts \<Rightarrow> snapshot_error + unit" where
  "validate_level0 params slot_count g =
     each (\<lambda>(slot, len). validate_list slot_count (hp_m0 params) ''level0 length''
             ''neighbour out of range'' (gp_level0 g) slot len)
       (zip [0..<length (gp_level0_len g)] (gp_level0_len g))"

definition validate_upper :: "hnsw_params \<Rightarrow> nat \<Rightarrow> graph_parts \<Rightarrow> snapshot_error + unit" where
  "validate_upper params slot_count g =
     each (\<lambda>slot.
       rbind (guard_err (SnapMalformed ''level'') (gp_levels g ! slot \<le> 31)) (\<lambda>_.
         each (\<lambda>(level, len). validate_list slot_count (hp_m params) ''upper length''
                 ''upper neighbour out of range'' (gp_upper g ! slot) level len)
           (zip [0..<length (gp_upper_len g ! slot)] (gp_upper_len g ! slot))))
       [0..<slot_count]"

definition validate_entry :: "nat \<Rightarrow> graph_parts \<Rightarrow> snapshot_error + unit" where
  "validate_entry slot_count g =
     guard_err (SnapMalformed ''entry point'')
       (case gp_entry g of
          Some entry \<Rightarrow> entry < slot_count \<and> gp_levels g ! entry = gp_max_level g
        | None \<Rightarrow> slot_count = 0)"

definition tombstone_bit :: "u64 list \<Rightarrow> nat \<Rightarrow> bool" where
  "tombstone_bit words slot =
     (case index words (slot div 64) of
        None \<Rightarrow> False | Some word \<Rightarrow> word AND slot_mask slot \<noteq> 0)"

definition validate_slots ::
  "(bytes \<times> nat) list \<Rightarrow> slot_record list \<Rightarrow> graph_parts \<Rightarrow> snapshot_error + unit" where
  "validate_slots keys slots g =
     rbind (each (\<lambda>(slot, r).
       rbind (guard_err (SnapMalformed ''tombstone bitmap disagrees with slots'')
                (tombstone_bit (gp_tombstones g) slot = rec_tombstone r)) (\<lambda>_.
         guard_err (SnapMalformed ''slot key index'') (rec_key_index r < length keys)))
       (zip [0..<length slots] slots)) (\<lambda>_.
     guard_err (SnapMalformed ''tombstone count'')
       (length (filter rec_tombstone slots) = gp_tombstone_count g))"

definition validate_keys :: "(bytes \<times> nat) list \<Rightarrow> slot_record list \<Rightarrow> snapshot_error + unit" where
  "validate_keys keys slots =
     each (\<lambda>(i, _, live).
       if live = 2 ^ 32 - 1 then Inr ()
       else rbind (ok_or (SnapMalformed ''key slot out of range'') (index slots live)) (\<lambda>r.
         guard_err (SnapMalformed ''key points to a slot it does not own'')
           (\<not> rec_tombstone r \<and> rec_key_index r = i)))
       (zip [0..<length keys] keys)"

definition validate_structure ::
  "hnsw_params \<Rightarrow> nat \<Rightarrow> (bytes \<times> nat) list \<Rightarrow> slot_record list \<Rightarrow> graph_parts \<Rightarrow>
     snapshot_error + unit" where
  "validate_structure params slot_count keys slots g =
     rbind (validate_level0 params slot_count g) (\<lambda>_.
     rbind (validate_upper params slot_count g) (\<lambda>_.
     rbind (validate_entry slot_count g) (\<lambda>_.
     rbind (validate_slots keys slots g) (\<lambda>_. validate_keys keys slots))))"

section \<open>Load and list\<close>

definition load_f32 ::
  "(bytes \<Rightarrow> f32 list) \<Rightarrow> nat \<Rightarrow> bytes \<Rightarrow> section_entry list \<Rightarrow> nat \<Rightarrow> nat \<Rightarrow> snapshot_error + flat_vectors"
  where
  "load_f32 cast addr bs entries slot_count dims =
     rbind (find_section SECTION_VECTORS_F32 entries) (\<lambda>e.
     if fst (snd (snd e)) \<noteq> slot_count * dims * 4 mod 2 ^ 64
     then Inl (SnapMalformed ''f32 section length'')
     else map_rows cast addr bs (fst (snd e)) slot_count dims)"

definition snapshot_load ::
  "(bytes \<Rightarrow> u32) \<Rightarrow> (bytes \<Rightarrow> bytes) \<Rightarrow> (bytes \<Rightarrow> f32 list) \<Rightarrow> nat \<Rightarrow> path \<Rightarrow> bytes \<Rightarrow> uuid \<Rightarrow>
     snapshot_error + loaded_snapshot" where
  "snapshot_load crc blake3 cast addr path bs expected =
     rbind (read_header crc bs expected) (\<lambda>header.
     let footer_at = length bs - FOOTER_LEN; slot_count = sh_slot_count header; dims = sh_dims header
     in if blake3 (take footer_at bs) \<noteq> drop footer_at bs then Inl FooterHash
        else
     rbind (read_table bs header) (\<lambda>entries.
     rbind (check_digests blake3 bs entries) (\<lambda>_.
     rbind (rbind (section_of bs entries SECTION_KEYS) (decode_keys (sh_key_count header))) (\<lambda>keys.
     rbind (section_of bs entries SECTION_PAYLOADS) (\<lambda>payloads.
     rbind (rbind (section_of bs entries SECTION_SLOTS) (decode_slots slot_count payloads)) (\<lambda>slots.
     rbind (load_f32 cast addr bs entries slot_count dims) (\<lambda>vectors.
     rbind (rbind (section_of bs entries SECTION_VECTORS_I8) (decode_i8 slot_count dims)) (\<lambda>quantized.
     rbind (rbind (section_of bs entries SECTION_GRAPH) (decode_graph slot_count)) (\<lambda>(params, graph).
     rbind (validate_structure params slot_count keys slots graph) (\<lambda>_.
     rbind (rbind (section_of bs entries SECTION_IDEMPOTENCY)
              (decode_idempotency (sh_idem_count header))) (\<lambda>idempotency.
       Inr \<lparr>ls_path = path, ls_partition_id = sh_partition_id header, ls_dims = dims,
            ls_metric = sh_metric header, ls_params = params, ls_high_water = sh_high_water header,
            ls_keys = keys, ls_slots = slots, ls_vectors = vectors, ls_quantized = quantized,
            ls_graph = graph, ls_idempotency = idempotency, ls_file_bytes = length bs\<rparr>)))))))))))"

definition snapshot_list :: "wal_dir \<Rightarrow> (u64 \<times> path) list" where
  "snapshot_list dir =
     sort_by (\<lambda>a b. cmp_of (unat (fst b)) (unat (fst a)))
       (List.map_filter (\<lambda>(name, _).
          map_option (\<lambda>h. (h, name)) (Option.bind (strip_suffix ''.snap'' name) parse_u64)) dir)"

section \<open>Lemmas: the header\<close>

lemma metric_from_code [simp]: "metric_from (unat (metric_code m)) = Some m"
  by (cases m) (simp_all add: metric_from_def)

text \<open>What the snapshot's values must satisfy to fit their fields.\<close>

definition input_fits :: "snapshot_input \<Rightarrow> bool" where
  "input_fits si \<longleftrightarrow>
     length (si_partition_id si) = 16 \<and> 0 < si_dims si \<and> si_dims si \<le> 65536 \<and>
     length (si_slots si) < 2 ^ 32 \<and> length (si_keys si) < 2 ^ 32 \<and>
     length (si_idempotency si) < 2 ^ 32 \<and>
     (\<forall>(key, slot)\<in>set (si_keys si). key \<noteq> [] \<and> length key < 2 ^ 16 \<and> slot < 2 ^ 32) \<and>
     (\<forall>r\<in>set (si_slots si). rec_key_index r < 2 ^ 32 \<and> length (rec_payload r) < 2 ^ 32) \<and>
     flat_wf (si_vectors si) \<and> fv_dims (si_vectors si) = si_dims si \<and>
     flat_len (si_vectors si) = length (si_slots si) \<and>
     quant_wf (si_quantized si) \<and> qv_dims (si_quantized si) = si_dims si \<and>
     quant_len (si_quantized si) = length (si_slots si) \<and>
     parts_fit (si_params si) (length (si_slots si)) (si_graph si) \<and>
     (\<forall>(op_id, seq)\<in>set (si_idempotency si). length op_id = 16)"

definition header_of :: "snapshot_input \<Rightarrow> snap_header" where
  "header_of si =
     \<lparr>sh_partition_id = si_partition_id si, sh_dims = si_dims si, sh_metric = si_metric si,
      sh_high_water = si_high_water si, sh_slot_count = length (si_slots si),
      sh_key_count = length (si_keys si), sh_idem_count = length (si_idempotency si),
      sh_section_count = 7, sh_table_offset = 128\<rparr>"

lemma length_nat_u [simp]: "length (nat_u32 n) = 4" "length (nat_u64 n) = 8"
  by (simp_all add: nat_u32_def nat_u64_def)

lemma length_SECTION_ORDER [simp]: "length SECTION_ORDER = 7"
  by (simp add: SECTION_ORDER_def)

lemma length_encode_snap_header:
  "length (si_partition_id si) = 16 \<Longrightarrow> length (encode_snap_header crc si) = 128"
  by (simp add: encode_snap_header_def Let_def zeros_def snap_consts SNAPSHOT_MAGIC_def)

definition snap_fields :: "snapshot_input \<Rightarrow> bytes" where
  "snap_fields si = SNAPSHOT_MAGIC @ u16_le SNAPSHOT_VERSION @ u16_le 0 @ si_partition_id si
     @ nat_u32 (si_dims si) @ [metric_code (si_metric si)] @ [1] @ [0, 0]
     @ u64_le (si_high_water si) @ nat_u32 (length (si_slots si))
     @ nat_u32 (length (filter (\<lambda>s. \<not> rec_tombstone s) (si_slots si)))
     @ nat_u32 (length (si_keys si)) @ nat_u32 (length (si_idempotency si)) @ nat_u32 7 @ nat_u64 128"

lemma read_fields_encode:
  assumes fits: "input_fits si"
  shows "read_fields (snap_fields si @ rest) (si_partition_id si) = Inr (header_of si)"
proof -
  have live: "length (filter (\<lambda>s. \<not> rec_tombstone s) (si_slots si)) < 2 ^ 32"
    using fits by (intro le_less_trans [OF length_filter_le]) (simp add: input_fits_def)
  have magic: "cur_take 4 w (SNAPSHOT_MAGIC @ r) = Inr (SNAPSHOT_MAGIC, r)" for w r
    by (simp add: cur_take_def SNAPSHOT_MAGIC_def)
  have two: "cur_take 2 w (0 # 0 # r) = Inr ([0, 0], r)" for w and r :: bytes
    by (simp add: cur_take_def)
  show ?thesis
    using fits live
    by (simp add: read_fields_def snap_fields_def magic two cur_take_append cur_nat_u32
        input_fits_def header_of_def nat_u64_def)
qed

lemma read_header_encode:
  assumes fits: "input_fits si" and rest: "32 \<le> length rest"
  shows "read_header crc (encode_snap_header crc si @ rest) (si_partition_id si) = Inr (header_of si)"
proof -
  have id: "length (si_partition_id si) = 16" using fits by (simp add: input_fits_def)
  let ?f = "snap_fields si" and ?z = "zeros 56"
  have flen: "length ?f = 68" using id by (simp add: snap_fields_def SNAPSHOT_MAGIC_def)
  have e: "encode_snap_header crc si = (?f @ ?z) @ u32_le (crc (?f @ ?z))"
    using flen by (simp add: encode_snap_header_def Let_def snap_fields_def snap_consts)
  have hlen: "length (?f @ ?z) = 124" by (simp add: flen zeros_def)
  have "take 128 (encode_snap_header crc si @ rest) = ?f @ ?z @ u32_le (crc (?f @ ?z))"
    using hlen unfolding e by simp
  moreover have "\<not> length (encode_snap_header crc si @ rest) < 128 + 32"
    using hlen rest unfolding e by simp
  moreover have "take 124 (?f @ ?z @ u32_le (crc (?f @ ?z))) = ?f @ ?z"
    "drop 124 (?f @ ?z @ u32_le (crc (?f @ ?z))) = u32_le (crc (?f @ ?z))"
    using hlen by simp_all
  ultimately show ?thesis
    unfolding read_header_def Let_def snap_consts
    by (simp add: read_fields_encode [OF fits])
qed

section \<open>Lemmas: the table and the sections\<close>

lemma align_up_ge: "n \<le> align_up n"
  using div_ceil_ge [of 64 n] by (simp add: align_up_def ALIGN_def)

lemma align_up_mod [simp]: "align_up n mod 64 = 0"
  by (simp add: align_up_def ALIGN_def)

lemma align_up_add: "c mod 64 = 0 \<Longrightarrow> align_up (c + n) = c + align_up n"
proof -
  assume c: "c mod 64 = 0"
  then have "(c + n) mod 64 = n mod 64" "(c + n) div 64 = c div 64 + n div 64" "c div 64 * 64 = c"
    by (auto simp: div_add1_eq mod_add_eq)
  then show ?thesis by (simp add: align_up_def div_ceil_def ALIGN_def algebra_simps)
qed

lemma length_pad_section: "length (pad_section s) = align_up (length (snd s))"
  using align_up_ge [of "length (snd s)"] by (simp add: pad_section_def zeros_def)

fun table_entries :: "(bytes \<Rightarrow> bytes) \<Rightarrow> nat \<Rightarrow> (u16 \<times> bytes) list \<Rightarrow> section_entry list" where
  "table_entries blake3 cursor [] = []"
| "table_entries blake3 cursor ((kind, body) # rest) =
     (kind, cursor, length body, blake3 body)
       # table_entries blake3 (align_up (cursor + length body)) rest"

lemma length_section_table:
  "\<forall>b. length (blake3 b) = 32 \<Longrightarrow> length (section_table blake3 c xs) = 52 * length xs"
  by (induction blake3 c xs rule: section_table.induct) simp_all

lemma read_entries_table:
  assumes "\<forall>b. length (blake3 b) = 32" and "table_end \<le> cursor" and "cursor mod 64 = 0"
    and "cursor + length (concat (map pad_section xs)) \<le> footer" and "footer < 2 ^ 64"
  shows "read_entries footer table_end (length xs) (section_table blake3 cursor xs @ rest) =
    Inr (table_entries blake3 cursor xs)"
  using assms(2-)
proof (induction xs arbitrary: cursor)
  case (Cons x xs)
  obtain kind body where x: "x = (kind, body)" by force
  let ?next = "align_up (cursor + length body)"
  have next_eq: "?next = cursor + align_up (length body)" using Cons.prems(2) by (rule align_up_add)
  have total: "cursor + (align_up (length body) + length (concat (map pad_section xs))) \<le> footer"
    using Cons.prems(3) by (simp add: length_pad_section x)
  have fits: "cursor + length body \<le> footer" "cursor < 2 ^ 64" "length body < 2 ^ 64"
    using total Cons.prems(4) align_up_ge [of "length body"] by simp_all
  have "read_entries footer table_end (length xs) (section_table blake3 ?next xs @ rest) =
      Inr (table_entries blake3 ?next xs)"
  proof (rule Cons.IH)
    show "table_end \<le> ?next" using Cons.prems(1) next_eq by simp
    show "?next + length (concat (map pad_section xs)) \<le> footer" using total next_eq by simp
  qed (simp_all add: Cons.prems(4) [simplified])
  with fits Cons.prems(1,4) assms(1) show ?case
    by (simp add: x nat_u64_def unat_nat64 SECTION_ENTRY_LEN_def Let_def)
qed simp

text \<open>Each entry of the table describes its section where it lies in the file.\<close>

definition entry_for :: "(bytes \<Rightarrow> bytes) \<Rightarrow> bytes \<Rightarrow> section_entry \<Rightarrow> u16 \<times> bytes \<Rightarrow> bool" where
  "entry_for blake3 file e s \<longleftrightarrow>
     fst e = fst s \<and> region file e = snd s \<and> snd (snd (snd e)) = blake3 (snd s) \<and>
     fst (snd (snd e)) = length (snd s) \<and> fst (snd e) mod 64 = 0 \<and>
     fst (snd e) + length (snd s) \<le> length file"

lemma table_entries_regions:
  assumes "file = pre @ concat (map pad_section xs) @ post" and "length pre mod 64 = 0"
  shows "list_all2 (entry_for blake3 file) (table_entries blake3 (length pre) xs) xs"
  using assms
proof (induction xs arbitrary: pre)
  case (Cons x xs)
  obtain kind body where x: "x = (kind, body)" by force
  have "align_up (length pre + length body) = length (pre @ pad_section x)"
    using align_up_add [OF Cons.prems(2)] by (simp add: length_pad_section x)
  moreover have "list_all2 (entry_for blake3 file)
      (table_entries blake3 (length (pre @ pad_section x)) xs) xs"
    using Cons.prems by (intro Cons.IH) (simp_all add: length_pad_section mod_add_eq [symmetric])
  moreover have "entry_for blake3 file (kind, length pre, length body, blake3 body) x"
    using Cons.prems by (simp add: entry_for_def region_def x pad_section_def)
  ultimately show ?case by (simp add: x)
qed simp

section \<open>Lemmas: the round trip\<close>

definition snap_sections :: "snapshot_input \<Rightarrow> (u16 \<times> bytes) list" where
  "snap_sections si =
     [(SECTION_KEYS, encode_keys (si_keys si)), (SECTION_SLOTS, encode_slots 0 (si_slots si)),
      (SECTION_PAYLOADS, encode_payloads (si_slots si)),
      (SECTION_VECTORS_F32, encode_f32 (si_vectors si)),
      (SECTION_VECTORS_I8, encode_i8 (si_quantized si)),
      (SECTION_GRAPH, encode_graph (si_params si) (length (si_slots si)) (si_graph si)),
      (SECTION_IDEMPOTENCY, encode_idempotency (si_idempotency si))]"

lemma length_snap_sections [simp]: "length (snap_sections si) = 7"
  by (simp add: snap_sections_def)

lemma encode_sections:
  "those (map (\<lambda>kind. encode_section kind si) SECTION_ORDER) = Some (map snd (snap_sections si))"
  "zip SECTION_ORDER (map snd (snap_sections si)) = snap_sections si"
  by (simp_all add: SECTION_ORDER_def encode_section_def section_kinds snap_sections_def)

lemma first_section_eq: "first_section = 512"
  by (simp add: first_section_def align_up_def div_ceil_def snap_consts)

definition snap_prefix :: "(bytes \<Rightarrow> u32) \<Rightarrow> (bytes \<Rightarrow> bytes) \<Rightarrow> snapshot_input \<Rightarrow> bytes" where
  "snap_prefix crc blake3 si =
     encode_snap_header crc si @ section_table blake3 512 (snap_sections si) @ zeros 20"

definition snap_file :: "(bytes \<Rightarrow> u32) \<Rightarrow> (bytes \<Rightarrow> bytes) \<Rightarrow> snapshot_input \<Rightarrow> bytes" where
  "snap_file crc blake3 si =
     (let body = snap_prefix crc blake3 si @ concat (map pad_section (snap_sections si))
      in body @ blake3 body)"

text \<open>What the engine relies on of the digest, the cast and the address of the map.\<close>

definition platform_ok :: "(bytes \<Rightarrow> bytes) \<Rightarrow> (bytes \<Rightarrow> f32 list) \<Rightarrow> nat \<Rightarrow> bool" where
  "platform_ok blake3 cast addr \<longleftrightarrow>
     (\<forall>b. length (blake3 b) = 32) \<and> (\<forall>ws. cast (concat (map u32_le ws)) = ws) \<and> addr mod 4 = 0"

lemma length_snap_prefix:
  assumes "\<forall>b. length (blake3 b) = 32" and "length (si_partition_id si) = 16"
  shows "length (snap_prefix crc blake3 si) = 512"
  using length_section_table [OF assms(1), of 512 "snap_sections si"]
    length_encode_snap_header [OF assms(2), of crc]
  by (simp add: snap_prefix_def zeros_def snap_sections_def)

lemma snapshot_encode_eq:
  assumes "input_fits si" and "\<forall>b. length (blake3 b) = 32"
  shows "snapshot_encode crc blake3 si = Some (Inr (snap_file crc blake3 si))"
proof -
  have keys: "\<not> list_ex (\<lambda>(key, _). key = [] \<or> 65535 < length key) (si_keys si)"
    using assms(1) by (fastforce simp: input_fits_def list_ex_iff)
  have len: "length (section_table blake3 512 (snap_sections si)) = 364"
    using length_section_table [OF assms(2), of 512 "snap_sections si"]
    by (simp add: snap_sections_def)
  show ?thesis
    using assms(1) keys len
    by (simp add: snapshot_encode_def Let_def encode_sections first_section_eq snap_file_def
        snap_prefix_def input_fits_def SNAP_HEADER_LEN_def)
qed

lemma snap_table:
  assumes fits: "input_fits si" and dig: "\<forall>b. length (blake3 b) = 32"
    and size: "length (snap_file crc blake3 si) < 2 ^ 64"
  shows "read_table (snap_file crc blake3 si) (header_of si) =
      Inr (table_entries blake3 512 (snap_sections si))"
    and "list_all2 (entry_for blake3 (snap_file crc blake3 si))
      (table_entries blake3 512 (snap_sections si)) (snap_sections si)"
    and "read_header crc (snap_file crc blake3 si) (si_partition_id si) = Inr (header_of si)"
proof -
  let ?file = "snap_file crc blake3 si" and ?pre = "snap_prefix crc blake3 si"
  let ?data = "concat (map pad_section (snap_sections si))"
  have id: "length (si_partition_id si) = 16" using fits by (simp add: input_fits_def)
  note pre = length_snap_prefix [OF dig id, of crc]
  obtain footer where f: "?file = ?pre @ ?data @ footer" "length footer = 32"
    using dig by (simp add: snap_file_def Let_def)
  have flen: "length ?file - 32 = 512 + length ?data" using f pre by simp
  have hlen: "length (encode_snap_header crc si) = 128" using length_encode_snap_header [OF id] .
  have drop: "drop 128 ?file = section_table blake3 512 (snap_sections si) @ zeros 20 @ ?data @ footer"
    using hlen by (simp add: f(1) snap_prefix_def)
  have "read_entries (512 + length ?data) 492 (length (snap_sections si)) (drop 128 ?file) =
      Inr (table_entries blake3 512 (snap_sections si))"
    unfolding drop using size flen by (intro read_entries_table [OF dig]) simp_all
  then show "read_table ?file (header_of si) = Inr (table_entries blake3 512 (snap_sections si))"
    using flen by (simp add: read_table_def header_of_def snap_consts)
  show "list_all2 (entry_for blake3 ?file) (table_entries blake3 512 (snap_sections si))
      (snap_sections si)"
    using table_entries_regions [OF f(1), of blake3] pre by simp
  show "read_header crc ?file (si_partition_id si) = Inr (header_of si)"
    using read_header_encode [OF fits, of "section_table blake3 512 (snap_sections si) @ zeros 20 @ ?data @ footer" crc]
      f by (simp add: snap_prefix_def)
qed

text \<open>Looking sections up and checking their digests.\<close>

lemma lookup_sections:
  assumes "list_all2 (entry_for blake3 file) entries (snap_sections si)"
  shows "check_digests blake3 file entries = Inr ()"
    and "section_of file entries SECTION_KEYS = Inr (encode_keys (si_keys si))"
    and "section_of file entries SECTION_SLOTS = Inr (encode_slots 0 (si_slots si))"
    and "section_of file entries SECTION_PAYLOADS = Inr (encode_payloads (si_slots si))"
    and "section_of file entries SECTION_VECTORS_I8 = Inr (encode_i8 (si_quantized si))"
    and "section_of file entries SECTION_GRAPH =
      Inr (encode_graph (si_params si) (length (si_slots si)) (si_graph si))"
    and "section_of file entries SECTION_IDEMPOTENCY = Inr (encode_idempotency (si_idempotency si))"
    and "\<exists>e. find_section SECTION_VECTORS_F32 entries = Inr e \<and>
      entry_for blake3 file e (SECTION_VECTORS_F32, encode_f32 (si_vectors si))"
proof -
  obtain e1 e2 e3 e4 e5 e6 e7 where es: "entries = [e1, e2, e3, e4, e5, e6, e7]"
    "entry_for blake3 file e1 (SECTION_KEYS, encode_keys (si_keys si))"
    "entry_for blake3 file e2 (SECTION_SLOTS, encode_slots 0 (si_slots si))"
    "entry_for blake3 file e3 (SECTION_PAYLOADS, encode_payloads (si_slots si))"
    "entry_for blake3 file e4 (SECTION_VECTORS_F32, encode_f32 (si_vectors si))"
    "entry_for blake3 file e5 (SECTION_VECTORS_I8, encode_i8 (si_quantized si))"
    "entry_for blake3 file e6
       (SECTION_GRAPH, encode_graph (si_params si) (length (si_slots si)) (si_graph si))"
    "entry_for blake3 file e7 (SECTION_IDEMPOTENCY, encode_idempotency (si_idempotency si))"
    using assms by (auto simp: snap_sections_def list_all2_Cons2)
  then have dig: "\<forall>e\<in>set entries. blake3 (region file e) = snd (snd (snd e))"
    by (auto simp: entry_for_def)
  then have "find (\<lambda>e. blake3 (region file e) \<noteq> snd (snd (snd e))) entries = None"
    by (simp add: find_None_iff)
  then show "check_digests blake3 file entries = Inr ()" by (simp add: check_digests_def)
  have k: "fst e1 = 1" "fst e2 = 2" "fst e3 = 3" "fst e4 = 4" "fst e5 = 5" "fst e6 = 6" "fst e7 = 7"
    using es by (simp_all add: entry_for_def section_kinds)
  show "section_of file entries SECTION_KEYS = Inr (encode_keys (si_keys si))"
    "section_of file entries SECTION_SLOTS = Inr (encode_slots 0 (si_slots si))"
    "section_of file entries SECTION_PAYLOADS = Inr (encode_payloads (si_slots si))"
    "section_of file entries SECTION_VECTORS_I8 = Inr (encode_i8 (si_quantized si))"
    "section_of file entries SECTION_GRAPH =
      Inr (encode_graph (si_params si) (length (si_slots si)) (si_graph si))"
    "section_of file entries SECTION_IDEMPOTENCY = Inr (encode_idempotency (si_idempotency si))"
    using es k by (simp_all add: section_of_def find_section_def section_kinds entry_for_def)
  show "\<exists>e. find_section SECTION_VECTORS_F32 entries = Inr e \<and>
      entry_for blake3 file e (SECTION_VECTORS_F32, encode_f32 (si_vectors si))"
    using es k by (simp add: find_section_def section_kinds)
qed

text \<open>Rows mapped from the file are the rows that were written.\<close>

lemma encode_f32_concat: "encode_f32 v = concat (map u32_le (concat (flat_rows v)))"
proof -
  have "concat (map (write_le u32_le) rs) = concat (map u32_le (concat rs))" for rs
    by (induction rs) (simp_all add: write_le_def)
  then show ?thesis by (simp add: encode_f32_def)
qed

lemma length_concat_rows:
  "flat_wf v \<Longrightarrow> length (concat (flat_rows v)) = flat_len v * fv_dims v"
proof -
  assume wf: "flat_wf v"
  have "\<forall>r\<in>set rs. length r = d \<Longrightarrow> length (concat rs) = length rs * d" for rs :: "f32 list list" and d
    by (induction rs) auto
  from this [of "flat_rows v" "fv_dims v"] show ?thesis
    using flat.row_dims [OF wf] by (simp add: flat.len_rows [OF wf])
qed

lemma map_rows_ok:
  assumes plat: "platform_ok blake3 cast addr" and wf: "flat_wf v" and n: "flat_len v < 2 ^ 32"
    and e: "take (length (encode_f32 v)) (drop off file) = encode_f32 v" "off mod 64 = 0"
      "off + length (encode_f32 v) \<le> length file"
  shows "\<exists>v'. map_rows cast addr file off (flat_len v) (fv_dims v) = Inr v' \<and> flat_wf v' \<and>
    flat_rows v' = flat_rows v \<and> fv_dims v' = fv_dims v \<and> flat_len v' = flat_len v \<and> fv_tail v' = []"
    and "length (encode_f32 v) = flat_len v * fv_dims v * 4 mod 2 ^ 64"
proof -
  let ?d = "fv_dims v" and ?n = "flat_len v"
  have d: "0 < ?d" "?d \<le> 65536" using wf by (simp_all add: flat_wf_def)
  have len: "length (encode_f32 v) = ?n * ?d * 4"
    by (simp add: encode_f32_concat length_concat_rows [OF wf])
  have "?n * ?d * 4 \<le> 2 ^ 32 * 65536 * 4" using n d by (intro mult_le_mono) auto
  then have small: "?n * ?d * 4 < 2 ^ 64" by simp
  then have cm: "Option.bind (checked_mul ?n ?d) (\<lambda>x. checked_mul x 4) = Some (?n * ?d * 4)"
    by (simp add: checked_mul_def)
  show "length (encode_f32 v) = ?n * ?d * 4 mod 2 ^ 64" using len small by simp
  define b where "b = \<lparr>mr_map = file, mr_addr = addr, mr_cast = cast, mr_offset = off, mr_rows = ?n\<rparr>"
  define v' where "v' = \<lparr>fv_dims = ?d, fv_base = Some b, fv_tail = []\<rparr>"
  have "4 dvd addr" "64 dvd off" using plat e(2) by (auto simp: platform_ok_def)
  moreover from this(2) have "4 dvd off" by (rule dvd_trans [rotated]) simp
  ultimately have "(addr + off) mod 4 = 0" by (simp add: dvd_add)
  then have m: "map_rows cast addr file off ?n ?d = Inr v'"
    using cm e(3) len d by (simp add: map_rows_def mapped_rows_new_def from_mapped_def b_def v'_def)
  have sl: "mapped_slice b ?d = concat (flat_rows v)"
  proof -
    have "take (?n * ?d * 4) (drop off file) = concat (map u32_le (concat (flat_rows v)))"
      using e(1) unfolding len unfolding encode_f32_concat .
    then show ?thesis using plat by (simp add: mapped_slice_def b_def platform_ok_def)
  qed
  then have "flat_wf v'"
    using d by (simp add: flat_wf_def v'_def length_concat_rows [OF wf]) (simp add: b_def)
  moreover have "flat_rows v' = flat_rows v"
  proof -
    have "flat_rows v' = chunks ?d (concat (flat_rows v))"
      by (simp add: flat_rows_def [of v'] sl) (simp add: v'_def sl)
    then show ?thesis using chunks_concat [of "flat_rows v" "\<lambda>r. r" ?d] flat.row_dims [OF wf] d by simp
  qed
  ultimately show "\<exists>v'. map_rows cast addr file off ?n ?d = Inr v' \<and> flat_wf v' \<and>
      flat_rows v' = flat_rows v \<and> fv_dims v' = ?d \<and> flat_len v' = ?n \<and> fv_tail v' = []"
    using m by (auto simp: v'_def flat.len_rows flat.len_rows [OF wf])
qed

text \<open>Loading what was encoded.\<close>

definition loads_as :: "snapshot_input \<Rightarrow> loaded_snapshot \<Rightarrow> bool" where
  "loads_as si ls \<longleftrightarrow>
     ls_partition_id ls = si_partition_id si \<and> ls_dims ls = si_dims si \<and>
     ls_metric ls = si_metric si \<and> ls_params ls = si_params si \<and>
     ls_high_water ls = si_high_water si \<and> ls_keys ls = si_keys si \<and> ls_slots ls = si_slots si \<and>
     ls_quantized ls = si_quantized si \<and> ls_graph ls = si_graph si \<and>
     ls_idempotency ls = si_idempotency si \<and>
     flat_wf (ls_vectors ls) \<and> flat_rows (ls_vectors ls) = flat_rows (si_vectors si) \<and>
     fv_dims (ls_vectors ls) = si_dims si \<and> flat_len (ls_vectors ls) = length (si_slots si) \<and>
     fv_tail (ls_vectors ls) = []"

lemma load_f32_ok:
  assumes plat: "platform_ok blake3 cast addr" and fits: "input_fits si"
    and es: "list_all2 (entry_for blake3 file) entries (snap_sections si)"
  shows "\<exists>v. load_f32 cast addr file entries (length (si_slots si)) (si_dims si) = Inr v \<and>
    flat_wf v \<and> flat_rows v = flat_rows (si_vectors si) \<and> fv_dims v = si_dims si \<and>
    flat_len v = length (si_slots si) \<and> fv_tail v = []"
proof -
  let ?v = "si_vectors si"
  have v: "flat_wf ?v" "flat_len ?v < 2 ^ 32" "fv_dims ?v = si_dims si"
    "flat_len ?v = length (si_slots si)" using fits by (simp_all add: input_fits_def)
  obtain e where e: "find_section SECTION_VECTORS_F32 entries = Inr e"
    "entry_for blake3 file e (SECTION_VECTORS_F32, encode_f32 ?v)"
    using lookup_sections(8) [OF es] by blast
  obtain k off len dg where ek: "e = (k, off, len, dg)" by (cases e)
  have r: "take (length (encode_f32 ?v)) (drop off file) = encode_f32 ?v" "off mod 64 = 0"
    "off + length (encode_f32 ?v) \<le> length file" "len = length (encode_f32 ?v)"
    using e(2) by (auto simp: entry_for_def ek region_def)
  from map_rows_ok [OF plat v(1,2) r(1-3)] e(1) r(4) show ?thesis
    by (simp add: load_f32_def ek v)
qed

lemma encode_payloads_small:
  assumes "length (snap_file crc blake3 si) < 2 ^ 64"
  shows "length (encode_payloads (si_slots si)) < 2 ^ 64"
proof -
  have "length (pad_section (SECTION_PAYLOADS, encode_payloads (si_slots si)))
      \<le> length (snap_file crc blake3 si)"
    by (simp add: snap_file_def Let_def snap_sections_def)
  with assms align_up_ge [of "length (encode_payloads (si_slots si))"] show ?thesis
    by (simp add: length_pad_section)
qed

lemma snapshot_load_encode:
  assumes plat: "platform_ok blake3 cast addr" and fits: "input_fits si"
    and size: "length (snap_file crc blake3 si) < 2 ^ 64"
    and valid: "validate_structure (si_params si) (length (si_slots si)) (si_keys si) (si_slots si)
      (si_graph si) = Inr ()"
  shows "\<exists>ls. snapshot_load crc blake3 cast addr path (snap_file crc blake3 si) (si_partition_id si)
    = Inr ls \<and> loads_as si ls \<and> ls_path ls = path \<and>
    load_f32 cast addr (snap_file crc blake3 si) (table_entries blake3 512 (snap_sections si))
      (length (si_slots si)) (si_dims si) = Inr (ls_vectors ls)"
proof -
  let ?file = "snap_file crc blake3 si"
  let ?entries = "table_entries blake3 512 (snap_sections si)"
  have dig: "\<forall>b. length (blake3 b) = 32" using plat by (simp add: platform_ok_def)
  note tab = snap_table [OF fits dig size]
  note sec = lookup_sections [OF tab(2)]
  obtain v where v: "load_f32 cast addr ?file ?entries (length (si_slots si)) (si_dims si) = Inr v"
    "flat_wf v" "flat_rows v = flat_rows (si_vectors si)" "fv_dims v = si_dims si"
    "flat_len v = length (si_slots si)" "fv_tail v = []"
    using load_f32_ok [OF plat fits tab(2)] by blast
  have keys: "decode_keys (length (si_keys si)) (encode_keys (si_keys si)) = Inr (si_keys si)"
    using fits by (intro decode_encode_keys) (auto simp: input_fits_def)
  have slots: "decode_slots (length (si_slots si)) (encode_payloads (si_slots si))
      (encode_slots 0 (si_slots si)) = Inr (si_slots si)"
    using fits encode_payloads_small [OF size]
    by (intro decode_encode_slots) (auto simp: input_fits_def)
  have i8: "decode_i8 (length (si_slots si)) (si_dims si) (encode_i8 (si_quantized si)) =
      Inr (si_quantized si)"
    using fits decode_encode_i8 [of "si_quantized si"] by (simp add: input_fits_def)
  have graph: "decode_graph (length (si_slots si))
      (encode_graph (si_params si) (length (si_slots si)) (si_graph si)) =
      Inr (si_params si, si_graph si)"
    using fits by (intro decode_encode_graph) (simp add: input_fits_def)
  have idem: "decode_idempotency (length (si_idempotency si))
      (encode_idempotency (si_idempotency si)) = Inr (si_idempotency si)"
    using fits by (intro decode_encode_idempotency) (simp add: input_fits_def)
  have foot: "blake3 (take (length ?file - FOOTER_LEN) ?file) = drop (length ?file - FOOTER_LEN) ?file"
    using dig by (simp add: snap_file_def Let_def FOOTER_LEN_def)
  show ?thesis
    using v keys slots i8 graph idem valid foot tab(1,3) sec
    by (simp add: snapshot_load_def header_of_def Let_def loads_as_def)
qed

text \<open>Mapping the rows of a file just written gives the rows that loading it gives.\<close>

lemma map_vectors_load:
  assumes plat: "platform_ok blake3 cast addr" and fits: "input_fits si"
    and size: "length (snap_file crc blake3 si) < 2 ^ 64"
  shows "map_vectors crc blake3 cast addr (snap_file crc blake3 si) (si_partition_id si)
      (si_dims si) (length (si_slots si)) =
    load_f32 cast addr (snap_file crc blake3 si) (table_entries blake3 512 (snap_sections si))
      (length (si_slots si)) (si_dims si)"
proof -
  let ?file = "snap_file crc blake3 si" and ?v = "si_vectors si"
  have dig: "\<forall>b. length (blake3 b) = 32" using plat by (simp add: platform_ok_def)
  note tab = snap_table [OF fits dig size]
  obtain e where e: "find_section SECTION_VECTORS_F32 (table_entries blake3 512 (snap_sections si)) = Inr e"
    "entry_for blake3 ?file e (SECTION_VECTORS_F32, encode_f32 ?v)"
    using lookup_sections(8) [OF tab(2)] by blast
  with tab(1,3) show ?thesis
    by (auto simp: map_vectors_def load_f32_def header_of_def Let_def entry_for_def)
qed

end
