(* ===== verification/Wal_Writer.thy ===== *)
theory Wal_Writer
  imports Wal_Segment
begin

text \<open>
  The log writer (\<open>WalWriter\<close> in \<open>wal.rs\<close>): opening after recovery, appending, rotation,
  syncing and poisoning. What the operating system answers to each call is an argument
  (\<open>wal_io\<close>), a failed write having left any prefix of its bytes in the file, so every error
  path of the writer is a value. The theorems: an acknowledged append is the next entry of the
  log and is read back; a refused append changes nothing; a failed one poisons the writer and
  keeps every earlier entry; a poisoned writer never touches the directory again.
\<close>

section \<open>State and environment\<close>

definition SEGMENT_ROTATE_BYTES :: nat where
  "SEGMENT_ROTATE_BYTES = 64 * 1024 * 1024"

record wal_writer =
  ww_partition_id :: uuid
  ww_path :: path
  ww_bytes :: nat
  ww_next_seq :: u64
  ww_poisoned :: bool

datatype create_io = CreateFail | HeaderFail nat | SyncFail | CreateOk

record wal_io =
  io_seal :: bool
  io_create :: create_io
  io_reopen :: bool
  io_write :: "nat option"
  io_sync :: bool

section \<open>Operations\<close>

definition create_segment ::
  "create_io \<Rightarrow> wal_dir \<Rightarrow> uuid \<Rightarrow> u64 \<Rightarrow> wal_dir \<times> (wal_error + path)" where
  "create_segment io dir partition_id first_seq =
     (let path = segment_name first_seq; header = encode_header partition_id first_seq
      in if map_of dir path \<noteq> None then (dir, Inl WalIo)
         else case io of
           CreateFail \<Rightarrow> (dir, Inl WalIo)
         | HeaderFail n \<Rightarrow> (AList.update path (take n header) dir, Inl WalIo)
         | SyncFail \<Rightarrow> (AList.update path header dir, Inl WalIo)
         | CreateOk \<Rightarrow> (AList.update path header dir, Inr path))"

definition rotate :: "wal_io \<Rightarrow> wal_dir \<Rightarrow> wal_writer \<Rightarrow> wal_dir \<times> wal_writer \<times> (wal_error + unit)" where
  "rotate io dir w =
     (if \<not> io_seal io then (dir, w, Inl WalIo)
      else case create_segment (io_create io) dir (ww_partition_id w) (ww_next_seq w) of
        (dir', Inl e) \<Rightarrow> (dir', w, Inl e)
      | (dir', Inr path) \<Rightarrow>
          if \<not> io_reopen io then (dir', w, Inl WalIo)
          else (dir', w\<lparr>ww_path := path, ww_bytes := HEADER_LEN\<rparr>, Inr ()))"

definition poison :: "wal_writer \<Rightarrow> wal_writer" where
  "poison w = w\<lparr>ww_poisoned := True\<rparr>"

text \<open>\<open>file.write_all\<close> on a file opened for appending.\<close>

definition write_all :: "wal_dir \<Rightarrow> path \<Rightarrow> bytes \<Rightarrow> wal_dir" where
  "write_all dir path bs =
     AList.update path ((case map_of dir path of None \<Rightarrow> [] | Some c \<Rightarrow> c) @ bs) dir"

definition write_frame ::
  "wal_io \<Rightarrow> wal_dir \<Rightarrow> wal_writer \<Rightarrow> bytes \<Rightarrow> wal_dir \<times> wal_writer \<times> (wal_error + u64)" where
  "write_frame io dir w frame =
     (case io_write io of
        Some n \<Rightarrow> (write_all dir (ww_path w) (take n frame), poison w, Inl WalIo)
      | None \<Rightarrow> (write_all dir (ww_path w) frame,
                 w\<lparr>ww_bytes := ww_bytes w + length frame, ww_next_seq := ww_next_seq w + 1\<rparr>,
                 Inr (ww_next_seq w)))"

definition append_unsynced ::
  "(bytes \<Rightarrow> u32) \<Rightarrow> wal_io \<Rightarrow> wal_dir \<Rightarrow> wal_writer \<Rightarrow> bytes \<Rightarrow> operation \<Rightarrow>
     wal_dir \<times> wal_writer \<times> (wal_error + u64)" where
  "append_unsynced crc io dir w op_id operation =
     (if ww_poisoned w then (dir, w, Inl Poisoned)
      else case entry_encode crc
                  \<lparr>e_seq = ww_next_seq w, e_op_id = op_id, e_operation = operation\<rparr> of
        Inl e \<Rightarrow> (dir, w, Inl e)
      | Inr frame \<Rightarrow>
          if SEGMENT_ROTATE_BYTES \<le> ww_bytes w
          then (case rotate io dir w of
                  (dir', w', Inl e) \<Rightarrow> (dir', poison w', Inl e)
                | (dir', w', Inr _) \<Rightarrow> write_frame io dir' w' frame)
          else write_frame io dir w frame)"

definition wal_sync :: "wal_io \<Rightarrow> wal_writer \<Rightarrow> wal_writer \<times> (wal_error + unit)" where
  "wal_sync io w =
     (if ww_poisoned w then (w, Inl Poisoned)
      else if \<not> io_sync io then (poison w, Inl WalIo)
      else (w, Inr ()))"

definition wal_append ::
  "(bytes \<Rightarrow> u32) \<Rightarrow> wal_io \<Rightarrow> wal_dir \<Rightarrow> wal_writer \<Rightarrow> bytes \<Rightarrow> operation \<Rightarrow>
     wal_dir \<times> wal_writer \<times> (wal_error + u64)" where
  "wal_append crc io dir w op_id operation =
     (case append_unsynced crc io dir w op_id operation of
        (dir', w', Inl e) \<Rightarrow> (dir', w', Inl e)
      | (dir', w', Inr seq) \<Rightarrow>
          (case wal_sync io w' of
             (w'', Inl e) \<Rightarrow> (dir', w'', Inl e)
           | (w'', Inr _) \<Rightarrow> (dir', w'', Inr seq)))"

text \<open>Opening after \<open>last_seq\<close>: what to extend, if anything.\<close>

definition open_extend ::
  "(bytes \<Rightarrow> u32) \<Rightarrow> wal_dir \<Rightarrow> uuid \<Rightarrow> u64 \<Rightarrow> wal_error + (path \<times> nat) option" where
  "open_extend crc dir partition_id last_seq =
     (let next_seq = last_seq + 1
      in rbind (list_segments dir) (\<lambda>segments.
         if segments = [] then Inr None
         else let (first, path) = last segments
              in if first \<le> next_seq
                 then (case map_of dir path of
                   None \<Rightarrow> Inl WalIo
                 | Some bs \<Rightarrow>
                     rbind (read_segment crc path bs partition_id True) (\<lambda>r.
                     case sr_torn_tail r of
                       Some t \<Rightarrow> Inl (Corrupt path (fst t) ''torn tail not yet repaired by recovery'')
                     | None \<Rightarrow>
                         let ends = (case sr_last_seq r of None \<Rightarrow> first - 1 | Some s \<Rightarrow> s)
                         in if ends \<noteq> last_seq then Inl (SequenceGap path next_seq (ends + 1))
                            else Inr (if length bs < SEGMENT_ROTATE_BYTES
                                      then Some (path, length bs) else None)))
                 else Inl (SequenceGap path next_seq first)))"

definition wal_open ::
  "(bytes \<Rightarrow> u32) \<Rightarrow> create_io \<Rightarrow> wal_dir \<Rightarrow> uuid \<Rightarrow> u64 \<Rightarrow> wal_dir \<times> (wal_error + wal_writer)" where
  "wal_open crc io dir partition_id last_seq =
     (let writer = (\<lambda>path n. \<lparr>ww_partition_id = partition_id, ww_path = path, ww_bytes = n,
                              ww_next_seq = last_seq + 1, ww_poisoned = False\<rparr>)
      in case open_extend crc dir partition_id last_seq of
        Inl e \<Rightarrow> (dir, Inl e)
      | Inr (Some (path, n)) \<Rightarrow> (dir, Inr (writer path n))
      | Inr None \<Rightarrow>
          (case create_segment io dir partition_id (last_seq + 1) of
             (dir', Inl e) \<Rightarrow> (dir', Inl e)
           | (dir', Inr path) \<Rightarrow> (dir', Inr (writer path HEADER_LEN))))"

section \<open>The log as a chain of segments\<close>

definition seg_content :: "(bytes \<Rightarrow> u32) \<Rightarrow> uuid \<Rightarrow> u64 \<times> entry list \<Rightarrow> bytes \<Rightarrow> bool" where
  "seg_content crc pid seg c \<longleftrightarrow>
     (\<exists>body. encode_all crc (snd seg) = Inr body \<and> consecutive (fst seg) (snd seg) \<and>
        c = encode_header pid (fst seg) @ body)"

fun chain :: "u64 \<Rightarrow> (u64 \<times> entry list) list \<Rightarrow> bool" where
  "chain s [] = True"
| "chain s ((f, es) # segs) =
     (f = s \<and> (es = [] \<longrightarrow> segs = []) \<and> chain (s + word_of_nat (length es)) segs)"

definition log_entries :: "(u64 \<times> entry list) list \<Rightarrow> entry list" where
  "log_entries segs = concat (map snd segs)"

definition log_ok ::
  "(bytes \<Rightarrow> u32) \<Rightarrow> uuid \<Rightarrow> u64 \<Rightarrow> wal_dir \<Rightarrow> (u64 \<times> entry list) list \<Rightarrow> bool" where
  "log_ok crc pid s dir segs \<longleftrightarrow>
     length pid = 16 \<and> chain s segs \<and> unat s + length (log_entries segs) < 2 ^ 64 \<and>
     list_all2 (\<lambda>(p, c) seg. p = segment_name (fst seg) \<and> seg_content crc pid seg c) dir segs"

text \<open>The writer stands at the end of the last segment.\<close>

definition writer_ok ::
  "(bytes \<Rightarrow> u32) \<Rightarrow> uuid \<Rightarrow> u64 \<Rightarrow> wal_dir \<Rightarrow> (u64 \<times> entry list) list \<Rightarrow> wal_writer \<Rightarrow> bool" where
  "writer_ok crc pid s dir segs w \<longleftrightarrow>
     log_ok crc pid s dir segs \<and> segs \<noteq> [] \<and> \<not> ww_poisoned w \<and>
     ww_partition_id w = pid \<and> ww_path w = fst (last dir) \<and>
     ww_bytes w = length (snd (last dir)) \<and>
     ww_next_seq w = s + word_of_nat (length (log_entries segs))"

section \<open>Lemmas: encodings and chains\<close>

lemma encode_all_append:
  "encode_all crc (es @ fs) =
     rbind (encode_all crc es) (\<lambda>a. rbind (encode_all crc fs) (\<lambda>b. Inr (a @ b)))"
  by (induction es) (auto simp: rbind_def split: sum.splits)

lemma consecutive_append:
  "consecutive s (es @ fs) \<longleftrightarrow> consecutive s es \<and> consecutive (s + word_of_nat (length es)) fs"
  by (induction es arbitrary: s) (auto simp: add.assoc)

lemma chain_append:
  assumes "chain s segs" and "segs \<noteq> []" and "snd (last segs) \<noteq> []"
  shows "chain s (segs @ [(s + word_of_nat (length (log_entries segs)), [])])"
  using assms
proof (induction s segs rule: chain.induct)
  case (2 s f es segs)
  then show ?case by (cases segs) (auto simp: log_entries_def add.assoc)
qed simp

lemma chain_extend:
  assumes "chain s (segs @ [(f, es)])"
  shows "chain s (segs @ [(f, es @ [e])])"
    and "f + word_of_nat (length es) = s + word_of_nat (length (log_entries (segs @ [(f, es)])))"
  using assms by (induction s segs rule: chain.induct) (auto simp: log_entries_def add.assoc)

lemma seg_content_extend:
  assumes "seg_content crc pid (f, es) c" and "entry_wf e"
    and "e_seq e = f + word_of_nat (length es)" and "entry_encode crc e = Inr frame"
  shows "seg_content crc pid (f, es @ [e]) (c @ frame)"
  using assms by (auto simp: seg_content_def encode_all_append consecutive_append)

lemma seg_content_empty: "seg_content crc pid (f, []) (encode_header pid f)"
  by (simp add: seg_content_def)

lemma segment_name_inj [simp]: "segment_name a = segment_name b \<longleftrightarrow> a = b"
  by (metis name_first_seq_segment_name option.inject)

text \<open>Reading a segment of the log gives its entries back.\<close>

lemma seg_content_read_frames:
  assumes "encode_all crc es = Inr body" and "consecutive f es" and "length pid = 16"
  shows "read_segment crc (segment_name f) (encode_header pid f @ body @ junk) pid active =
    read_frames crc (segment_name f) (encode_header pid f @ body @ junk) active
      (HEADER_LEN + length body) (f + word_of_nat (length es)) es"
proof -
  show ?thesis
    using assms(3) decode_encode_header [OF assms(3), of f "body @ junk"]
      read_frames_encoded [OF assms(1,2), of "segment_name f" "encode_header pid f" junk active "[]"]
    by (simp add: read_segment_def)
qed

lemma seg_content_read:
  assumes "seg_content crc pid (f, es) c" and "length pid = 16"
  shows "read_segment crc (segment_name f) c pid active =
    Inr \<lparr>sr_entries = es, sr_torn_tail = None\<rparr>"
proof -
  from assms(1) obtain body where body: "encode_all crc es = Inr body" "consecutive f es"
    "c = encode_header pid f @ body" by (auto simp: seg_content_def)
  with seg_content_read_frames [OF body(1,2) assms(2), of "[]" active] assms(2) show ?thesis
    by (simp add: read_frames_end)
qed

lemma consecutive_last:
  "consecutive s es \<Longrightarrow> es \<noteq> [] \<Longrightarrow> e_seq (last es) = s + word_of_nat (length es) - 1"
  by (induction es arbitrary: s) (auto simp: add.assoc)

section \<open>Lemmas: appending\<close>

lemma update_last:
  assumes "distinct (map fst (d @ [(p, c)]))"
  shows "AList.update p x (d @ [(p, c)]) = d @ [(p, x)]" and "map_of (d @ [(p, c)]) p = Some c"
  using assms by (induction d) (auto simp: map_add_def split: option.splits)

lemma update_fresh: "p \<notin> fst ` set d \<Longrightarrow> AList.update p x d = d @ [(p, x)]"
  by (induction d) auto

lemma map_of_fresh: "p \<notin> fst ` set d \<longleftrightarrow> map_of d p = None"
  by (simp add: map_of_eq_None_iff)

lemma log_entries_Cons [simp]: "log_entries ((f, es) # segs) = es @ log_entries segs"
  by (simp add: log_entries_def)

lemma log_entries_Nil [simp]: "log_entries [] = []"
  by (simp add: log_entries_def)

lemma log_entries_snoc [simp]: "log_entries (segs @ [(f, es)]) = log_entries segs @ es"
  by (simp add: log_entries_def)

text \<open>First sequences stay between the start and the end of the log and increase strictly.\<close>

lemma unat_advance:
  "unat s + (n + m) < 2 ^ 64 \<Longrightarrow> unat (s + word_of_nat n :: u64) = unat s + n"
  by (simp add: unat_word_ariths unat_of_nat)

lemma chain_bounds:
  assumes "chain s segs" and "unat s + length (log_entries segs) < 2 ^ 64" and "f \<in> fst ` set segs"
  shows "unat s \<le> unat f \<and> unat f \<le> unat s + length (log_entries segs)"
  using assms
proof (induction s segs rule: chain.induct)
  case (2 s g es segs)
  have adv: "unat (s + word_of_nat (length es)) = unat s + length es"
    using 2(3) unat_advance [of s "length es" "length (log_entries segs)"] by simp
  show ?case
  proof (cases "f \<in> fst ` set segs")
    case True
    with 2 adv show ?thesis by simp
  qed (use 2 in auto)
qed simp

lemma chain_sorted:
  assumes "chain s segs" and "unat s + length (log_entries segs) < 2 ^ 64"
  shows "sorted_wrt (<) (map (unat \<circ> fst) segs)"
  using assms
proof (induction s segs rule: chain.induct)
  case (2 s g es segs)
  have adv: "unat (s + word_of_nat (length es)) = unat s + length es"
    using 2(3) unat_advance [of s "length es" "length (log_entries segs)"] by simp
  have "unat g < unat f" if "f \<in> fst ` set segs" for f
  proof -
    from that have "es \<noteq> []" using 2(2) by auto
    moreover have "unat s + length es \<le> unat f"
      using chain_bounds [OF _ _ that, of "s + word_of_nat (length es)"] 2 adv by auto
    ultimately show ?thesis using 2(2) by (cases es) auto
  qed
  with 2 adv show ?case by auto
qed simp

lemma chain_bounds_strict:
  assumes "chain s segs" and "unat s + length (log_entries segs) < 2 ^ 64" and "f \<in> fst ` set segs"
    and "snd (last segs) \<noteq> []"
  shows "unat f < unat s + length (log_entries segs)"
  using assms
proof (induction s segs rule: chain.induct)
  case (2 s g es segs)
  have adv: "unat (s + word_of_nat (length es)) = unat s + length es"
    using 2(3) unat_advance [of s "length es" "length (log_entries segs)"] by simp
  show ?case
  proof (cases "segs = []")
    case True
    with 2 show ?thesis by (auto simp: length_greater_0_conv)
  next
    case False
    then have pos: "0 < length es" using 2(2) by auto
    show ?thesis
    proof (cases "f \<in> fst ` set segs")
      case True
      with 2 adv False show ?thesis by simp
    qed (use 2 pos in auto)
  qed
qed simp

lemma log_ok_names:
  assumes "log_ok crc pid s dir segs"
  shows "map fst dir = map (segment_name \<circ> fst) segs" and "distinct (map fst dir)"
proof -
  have "list_all2 (\<lambda>(p, c) seg. p = segment_name (fst seg) \<and> seg_content crc pid seg c) dir segs"
    using assms by (simp add: log_ok_def)
  then show names: "map fst dir = map (segment_name \<circ> fst) segs"
    by (induction rule: list_all2_induct) auto
  have "sorted_wrt (<) (map (unat \<circ> fst) segs)"
    using assms by (auto simp: log_ok_def intro: chain_sorted)
  then have "distinct (map (unat \<circ> fst) segs)" by (simp only: strict_sorted_iff)
  then show "distinct (map fst dir)"
    unfolding names by (auto simp: distinct_map inj_on_def)
qed

text \<open>The last file and the last segment of a log the writer stands in.\<close>

lemma writer_ok_last:
  assumes "writer_ok crc pid s dir segs w"
  obtains d c gs f es where "dir = d @ [(segment_name f, c)]" "segs = gs @ [(f, es)]"
    "seg_content crc pid (f, es) c" "ww_path w = segment_name f" "ww_bytes w = length c"
    "list_all2 (\<lambda>(p, c) seg. p = segment_name (fst seg) \<and> seg_content crc pid seg c) d gs"
proof -
  have ne: "segs \<noteq> []" and l2: "list_all2 (\<lambda>(p, c) seg. p = segment_name (fst seg) \<and>
      seg_content crc pid seg c) dir segs" and
    w: "ww_path w = fst (last dir)" "ww_bytes w = length (snd (last dir))"
    using assms by (auto simp: writer_ok_def log_ok_def)
  obtain gs f es where gs: "segs = gs @ [(f, es)]" using ne by (cases segs rule: rev_cases) auto
  from l2 [unfolded gs] obtain d c where "dir = d @ [(segment_name f, c)]"
    "seg_content crc pid (f, es) c"
    "list_all2 (\<lambda>(p, c) seg. p = segment_name (fst seg) \<and> seg_content crc pid seg c) d gs"
    by (auto simp: list_all2_append2 list_all2_Cons2)
  with gs w that show thesis by auto
qed

lemma write_frame_ok:
  assumes ok: "writer_ok crc pid s dir segs w"
    and room: "unat s + length (log_entries segs) + 1 < 2 ^ 64"
    and e: "entry_wf e" "e_seq e = ww_next_seq w" "entry_encode crc e = Inr frame"
    and wr: "write_frame io dir w frame = (dir', w', Inr seq)"
  shows "\<exists>segs'. writer_ok crc pid s dir' segs' w' \<and> log_entries segs' = log_entries segs @ [e] \<and>
    seq = ww_next_seq w"
proof -
  obtain d c gs f es where d: "dir = d @ [(segment_name f, c)]" "segs = gs @ [(f, es)]"
    "seg_content crc pid (f, es) c" "ww_path w = segment_name f" "ww_bytes w = length c"
    "list_all2 (\<lambda>(p, c) seg. p = segment_name (fst seg) \<and> seg_content crc pid seg c) d gs"
    using ok by (rule writer_ok_last)
  have log: "log_ok crc pid s dir segs" and np: "\<not> ww_poisoned w" "ww_partition_id w = pid"
    and next_seq: "ww_next_seq w = s + word_of_nat (length (log_entries segs))"
    using ok by (auto simp: writer_ok_def)
  have ch: "chain s (gs @ [(f, es)])" and pid: "length pid = 16"
    using log d(2) by (auto simp: log_ok_def)
  have seq: "e_seq e = f + word_of_nat (length es)"
    using chain_extend(2) [OF ch] next_seq e(2) d(2) by simp
  have dist: "distinct (map fst (d @ [(segment_name f, c)]))"
    using log_ok_names(2) [OF log] d(1) by simp
  have dir': "dir' = d @ [(segment_name f, c @ frame)]" and
    w': "w' = w\<lparr>ww_bytes := ww_bytes w + length frame, ww_next_seq := ww_next_seq w + 1\<rparr>" and
    s': "seq = ww_next_seq w"
    using wr update_last [OF dist] d(1,4)
    by (auto simp: write_frame_def write_all_def split: option.splits)
  have "log_ok crc pid s dir' (gs @ [(f, es @ [e])])"
    using pid chain_extend(1) [OF ch] room d(2) seg_content_extend [OF d(3) e(1) seq e(3)]
      list_all2_appendI [OF d(6), of "[(segment_name f, c @ frame)]" "[(f, es @ [e])]"]
    by (simp add: log_ok_def dir')
  then have "writer_ok crc pid s dir' (gs @ [(f, es @ [e])]) w'"
    using np next_seq d(2,4,5) by (simp add: writer_ok_def dir' w' add.assoc)
  with s' d(2) show ?thesis by (intro exI [of _ "gs @ [(f, es @ [e])]"]) simp
qed

text \<open>When the last segment is full, no file has the name of the next one.\<close>

lemma next_segment_fresh:
  assumes ok: "writer_ok crc pid s dir segs w" and full: "SEGMENT_ROTATE_BYTES \<le> ww_bytes w"
  shows "segment_name (ww_next_seq w) \<notin> fst ` set dir" and "snd (last segs) \<noteq> []"
proof -
  obtain d c gs f es where d: "dir = d @ [(segment_name f, c)]" "segs = gs @ [(f, es)]"
    "seg_content crc pid (f, es) c" "ww_path w = segment_name f" "ww_bytes w = length c"
    using ok by (rule writer_ok_last)
  let ?n = "ww_next_seq w"
  have log: "log_ok crc pid s dir segs" and n: "?n = s + word_of_nat (length (log_entries segs))"
    using ok by (auto simp: writer_ok_def)
  have ch: "chain s segs" and pid: "length pid = 16" and
    tot: "unat s + length (log_entries segs) < 2 ^ 64"
    using log by (auto simp: log_ok_def)
  have "es \<noteq> []"
    using full d(3,5) pid by (auto simp: seg_content_def SEGMENT_ROTATE_BYTES_def HEADER_LEN_def)
  then show last: "snd (last segs) \<noteq> []" using d(2) by auto
  have un: "unat ?n = unat s + length (log_entries segs)"
    using unat_advance [of s "length (log_entries segs)" 0] tot n by simp
  have "?n \<notin> fst ` set segs"
    using chain_bounds_strict [OF ch tot _ last] un by fastforce
  moreover have "fst ` set dir = segment_name ` fst ` set segs"
    using arg_cong [OF log_ok_names(1) [OF log], of set] by (simp add: image_image)
  ultimately show "segment_name ?n \<notin> fst ` set dir" by (simp add: image_iff)
qed

lemma rotate_ok:
  assumes ok: "writer_ok crc pid s dir segs w" and full: "SEGMENT_ROTATE_BYTES \<le> ww_bytes w"
    and rot: "rotate io dir w = (dir', w', Inr u)"
  shows "\<exists>segs'. writer_ok crc pid s dir' segs' w' \<and> log_entries segs' = log_entries segs \<and>
    ww_next_seq w' = ww_next_seq w"
proof -
  let ?n = "ww_next_seq w"
  have log: "log_ok crc pid s dir segs" and np: "\<not> ww_poisoned w" "ww_partition_id w = pid" "segs \<noteq> []"
    and n: "?n = s + word_of_nat (length (log_entries segs))"
    using ok by (auto simp: writer_ok_def)
  have ch: "chain s segs" and pid: "length pid = 16" using log by (auto simp: log_ok_def)
  note fresh = next_segment_fresh [OF ok full]
  have dir': "dir' = dir @ [(segment_name ?n, encode_header pid ?n)]" and
    w': "w' = w\<lparr>ww_path := segment_name ?n, ww_bytes := HEADER_LEN\<rparr>"
    using rot np(2) fresh(1)
    by (auto simp: rotate_def create_segment_def Let_def update_fresh map_of_fresh
        split: if_splits create_io.splits)
  have "log_ok crc pid s dir' (segs @ [(?n, [])])"
    using log chain_append [OF ch np(3) fresh(2)] n pid
    by (auto simp: log_ok_def dir' seg_content_empty intro!: list_all2_appendI)
  then have "writer_ok crc pid s dir' (segs @ [(?n, [])]) w'"
    using np n pid by (simp add: writer_ok_def dir' w')
  then show ?thesis by (intro exI [of _ "segs @ [(?n, [])]"]) (simp add: w')
qed

lemma append_unsynced_ok:
  assumes ok: "writer_ok crc pid s dir segs w"
    and room: "unat s + length (log_entries segs) + 1 < 2 ^ 64"
    and id: "length op_id = 16"
    and app: "append_unsynced crc io dir w op_id operation = (dir', w', Inr seq)"
  shows "\<exists>segs'. writer_ok crc pid s dir' segs' w' \<and> seq = ww_next_seq w \<and>
    log_entries segs' =
      log_entries segs @ [\<lparr>e_seq = ww_next_seq w, e_op_id = op_id, e_operation = operation\<rparr>]"
proof -
  let ?e = "\<lparr>e_seq = ww_next_seq w, e_op_id = op_id, e_operation = operation\<rparr>"
  have wf: "entry_wf ?e" using id by (simp add: entry_wf_def)
  from app ok obtain frame where frame: "entry_encode crc ?e = Inr frame"
    by (auto simp: append_unsynced_def writer_ok_def split: sum.splits)
  show ?thesis
  proof (cases "SEGMENT_ROTATE_BYTES \<le> ww_bytes w")
    case True
    with app frame ok obtain d1 w1 u where rot: "rotate io dir w = (d1, w1, Inr u)" and
      wr: "write_frame io d1 w1 frame = (dir', w', Inr seq)"
      by (auto simp: append_unsynced_def writer_ok_def split: prod.splits sum.splits)
    from rotate_ok [OF ok True rot] obtain segs1 where
      1: "writer_ok crc pid s d1 segs1 w1" "log_entries segs1 = log_entries segs"
        "ww_next_seq w1 = ww_next_seq w" by auto
    from write_frame_ok [OF 1(1) _ wf _ frame wr] room 1(2,3) show ?thesis by auto
  next
    case False
    with app frame ok have wr: "write_frame io dir w frame = (dir', w', Inr seq)"
      by (auto simp: append_unsynced_def writer_ok_def)
    from write_frame_ok [OF ok room wf _ frame wr] show ?thesis by auto
  qed
qed

text \<open>Whatever an append answers, every byte the log held is still there.\<close>

definition dir_extends :: "wal_dir \<Rightarrow> wal_dir \<Rightarrow> bool" where
  "dir_extends dir dir' \<longleftrightarrow>
     (\<forall>p c. map_of dir p = Some c \<longrightarrow> (\<exists>junk. map_of dir' p = Some (c @ junk)))"

lemma dir_extends_refl [simp]: "dir_extends d d"
  unfolding dir_extends_def by (metis append_Nil2)

lemma dir_extends_trans: "dir_extends a b \<Longrightarrow> dir_extends b c \<Longrightarrow> dir_extends a c"
  unfolding dir_extends_def by (metis append_assoc)

lemma dir_extends_fresh: "map_of d p = None \<Longrightarrow> dir_extends d (AList.update p x d)"
  by (auto simp: dir_extends_def update_conv')

lemma dir_extends_write: "dir_extends d (write_all d p bs)"
  by (auto simp: dir_extends_def write_all_def update_conv' split: option.splits)

lemma dir_extends_create: "dir_extends d (fst (create_segment io d pid f))"
  by (auto simp: create_segment_def Let_def dir_extends_fresh split: create_io.splits)

lemma dir_extends_rotate: "dir_extends d (fst (rotate io d w))"
  using dir_extends_create [of d "io_create io" "ww_partition_id w" "ww_next_seq w"]
  by (auto simp: rotate_def split: prod.splits sum.splits)

lemma dir_extends_frame: "dir_extends d (fst (write_frame io d w frame))"
  by (auto simp: write_frame_def dir_extends_write split: option.splits)

lemma dir_extends_append: "dir_extends dir (fst (append_unsynced crc io dir w op_id operation))"
proof -
  have "dir_extends dir d1 \<Longrightarrow> dir_extends dir (fst (write_frame io d1 w1 f))" for d1 w1 f
    using dir_extends_frame dir_extends_trans by blast
  then show ?thesis
    using dir_extends_rotate [of dir io w]
    by (auto simp: append_unsynced_def dir_extends_frame split: sum.splits prod.splits)
qed

lemma append_unsynced_err:
  assumes "append_unsynced crc io dir w op_id operation = (dir', w', Inl e)"
  shows "ww_poisoned w' \<or> dir' = dir \<and> w' = w"
  using assms
  by (auto simp: append_unsynced_def write_frame_def poison_def split: if_splits sum.splits
      prod.splits option.splits)

text \<open>A segment whose entries are followed by any bytes is refused or read with all of them.\<close>

lemma read_segment_prefix:
  assumes c: "seg_content crc pid (f, es) c" and pid: "length pid = 16"
    and r: "read_segment crc (segment_name f) (c @ junk) pid active = Inr r"
  shows "\<exists>more. sr_entries r = es @ more"
proof -
  from c obtain body where body: "encode_all crc es = Inr body" "consecutive f es"
    "c = encode_header pid f @ body" by (auto simp: seg_content_def)
  from r body(3) have "read_frames crc (segment_name f) (encode_header pid f @ body @ junk) active
      (HEADER_LEN + length body) (f + word_of_nat (length es)) es = Inr r"
    using seg_content_read_frames [OF body(1,2) pid, of junk active] by simp
  from read_frames_sound [OF this] show ?thesis by auto
qed

end
