(* ===== verification/Partition_State.thy ===== *)
theory Partition_State
  imports Idempotency Snapshot_File Wal_Writer
begin

text \<open>
  The state of a partition (\<open>partition.rs\<close>): configuration and its validation, the in-memory
  state, and \<open>apply\<close>, the transition shared by the live path and by replay. The abstract
  specification of a partition is a finite map from keys to a vector and a payload; \<open>apply\<close>
  implements the update of that map and keeps the invariant that ties keys, slots, tombstones and
  the graph together.
\<close>

section \<open>Configuration\<close>

datatype failpoint =
    AfterWalAppend | AfterWalSync | AfterApply | SnapshotBeforeRename | SnapshotAfterRename
  | CompactionBeforeSwap

datatype partition_error =
    AlreadyExists path
  | Locked path
  | QueryLimit string nat nat
  | BaseSnapshotUnavailable nat
  | Manifest string
  | ZeroVector
  | Injected failpoint
  | OverBudget nat nat nat nat nat
  | MissingHistory u64 "u64 option"
  | VectorErr vector_error
  | WalErr wal_error
  | SnapErr snapshot_error
  | JsonErr
  | PartIo

record partition_config =
  cfg_id :: uuid
  cfg_dims :: nat
  cfg_metric :: string
  cfg_m :: nat
  cfg_m0 :: nat
  cfg_ef_construction :: nat
  cfg_seed :: u64
  cfg_idempotency_window :: nat
  cfg_ram_budget :: "nat option"
  cfg_headroom :: f64
  cfg_compaction_ratio :: f64
  cfg_ef_search :: "nat option"
  cfg_base_snapshot :: bool

definition DEFAULT_IDEMPOTENCY_WINDOW :: nat where "DEFAULT_IDEMPOTENCY_WINDOW = 1000000"
definition MAX_K :: nat where "MAX_K = 10000"
definition MAX_EF :: nat where "MAX_EF = 100000"

definition config_new :: "uuid \<Rightarrow> nat \<Rightarrow> metric \<Rightarrow> hnsw_params \<Rightarrow> partition_config" where
  "config_new uid dims metric params =
     \<lparr>cfg_id = uid, cfg_dims = dims, cfg_metric = metric_as_str metric, cfg_m = hp_m params,
      cfg_m0 = hp_m0 params, cfg_ef_construction = hp_ef_construction params,
      cfg_seed = hp_seed params, cfg_idempotency_window = DEFAULT_IDEMPOTENCY_WINDOW,
      cfg_ram_budget = None, cfg_headroom = f64_0_35, cfg_compaction_ratio = f64_0_2,
      cfg_ef_search = None, cfg_base_snapshot = False\<rparr>"

definition config_for_metric :: "uuid \<Rightarrow> nat \<Rightarrow> metric \<Rightarrow> partition_config" where
  "config_for_metric uid dims metric =
     config_new uid dims metric ((for_metric metric)\<lparr>hp_seed := u64_of_le (take 8 uid)\<rparr>)"

definition cfg_parse_metric :: "partition_config \<Rightarrow> partition_error + metric" where
  "cfg_parse_metric c = ok_or (Manifest ''unknown metric'') (metric_parse (cfg_metric c))"

definition cfg_ef :: "partition_config \<Rightarrow> nat" where
  "cfg_ef c =
     (case cfg_ef_search c of
        Some ef \<Rightarrow> ef
      | None \<Rightarrow> (case cfg_parse_metric c of Inr m \<Rightarrow> default_ef_search m
                                          | Inl _ \<Rightarrow> default_ef_search L2))"

definition cfg_params :: "partition_config \<Rightarrow> hnsw_params" where
  "cfg_params c = \<lparr>hp_m = cfg_m c, hp_m0 = cfg_m0 c, hp_ef_construction = cfg_ef_construction c,
     hp_seed = cfg_seed c\<rparr>"

definition cfg_validate :: "partition_config \<Rightarrow> partition_error + unit" where
  "cfg_validate c =
     rbind (cfg_parse_metric c) (\<lambda>_.
     if cfg_dims c = 0 \<or> MAX_DIMS < cfg_dims c
     then Inl (Manifest ''dims must be between 1 and 65536'')
     else if \<not> (2 \<le> cfg_m c \<and> cfg_m c \<le> 255) then Inl (Manifest ''m must be between 2 and 255'')
     else if cfg_m0 c < cfg_m c \<or> 255 < cfg_m0 c
     then Inl (Manifest ''m0 must be between m and 255'')
     else if cfg_ef_construction c = 0 \<or> MAX_EF < cfg_ef_construction c
     then Inl (Manifest ''ef_construction must be between 1 and 100000'')
     else if (case cfg_ef_search c of None \<Rightarrow> False | Some ef \<Rightarrow> ef = 0 \<or> MAX_EF < ef)
     then Inl (Manifest ''ef_search must be between 1 and 100000'')
     else if cfg_idempotency_window c = 0 then Inl (Manifest ''idempotency window must be positive'')
     else if \<not> (f64_le f64_zero (cfg_headroom c) \<and> f64_le (cfg_headroom c) f64_0_9)
     then Inl (Manifest ''headroom fraction must be between 0 and 0.9'')
     else if \<not> (f64_lt f64_zero (cfg_compaction_ratio c) \<and> f64_le (cfg_compaction_ratio c) f64_one)
     then Inl (Manifest ''compaction tombstone ratio must be in (0, 1]'')
     else Inr ())"

definition hot_bytes_per_insert :: "partition_config \<Rightarrow> nat \<Rightarrow> nat" where
  "hot_bytes_per_insert c payload_len = cfg_dims c + 8 + (54 + 8 * cfg_m c) + 80 + payload_len"

section \<open>State\<close>

record partition =
  pt_config :: partition_config
  pt_metric :: metric
  pt_index :: hnsw
  pt_key_table :: "bytes list"
  pt_keys :: "bytes \<rightharpoonup> nat \<times> nat option"
  pt_slots :: "slot_record list"
  pt_idem :: idem_window
  pt_wal :: "wal_writer option"
  pt_high_water :: u64
  pt_snapshot_high_water :: u64
  pt_failpoint :: "failpoint option"

definition slot_for_key :: "partition \<Rightarrow> bytes \<Rightarrow> nat option" where
  "slot_for_key p key = Option.bind (pt_keys p key) snd"

definition live_count :: "partition \<Rightarrow> nat" where
  "live_count p = live_len (pt_index p)"

definition hit_failpoint :: "partition \<Rightarrow> failpoint \<Rightarrow> partition_error + unit" where
  "hit_failpoint p point = (if pt_failpoint p = Some point then Inl (Injected point) else Inr ())"

text \<open>A fresh in-memory state.\<close>

definition fresh_state :: "partition_config \<Rightarrow> metric \<Rightarrow> partition" where
  "fresh_state c metric =
     \<lparr>pt_config = c, pt_metric = metric, pt_index = hnsw_new (cfg_dims c) metric (cfg_params c),
      pt_key_table = [], pt_keys = Map.empty, pt_slots = [],
      pt_idem = iw_new (cfg_idempotency_window c), pt_wal = None, pt_high_water = 0,
      pt_snapshot_high_water = 0, pt_failpoint = None\<rparr>"

section \<open>Applying an entry\<close>

text \<open>Masking the slot a key pointed to, in the graph and in its record.\<close>

definition retire :: "nat \<Rightarrow> partition \<Rightarrow> partition option" where
  "retire previous p =
     Option.bind (tombstone (pt_index p) previous) (\<lambda>(_, g).
     Option.bind (index (pt_slots p) previous) (\<lambda>r.
       Some (p\<lparr>pt_index := g,
               pt_slots := (pt_slots p)[previous := r\<lparr>rec_tombstone := True\<rparr>]\<rparr>)))"

definition apply_upsert ::
  "(f64 \<Rightarrow> f64) \<Rightarrow> partition \<Rightarrow> u64 \<Rightarrow> bytes \<Rightarrow> bytes \<Rightarrow> f32 list \<Rightarrow> (partition_error + partition) option"
  where
  "apply_upsert ln64 p seq key payload vector =
     (if length vector \<noteq> cfg_dims (pt_config p)
      then Some (Inl (VectorErr (WrongDims (cfg_dims (pt_config p)) (length vector))))
      else case hnsw_insert ln64 (pt_index p) vector of
        None \<Rightarrow> None
      | Some (Inl e) \<Rightarrow> Some (Inl (VectorErr e))
      | Some (Inr (slot, g)) \<Rightarrow>
          let known = pt_keys p key;
              p1 = p\<lparr>pt_index := g\<rparr>;
              key_index = (case known of Some (i, _) \<Rightarrow> i
                           | None \<Rightarrow> length (pt_key_table p) mod 2 ^ 32);
              p2 = (case known of Some _ \<Rightarrow> p1
                    | None \<Rightarrow> p1\<lparr>pt_key_table := pt_key_table p @ [key]\<rparr>)
          in map_option (\<lambda>p3. Inr (p3
                \<lparr>pt_keys := (pt_keys p3)(key \<mapsto> (key_index, Some slot)),
                 pt_slots := pt_slots p3 @
                   [\<lparr>rec_version = seq, rec_tombstone = False, rec_key_index = key_index,
                     rec_payload = payload\<rparr>]\<rparr>))
               (case known of Some (_, Some previous) \<Rightarrow> retire previous p2 | _ \<Rightarrow> Some p2))"

definition apply_delete :: "partition \<Rightarrow> bytes \<Rightarrow> (partition_error + partition) option" where
  "apply_delete p key =
     (case pt_keys p key of
        Some (i, Some previous) \<Rightarrow>
          map_option (\<lambda>p1. Inr (p1\<lparr>pt_keys := (pt_keys p1)(key \<mapsto> (i, None))\<rparr>)) (retire previous p)
      | _ \<Rightarrow> Some (Inr p))"

definition apply_entry ::
  "(f64 \<Rightarrow> f64) \<Rightarrow> partition \<Rightarrow> entry \<Rightarrow> (partition_error + partition) option" where
  "apply_entry ln64 p e =
     map_option (\<lambda>r. rbind r (\<lambda>p1.
         Inr (p1\<lparr>pt_idem := iw_record (pt_idem p1) (e_op_id e) (e_seq e),
                 pt_high_water := e_seq e\<rparr>)))
       (case e_operation e of
          Upsert key payload vector \<Rightarrow> apply_upsert ln64 p (e_seq e) key payload vector
        | Delete key \<Rightarrow> apply_delete p key)"

section \<open>The abstract specification\<close>

type_synonym kv_store = "bytes \<rightharpoonup> f32 list \<times> bytes"

definition spec_apply :: "metric \<Rightarrow> operation \<Rightarrow> kv_store \<Rightarrow> kv_store" where
  "spec_apply metric op m =
     (case op of
        Upsert key payload vector \<Rightarrow>
          m(key \<mapsto> (if normalizes metric then snd (normalize vector) else vector, payload))
      | Delete key \<Rightarrow> m(key := None))"

text \<open>What a partition stores under each key.\<close>

definition contents :: "partition \<Rightarrow> kv_store" where
  "contents p key =
     Option.bind (slot_for_key p key) (\<lambda>slot.
     Option.bind (flat_get (hn_vectors (pt_index p)) slot) (\<lambda>row.
     Option.bind (index (pt_slots p) slot) (\<lambda>r. Some (row, rec_payload r))))"

section \<open>The invariant\<close>

definition config_ok :: "partition \<Rightarrow> bool" where
  "config_ok p \<longleftrightarrow>
     cfg_validate (pt_config p) = Inr () \<and> metric_parse (cfg_metric (pt_config p)) = Some (pt_metric p) \<and>
     hn_dims (pt_index p) = cfg_dims (pt_config p) \<and> hn_metric (pt_index p) = pt_metric p \<and>
     hn_params (pt_index p) = cfg_params (pt_config p)"

definition slots_ok :: "nat \<Rightarrow> slot_record list \<Rightarrow> hnsw \<Rightarrow> bool" where
  "slots_ok key_count slots g \<longleftrightarrow>
     length slots = hn_len g \<and>
     (\<forall>s<length slots. rec_tombstone (slots ! s) = is_tombstoned g s \<and>
        rec_key_index (slots ! s) < key_count)"

text \<open>Keys are numbered by the table; a live slot is exactly the slot its key points to.\<close>

definition keys_ok :: "bytes list \<Rightarrow> (bytes \<rightharpoonup> nat \<times> nat option) \<Rightarrow> slot_record list \<Rightarrow> bool" where
  "keys_ok table keys slots \<longleftrightarrow>
     distinct table \<and> dom keys = set table \<and>
     (\<forall>key i live. keys key = Some (i, live) \<longrightarrow>
        i < length table \<and> table ! i = key \<and>
        (\<forall>s. live = Some s \<longrightarrow> s < length slots \<and> \<not> rec_tombstone (slots ! s) \<and>
           rec_key_index (slots ! s) = i)) \<and>
     (\<forall>s<length slots. \<not> rec_tombstone (slots ! s) \<longrightarrow>
        keys (table ! rec_key_index (slots ! s)) = Some (rec_key_index (slots ! s), Some s))"

definition part_wf :: "partition \<Rightarrow> bool" where
  "part_wf p \<longleftrightarrow>
     config_ok p \<and> hnsw_wf (pt_index p) \<and> iw_wf (pt_idem p) \<and>
     slots_ok (length (pt_key_table p)) (pt_slots p) (pt_index p) \<and>
     keys_ok (pt_key_table p) (pt_keys p) (pt_slots p)"

text \<open>The operations a partition accepts, and room for one more slot and key.\<close>

definition op_ok :: "partition \<Rightarrow> operation \<Rightarrow> bool" where
  "op_ok p op \<longleftrightarrow>
     (case op of
        Upsert _ _ vector \<Rightarrow>
          length vector = cfg_dims (pt_config p) \<and> list_all f32_is_finite vector
      | Delete _ \<Rightarrow> True)"

definition has_room :: "partition \<Rightarrow> bool" where
  "has_room p \<longleftrightarrow> length (pt_slots p) < 2 ^ 32 \<and> length (pt_key_table p) < 2 ^ 32"

text \<open>The parts of the state that only the caller of \<open>apply\<close> changes.\<close>

definition same_frame :: "partition \<Rightarrow> partition \<Rightarrow> bool" where
  "same_frame p p' \<longleftrightarrow>
     pt_config p' = pt_config p \<and> pt_metric p' = pt_metric p \<and> pt_wal p' = pt_wal p \<and>
     pt_failpoint p' = pt_failpoint p \<and> pt_snapshot_high_water p' = pt_snapshot_high_water p"

section \<open>Lemmas: keys and slots\<close>

lemma keys_okI:
  assumes "distinct table" "dom keys = set table"
    and "\<And>key i live. keys key = Some (i, live) \<Longrightarrow> i < length table \<and> table ! i = key"
    and "\<And>key i s. keys key = Some (i, Some s) \<Longrightarrow>
      s < length slots \<and> \<not> rec_tombstone (slots ! s) \<and> rec_key_index (slots ! s) = i"
    and "\<And>s. s < length slots \<Longrightarrow> \<not> rec_tombstone (slots ! s) \<Longrightarrow>
      keys (table ! rec_key_index (slots ! s)) = Some (rec_key_index (slots ! s), Some s)"
  shows "keys_ok table keys slots"
  unfolding keys_ok_def using assms by blast

lemma keys_okD:
  assumes "keys_ok table keys slots"
  shows "distinct table" "dom keys = set table"
    and "keys key = Some (i, live) \<Longrightarrow> i < length table \<and> table ! i = key"
    and "keys key = Some (i, Some s) \<Longrightarrow>
      s < length slots \<and> \<not> rec_tombstone (slots ! s) \<and> rec_key_index (slots ! s) = i"
    and "s < length slots \<Longrightarrow> \<not> rec_tombstone (slots ! s) \<Longrightarrow>
      keys (table ! rec_key_index (slots ! s)) = Some (rec_key_index (slots ! s), Some s)"
  using assms unfolding keys_ok_def by blast+

lemma keys_ok_new_key:
  assumes ok: "keys_ok table keys slots" and new: "keys key = None"
  shows "keys_ok (table @ [key]) (keys(key \<mapsto> (length table, None))) slots"
proof (rule keys_okI)
  have fresh: "key \<notin> set table" using keys_okD(2) [OF ok] new by auto
  then show "distinct (table @ [key])" using keys_okD(1) [OF ok] by simp
  show "dom (keys(key \<mapsto> (length table, None))) = set (table @ [key])"
    using keys_okD(2) [OF ok] by auto
  fix k i live s
  show "(keys(key \<mapsto> (length table, None))) k = Some (i, live) \<Longrightarrow>
      i < length (table @ [key]) \<and> (table @ [key]) ! i = k"
    using keys_okD(3) [OF ok, of k i live] by (auto simp: nth_append split: if_splits)
  show "(keys(key \<mapsto> (length table, None))) k = Some (i, Some s) \<Longrightarrow>
      s < length slots \<and> \<not> rec_tombstone (slots ! s) \<and> rec_key_index (slots ! s) = i"
    using keys_okD(4) [OF ok, of k i s] by (auto split: if_splits)
  assume s: "s < length slots" "\<not> rec_tombstone (slots ! s)"
  let ?i = "rec_key_index (slots ! s)"
  have k: "keys (table ! ?i) = Some (?i, Some s)" by (rule keys_okD(5) [OF ok s])
  with keys_okD(3) [OF ok k] new show "(keys(key \<mapsto> (length table, None))) ((table @ [key]) ! ?i) =
      Some (?i, Some s)" by (auto simp: nth_append)
qed

lemma keys_ok_retire:
  assumes ok: "keys_ok table keys slots" and k: "keys key = Some (i, Some s)"
  shows "keys_ok table (keys(key \<mapsto> (i, None))) (slots[s := (slots ! s)\<lparr>rec_tombstone := True\<rparr>])"
proof (rule keys_okI)
  let ?keys = "keys(key \<mapsto> (i, None))" and ?slots = "slots[s := (slots ! s)\<lparr>rec_tombstone := True\<rparr>]"
  note i = keys_okD(3) [OF ok k] keys_okD(4) [OF ok k]
  show "distinct table" by (rule keys_okD(1) [OF ok])
  show "dom ?keys = set table" using keys_okD(2) [OF ok] k by auto
  fix k' j live t
  show "?keys k' = Some (j, live) \<Longrightarrow> j < length table \<and> table ! j = k'"
    using keys_okD(3) [OF ok, of k' j live] i by (auto split: if_splits)
  show "?keys k' = Some (j, Some t) \<Longrightarrow>
      t < length ?slots \<and> \<not> rec_tombstone (?slots ! t) \<and> rec_key_index (?slots ! t) = j"
  proof -
    assume "?keys k' = Some (j, Some t)"
    then have k': "k' \<noteq> key" "keys k' = Some (j, Some t)" by (auto split: if_splits)
    have "t \<noteq> s" using keys_okD(3) [OF ok k'(2)] keys_okD(4) [OF ok k'(2)] i k'(1) by auto
    with keys_okD(4) [OF ok k'(2)] show ?thesis by simp
  qed
  assume "t < length ?slots" "\<not> rec_tombstone (?slots ! t)"
  then have t: "t < length slots" "t \<noteq> s" "\<not> rec_tombstone (slots ! t)"
    using i by (auto simp: nth_list_update split: if_splits)
  note kt = keys_okD(5) [OF ok t(1,3)]
  then have "table ! rec_key_index (slots ! t) \<noteq> key" using k t(2) by auto
  with kt t(2) show "?keys (table ! rec_key_index (?slots ! t)) =
      Some (rec_key_index (?slots ! t), Some t)" by simp
qed

lemma keys_ok_point:
  assumes ok: "keys_ok table keys slots" and k: "keys key = Some (i, None)"
    and r: "\<not> rec_tombstone r" "rec_key_index r = i"
  shows "keys_ok table (keys(key \<mapsto> (i, Some (length slots)))) (slots @ [r])"
proof (rule keys_okI)
  let ?keys = "keys(key \<mapsto> (i, Some (length slots)))"
  note i = keys_okD(3) [OF ok k]
  show "distinct table" by (rule keys_okD(1) [OF ok])
  show "dom ?keys = set table" using keys_okD(2) [OF ok] k by auto
  fix k' j live t
  show "?keys k' = Some (j, live) \<Longrightarrow> j < length table \<and> table ! j = k'"
    using keys_okD(3) [OF ok, of k' j live] i by (auto split: if_splits)
  show "?keys k' = Some (j, Some t) \<Longrightarrow> t < length (slots @ [r]) \<and>
      \<not> rec_tombstone ((slots @ [r]) ! t) \<and> rec_key_index ((slots @ [r]) ! t) = j"
    using keys_okD(4) [OF ok, of k' j t] r by (auto simp: nth_append split: if_splits)
  assume "t < length (slots @ [r])" "\<not> rec_tombstone ((slots @ [r]) ! t)"
  then consider "t = length slots" | "t < length slots" "\<not> rec_tombstone (slots ! t)"
    by (auto simp: nth_append less_Suc_eq split: if_splits)
  then show "?keys (table ! rec_key_index ((slots @ [r]) ! t)) =
      Some (rec_key_index ((slots @ [r]) ! t), Some t)"
  proof cases
    case 1
    then show ?thesis using i r by simp
  next
    case 2
    note kt = keys_okD(5) [OF ok 2]
    then have "table ! rec_key_index (slots ! t) \<noteq> key" using k by auto
    with kt 2 show ?thesis by (simp add: nth_append)
  qed
qed

text \<open>Two keys never share a slot.\<close>

lemma keys_ok_inj:
  "keys_ok table keys slots \<Longrightarrow> keys a = Some (i, Some s) \<Longrightarrow> keys b = Some (j, Some s) \<Longrightarrow> a = b"
  using keys_okD(3,4) by (metis (no_types, lifting))

lemma retire_eq:
  assumes wf: "hnsw_wf (pt_index p)" and s: "s < hn_len (pt_index p)" "s < length (pt_slots p)"
  obtains g where "retire s p = Some (p\<lparr>pt_index := g,
      pt_slots := (pt_slots p)[s := (pt_slots p ! s)\<lparr>rec_tombstone := True\<rparr>]\<rparr>)"
    "hnsw_wf g" "\<And>t. is_tombstoned g t \<longleftrightarrow> t = s \<or> is_tombstoned (pt_index p) t"
    "hn_len g = hn_len (pt_index p)" "hn_vectors g = hn_vectors (pt_index p)"
    "hn_params g = hn_params (pt_index p)" "hn_metric g = hn_metric (pt_index p)"
proof -
  from hnsw_wf_tombstone [OF wf s(1)] obtain g where
    g: "tombstone (pt_index p) s = Some (\<not> is_tombstoned (pt_index p) s, g)" "hnsw_wf g"
      "\<forall>t. is_tombstoned g t \<longleftrightarrow> t = s \<or> is_tombstoned (pt_index p) t"
      "g = (pt_index p)\<lparr>hn_tombstones := hn_tombstones g, hn_tombstone_count := hn_tombstone_count g\<rparr>"
    by blast
  obtain t c where gt: "g = (pt_index p)\<lparr>hn_tombstones := t, hn_tombstone_count := c\<rparr>"
    using g(4) by blast
  have "retire s p = Some (p\<lparr>pt_index := g,
      pt_slots := (pt_slots p)[s := (pt_slots p ! s)\<lparr>rec_tombstone := True\<rparr>]\<rparr>)"
    using g(1) s(2) by (simp add: retire_def index_def)
  moreover have "hn_len g = hn_len (pt_index p)" "hn_vectors g = hn_vectors (pt_index p)"
    "hn_params g = hn_params (pt_index p)" "hn_metric g = hn_metric (pt_index p)"
    unfolding gt by simp_all
  ultimately show ?thesis using g(2,3) that by blast
qed

lemma slots_ok_retire:
  assumes "slots_ok n slots g" and "\<And>t. is_tombstoned g' t \<longleftrightarrow> t = s \<or> is_tombstoned g t"
    and "hn_len g' = hn_len g" and "s < length slots"
  shows "slots_ok n (slots[s := (slots ! s)\<lparr>rec_tombstone := True\<rparr>]) g'"
  using assms by (auto simp: slots_ok_def nth_list_update)

lemma slots_ok_push:
  assumes "slots_ok n slots g" and "\<And>t. is_tombstoned g' t \<longleftrightarrow> is_tombstoned g t"
    and "hn_len g' = Suc (hn_len g)" and "n \<le> n'" and "\<not> is_tombstoned g (hn_len g)"
    and "\<not> rec_tombstone r" and "rec_key_index r < n'"
  shows "slots_ok n' (slots @ [r]) g'"
  using assms by (auto simp: slots_ok_def nth_append less_Suc_eq)

section \<open>Lemmas: deleting\<close>

lemma part_wf_slot:
  assumes "part_wf p" and "pt_keys p key = Some (i, Some s)"
  shows "s < length (pt_slots p)" "s < hn_len (pt_index p)"
  using assms by (auto simp: part_wf_def keys_ok_def slots_ok_def)

lemma apply_delete_ok:
  assumes wf: "part_wf p"
  shows "\<exists>p'. apply_delete p key = Some (Inr p') \<and> part_wf p' \<and>
    contents p' = spec_apply (pt_metric p) (Delete key) (contents p) \<and>
    same_frame p p' \<and> pt_idem p' = pt_idem p \<and>
    length (pt_slots p') = length (pt_slots p) \<and> pt_key_table p' = pt_key_table p"
proof (cases "\<exists>i s. pt_keys p key = Some (i, Some s)")
  case False
  then have "contents p key = None"
    by (cases "pt_keys p key") (auto simp: contents_def slot_for_key_def)
  moreover have "apply_delete p key = Some (Inr p)"
    using False by (auto simp: apply_delete_def split: option.splits)
  ultimately show ?thesis
    using wf by (intro exI [of _ p]) (auto simp: spec_apply_def same_frame_def)
next
  case True
  then obtain i s where k: "pt_keys p key = Some (i, Some s)" by blast
  note s = part_wf_slot [OF wf k]
  have parts: "config_ok p" "hnsw_wf (pt_index p)" "iw_wf (pt_idem p)"
    "slots_ok (length (pt_key_table p)) (pt_slots p) (pt_index p)"
    "keys_ok (pt_key_table p) (pt_keys p) (pt_slots p)" using wf by (simp_all add: part_wf_def)
  obtain g where g: "retire s p = Some (p\<lparr>pt_index := g,
      pt_slots := (pt_slots p)[s := (pt_slots p ! s)\<lparr>rec_tombstone := True\<rparr>]\<rparr>)" (is "_ = Some ?p")
    "hnsw_wf g" "\<And>t. is_tombstoned g t \<longleftrightarrow> t = s \<or> is_tombstoned (pt_index p) t"
    "hn_len g = hn_len (pt_index p)" "hn_vectors g = hn_vectors (pt_index p)"
    "hn_params g = hn_params (pt_index p)" "hn_metric g = hn_metric (pt_index p)"
    using retire_eq [OF parts(2) s(2,1)] by blast
  define p' where "p' = ?p\<lparr>pt_keys := (pt_keys p)(key \<mapsto> (i, None))\<rparr>"
  have "part_wf p'"
    using parts g keys_ok_retire [OF parts(5) k] slots_ok_retire [OF parts(4) g(3,4) s(1)]
    by (simp add: part_wf_def p'_def config_ok_def hn_dims_def)
  moreover have "contents p' k' = ((contents p)(key := None)) k'" for k'
  proof (cases "k' = key")
    case True
    then show ?thesis by (simp add: contents_def slot_for_key_def p'_def)
  next
    case False
    have "t \<noteq> s" if "pt_keys p k' = Some (j, Some t)" for j t
      using keys_ok_inj [OF parts(5) that, of key i] k False by auto
    then have "index (pt_slots p') t = index (pt_slots p) t" if "slot_for_key p k' = Some t" for t
      using that by (auto simp: slot_for_key_def p'_def index_def bind_eq_Some_conv)
    moreover have "slot_for_key p' k' = slot_for_key p k'"
      using False by (simp add: slot_for_key_def p'_def)
    moreover have "hn_vectors (pt_index p') = hn_vectors (pt_index p)" using g(5) by (simp add: p'_def)
    ultimately show ?thesis using False by (cases "slot_for_key p k'") (simp_all add: contents_def)
  qed
  ultimately show ?thesis
    using k g(1)
    by (intro exI [of _ p']) (auto simp: apply_delete_def p'_def fun_eq_iff spec_apply_def same_frame_def)
qed

section \<open>Lemmas: upserting\<close>

text \<open>Making a key known and dead: the state between retiring the old version of a key and
  pointing it to the new one.\<close>

lemma prepare_key:
  assumes wf: "hnsw_wf g" and p: "pt_index p = g" "pt_slots p = slots" and len: "length slots \<le> hn_len g"
    and keys: "keys_ok table keys slots"
    and slots: "\<forall>s<length slots. rec_tombstone (slots ! s) = is_tombstoned g s \<and>
      rec_key_index (slots ! s) < length table"
    and known: "keys key = Some (i, live)"
  obtains g' slots' where "(case live of Some s \<Rightarrow> retire s p | None \<Rightarrow> Some p) =
      Some (p\<lparr>pt_index := g', pt_slots := slots'\<rparr>)" "hnsw_wf g'"
    "hn_len g' = hn_len g" "hn_vectors g' = hn_vectors g" "hn_params g' = hn_params g"
    "hn_metric g' = hn_metric g" "length slots' = length slots"
    "keys_ok table (keys(key \<mapsto> (i, None))) slots'"
    "\<And>t. length slots \<le> t \<Longrightarrow> is_tombstoned g' t = is_tombstoned g t"
    "\<And>s. s < length slots \<Longrightarrow> rec_tombstone (slots' ! s) = is_tombstoned g' s"
    "\<And>s. s < length slots \<Longrightarrow> rec_key_index (slots' ! s) < length table"
    "\<And>s. s < length slots \<Longrightarrow> rec_payload (slots' ! s) = rec_payload (slots ! s)"
proof (cases live)
  case None
  moreover from this known have "keys(key \<mapsto> (i, None)) = keys" by (simp add: map_upd_triv)
  ultimately show ?thesis using wf p keys slots by (intro that [where g' = g and slots' = slots]) simp_all
next
  case (Some s)
  then have k: "keys key = Some (i, Some s)" using known by simp
  have s: "s < length slots" using keys_okD(4) [OF keys k] by simp
  let ?slots = "slots[s := (slots ! s)\<lparr>rec_tombstone := True\<rparr>]"
  obtain g' where g': "retire s p = Some (p\<lparr>pt_index := g', pt_slots := ?slots\<rparr>)"
    "hnsw_wf g'" "\<And>t. is_tombstoned g' t \<longleftrightarrow> t = s \<or> is_tombstoned g t"
    "hn_len g' = hn_len g" "hn_vectors g' = hn_vectors g"
    "hn_params g' = hn_params g" "hn_metric g' = hn_metric g"
    using retire_eq [of p s] wf s len unfolding p by (metis order_less_le_trans)
  show ?thesis
  proof (rule that [where g' = g' and slots' = ?slots])
    fix t
    show "t < length slots \<Longrightarrow> rec_payload (?slots ! t) = rec_payload (slots ! t)"
      by (cases "t = s") simp_all
    show "t < length slots \<Longrightarrow> rec_key_index (?slots ! t) < length table"
      using slots by (cases "t = s") simp_all
    show "t < length slots \<Longrightarrow> rec_tombstone (?slots ! t) = is_tombstoned g' t"
      using slots g'(3) by (cases "t = s") simp_all
    show "length slots \<le> t \<Longrightarrow> is_tombstoned g' t = is_tombstoned g t" using g'(3) s by auto
  qed (use Some g' keys_ok_retire [OF keys k] in simp_all)
qed

lemma flat_push_ok:
  assumes "length x = fv_dims v" and "list_all f32_is_finite x"
  shows "\<exists>v'. flat_push v x m = Inr (flat_len v, v')"
  using assms by (auto simp: flat_push_def list_all_iff list_ex_iff)

lemma contents_other:
  assumes "slot_for_key p' k = slot_for_key p k"
    and "\<And>s. slot_for_key p k = Some s \<Longrightarrow>
      flat_get (hn_vectors (pt_index p')) s = flat_get (hn_vectors (pt_index p)) s \<and>
      map_option rec_payload (index (pt_slots p') s) = map_option rec_payload (index (pt_slots p) s)"
  shows "contents p' k = contents p k"
proof (cases "slot_for_key p k")
  case (Some s)
  have bind: "Option.bind x (\<lambda>r. Some (row, rec_payload r)) = map_option (Pair row) (map_option rec_payload x)"
    for x :: "slot_record option" and row :: "f32 list" by (cases x) simp_all
  show ?thesis using Some assms(1) assms(2) [OF Some] by (simp add: contents_def bind)
qed (simp add: contents_def assms(1))

lemma apply_upsert_ok:
  assumes wf: "part_wf p" and room: "has_room p" and op: "op_ok p (Upsert key payload x)"
  shows "\<exists>p'. apply_upsert ln64 p seq key payload x = Some (Inr p') \<and> part_wf p' \<and>
    contents p' = spec_apply (pt_metric p) (Upsert key payload x) (contents p) \<and>
    same_frame p p' \<and> pt_idem p' = pt_idem p \<and>
    length (pt_slots p') = Suc (length (pt_slots p)) \<and>
    length (pt_key_table p') \<le> Suc (length (pt_key_table p))"
proof -
  let ?n = "length (pt_slots p)" and ?m = "pt_metric p" and ?dims = "cfg_dims (pt_config p)"
  let ?v0 = "hn_vectors (pt_index p)"
  have parts: "config_ok p" "hnsw_wf (pt_index p)" "iw_wf (pt_idem p)"
    "slots_ok (length (pt_key_table p)) (pt_slots p) (pt_index p)"
    "keys_ok (pt_key_table p) (pt_keys p) (pt_slots p)" using wf by (simp_all add: part_wf_def)
  have n: "hn_len (pt_index p) = ?n" "?n < 2 ^ 32" "length (pt_key_table p) < 2 ^ 32"
    and rows: "rows_ok (pt_index p)" and tomb: "tombstones_ok (pt_index p)"
    using parts room by (auto simp: slots_ok_def has_room_def hnsw_wf_def graph_ok_def)
  have cfg: "hn_dims (pt_index p) = ?dims" "hn_metric (pt_index p) = ?m"
    "hn_params (pt_index p) = cfg_params (pt_config p)" using parts(1) by (simp_all add: config_ok_def)
  have x: "length x = ?dims" "list_all f32_is_finite x" using op by (simp_all add: op_ok_def)
  obtain v where push: "flat_push ?v0 x ?m = Inr (?n, v)"
    using flat_push_ok [of x ?v0 ?m] x cfg(1) rows n(1) by (auto simp: hn_dims_def rows_ok_def)
  obtain g where ins: "hnsw_insert ln64 (pt_index p) x = Some (Inr (?n, g))"
    and g: "hnsw_wf g" "hn_len g = Suc ?n" "hn_vectors g = v" "hn_params g = hn_params (pt_index p)"
      "hn_metric g = ?m" "\<And>s. is_tombstoned g s \<longleftrightarrow> is_tombstoned (pt_index p) s"
    using hnsw_insert_ok [OF parts(2), of x ?n v ln64] push n cfg(2) by auto
  define table where "table = (if pt_keys p key = None then pt_key_table p @ [key] else pt_key_table p)"
  define i where "i = (case pt_keys p key of Some (i, _) \<Rightarrow> i | None \<Rightarrow> length (pt_key_table p))"
  define live where "live = (case pt_keys p key of Some (_, live) \<Rightarrow> live | None \<Rightarrow> None)"
  define keys where "keys = (pt_keys p)(key \<mapsto> (i, live))"
  define p2 where "p2 = p\<lparr>pt_index := g, pt_key_table := table\<rparr>"
  have k2: "keys_ok table keys (pt_slots p)"
  proof (cases "pt_keys p key")
    case None
    then show ?thesis using keys_ok_new_key [OF parts(5) None]
      by (simp add: table_def keys_def i_def live_def)
  next
    case (Some y)
    then have "keys = pt_keys p" by (cases y) (simp add: keys_def i_def live_def map_upd_triv)
    then show ?thesis using parts(5) Some by (simp add: table_def)
  qed
  have s2: "\<forall>s<?n. rec_tombstone (pt_slots p ! s) = is_tombstoned g s \<and>
      rec_key_index (pt_slots p ! s) < length table"
    using parts(4) g(6) by (auto simp: slots_ok_def table_def)
  have i: "i < length table"
    using keys_okD(3) [OF k2, of key i live] by (simp add: keys_def)
  obtain g' slots where r: "(case live of Some s \<Rightarrow> retire s p2 | None \<Rightarrow> Some p2) =
      Some (p2\<lparr>pt_index := g', pt_slots := slots\<rparr>)" "hnsw_wf g'" "hn_len g' = hn_len g"
    "hn_vectors g' = hn_vectors g" "hn_params g' = hn_params g" "hn_metric g' = hn_metric g"
    "length slots = ?n" "keys_ok table (keys(key \<mapsto> (i, None))) slots"
    "\<And>t. ?n \<le> t \<Longrightarrow> is_tombstoned g' t = is_tombstoned g t"
    "\<And>s. s < ?n \<Longrightarrow> rec_tombstone (slots ! s) = is_tombstoned g' s"
    "\<And>s. s < ?n \<Longrightarrow> rec_key_index (slots ! s) < length table"
    "\<And>s. s < ?n \<Longrightarrow> rec_payload (slots ! s) = rec_payload (pt_slots p ! s)"
    by (rule prepare_key [OF g(1), of p2 "pt_slots p" table keys key i live])
      (use k2 s2 g(2) in \<open>simp_all add: p2_def keys_def\<close>)
  let ?r = "\<lparr>rec_version = seq, rec_tombstone = False, rec_key_index = i, rec_payload = payload\<rparr>"
  define p' where "p' = p\<lparr>pt_index := g', pt_key_table := table,
      pt_keys := (pt_keys p)(key \<mapsto> (i, Some ?n)), pt_slots := slots @ [?r]\<rparr>"
  have p2: "(case pt_keys p key of Some _ \<Rightarrow> p\<lparr>pt_index := g\<rparr>
      | None \<Rightarrow> p\<lparr>pt_index := g, pt_key_table := pt_key_table p @ [key]\<rparr>) = p2"
    by (simp add: p2_def table_def split: option.splits)
  have i_eq: "(case pt_keys p key of Some (i, _) \<Rightarrow> i | None \<Rightarrow> length (pt_key_table p) mod 2 ^ 32) = i"
    using n(3) by (simp add: i_def split: option.splits)
  have r1: "(case pt_keys p key of Some (_, Some previous) \<Rightarrow> retire previous p2 | _ \<Rightarrow> Some p2) =
      Some (p2\<lparr>pt_index := g', pt_slots := slots\<rparr>)"
    using r(1) unfolding live_def by (auto split: option.splits)
  have eq: "apply_upsert ln64 p seq key payload x = Some (Inr p')"
    using x(1) unfolding apply_upsert_def Let_def ins option.case sum.case prod.case p2 i_eq r1
    by (simp add: p2_def p'_def)
  have fresh: "\<not> is_tombstoned (pt_index p) ?n"
    using tomb n(1) by (auto simp: tombstones_ok_def)
  have "keys_ok table ((pt_keys p)(key \<mapsto> (i, Some ?n))) (slots @ [?r])"
    using keys_ok_point [OF r(8), of key i ?r] r(7) by (simp add: keys_def)
  moreover have "slots_ok (length table) (slots @ [?r]) g'"
    using r(3,7,9-11) g(2,6) fresh i by (auto simp: slots_ok_def nth_append less_Suc_eq)
  moreover have "fv_dims v = fv_dims ?v0" using push by (auto simp: flat_push_def split: if_splits)
  ultimately have "part_wf p'"
    using parts r(2,4-6) g(3-5) cfg
    by (auto simp: part_wf_def p'_def config_ok_def hn_dims_def)
  moreover have "contents p' k = spec_apply ?m (Upsert key payload x) (contents p) k" for k
  proof (cases "k = key")
    case True
    have "flat_get v ?n = Some (if normalizes ?m then snd (normalize x) else x)"
      using flat.get_push [OF _ push n(2)] rows by (simp add: rows_ok_def)
    then show ?thesis using True r(4,7) g(3)
      by (simp add: contents_def slot_for_key_def p'_def spec_apply_def index_def nth_append)
  next
    case False
    have "contents p' k = contents p k"
    proof (rule contents_other)
      show "slot_for_key p' k = slot_for_key p k" using False by (simp add: slot_for_key_def p'_def)
      fix s assume "slot_for_key p k = Some s"
      then obtain j where "pt_keys p k = Some (j, Some s)"
        by (auto simp: slot_for_key_def bind_eq_Some_conv)
      then have s: "s < ?n" by (rule part_wf_slot [OF wf])
      then have "flat_get v s = flat_get ?v0 s"
        using flat.get_push [OF _ push, of s] rows n(2) by (simp add: rows_ok_def)
      then show "flat_get (hn_vectors (pt_index p')) s = flat_get (hn_vectors (pt_index p)) s \<and>
          map_option rec_payload (index (pt_slots p') s) = map_option rec_payload (index (pt_slots p) s)"
        using s r(4,7,12) g(3) by (simp add: p'_def index_def nth_append)
    qed
    then show ?thesis using False by (simp add: spec_apply_def)
  qed
  ultimately show ?thesis
    using eq r(7) by (intro exI [of _ p']) (auto simp: p'_def same_frame_def table_def)
qed

section \<open>Lemmas: applying entries\<close>

lemma apply_entry_ok:
  assumes wf: "part_wf p" and room: "has_room p" and op: "op_ok p (e_operation e)"
  shows "\<exists>p'. apply_entry ln64 p e = Some (Inr p') \<and> part_wf p' \<and>
    contents p' = spec_apply (pt_metric p) (e_operation e) (contents p) \<and>
    same_frame p p' \<and> pt_idem p' = iw_record (pt_idem p) (e_op_id e) (e_seq e) \<and>
    pt_high_water p' = e_seq e \<and> length (pt_slots p') \<le> Suc (length (pt_slots p)) \<and>
    length (pt_key_table p') \<le> Suc (length (pt_key_table p))"
proof -
  have "\<exists>q. (case e_operation e of
          Upsert key payload vector \<Rightarrow> apply_upsert ln64 p (e_seq e) key payload vector
        | Delete key \<Rightarrow> apply_delete p key) = Some (Inr q) \<and> part_wf q \<and>
    contents q = spec_apply (pt_metric p) (e_operation e) (contents p) \<and>
    same_frame p q \<and> pt_idem q = pt_idem p \<and> length (pt_slots q) \<le> Suc (length (pt_slots p)) \<and>
    length (pt_key_table q) \<le> Suc (length (pt_key_table p))"
  proof (cases "e_operation e")
    case (Upsert key payload x)
    with apply_upsert_ok [OF wf room, of key payload x ln64 "e_seq e"] op show ?thesis by auto
  next
    case (Delete key)
    with apply_delete_ok [OF wf, of key] show ?thesis by auto
  qed
  then obtain q where q: "(case e_operation e of
          Upsert key payload vector \<Rightarrow> apply_upsert ln64 p (e_seq e) key payload vector
        | Delete key \<Rightarrow> apply_delete p key) = Some (Inr q)" "part_wf q"
    "contents q = spec_apply (pt_metric p) (e_operation e) (contents p)"
    "same_frame p q" "pt_idem q = pt_idem p" "length (pt_slots q) \<le> Suc (length (pt_slots p))"
    "length (pt_key_table q) \<le> Suc (length (pt_key_table p))" by blast
  define p' where "p' = q\<lparr>pt_idem := iw_record (pt_idem q) (e_op_id e) (e_seq e), pt_high_water := e_seq e\<rparr>"
  have "part_wf p'"
    using q(2) iw_record_wf [of "pt_idem q"] by (simp add: part_wf_def p'_def config_ok_def)
  moreover have "contents p' = contents q"
    by (rule ext) (simp add: contents_def slot_for_key_def p'_def)
  moreover have "apply_entry ln64 p e = Some (Inr p')" using q(1) by (simp add: apply_entry_def p'_def)
  ultimately show ?thesis
    using q by (intro exI [of _ p']) (simp add: p'_def same_frame_def)
qed

text \<open>Applying a list of entries in order, and its specification.\<close>

fun apply_all :: "(f64 \<Rightarrow> f64) \<Rightarrow> entry list \<Rightarrow> partition \<Rightarrow> (partition_error + partition) option" where
  "apply_all ln64 [] p = Some (Inr p)"
| "apply_all ln64 (e # es) p =
     (case apply_entry ln64 p e of
        None \<Rightarrow> None
      | Some (Inl err) \<Rightarrow> Some (Inl err)
      | Some (Inr p1) \<Rightarrow> apply_all ln64 es p1)"

definition spec_all :: "metric \<Rightarrow> entry list \<Rightarrow> kv_store \<Rightarrow> kv_store" where
  "spec_all metric es m = fold (\<lambda>e. spec_apply metric (e_operation e)) es m"

lemma spec_all_simps [simp]:
  "spec_all metric [] m = m"
  "spec_all metric (e # es) m = spec_all metric es (spec_apply metric (e_operation e) m)"
  "spec_all metric (es @ es') m = spec_all metric es' (spec_all metric es m)"
  by (simp_all add: spec_all_def)

definition room_for :: "nat \<Rightarrow> partition \<Rightarrow> bool" where
  "room_for n p \<longleftrightarrow> length (pt_slots p) + n \<le> 2 ^ 32 \<and> length (pt_key_table p) + n \<le> 2 ^ 32"

lemma apply_all_append:
  "apply_all ln64 (es @ es') p =
     (case apply_all ln64 es p of
        None \<Rightarrow> None | Some (Inl err) \<Rightarrow> Some (Inl err) | Some (Inr p1) \<Rightarrow> apply_all ln64 es' p1)"
  by (induction es arbitrary: p) (auto split: option.splits sum.splits)

lemma apply_all_ok:
  assumes "part_wf p" and "room_for (length es) p" and "\<forall>e\<in>set es. op_ok p (e_operation e)"
  shows "\<exists>p'. apply_all ln64 es p = Some (Inr p') \<and> part_wf p' \<and>
    contents p' = spec_all (pt_metric p) es (contents p) \<and> same_frame p p' \<and>
    pt_idem p' = foldl (\<lambda>w e. iw_record w (e_op_id e) (e_seq e)) (pt_idem p) es \<and>
    pt_high_water p' = (if es = [] then pt_high_water p else e_seq (last es)) \<and>
    length (pt_slots p') \<le> length (pt_slots p) + length es \<and>
    length (pt_key_table p') \<le> length (pt_key_table p) + length es"
  using assms
proof (induction es arbitrary: p)
  case Nil
  then show ?case by (simp add: same_frame_def)
next
  case (Cons e es)
  have "has_room p" using Cons.prems(2) by (simp add: room_for_def has_room_def)
  from apply_entry_ok [OF Cons.prems(1) this, of e ln64] Cons.prems(3)
  obtain p1 where p1: "apply_entry ln64 p e = Some (Inr p1)" "part_wf p1"
    "contents p1 = spec_apply (pt_metric p) (e_operation e) (contents p)" "same_frame p p1"
    "pt_idem p1 = iw_record (pt_idem p) (e_op_id e) (e_seq e)" "pt_high_water p1 = e_seq e"
    "length (pt_slots p1) \<le> Suc (length (pt_slots p))"
    "length (pt_key_table p1) \<le> Suc (length (pt_key_table p))" by auto
  have "room_for (length es) p1" using Cons.prems(2) p1(7,8) by (simp add: room_for_def)
  moreover have "\<forall>e\<in>set es. op_ok p1 (e_operation e)"
    using Cons.prems(3) p1(4) by (auto simp: op_ok_def same_frame_def split: operation.splits)
  ultimately obtain p' where p': "apply_all ln64 es p1 = Some (Inr p')" "part_wf p'"
    "contents p' = spec_all (pt_metric p1) es (contents p1)" "same_frame p1 p'"
    "pt_idem p' = foldl (\<lambda>w e. iw_record w (e_op_id e) (e_seq e)) (pt_idem p1) es"
    "pt_high_water p' = (if es = [] then pt_high_water p1 else e_seq (last es))"
    "length (pt_slots p') \<le> length (pt_slots p1) + length es"
    "length (pt_key_table p') \<le> length (pt_key_table p1) + length es"
    using Cons.IH [OF p1(2)] by blast
  have "pt_metric p1 = pt_metric p" using p1(4) by (simp add: same_frame_def)
  with p1 p' show ?case by (intro exI [of _ p']) (auto simp: same_frame_def)
qed

lemma cfg_validate_ok:
  assumes "cfg_validate c = Inr ()"
  shows "1 \<le> cfg_dims c" "cfg_dims c \<le> 65536" "2 \<le> cfg_m c" "cfg_m c \<le> cfg_m0 c" "cfg_m0 c \<le> 255"
    "1 \<le> cfg_ef_construction c" "cfg_ef_construction c \<le> 100000" "1 \<le> cfg_idempotency_window c"
    "\<exists>m. metric_parse (cfg_metric c) = Some m"
  using assms unfolding cfg_validate_def cfg_parse_metric_def MAX_DIMS_def MAX_EF_def ok_or_def
  by (auto split: if_splits option.splits)

lemma fresh_state_wf:
  assumes "cfg_validate c = Inr ()" and "metric_parse (cfg_metric c) = Some m"
  shows "part_wf (fresh_state c m) \<and> contents (fresh_state c m) = Map.empty"
proof
  have "cfg_m c \<le> 255" using cfg_validate_ok(4,5) [OF assms(1)] by simp
  then have "hnsw_wf (hnsw_new (cfg_dims c) m (cfg_params c))"
    using cfg_validate_ok [OF assms(1)] by (intro hnsw_new_wf) (simp_all add: cfg_params_def)
  with assms show "part_wf (fresh_state c m)"
    by (simp add: part_wf_def fresh_state_def config_ok_def slots_ok_def keys_ok_def hnsw_new_def hn_dims_def
        hn_len_def flat_new_def flat_len_def base_rows_def)
  show "contents (fresh_state c m) = Map.empty"
    by (rule ext) (simp add: contents_def slot_for_key_def fresh_state_def)
qed

end
