(* ===== verification/Partition_Ops.thy ===== *)
theory Partition_Ops
  imports Partition_State
begin

text \<open>
  The operations of an open partition (\<open>partition.rs\<close>): admission against the memory budget,
  upsert and delete through the log, and search. A mutation is logged, synced and only then
  applied; any early exit between the append and the end of the apply poisons the writer. The
  functions the engine calls outside its own sources are the fields of \<open>platform\<close>.
\<close>

section \<open>Environment and results\<close>

record platform =
  pf_crc :: "bytes \<Rightarrow> u32"
  pf_blake3 :: "bytes \<Rightarrow> bytes"
  pf_cast :: "bytes \<Rightarrow> f32 list"
  pf_addr :: nat
  pf_ln :: "f64 \<Rightarrow> f64"
  pf_to_json :: "partition_config \<Rightarrow> bytes"
  pf_of_json :: "bytes \<Rightarrow> partition_config option"

record applied =
  ap_seq :: u64
  ap_deduplicated :: bool

record search_hit =
  rh_key :: bytes
  rh_distance :: f32
  rh_payload :: bytes
  rh_slot :: nat

section \<open>Accounting and admission\<close>

definition resident_bytes :: "partition \<Rightarrow> nat" where
  "resident_bytes p =
     (let payloads = sum_list (map (\<lambda>s. length (rec_payload s) + 32) (pt_slots p));
          keys = sum_list (map (\<lambda>k. length k + 48) (pt_key_table p))
      in hn_accounted_bytes (pt_index p) + payloads + keys + length (iw_order (pt_idem p)) * 40)"

definition mapped_bytes :: "partition \<Rightarrow> nat" where
  "mapped_bytes p = flat_mapped_bytes (hn_vectors (pt_index p))"

definition admit :: "partition \<Rightarrow> nat \<Rightarrow> partition_error + unit" where
  "admit p payload_len =
     (case cfg_ram_budget (pt_config p) of
        None \<Rightarrow> Inr ()
      | Some budget \<Rightarrow>
          let headroom = f64_as_nat (2 ^ 64 - 1) (f64_mul (f64_of_nat budget)
                (f64_clamp f64_zero f64_0_9 (cfg_headroom (pt_config p))));
              limit = budget - headroom;
              projected = resident_bytes p + hot_bytes_per_insert (pt_config p) payload_len
          in if limit < projected
             then Inl (OverBudget (resident_bytes p) projected limit budget headroom)
             else Inr ())"

definition set_ram_budget :: "nat option \<Rightarrow> partition \<Rightarrow> partition" where
  "set_ram_budget budget p = p\<lparr>pt_config := (pt_config p)\<lparr>cfg_ram_budget := budget\<rparr>\<rparr>"

definition tombstone_ratio :: "partition \<Rightarrow> f64" where
  "tombstone_ratio p =
     (if pt_slots p = [] then f64_zero
      else f64_div (f64_of_nat (hn_tombstone_count (pt_index p))) (f64_of_nat (length (pt_slots p))))"

definition compaction_recommended :: "partition \<Rightarrow> bool" where
  "compaction_recommended p \<longleftrightarrow> f64_le (cfg_compaction_ratio (pt_config p)) (tombstone_ratio p)"

definition with_failpoint :: "failpoint \<Rightarrow> partition \<Rightarrow> partition" where
  "with_failpoint point p = p\<lparr>pt_failpoint := Some point\<rparr>"

definition clear_failpoint :: "partition \<Rightarrow> partition" where
  "clear_failpoint p = p\<lparr>pt_failpoint := None\<rparr>"

section \<open>Mutations\<close>

text \<open>An error of \<open>apply\<close> is returned before it changed anything, so the state is kept. The
  \<open>expect\<close> of an open writer is the outer \<open>None\<close>.\<close>

definition sync_and_apply ::
  "platform \<Rightarrow> wal_io \<Rightarrow> partition \<Rightarrow> u64 \<Rightarrow> bytes \<Rightarrow> operation \<Rightarrow>
     (partition \<times> (partition_error + unit)) option" where
  "sync_and_apply pf io p seq op_id operation =
     (case hit_failpoint p AfterWalAppend of
        Inl e \<Rightarrow> Some (p, Inl e)
      | Inr _ \<Rightarrow>
          Option.bind (pt_wal p) (\<lambda>w.
            let (w', synced) = wal_sync io w; p1 = p\<lparr>pt_wal := Some w'\<rparr>
            in case synced of
                 Inl e \<Rightarrow> Some (p1, Inl (WalErr e))
               | Inr _ \<Rightarrow>
                   (case hit_failpoint p1 AfterWalSync of
                      Inl e \<Rightarrow> Some (p1, Inl e)
                    | Inr _ \<Rightarrow>
                        map_option (\<lambda>r. case r of Inl e \<Rightarrow> (p1, Inl e) | Inr p2 \<Rightarrow> (p2, Inr ()))
                          (apply_entry (pf_ln pf) p1
                            \<lparr>e_seq = seq, e_op_id = op_id, e_operation = operation\<rparr>))))"

definition mutate ::
  "platform \<Rightarrow> wal_io \<Rightarrow> wal_dir \<Rightarrow> partition \<Rightarrow> bytes \<Rightarrow> operation \<Rightarrow>
     (wal_dir \<times> partition \<times> (partition_error + applied)) option" where
  "mutate pf io dir p op_id operation =
     Option.bind (pt_wal p) (\<lambda>w.
       case append_unsynced (pf_crc pf) io dir w op_id operation of
         (dir', w', Inl e) \<Rightarrow> Some (dir', p\<lparr>pt_wal := Some w'\<rparr>, Inl (WalErr e))
       | (dir', w', Inr seq) \<Rightarrow>
           map_option (\<lambda>(p2, r). case r of
               Inl e \<Rightarrow> (dir', p2\<lparr>pt_wal := map_option poison (pt_wal p2)\<rparr>, Inl e)
             | Inr _ \<Rightarrow>
                 (dir', p2, rbind (hit_failpoint p2 AfterApply)
                              (\<lambda>_. Inr \<lparr>ap_seq = seq, ap_deduplicated = False\<rparr>)))
             (sync_and_apply pf io (p\<lparr>pt_wal := Some w'\<rparr>) seq op_id operation))"

text \<open>Checks and normalization of an incoming vector.\<close>

definition prepare_vector :: "partition \<Rightarrow> f32 list \<Rightarrow> partition_error + f32 list" where
  "prepare_vector p vector =
     (if length vector \<noteq> cfg_dims (pt_config p)
      then Inl (VectorErr (WrongDims (cfg_dims (pt_config p)) (length vector)))
      else if list_ex (\<lambda>v. \<not> f32_is_finite v) vector then Inl (VectorErr NonFinite)
      else if normalizes (pt_metric p)
           then (case normalize vector of (ok, stored) \<Rightarrow> if ok then Inr stored else Inl ZeroVector)
           else Inr vector)"

definition upsert ::
  "platform \<Rightarrow> wal_io \<Rightarrow> wal_dir \<Rightarrow> partition \<Rightarrow> bytes \<Rightarrow> bytes \<Rightarrow> f32 list \<Rightarrow> bytes \<Rightarrow>
     (wal_dir \<times> partition \<times> (partition_error + applied)) option" where
  "upsert pf io dir p op_id key vector payload =
     (case iw_get (pt_idem p) op_id of
        Some seq \<Rightarrow> Some (dir, p, Inr \<lparr>ap_seq = seq, ap_deduplicated = True\<rparr>)
      | None \<Rightarrow>
          (case prepare_vector p vector of
             Inl e \<Rightarrow> Some (dir, p, Inl e)
           | Inr stored \<Rightarrow>
               (case admit p (length payload) of
                  Inl e \<Rightarrow> Some (dir, p, Inl e)
                | Inr _ \<Rightarrow> mutate pf io dir p op_id (Upsert key payload stored))))"

definition delete ::
  "platform \<Rightarrow> wal_io \<Rightarrow> wal_dir \<Rightarrow> partition \<Rightarrow> bytes \<Rightarrow> bytes \<Rightarrow>
     (wal_dir \<times> partition \<times> (partition_error + applied)) option" where
  "delete pf io dir p op_id key =
     (case iw_get (pt_idem p) op_id of
        Some seq \<Rightarrow> Some (dir, p, Inr \<lparr>ap_seq = seq, ap_deduplicated = True\<rparr>)
      | None \<Rightarrow> mutate pf io dir p op_id (Delete key))"

section \<open>Search\<close>

definition resolve_hit :: "partition \<Rightarrow> hit \<Rightarrow> search_hit option" where
  "resolve_hit p h =
     (let slot = hit_id h mod 2 ^ 32
      in Option.bind (index (pt_slots p) slot) (\<lambda>r.
         Option.bind (index (pt_key_table p) (rec_key_index r)) (\<lambda>key.
           Some \<lparr>rh_key = key, rh_distance = hit_distance h, rh_payload = rec_payload r,
                 rh_slot = slot\<rparr>)))"

definition partition_search ::
  "partition \<Rightarrow> f32 list \<Rightarrow> nat \<Rightarrow> nat \<Rightarrow> bitmap option \<Rightarrow> (partition_error + search_hit list) option" where
  "partition_search p query k ef allowed_slots =
     (if length query \<noteq> cfg_dims (pt_config p)
      then Some (Inl (VectorErr (WrongDims (cfg_dims (pt_config p)) (length query))))
      else if list_ex (\<lambda>v. \<not> f32_is_finite v) query then Some (Inl (VectorErr NonFinite))
      else if MAX_K < k then Some (Inl (QueryLimit ''k'' k MAX_K))
      else if MAX_EF < ef then Some (Inl (QueryLimit ''ef'' ef MAX_EF))
      else case (if normalizes (pt_metric p) then normalize query else (True, query)) of
        (False, _) \<Rightarrow> Some (Inl ZeroVector)
      | (True, q) \<Rightarrow>
          Option.bind
            (case allowed_slots of
               Some allowed \<Rightarrow>
                 search_filtered (pt_index p) q k ef (int8_default k) allowed (filter_cutover ef)
             | None \<Rightarrow> search_with (pt_index p) q k ef (int8_default k) None)
            (\<lambda>hits. map_option Inr (those (map (resolve_hit p) hits))))"

definition search_default ::
  "partition \<Rightarrow> f32 list \<Rightarrow> nat \<Rightarrow> bitmap option \<Rightarrow> (partition_error + search_hit list) option" where
  "search_default p query k allowed_slots = partition_search p query k (cfg_ef (pt_config p)) allowed_slots"

section \<open>Lemmas: mutations\<close>

text \<open>A partition whose writer stands at the end of its log, with everything the log holds
  applied: the next sequence is one past the high-water mark.\<close>

definition serving ::
  "platform \<Rightarrow> u64 \<Rightarrow> wal_dir \<Rightarrow> (u64 \<times> entry list) list \<Rightarrow> partition \<Rightarrow> bool" where
  "serving pf s dir segs p \<longleftrightarrow>
     part_wf p \<and>
     (\<exists>w. pt_wal p = Some w \<and> writer_ok (pf_crc pf) (cfg_id (pt_config p)) s dir segs w \<and>
        ww_next_seq w = pt_high_water p + 1)"

definition log_room :: "u64 \<Rightarrow> (u64 \<times> entry list) list \<Rightarrow> bool" where
  "log_room s segs \<longleftrightarrow> unat s + length (log_entries segs) + 1 < 2 ^ 64"

lemma same_frame_wal [simp]: "part_wf (p\<lparr>pt_wal := w\<rparr>) = part_wf p"
  "contents (p\<lparr>pt_wal := w\<rparr>) = contents p" "has_room (p\<lparr>pt_wal := w\<rparr>) = has_room p"
  "op_ok (p\<lparr>pt_wal := w\<rparr>) = op_ok p"
  by (simp_all add: part_wf_def config_ok_def contents_def slot_for_key_def has_room_def op_ok_def fun_eq_iff
      split: operation.split)

lemma hit_Inr [simp]: "hit_failpoint p point = Inr u \<longleftrightarrow> pt_failpoint p \<noteq> Some point"
  by (simp add: hit_failpoint_def)

lemma wal_sync_Inr: "wal_sync io w = (w', Inr u) \<Longrightarrow> w' = w \<and> \<not> ww_poisoned w"
  by (auto simp: wal_sync_def split: if_splits)

lemma sync_and_apply_Inr:
  assumes "sync_and_apply pf io p seq op_id operation = Some (p2, Inr u)"
  shows "apply_entry (pf_ln pf) p \<lparr>e_seq = seq, e_op_id = op_id, e_operation = operation\<rparr> = Some (Inr p2)"
proof -
  obtain w where w: "pt_wal p = Some w"
    using assms by (auto simp: sync_and_apply_def bind_eq_Some_conv split: sum.splits)
  obtain w' r where sync: "wal_sync io w = (w', r)" by (cases "wal_sync io w")
  from assms w sync obtain u' where "r = Inr u'"
    by (cases r) (auto simp: sync_and_apply_def Let_def split: sum.splits)
  then have "w' = w" using wal_sync_Inr sync by blast
  let ?ap = "apply_entry (pf_ln pf) (p\<lparr>pt_wal := Some w\<rparr>)
      \<lparr>e_seq = seq, e_op_id = op_id, e_operation = operation\<rparr>"
  from assms w sync \<open>r = Inr u'\<close> \<open>w' = w\<close> obtain q where q: "?ap = Some q"
    by (cases ?ap) (auto simp: sync_and_apply_def Let_def split: sum.splits)
  with assms w sync \<open>r = Inr u'\<close> \<open>w' = w\<close> have "?ap = Some (Inr p2)"
    by (cases q) (auto simp: sync_and_apply_def Let_def split: sum.splits)
  moreover have "p\<lparr>pt_wal := Some w\<rparr> = p" using w by simp
  ultimately show ?thesis by simp
qed

lemma mutate_Inr:
  assumes "mutate pf io dir p op_id operation = Some (dir', p', Inr a)"
  obtains w w' where "pt_wal p = Some w"
    "append_unsynced (pf_crc pf) io dir w op_id operation = (dir', w', Inr (ap_seq a))"
    "apply_entry (pf_ln pf) (p\<lparr>pt_wal := Some w'\<rparr>)
      \<lparr>e_seq = ap_seq a, e_op_id = op_id, e_operation = operation\<rparr> = Some (Inr p')"
    "\<not> ap_deduplicated a"
proof -
  obtain w where w: "pt_wal p = Some w" using assms by (auto simp: mutate_def bind_eq_Some_conv)
  obtain d w' r where app: "append_unsynced (pf_crc pf) io dir w op_id operation = (d, w', r)"
    by (cases "append_unsynced (pf_crc pf) io dir w op_id operation")
  from assms w app obtain seq where r: "r = Inr seq" by (cases r) (auto simp: mutate_def)
  let ?sa = "sync_and_apply pf io (p\<lparr>pt_wal := Some w'\<rparr>) seq op_id operation"
  from assms w app r obtain p2 q where q: "?sa = Some (p2, q)" by (cases ?sa) (auto simp: mutate_def)
  from assms w app r q obtain u where "q = Inr u" by (cases q) (auto simp: mutate_def)
  with assms w app r q have sa: "?sa = Some (p2, Inr u)" "d = dir'" "p2 = p'"
    "a = \<lparr>ap_seq = seq, ap_deduplicated = False\<rparr>"
    by (auto simp: mutate_def rbind_eq_Inr)
  from sync_and_apply_Inr [OF sa(1)] sa(2-) w app r show thesis by (intro that [of w w']) simp_all
qed

text \<open>Only admissible operations are ever applied.\<close>

lemma apply_entry_op_ok: "apply_entry ln64 p e = Some (Inr q) \<Longrightarrow> op_ok p (e_operation e)"
  by (auto simp: apply_entry_def apply_upsert_def op_ok_def hnsw_insert_def flat_push_def rbind_eq_Inr
      list_all_iff list_ex_iff split: operation.splits option.splits sum.splits if_splits)

lemma retire_failpoint:
  "retire s p = Some q \<Longrightarrow> pt_failpoint q = pt_failpoint p \<and> pt_snapshot_high_water q = pt_snapshot_high_water p"
  by (auto simp: retire_def bind_eq_Some_conv)

lemma apply_entry_failpoint:
  assumes "apply_entry ln64 p e = Some (Inr q)"
  shows "pt_failpoint q = pt_failpoint p" and "pt_snapshot_high_water q = pt_snapshot_high_water p"
proof -
  obtain p1 where p1: "(case e_operation e of
        Upsert key payload vector \<Rightarrow> apply_upsert ln64 p (e_seq e) key payload vector
      | Delete key \<Rightarrow> apply_delete p key) = Some (Inr p1)"
    "pt_failpoint q = pt_failpoint p1" "pt_snapshot_high_water q = pt_snapshot_high_water p1"
    using assms by (auto simp: apply_entry_def rbind_eq_Inr)
  then have "pt_failpoint p1 = pt_failpoint p \<and> pt_snapshot_high_water p1 = pt_snapshot_high_water p"
    by (auto simp: apply_upsert_def apply_delete_def Let_def dest!: retire_failpoint
        split: operation.splits option.splits sum.splits if_splits prod.splits)
  with p1(2,3) show "pt_failpoint q = pt_failpoint p" "pt_snapshot_high_water q = pt_snapshot_high_water p"
    by simp_all
qed

text \<open>An acknowledged mutation is in the log and in the state, and nothing else changed.\<close>

lemma mutate_ok:
  assumes sv: "serving pf s dir segs p" and room: "has_room p" "log_room s segs"
    and id: "length op_id = 16"
    and m: "mutate pf io dir p op_id operation = Some (dir', p', Inr a)"
  shows "\<exists>segs'. serving pf s dir' segs' p' \<and>
    log_entries segs' = log_entries segs @ [\<lparr>e_seq = ap_seq a, e_op_id = op_id, e_operation = operation\<rparr>] \<and>
    contents p' = spec_apply (pt_metric p) operation (contents p) \<and>
    ap_seq a = pt_high_water p + 1 \<and> \<not> ap_deduplicated a \<and> pt_high_water p' = ap_seq a \<and>
    pt_config p' = pt_config p \<and> pt_metric p' = pt_metric p \<and>
    pt_idem p' = iw_record (pt_idem p) op_id (ap_seq a)"
proof -
  from m obtain w w' where w: "pt_wal p = Some w"
    "append_unsynced (pf_crc pf) io dir w op_id operation = (dir', w', Inr (ap_seq a))"
    and ap: "apply_entry (pf_ln pf) (p\<lparr>pt_wal := Some w'\<rparr>)
      \<lparr>e_seq = ap_seq a, e_op_id = op_id, e_operation = operation\<rparr> = Some (Inr p')"
    and nd: "\<not> ap_deduplicated a" by (rule mutate_Inr)
  from sv w(1) have wf: "part_wf p" and wok: "writer_ok (pf_crc pf) (cfg_id (pt_config p)) s dir segs w"
    and nxt: "ww_next_seq w = pt_high_water p + 1" by (auto simp: serving_def)
  from append_unsynced_ok [OF wok _ id w(2)] room(2) obtain segs' where
    segs': "writer_ok (pf_crc pf) (cfg_id (pt_config p)) s dir' segs' w'" "ap_seq a = ww_next_seq w"
      "log_entries segs' =
        log_entries segs @ [\<lparr>e_seq = ww_next_seq w, e_op_id = op_id, e_operation = operation\<rparr>]"
    by (auto simp: log_room_def)
  have op: "op_ok p operation" using apply_entry_op_ok [OF ap] by simp
  have "\<exists>q. apply_entry (pf_ln pf) (p\<lparr>pt_wal := Some w'\<rparr>)
      \<lparr>e_seq = ap_seq a, e_op_id = op_id, e_operation = operation\<rparr> = Some (Inr q) \<and> part_wf q \<and>
    contents q = spec_apply (pt_metric p) operation (contents p) \<and>
    same_frame (p\<lparr>pt_wal := Some w'\<rparr>) q \<and> pt_idem q = iw_record (pt_idem p) op_id (ap_seq a) \<and>
    pt_high_water q = ap_seq a"
    using apply_entry_ok [of "p\<lparr>pt_wal := Some w'\<rparr>"
        "\<lparr>e_seq = ap_seq a, e_op_id = op_id, e_operation = operation\<rparr>" "pf_ln pf"] wf room(1) op
    by auto
  with ap have p': "part_wf p'" "contents p' = spec_apply (pt_metric p) operation (contents p)"
    "same_frame (p\<lparr>pt_wal := Some w'\<rparr>) p'" "pt_idem p' = iw_record (pt_idem p) op_id (ap_seq a)"
    "pt_high_water p' = ap_seq a" by auto
  moreover have "ww_next_seq w' = ww_next_seq w + 1"
    using segs'(1,3) wok by (simp add: writer_ok_def)
  ultimately show ?thesis
    using segs' nxt nd by (intro exI [of _ segs']) (auto simp: serving_def same_frame_def)
qed

text \<open>A refused mutation either changed nothing, or left the state as it was behind a poisoned
  writer; the log only grew.\<close>

lemma sync_and_apply_Inl:
  assumes sa: "sync_and_apply pf io p seq op_id operation = Some (p2, Inl e)" and w: "pt_wal p = Some w"
  shows "\<exists>w'. p2 = p\<lparr>pt_wal := Some w'\<rparr>"
proof (cases "hit_failpoint p AfterWalAppend")
  case (Inl e)
  with sa w show ?thesis by (intro exI [of _ w]) (auto simp: sync_and_apply_def)
next
  case (Inr u)
  obtain w' r where sync: "wal_sync io w = (w', r)" by (cases "wal_sync io w")
  let ?p1 = "p\<lparr>pt_wal := Some w'\<rparr>"
  let ?ap = "apply_entry (pf_ln pf) ?p1 \<lparr>e_seq = seq, e_op_id = op_id, e_operation = operation\<rparr>"
  show ?thesis
  proof (cases r)
    case Inl
    with sa w Inr sync show ?thesis by (intro exI [of _ w']) (auto simp: sync_and_apply_def)
  next
    case r: (Inr u2)
    show ?thesis
    proof (cases "hit_failpoint ?p1 AfterWalSync")
      case Inl
      with sa w Inr sync r show ?thesis by (intro exI [of _ w']) (auto simp: sync_and_apply_def)
    next
      case hit: (Inr u3)
      with sa w Inr sync r obtain q where q: "?ap = Some q" by (cases ?ap) (auto simp: sync_and_apply_def)
      with sa w Inr sync r hit show ?thesis by (cases q) (auto simp: sync_and_apply_def intro: exI [of _ w'])
    qed
  qed
qed

lemma mutate_Inl:
  assumes m: "mutate pf io dir p op_id operation = Some (dir', p', Inl e)"
    and fp: "pt_failpoint p \<noteq> Some AfterApply"
  shows "dir' = dir \<and> p' = p \<or>
    dir_extends dir dir' \<and> (\<exists>w. p' = p\<lparr>pt_wal := Some w\<rparr> \<and> ww_poisoned w)"
proof -
  obtain w where w: "pt_wal p = Some w" using m by (auto simp: mutate_def bind_eq_Some_conv)
  obtain d w' r where app: "append_unsynced (pf_crc pf) io dir w op_id operation = (d, w', r)"
    by (cases "append_unsynced (pf_crc pf) io dir w op_id operation")
  have ext: "dir_extends dir d" using dir_extends_append [of dir "pf_crc pf" io w op_id operation] app by simp
  show ?thesis
  proof (cases r)
    case (Inl err)
    then have "dir' = d" "p' = p\<lparr>pt_wal := Some w'\<rparr>" using m w app by (simp_all add: mutate_def)
    moreover have "p\<lparr>pt_wal := Some w\<rparr> = p" using w by simp
    ultimately show ?thesis using append_unsynced_err app Inl ext by metis
  next
    case (Inr seq)
    let ?sa = "sync_and_apply pf io (p\<lparr>pt_wal := Some w'\<rparr>) seq op_id operation"
    from m w app Inr obtain p2 q where q: "?sa = Some (p2, q)" by (cases ?sa) (auto simp: mutate_def)
    show ?thesis
    proof (cases q)
      case (Inl err)
      then have p': "dir' = d" "p' = p2\<lparr>pt_wal := map_option poison (pt_wal p2)\<rparr>"
        using m w app Inr q by (simp_all add: mutate_def)
      from sync_and_apply_Inl [of pf io "p\<lparr>pt_wal := Some w'\<rparr>" seq op_id operation p2 err w'] q Inl obtain v where
        "p2 = p\<lparr>pt_wal := Some v\<rparr>" by auto
      with p' have "p' = p\<lparr>pt_wal := Some (poison v)\<rparr>" by simp
      moreover have "ww_poisoned (poison v)" by (simp add: poison_def)
      ultimately show ?thesis using ext p'(1) by blast
    next
      case q2: (Inr u)
      have "apply_entry (pf_ln pf) (p\<lparr>pt_wal := Some w'\<rparr>)
          \<lparr>e_seq = seq, e_op_id = op_id, e_operation = operation\<rparr> = Some (Inr p2)"
        using sync_and_apply_Inr q q2 by blast
      then have "pt_failpoint p2 = pt_failpoint p" by (auto dest!: apply_entry_failpoint(1))
      with m w app Inr q q2 fp show ?thesis by (auto simp: mutate_def hit_failpoint_def)
    qed
  qed
qed

lemma poisoned_frozen:
  assumes "pt_wal p = Some w" and "ww_poisoned w"
  shows "mutate pf io dir p op_id operation = Some (dir, p, Inl (WalErr Poisoned))"
  using assms by (simp add: mutate_def append_unsynced_def)

section \<open>Lemmas: search\<close>

lemma resolve_hit_ok:
  assumes wf: "part_wf p" and s: "hit_id h < hn_len (pt_index p)" "\<not> is_tombstoned (pt_index p) (hit_id h)"
    and d: "hn_dist (pt_index p) q (hit_id h) = Some (hit_distance h)"
  shows "\<exists>r row. resolve_hit p h = Some r \<and> rh_slot r = hit_id h \<and> rh_distance r = hit_distance h \<and>
    slot_for_key p (rh_key r) = Some (rh_slot r) \<and>
    contents p (rh_key r) = Some (row, rh_payload r) \<and> hit_distance h = distance (pt_metric p) q row"
proof -
  let ?s = "hit_id h" and ?slots = "pt_slots p"
  have parts: "hn_len (pt_index p) \<le> 2 ^ 32" "length ?slots = hn_len (pt_index p)"
    "hn_metric (pt_index p) = pt_metric p"
    "rec_tombstone (?slots ! ?s) = is_tombstoned (pt_index p) ?s"
    "rec_key_index (?slots ! ?s) < length (pt_key_table p)"
    and keys: "keys_ok (pt_key_table p) (pt_keys p) ?slots"
    using wf s(1) by (auto simp: part_wf_def hnsw_wf_def graph_ok_def rows_ok_def slots_ok_def config_ok_def)
  have sl: "?s < length ?slots" "?s mod 2 ^ 32 = ?s" using parts s(1) by simp_all
  have "\<not> rec_tombstone (?slots ! ?s)" using parts(4) s(2) by simp
  note k = keys_okD(5) [OF keys sl(1) this]
  obtain row where row: "flat_get (hn_vectors (pt_index p)) ?s = Some row"
    "hit_distance h = distance (pt_metric p) q row"
    using d parts(3) by (auto simp: hn_dist_def)
  let ?r = "\<lparr>rh_key = pt_key_table p ! rec_key_index (?slots ! ?s), rh_distance = hit_distance h,
    rh_payload = rec_payload (?slots ! ?s), rh_slot = ?s\<rparr>"
  have "resolve_hit p h = Some ?r" using sl parts(5) by (simp add: resolve_hit_def index_def Let_def)
  moreover have "slot_for_key p (rh_key ?r) = Some ?s" using k by (simp add: slot_for_key_def)
  ultimately show ?thesis
    using row sl by (intro exI [of _ ?r] exI [of _ row]) (simp add: contents_def index_def)
qed

text \<open>Either route of a filtered search returns ranked live slots of the filter.\<close>

lemma search_routes_ranked:
  assumes wf: "hnsw_wf g" and q: "length query = hn_dims g"
    and b: "\<forall>b. allowed = Some b \<longrightarrow> bitmap_ok b"
  shows "\<exists>P. (case allowed of
        Some b \<Rightarrow> search_filtered g query k ef mode b cutover
      | None \<Rightarrow> search_with g query k ef mode None) = Some (take k (ranked_hits g query P)) \<and>
    (\<forall>s. P s \<longrightarrow> \<not> is_tombstoned g s \<and> (\<forall>b. allowed = Some b \<longrightarrow> rb_contains b s))"
proof (cases allowed)
  case None
  with search_with_ranked [OF wf q, of k ef mode None] show ?thesis by (auto simp: hn_accepts_def)
next
  case (Some b)
  then have ok: "bitmap_ok b" using assms(3) by simp
  have rows: "rows_ok g" using wf by (simp add: hnsw_wf_def graph_ok_def)
  show ?thesis
  proof (cases "k = 0 \<or> rb_is_empty b")
    case True
    then have "search_filtered g query k ef mode b cutover = Some (take k (ranked_hits g query (\<lambda>_. False)))"
      by (simp add: search_filtered_def)
    with Some show ?thesis by (intro exI [of _ "\<lambda>_. False"]) simp
  next
    case False
    show ?thesis
    proof (cases "rb_len b \<le> cutover")
      case True
      with False have "search_filtered g query k ef mode b cutover =
          Some (take k (ranked_hits g query (\<lambda>s. s \<in> set (rb_iter b) \<and> \<not> is_tombstoned g s)))"
        using search_exact_over_ranked [OF rows _ q] ok by (simp add: search_filtered_def bitmap_ok_def)
      with Some ok show ?thesis by (auto simp: bitmap_ok_def)
    next
      case beyond: False
      with False Some search_with_ranked [OF wf q, of k ef mode "Some (rb_contains b)"]
      show ?thesis by (auto simp: hn_accepts_def search_filtered_def)
    qed
  qed
qed

lemma those_map_ok:
  "\<forall>x\<in>set xs. \<exists>y. f x = Some y \<and> R x y \<Longrightarrow> \<exists>ys. those (map f xs) = Some ys \<and> list_all2 R xs ys"
  by (induction xs) auto

lemma list_all2_in_set2: "list_all2 R xs ys \<Longrightarrow> y \<in> set ys \<Longrightarrow> \<exists>x. R x y"
  by (induction rule: list_all2_induct) auto

lemma partition_search_ok:
  assumes wf: "part_wf p" and q: "length query = cfg_dims (pt_config p)" "list_all f32_is_finite query"
    and lim: "k \<le> MAX_K" "ef \<le> MAX_EF" and b: "\<forall>b. allowed = Some b \<longrightarrow> bitmap_ok b"
    and z: "normalizes (pt_metric p) \<longrightarrow> fst (normalize query)"
    and q': "q' = (if normalizes (pt_metric p) then snd (normalize query) else query)"
  shows "\<exists>hs hits. partition_search p query k ef allowed = Some (Inr hits) \<and> length hs \<le> k \<and>
    sorted_wrt (\<lambda>a b. cmp_rank a b = Less) hs \<and>
    list_all2 (\<lambda>h r. rh_slot r = hit_id h \<and> rh_distance r = hit_distance h) hs hits \<and>
    (\<forall>r\<in>set hits. \<exists>row. slot_for_key p (rh_key r) = Some (rh_slot r) \<and>
       contents p (rh_key r) = Some (row, rh_payload r) \<and>
       rh_distance r = distance (pt_metric p) q' row \<and>
       (\<forall>b. allowed = Some b \<longrightarrow> rb_contains b (rh_slot r)))"
proof -
  let ?g = "pt_index p"
  have g: "hnsw_wf ?g" "hn_dims ?g = cfg_dims (pt_config p)" using wf by (simp_all add: part_wf_def config_ok_def)
  have len: "length q' = hn_dims ?g" using q(1) g(2) by (simp add: q')
  obtain P where P: "(case allowed of
        Some b \<Rightarrow> search_filtered ?g q' k ef (int8_default k) b (filter_cutover ef)
      | None \<Rightarrow> search_with ?g q' k ef (int8_default k) None) = Some (take k (ranked_hits ?g q' P))"
    "\<forall>s. P s \<longrightarrow> \<not> is_tombstoned ?g s \<and> (\<forall>b. allowed = Some b \<longrightarrow> rb_contains b s)"
    using search_routes_ranked [OF g(1) len b] by blast
  let ?hs = "take k (ranked_hits ?g q' P)"
  let ?R = "\<lambda>h r. rh_slot r = hit_id h \<and> rh_distance r = hit_distance h \<and>
      slot_for_key p (rh_key r) = Some (rh_slot r) \<and>
      (\<exists>row. contents p (rh_key r) = Some (row, rh_payload r) \<and>
         hit_distance h = distance (pt_metric p) q' row) \<and> (\<forall>b. allowed = Some b \<longrightarrow> rb_contains b (rh_slot r))"
  have "\<forall>h\<in>set ?hs. \<exists>r. resolve_hit p h = Some r \<and> ?R h r"
  proof
    fix h assume "h \<in> set ?hs"
    then have h: "hit_id h < hn_len ?g" "P (hit_id h)" "hn_dist ?g q' (hit_id h) = Some (hit_distance h)"
      using ranked_hits_ok(2) by (auto dest!: in_set_takeD)
    then have "\<not> is_tombstoned ?g (hit_id h)" using P(2) by blast
    from resolve_hit_ok [OF wf h(1) this h(3)] P(2) h(2) show "\<exists>r. resolve_hit p h = Some r \<and> ?R h r"
      by fastforce
  qed
  then obtain hits where hits: "those (map (resolve_hit p) ?hs) = Some hits" "list_all2 ?R ?hs hits"
    using those_map_ok [of ?hs "resolve_hit p" ?R] by blast
  have "(if normalizes (pt_metric p) then normalize query else (True, query)) = (True, q')"
    using z by (cases "normalize query") (auto simp: q')
  moreover have "\<not> list_ex (\<lambda>v. \<not> f32_is_finite v) query" using q(2) by (auto simp: list_ex_iff list_all_iff)
  ultimately have "partition_search p query k ef allowed = Some (Inr hits)"
    using q(1) lim P(1) hits(1) by (simp add: partition_search_def)
  moreover have "list_all2 (\<lambda>h r. rh_slot r = hit_id h \<and> rh_distance r = hit_distance h) ?hs hits"
    using hits(2) by (rule list_all2_mono) blast
  moreover have "\<forall>r\<in>set hits. \<exists>row. slot_for_key p (rh_key r) = Some (rh_slot r) \<and>
       contents p (rh_key r) = Some (row, rh_payload r) \<and> rh_distance r = distance (pt_metric p) q' row \<and>
       (\<forall>b. allowed = Some b \<longrightarrow> rb_contains b (rh_slot r))"
  proof
    fix r assume "r \<in> set hits"
    from list_all2_in_set2 [OF hits(2) this] show "\<exists>row. slot_for_key p (rh_key r) = Some (rh_slot r) \<and>
       contents p (rh_key r) = Some (row, rh_payload r) \<and> rh_distance r = distance (pt_metric p) q' row \<and>
       (\<forall>b. allowed = Some b \<longrightarrow> rb_contains b (rh_slot r))" by auto
  qed
  moreover have "sorted_wrt (\<lambda>a b. cmp_rank a b = Less) ?hs"
    by (rule sorted_wrt_take [OF ranked_hits_ok(1)])
  ultimately show ?thesis by (intro exI [of _ ?hs] exI [of _ hits]) simp
qed

end
