(* ===== verification/Wal_Recovery.thy ===== *)
theory Wal_Recovery
  imports Wal_Writer
begin

text \<open>
  Reading a log back: a directory that holds a chain of segments lists them in order, reads each as
  its entries, and is opened for appending exactly at its end.
\<close>

definition segment_names :: "(u64 \<times> entry list) list \<Rightarrow> (u64 \<times> path) list" where
  "segment_names segs = map (\<lambda>(f, _). (f, segment_name f)) segs"

lemma collect_segment_names:
  "collect_segments (map (segment_name \<circ> fst) segs) = Inr (segment_names segs)"
  by (induction segs)
    (auto simp: segment_names_def segment_name_def strip_suffix_append parse_fmt_020)

lemma list_segments_log:
  assumes "log_ok crc pid s dir segs"
  shows "list_segments dir = Inr (segment_names segs)"
proof -
  have "sorted_wrt (<) (map (unat \<circ> fst) segs)"
    using assms by (auto simp: log_ok_def intro: chain_sorted)
  then have "sorted_wrt (<) (map (\<lambda>(f, p). (unat f, p)) (segment_names segs))"
    by (auto simp: segment_names_def sorted_wrt_map case_prod_beta less_prod_def elim: sorted_wrt_mono_rel [rotated])
  then have "sorted (map (\<lambda>(f, p). (unat f, p)) (segment_names segs))"
    by (rule strict_sorted_imp_sorted)
  then have "sort_key (\<lambda>(f, p). (unat f, p)) (segment_names segs) = segment_names segs"
    by (rule sort_key_id_if_sorted)
  then show ?thesis
    using log_ok_names(1) [OF assms] collect_segment_names [of segs] by (simp add: list_segments_def)
qed

lemma log_ok_content:
  assumes "log_ok crc pid s dir segs" and "(f, es) \<in> set segs"
  shows "\<exists>c. map_of dir (segment_name f) = Some c \<and> seg_content crc pid (f, es) c"
proof -
  have l2: "list_all2 (\<lambda>(p, c) seg. p = segment_name (fst seg) \<and> seg_content crc pid seg c) dir segs"
    using assms(1) by (simp add: log_ok_def)
  obtain i where i: "i < length segs" "segs ! i = (f, es)" using assms(2) by (auto simp: in_set_conv_nth)
  obtain p c where pc: "dir ! i = (p, c)" by (cases "dir ! i")
  have "p = segment_name f" "seg_content crc pid (f, es) c" "(p, c) \<in> set dir"
    using list_all2_nthD2 [OF l2 i(1)] i list_all2_lengthD [OF l2] pc nth_mem [of i dir] by auto
  with log_ok_names(2) [OF assms(1)] show ?thesis by auto
qed

lemma seg_content_last:
  assumes "seg_content crc pid (f, es) c" and "es \<noteq> []"
  shows "e_seq (last es) = f + word_of_nat (length es) - 1"
proof -
  have "consecutive f es" using assms(1) by (auto simp: seg_content_def)
  then show ?thesis using consecutive_last [of f es] assms(2) by simp
qed

text \<open>Opening a log at its last sequence number gives a writer at its end; a full last segment is
  followed by a new one.\<close>

lemma open_extend_log:
  assumes ok: "log_ok crc pid s dir (gs @ [(f, es)])"
    and seq: "last_seq + 1 = s + word_of_nat (length (log_entries (gs @ [(f, es)])))"
    and c: "map_of dir (segment_name f) = Some c"
  shows "open_extend crc dir pid last_seq =
    Inr (if length c < SEGMENT_ROTATE_BYTES then Some (segment_name f, length c) else None)"
proof -
  let ?segs = "gs @ [(f, es)]"
  have ch: "chain s ?segs" and pid: "length pid = 16" and
    tot: "unat s + length (log_entries ?segs) < 2 ^ 64" using ok by (auto simp: log_ok_def)
  have un: "unat (last_seq + 1) = unat s + length (log_entries ?segs)"
    using unat_advance [of s "length (log_entries ?segs)" 0] tot by (simp add: seq)
  have "unat f \<le> unat (last_seq + 1)" using chain_bounds [OF ch tot, of f] un by simp
  then have le: "f \<le> last_seq + 1" by (simp add: word_le_nat_alt)
  obtain c' where "map_of dir (segment_name f) = Some c'" "seg_content crc pid (f, es) c'"
    using log_ok_content [OF ok, of f es] by auto
  then have sc: "seg_content crc pid (f, es) c" using c by simp
  have end_seq: "f + word_of_nat (length es) = last_seq + 1" using chain_extend(2) [OF ch] seq by simp
  have "(case sr_last_seq \<lparr>sr_entries = es, sr_torn_tail = None\<rparr> of None \<Rightarrow> f - 1 | Some s \<Rightarrow> s) = last_seq"
    using end_seq seg_content_last [OF sc] by (cases "es = []") (simp_all add: sr_last_seq_def)
  moreover have "last (segment_names ?segs) = (f, segment_name f)" "segment_names ?segs \<noteq> []"
    by (simp_all add: segment_names_def)
  ultimately show ?thesis
    using c le seg_content_read [OF sc pid]
    by (simp add: open_extend_def list_segments_log [OF ok] Let_def)
qed

lemma wal_open_log:
  assumes ok: "log_ok crc pid s dir segs" and ne: "segs \<noteq> []"
    and seq: "last_seq + 1 = s + word_of_nat (length (log_entries segs))"
  shows "\<exists>dir' w segs'. wal_open crc CreateOk dir pid last_seq = (dir', Inr w) \<and>
    writer_ok crc pid s dir' segs' w \<and> log_entries segs' = log_entries segs"
proof -
  obtain gs f es where gs: "segs = gs @ [(f, es)]" using ne by (cases segs rule: rev_cases) auto
  have l2: "list_all2 (\<lambda>(p, c) seg. p = segment_name (fst seg) \<and> seg_content crc pid seg c) dir segs"
    using ok by (simp add: log_ok_def)
  then obtain d c where d: "dir = d @ [(segment_name f, c)]"
    unfolding gs by (auto simp: list_all2_append2 list_all2_Cons2)
  have c: "map_of dir (segment_name f) = Some c"
    using update_last(2) [of d "segment_name f" c] log_ok_names(2) [OF ok] by (simp add: d)
  note ext = open_extend_log [OF ok [unfolded gs] _ c, of last_seq]
  let ?w = "\<lparr>ww_partition_id = pid, ww_path = segment_name f, ww_bytes = length c,
      ww_next_seq = last_seq + 1, ww_poisoned = False\<rparr>"
  have at_end: "writer_ok crc pid s dir segs ?w" using ok ne seq by (simp add: writer_ok_def d)
  show ?thesis
  proof (cases "length c < SEGMENT_ROTATE_BYTES")
    case True
    then have "wal_open crc CreateOk dir pid last_seq = (dir, Inr ?w)"
      using ext seq by (simp add: wal_open_def gs)
    with at_end show ?thesis by blast
  next
    case False
    let ?io = "\<lparr>io_seal = True, io_create = CreateOk, io_reopen = True, io_write = None, io_sync = True\<rparr>"
    let ?d = "AList.update (segment_name (last_seq + 1)) (encode_header pid (last_seq + 1)) dir"
    let ?w' = "?w\<lparr>ww_path := segment_name (last_seq + 1), ww_bytes := HEADER_LEN\<rparr>"
    have "segment_name (last_seq + 1) \<notin> fst ` set dir"
      using next_segment_fresh(1) [OF at_end] False by simp
    then have cr: "create_segment CreateOk dir pid (last_seq + 1) = (?d, Inr (segment_name (last_seq + 1)))"
      by (simp add: create_segment_def map_of_fresh [symmetric] Let_def)
    then have "rotate ?io dir ?w = (?d, ?w', Inr ())" by (simp add: rotate_def)
    from rotate_ok [OF at_end _ this] False obtain segs' where
      "writer_ok crc pid s ?d segs' ?w'" "log_entries segs' = log_entries segs" by auto
    moreover have "wal_open crc CreateOk dir pid last_seq = (?d, Inr ?w')"
      using ext seq False cr by (simp add: wal_open_def gs)
    ultimately show ?thesis by blast
  qed
qed

text \<open>An empty directory is opened with a first segment.\<close>

lemma wal_open_empty:
  assumes "wal_open crc io [] pid last_seq = (dir', Inr w)" and "length pid = 16"
  shows "writer_ok crc pid (last_seq + 1) dir' [(last_seq + 1, [])] w"
  using assms unat_bound [of "last_seq + 1"]
  by (auto simp: wal_open_def open_extend_def list_segments_def create_segment_def Let_def writer_ok_def
      log_ok_def seg_content_empty split: create_io.splits)

end
