(* ===== verification/Partition_Recover.thy ===== *)
theory Partition_Recover
  imports Partition_Ops Wal_Recovery
begin

text \<open>
  Creating, recovering and opening a partition, and writing its snapshots (\<open>partition.rs\<close>).
  Recovery loads the newest snapshot that verifies, replays the entries of the log after it exactly
  once and in order, and refuses to serve when the log does not reach the snapshot.
\<close>

section \<open>The directory of a partition\<close>

text \<open>The manifest, the two subdirectories, and whether some owner holds the lock.\<close>

record part_dir =
  pd_manifest :: "bytes option"
  pd_wal :: wal_dir
  pd_snap :: wal_dir
  pd_locked :: bool

record recovery_report =
  rr_partition_id :: uuid
  rr_snapshot_used :: "path option"
  rr_snapshot_high_water :: u64
  rr_snapshots_rejected :: "(path \<times> snapshot_error) list"
  rr_wal_segments_read :: nat
  rr_wal_entries_replayed :: nat
  rr_wal_entries_skipped :: nat
  rr_torn_tails_truncated :: "(path \<times> nat) list"
  rr_torn_tail_found :: "(path \<times> nat) option"
  rr_high_water :: u64

definition report_new :: "uuid \<Rightarrow> recovery_report" where
  "report_new pid =
     \<lparr>rr_partition_id = pid, rr_snapshot_used = None, rr_snapshot_high_water = 0,
      rr_snapshots_rejected = [], rr_wal_segments_read = 0, rr_wal_entries_replayed = 0,
      rr_wal_entries_skipped = 0, rr_torn_tails_truncated = [], rr_torn_tail_found = None,
      rr_high_water = 0\<rparr>"

definition part_lock :: "path \<Rightarrow> part_dir \<Rightarrow> partition_error + part_dir" where
  "part_lock directory d = (if pd_locked d then Inl (Locked directory) else Inr (d\<lparr>pd_locked := True\<rparr>))"

section \<open>Creating\<close>

text \<open>What happened to the manifest: nothing under its name, renamed but the directory not synced,
  or durable.\<close>

datatype manifest_io = ManifestFail | ManifestUnsynced | ManifestOk

definition part_create ::
  "platform \<Rightarrow> manifest_io \<Rightarrow> create_io \<Rightarrow> path \<Rightarrow> part_dir \<Rightarrow> partition_config \<Rightarrow>
     part_dir \<times> (partition_error + partition)" where
  "part_create pf mio cio directory d config =
     (case cfg_validate config of
        Inl e \<Rightarrow> (d, Inl e)
      | Inr _ \<Rightarrow>
          (case cfg_parse_metric config of
             Inl e \<Rightarrow> (d, Inl e)
           | Inr metric \<Rightarrow>
               (case part_lock directory d of
                  Inl e \<Rightarrow> (d, Inl e)
                | Inr d1 \<Rightarrow>
                    if pd_manifest d \<noteq> None then (d, Inl (AlreadyExists directory))
                    else if mio = ManifestFail then (d, Inl PartIo)
                    else let d2 = d1\<lparr>pd_manifest := Some (pf_to_json pf config)\<rparr>
                         in if mio = ManifestUnsynced then (d2\<lparr>pd_locked := pd_locked d\<rparr>, Inl PartIo)
                            else (case wal_open (pf_crc pf) cio (pd_wal d2) (cfg_id config) 0 of
                                    (wdir, Inl e) \<Rightarrow>
                                      (d2\<lparr>pd_wal := wdir, pd_locked := pd_locked d\<rparr>, Inl (WalErr e))
                                  | (wdir, Inr w) \<Rightarrow>
                                      (d2\<lparr>pd_wal := wdir\<rparr>,
                                       Inr ((fresh_state config metric)\<lparr>pt_wal := Some w\<rparr>))))))"

section \<open>Recovering\<close>

fun load_newest ::
  "platform \<Rightarrow> uuid \<Rightarrow> wal_dir \<Rightarrow> (u64 \<times> path) list \<Rightarrow>
     loaded_snapshot option \<times> (path \<times> snapshot_error) list" where
  "load_newest pf pid dir [] = (None, [])"
| "load_newest pf pid dir ((_, path) # rest) =
     (case (case map_of dir path of
              None \<Rightarrow> Inl SnapIo
            | Some bs \<Rightarrow> snapshot_load (pf_crc pf) (pf_blake3 pf) (pf_cast pf) (pf_addr pf) path bs pid) of
        Inr ls \<Rightarrow> (Some ls, [])
      | Inl e \<Rightarrow> (case load_newest pf pid dir rest of (found, rejected) \<Rightarrow> (found, (path, e) # rejected)))"

definition NO_SLOT :: nat where
  "NO_SLOT = 2 ^ 32 - 1"

fun index_keys :: "nat \<Rightarrow> (bytes \<times> nat) list \<Rightarrow> (bytes \<rightharpoonup> nat \<times> nat option) \<Rightarrow> (bytes \<rightharpoonup> nat \<times> nat option)" where
  "index_keys i [] keys = keys"
| "index_keys i ((key, live) # rest) keys =
     index_keys (Suc i) rest
       (keys(key \<mapsto> (i mod 2 ^ 32, if live \<noteq> NO_SLOT then Some live else None)))"

definition restore_state ::
  "partition_config \<Rightarrow> metric \<Rightarrow> loaded_snapshot \<Rightarrow> partition_error + partition" where
  "restore_state config metric ls =
     (if ls_dims ls \<noteq> cfg_dims config \<or> ls_metric ls \<noteq> metric
      then Inl (Manifest ''snapshot disagrees with manifest'')
      else if ls_params ls \<noteq> cfg_params config
      then Inl (Manifest ''snapshot graph parameters disagree with manifest'')
      else rbind (ok_or (SnapErr (SnapMalformed ''graph shape''))
                   (hnsw_from_parts (ls_params ls) metric (ls_vectors ls) (ls_quantized ls) (ls_graph ls)))
             (\<lambda>ix. Inr
                \<lparr>pt_config = config, pt_metric = metric, pt_index = ix,
                 pt_key_table = map fst (ls_keys ls), pt_keys = index_keys 0 (ls_keys ls) Map.empty,
                 pt_slots = ls_slots ls,
                 pt_idem = iw_restore (cfg_idempotency_window config) (ls_idempotency ls),
                 pt_wal = None, pt_high_water = ls_high_water ls,
                 pt_snapshot_high_water = ls_high_water ls, pt_failpoint = None\<rparr>))"

fun replay_entries ::
  "platform \<Rightarrow> path \<Rightarrow> entry list \<Rightarrow> partition \<Rightarrow> recovery_report \<Rightarrow>
     (partition_error + partition \<times> recovery_report) option" where
  "replay_entries pf path [] p report = Some (Inr (p, report))"
| "replay_entries pf path (e # es) p report =
     (if e_seq e \<le> pt_high_water p
      then replay_entries pf path es p
             (report\<lparr>rr_wal_entries_skipped := rr_wal_entries_skipped report + 1\<rparr>)
      else if e_seq e \<noteq> pt_high_water p + 1
      then Some (Inl (WalErr (SequenceGap path (pt_high_water p + 1) (e_seq e))))
      else case apply_entry (pf_ln pf) p e of
             None \<Rightarrow> None
           | Some (Inl err) \<Rightarrow> Some (Inl err)
           | Some (Inr p1) \<Rightarrow> replay_entries pf path es p1
               (report\<lparr>rr_wal_entries_replayed := rr_wal_entries_replayed report + 1\<rparr>))"

text \<open>What the pass over the segments carries: the state, the report, whether some segment covers
  the next sequence, and the last sequence of the log.\<close>

record replay_state =
  rs_part :: partition
  rs_report :: recovery_report
  rs_saw_history :: bool
  rs_wal_end :: "u64 option"

definition replay_segment ::
  "platform \<Rightarrow> wal_dir \<Rightarrow> uuid \<Rightarrow> bool \<Rightarrow> u64 \<times> path \<Rightarrow> replay_state \<Rightarrow>
     (partition_error + replay_state) option" where
  "replay_segment pf dir pid active seg st =
     (let (first_seq, path) = seg; p = rs_part st;
          report = (rs_report st)\<lparr>rr_wal_segments_read := rr_wal_segments_read (rs_report st) + 1\<rparr>
      in case (case map_of dir path of
                 None \<Rightarrow> Inl WalIo
               | Some bs \<Rightarrow> read_segment (pf_crc pf) path bs pid active) of
           Inl e \<Rightarrow> Some (Inl (WalErr e))
         | Inr r \<Rightarrow>
             let report1 = (case sr_torn_tail r of
                   None \<Rightarrow> report
                 | Some (offset, _) \<Rightarrow> report\<lparr>rr_torn_tail_found := Some (path, offset)\<rparr>);
                 saw = (rs_saw_history st \<or> first_seq \<le> pt_high_water p + 1);
                 end_seq = (case sr_last_seq r of
                       Some s \<Rightarrow> s
                     | None \<Rightarrow> if first_seq = 0 then 0 else first_seq - 1);
                 wal_end = (case rs_wal_end st of None \<Rightarrow> end_seq | Some seen \<Rightarrow> max seen end_seq)
             in map_option (\<lambda>res. rbind res (\<lambda>(p1, report2).
                    Inr \<lparr>rs_part = p1, rs_report = report2, rs_saw_history = saw,
                         rs_wal_end = Some wal_end\<rparr>))
                  (replay_entries pf path (sr_entries r) p report1))"

fun replay_segments ::
  "platform \<Rightarrow> wal_dir \<Rightarrow> uuid \<Rightarrow> (u64 \<times> path) list \<Rightarrow> replay_state \<Rightarrow>
     (partition_error + replay_state) option" where
  "replay_segments pf dir pid [] st = Some (Inr st)"
| "replay_segments pf dir pid (seg # segs) st =
     (case replay_segment pf dir pid (segs = []) seg st of
        None \<Rightarrow> None
      | Some (Inl e) \<Rightarrow> Some (Inl e)
      | Some (Inr st1) \<Rightarrow> replay_segments pf dir pid segs st1)"

definition replay_log ::
  "platform \<Rightarrow> wal_dir \<Rightarrow> partition \<Rightarrow> recovery_report \<Rightarrow>
     (partition_error + partition \<times> recovery_report) option" where
  "replay_log pf dir p report =
     (case list_segments dir of
        Inl e \<Rightarrow> Some (Inl (WalErr e))
      | Inr segments \<Rightarrow>
          map_option (\<lambda>res. rbind res (\<lambda>st.
              if \<not> rs_saw_history st \<or>
                 (case rs_wal_end st of None \<Rightarrow> False
                  | Some e \<Rightarrow> e < rr_snapshot_high_water (rs_report st))
              then Inl (MissingHistory (rr_snapshot_high_water (rs_report st))
                     (if segments = [] then None else Some (fst (hd segments))))
              else Inr (rs_part st, (rs_report st)\<lparr>rr_high_water := pt_high_water (rs_part st)\<rparr>)))
            (replay_segments pf dir (cfg_id (pt_config p)) segments
               \<lparr>rs_part = p, rs_report = report,
                rs_saw_history = (pt_high_water p = 0 \<and> segments = []), rs_wal_end = None\<rparr>))"

text \<open>The state before the log is replayed: the newest verifiable snapshot, or nothing.\<close>

definition recover_base :: "platform \<Rightarrow> part_dir \<Rightarrow> partition_error + partition \<times> recovery_report" where
  "recover_base pf d =
     rbind (ok_or PartIo (pd_manifest d)) (\<lambda>json.
     rbind (ok_or JsonErr (pf_of_json pf json)) (\<lambda>config.
     rbind (cfg_validate config) (\<lambda>_.
     rbind (cfg_parse_metric config) (\<lambda>metric.
       let (loaded, rejected) = load_newest pf (cfg_id config) (pd_snap d) (snapshot_list (pd_snap d));
           report = (report_new (cfg_id config))\<lparr>rr_snapshots_rejected := rejected\<rparr>
       in case loaded of
            None \<Rightarrow>
              if cfg_base_snapshot config then Inl (BaseSnapshotUnavailable (length rejected))
              else Inr (fresh_state config metric, report)
          | Some ls \<Rightarrow>
              rbind (restore_state config metric ls) (\<lambda>p.
                Inr (p, report\<lparr>rr_snapshot_used := Some (ls_path ls),
                               rr_snapshot_high_water := ls_high_water ls\<rparr>))))))"

definition recover ::
  "platform \<Rightarrow> part_dir \<Rightarrow> (partition_error + partition \<times> recovery_report) option" where
  "recover pf d =
     (case recover_base pf d of
        Inl e \<Rightarrow> Some (Inl e)
      | Inr (p, report) \<Rightarrow> replay_log pf (pd_wal d) p report)"

section \<open>Opening and inspecting\<close>

definition part_open ::
  "platform \<Rightarrow> create_io \<Rightarrow> path \<Rightarrow> part_dir \<Rightarrow>
     (part_dir \<times> (partition_error + partition \<times> recovery_report)) option" where
  "part_open pf cio directory d =
     (case part_lock directory d of
        Inl e \<Rightarrow> Some (d, Inl e)
      | Inr d1 \<Rightarrow>
          map_option (\<lambda>recovered. case recovered of
              Inl e \<Rightarrow> (d, Inl e)
            | Inr (p, report) \<Rightarrow>
                (case (case rr_torn_tail_found report of
                         None \<Rightarrow> Inr (pd_wal d1, report)
                       | Some (path, offset) \<Rightarrow>
                           rbind (truncate_torn_tail (pd_wal d1) path offset) (\<lambda>wdir.
                             Inr (wdir, report\<lparr>rr_torn_tail_found := None,
                               rr_torn_tails_truncated :=
                                 rr_torn_tails_truncated report @ [(path, offset)]\<rparr>))) of
                   Inl e \<Rightarrow> (d, Inl (WalErr e))
                 | Inr (wdir, report1) \<Rightarrow>
                     (case wal_open (pf_crc pf) cio wdir (cfg_id (pt_config p)) (pt_high_water p) of
                        (wdir1, Inl e) \<Rightarrow> (d\<lparr>pd_wal := wdir1\<rparr>, Inl (WalErr e))
                      | (wdir1, Inr w) \<Rightarrow>
                          (d1\<lparr>pd_wal := wdir1\<rparr>, Inr (p\<lparr>pt_wal := Some w\<rparr>, report1)))))
            (recover pf d1))"

definition inspect :: "platform \<Rightarrow> part_dir \<Rightarrow> (partition_error + recovery_report) option" where
  "inspect pf d = map_option (\<lambda>r. rbind r (\<lambda>(_, report). Inr report)) (recover pf d)"

section \<open>Lemmas: replay\<close>

lemma apply_entry_high_water: "apply_entry ln64 p e = Some (Inr q) \<Longrightarrow> pt_high_water q = e_seq e"
  by (auto simp: apply_entry_def rbind_eq_Inr)

lemma apply_all_high_water:
  "apply_all ln64 es p = Some (Inr q) \<Longrightarrow> pt_high_water q = (if es = [] then pt_high_water p else e_seq (last es))"
proof (induction es arbitrary: p)
  case (Cons e es)
  then obtain p1 where "apply_entry ln64 p e = Some (Inr p1)" "apply_all ln64 es p1 = Some (Inr q)"
    by (auto split: option.splits sum.splits)
  with Cons.IH [of p1] show ?case by (simp add: apply_entry_high_water)
qed simp

lemma apply_all_appendD:
  "apply_all ln64 (xs @ ys) p = Some (Inr q) \<Longrightarrow>
     \<exists>r. apply_all ln64 xs p = Some (Inr r) \<and> apply_all ln64 ys r = Some (Inr q)"
  by (auto simp: apply_all_append split: option.splits sum.splits)

text \<open>The fields of a report that replay leaves alone.\<close>

text \<open>The state recovery starts from was saved as it is.\<close>

lemma recover_base_saved:
  assumes "recover_base pf d = Inr (b, report)"
  shows "pt_snapshot_high_water b = pt_high_water b"
proof -
  obtain json config where j: "pd_manifest d = Some json" "pf_of_json pf json = Some config"
    using assms by (cases "pd_manifest d"; cases "pf_of_json pf (the (pd_manifest d))")
      (auto simp: recover_base_def)
  obtain u metric where m: "cfg_validate config = Inr u" "cfg_parse_metric config = Inr metric"
    using assms j by (cases "cfg_validate config"; cases "cfg_parse_metric config") (auto simp: recover_base_def)
  obtain loaded rejected where l:
    "load_newest pf (cfg_id config) (pd_snap d) (snapshot_list (pd_snap d)) = (loaded, rejected)"
    by (cases "load_newest pf (cfg_id config) (pd_snap d) (snapshot_list (pd_snap d))")
  show ?thesis
  proof (cases loaded)
    case None
    then show ?thesis using assms j m l by (auto simp: recover_base_def fresh_state_def split: if_splits)
  next
    case (Some ls)
    then have "restore_state config metric ls = Inr b"
      using assms j m l by (auto simp: recover_base_def rbind_eq_Inr)
    then show ?thesis by (auto simp: restore_state_def rbind_eq_Inr split: if_splits)
  qed
qed

lemma apply_all_saved:
  "apply_all ln64 es p = Some (Inr q) \<Longrightarrow> pt_snapshot_high_water q = pt_snapshot_high_water p"
proof (induction es arbitrary: p)
  case (Cons e es)
  then show ?case by (auto dest: apply_entry_failpoint(2) split: option.splits sum.splits)
qed simp

definition same_base :: "recovery_report \<Rightarrow> recovery_report \<Rightarrow> bool" where
  "same_base r r' \<longleftrightarrow>
     rr_snapshot_high_water r' = rr_snapshot_high_water r \<and> rr_torn_tail_found r' = rr_torn_tail_found r"

lemma replay_entries_ok:
  assumes "consecutive s es" and "unat s + length es < 2 ^ 64"
    and "unat s \<le> unat (pt_high_water p) + 1"
    and "apply_all (pf_ln pf) (drop (unat (pt_high_water p) + 1 - unat s) es) p = Some (Inr p')"
  shows "\<exists>report'. replay_entries pf path es p report = Some (Inr (p', report')) \<and> same_base report report'"
  using assms
proof (induction es arbitrary: s p report)
  case Nil
  then show ?case by (simp add: same_base_def)
next
  case (Cons e es)
  let ?hw = "pt_high_water p"
  have e: "e_seq e = s" "consecutive (s + 1) es" using Cons.prems(1) by simp_all
  have s1: "unat (s + 1) = unat s + 1" using unat_advance [of s 1 "length es"] Cons.prems(2) by simp
  show ?case
  proof (cases "s \<le> ?hw")
    case True
    then have le: "unat s \<le> unat ?hw" by (simp add: word_le_nat_alt)
    then obtain n where n: "unat ?hw + 1 - unat s = Suc n" "n = unat ?hw + 1 - unat (s + 1)"
      using s1 by (metis Suc_diff_le Suc_eq_plus1 diff_Suc_Suc)
    have "apply_all (pf_ln pf) (drop (unat ?hw + 1 - unat (s + 1)) es) p = Some (Inr p')"
      using Cons.prems(4) n by simp
    with Cons.IH [OF e(2) _ _ this, of "report\<lparr>rr_wal_entries_skipped := rr_wal_entries_skipped report + 1\<rparr>"]
      Cons.prems(2) s1 le True e(1)
    show ?thesis by (auto simp: same_base_def)
  next
    case False
    then have gt: "unat ?hw < unat s" by (simp add: word_le_nat_alt)
    then have eq: "unat s = unat ?hw + 1" using Cons.prems(3) by simp
    moreover have "unat (?hw + 1) = unat ?hw + 1"
      using unat_advance [of ?hw 1 0] eq unat_bound [of s] by simp
    ultimately have "?hw + 1 = s" by (simp add: unsigned_word_eqI [where ?'a = nat])
    from Cons.prems(4) eq obtain p1 where p1: "apply_entry (pf_ln pf) p e = Some (Inr p1)"
      "apply_all (pf_ln pf) es p1 = Some (Inr p')" by (auto split: option.splits sum.splits)
    have hw1: "pt_high_water p1 = s" using apply_entry_high_water [OF p1(1)] e(1) by simp
    have "apply_all (pf_ln pf) (drop (unat (pt_high_water p1) + 1 - unat (s + 1)) es) p1 = Some (Inr p')"
      using p1(2) hw1 s1 by simp
    with Cons.IH [OF e(2) _ _ this, of "report\<lparr>rr_wal_entries_replayed := rr_wal_entries_replayed report + 1\<rparr>"]
      Cons.prems(2) s1 hw1 False e(1) p1(1) \<open>?hw + 1 = s\<close>
    show ?thesis by (auto simp: same_base_def)
  qed
qed

lemma unat_last_seq:
  assumes "0 < unat s" and "unat s + n < 2 ^ 64"
  shows "unat (s + word_of_nat n - 1 :: u64) = unat s + n - 1"
proof -
  have "unat (s + word_of_nat n) = unat s + n" using unat_advance [of s n 0] assms(2) by simp
  moreover from this assms(1) have "s + word_of_nat n \<noteq> 0" by (metis add_gr_0 unat_0_iff less_irrefl)
  ultimately show ?thesis by (simp add: unat_minus_one)
qed

text \<open>One segment of a log, none of it torn.\<close>

lemma replay_segment_ok:
  assumes sc: "seg_content (pf_crc pf) pid (f, es) c" and pid: "length pid = 16"
    and c: "map_of dir (segment_name f) = Some c" and f: "0 < unat f" "unat f + length es < 2 ^ 64"
    and hw: "unat f \<le> unat (pt_high_water (rs_part st)) + 1" "unat (pt_high_water (rs_part st)) + 1 < 2 ^ 64"
    and ap: "apply_all (pf_ln pf) (drop (unat (pt_high_water (rs_part st)) + 1 - unat f) es) (rs_part st)
      = Some (Inr p')"
  shows "\<exists>st'. replay_segment pf dir pid active (f, segment_name f) st = Some (Inr st') \<and> rs_part st' = p' \<and>
    same_base (rs_report st) (rs_report st') \<and> rs_saw_history st' \<and>
    (\<exists>n. rs_wal_end st' = Some n \<and> unat f + length es \<le> unat n + 1)"
proof -
  let ?r = "(rs_report st)\<lparr>rr_wal_segments_read := rr_wal_segments_read (rs_report st) + 1\<rparr>"
  have con: "consecutive f es" using sc by (auto simp: seg_content_def)
  obtain report' where rep: "replay_entries pf (segment_name f) es (rs_part st) ?r = Some (Inr (p', report'))"
    "same_base ?r report'" using replay_entries_ok [OF con f(2) hw(1) ap] by blast
  let ?fin = "case sr_last_seq \<lparr>sr_entries = es, sr_torn_tail = None\<rparr> of
      Some s \<Rightarrow> s | None \<Rightarrow> if f = 0 then 0 else f - 1"
  note fe = unat_last_seq [OF f]
  have fin_eq: "?fin = f + word_of_nat (length es) - 1"
    using seg_content_last [OF sc] f(1) by (cases "es = []") (auto simp: sr_last_seq_def)
  define n where "n = (case rs_wal_end st of None \<Rightarrow> ?fin | Some seen \<Rightarrow> max seen ?fin)"
  have "unat ?fin \<le> unat n" by (auto simp: n_def max_def word_le_nat_alt split: option.splits)
  then have "unat f + length es \<le> unat n + 1" using fe f(1) by (simp add: fin_eq)
  moreover have "f \<le> pt_high_water (rs_part st) + 1"
    using hw unat_advance [of "pt_high_water (rs_part st)" 1 0] by (simp add: word_le_nat_alt)
  ultimately show ?thesis
    using rep seg_content_read [OF sc pid, of active] c
    by (simp add: replay_segment_def Let_def n_def same_base_def)
qed

lemma replay_segments_ok:
  assumes ch: "chain s segs" and pid: "length pid = 16"
    and tot: "0 < unat s" "unat s + length (log_entries segs) < 2 ^ 64"
    and dir: "\<forall>(f, es)\<in>set segs. \<exists>c. map_of dir (segment_name f) = Some c \<and> seg_content (pf_crc pf) pid (f, es) c"
    and hw: "unat s \<le> unat (pt_high_water (rs_part st)) + 1" "unat (pt_high_water (rs_part st)) + 1 < 2 ^ 64"
    and ap: "apply_all (pf_ln pf) (drop (unat (pt_high_water (rs_part st)) + 1 - unat s) (log_entries segs))
      (rs_part st) = Some (Inr p')"
  shows "\<exists>st'. replay_segments pf dir pid (segment_names segs) st = Some (Inr st') \<and> rs_part st' = p' \<and>
    same_base (rs_report st) (rs_report st') \<and>
    (segs \<noteq> [] \<longrightarrow> rs_saw_history st' \<and>
       (\<exists>n. rs_wal_end st' = Some n \<and> unat s + length (log_entries segs) \<le> unat n + 1))"
  using assms
proof (induction segs arbitrary: s st)
  case Nil
  then show ?case by (simp add: segment_names_def same_base_def)
next
  case (Cons seg segs)
  obtain f es where seg: "seg = (f, es)" by (cases seg)
  have fs: "f = s" and chs: "chain (s + word_of_nat (length es)) segs" using Cons.prems(1) seg by simp_all
  let ?p = "rs_part st" and ?s' = "s + word_of_nat (length es)"
  let ?hw = "unat (pt_high_water ?p)"
  let ?k = "?hw + 1 - unat s"
  have s': "unat ?s' = unat s + length es"
    using unat_advance [of s "length es" "length (log_entries segs)"] Cons.prems(4) seg by simp
  obtain c where c: "map_of dir (segment_name s) = Some c" "seg_content (pf_crc pf) pid (s, es) c"
    using Cons.prems(5) seg fs by auto
  have "drop ?k (log_entries (seg # segs)) = drop ?k es @ drop (?k - length es) (log_entries segs)"
    by (simp add: seg)
  with Cons.prems(8) obtain p1 where p1: "apply_all (pf_ln pf) (drop ?k es) ?p = Some (Inr p1)"
    "apply_all (pf_ln pf) (drop (?k - length es) (log_entries segs)) p1 = Some (Inr p')"
    using apply_all_appendD by metis
  have tot: "unat s + length es < 2 ^ 64" using Cons.prems(4) seg by simp
  obtain st1 where st1: "replay_segment pf dir pid (segs = []) (s, segment_name s) st = Some (Inr st1)"
    "rs_part st1 = p1" "same_base (rs_report st) (rs_report st1)" "rs_saw_history st1"
    "\<exists>n. rs_wal_end st1 = Some n \<and> unat s + length es \<le> unat n + 1"
    using replay_segment_ok [OF c(2) Cons.prems(2) c(1) Cons.prems(3) tot Cons.prems(6,7) p1(1)] by blast
  have con: "consecutive s es" using c(2) by (auto simp: seg_content_def)
  have hw1: "unat (pt_high_water p1) = (if ?k < length es then unat s + length es - 1 else ?hw)"
    using apply_all_high_water [OF p1(1)] consecutive_last [OF con] unat_last_seq [OF Cons.prems(3) tot]
    by (cases "es = []") auto
  have k1: "unat (pt_high_water p1) + 1 - unat ?s' = ?k - length es" using hw1 s' by auto
  have "\<exists>st'. replay_segments pf dir pid (segment_names segs) st1 = Some (Inr st') \<and> rs_part st' = p' \<and>
    same_base (rs_report st1) (rs_report st') \<and>
    (segs \<noteq> [] \<longrightarrow> rs_saw_history st' \<and>
       (\<exists>n. rs_wal_end st' = Some n \<and> unat ?s' + length (log_entries segs) \<le> unat n + 1))"
  proof (rule Cons.IH [OF chs Cons.prems(2)])
    show "0 < unat ?s'" "unat ?s' + length (log_entries segs) < 2 ^ 64" using s' Cons.prems(3,4) seg by simp_all
    show "\<forall>(f, es)\<in>set segs. \<exists>c. map_of dir (segment_name f) = Some c \<and> seg_content (pf_crc pf) pid (f, es) c"
      using Cons.prems(5) by simp
    show "unat ?s' \<le> unat (pt_high_water (rs_part st1)) + 1" "unat (pt_high_water (rs_part st1)) + 1 < 2 ^ 64"
      using hw1 s' st1(2) Cons.prems(6,7) tot by auto
    show "apply_all (pf_ln pf) (drop (unat (pt_high_water (rs_part st1)) + 1 - unat ?s') (log_entries segs)) (rs_part st1)
        = Some (Inr p')" using k1 p1(2) st1(2) by simp
  qed
  with st1 seg fs s' show ?case by (cases segs) (auto simp: segment_names_def same_base_def)
qed

lemma replay_log_ok:
  assumes log: "log_ok (pf_crc pf) (cfg_id (pt_config p)) s dir segs" and ne: "segs \<noteq> []" and s: "0 < unat s"
    and hw: "unat s \<le> unat (pt_high_water p) + 1" "unat (pt_high_water p) + 1 < 2 ^ 64"
    and snap: "unat (rr_snapshot_high_water report) + 1 \<le> unat s + length (log_entries segs)"
    and ap: "apply_all (pf_ln pf) (drop (unat (pt_high_water p) + 1 - unat s) (log_entries segs)) p = Some (Inr p')"
  shows "\<exists>report'. replay_log pf dir p report = Some (Inr (p', report')) \<and>
    rr_torn_tail_found report' = rr_torn_tail_found report"
proof -
  let ?st = "\<lparr>rs_part = p, rs_report = report, rs_saw_history = (pt_high_water p = 0 \<and> segment_names segs = []),
      rs_wal_end = None\<rparr>"
  have l: "chain s segs" "length (cfg_id (pt_config p)) = 16" "unat s + length (log_entries segs) < 2 ^ 64"
    using log by (auto simp: log_ok_def)
  have dir: "\<forall>(f, es)\<in>set segs. \<exists>c. map_of dir (segment_name f) = Some c \<and>
      seg_content (pf_crc pf) (cfg_id (pt_config p)) (f, es) c"
    using log_ok_content [OF log] by auto
  have "\<exists>st'. replay_segments pf dir (cfg_id (pt_config p)) (segment_names segs) ?st = Some (Inr st') \<and>
    rs_part st' = p' \<and> same_base (rs_report ?st) (rs_report st') \<and>
    (segs \<noteq> [] \<longrightarrow> rs_saw_history st' \<and>
       (\<exists>n. rs_wal_end st' = Some n \<and> unat s + length (log_entries segs) \<le> unat n + 1))"
    by (rule replay_segments_ok [OF l(1,2) s l(3) dir]) (use hw ap in simp_all)
  then obtain st' n where st': "replay_segments pf dir (cfg_id (pt_config p)) (segment_names segs) ?st = Some (Inr st')"
    "rs_part st' = p'" "same_base report (rs_report st')" "rs_saw_history st'" "rs_wal_end st' = Some n"
    "unat s + length (log_entries segs) \<le> unat n + 1" using ne by auto
  have "\<not> n < rr_snapshot_high_water (rs_report st')"
    using st'(3,6) snap by (simp add: word_less_nat_alt same_base_def)
  with st' show ?thesis by (simp add: replay_log_def list_segments_log [OF log] same_base_def)
qed

section \<open>Lemmas: recovery gives back the live state\<close>

text \<open>What a partition is apart from its writer, its failpoint and when it was last saved.\<close>

definition bare :: "partition \<Rightarrow> partition" where
  "bare p = p\<lparr>pt_wal := None, pt_failpoint := None, pt_snapshot_high_water := 0\<rparr>"

lemma bare_simps [simp]:
  "pt_config (bare p) = pt_config p" "pt_metric (bare p) = pt_metric p" "pt_index (bare p) = pt_index p"
  "pt_key_table (bare p) = pt_key_table p" "pt_keys (bare p) = pt_keys p" "pt_slots (bare p) = pt_slots p"
  "pt_idem (bare p) = pt_idem p" "pt_high_water (bare p) = pt_high_water p"
  "part_wf (bare p) = part_wf p" "contents (bare p) = contents p"
  by (simp_all add: bare_def part_wf_def config_ok_def contents_def slot_for_key_def fun_eq_iff)

lemma retire_bare: "retire s (bare p) = map_option bare (retire s p)"
  by (auto simp: retire_def bare_def option.map_comp Option.map_conv_bind_option split: Option.bind_splits)

lemma bare_updates:
  "(bare p)\<lparr>pt_index := g\<rparr> = bare (p\<lparr>pt_index := g\<rparr>)"
  "(bare p)\<lparr>pt_key_table := t\<rparr> = bare (p\<lparr>pt_key_table := t\<rparr>)"
  "(bare p)\<lparr>pt_keys := ks\<rparr> = bare (p\<lparr>pt_keys := ks\<rparr>)"
  "(bare p)\<lparr>pt_slots := sl\<rparr> = bare (p\<lparr>pt_slots := sl\<rparr>)"
  "(bare p)\<lparr>pt_idem := w\<rparr> = bare (p\<lparr>pt_idem := w\<rparr>)"
  "(bare p)\<lparr>pt_high_water := h\<rparr> = bare (p\<lparr>pt_high_water := h\<rparr>)"
  by (simp_all add: bare_def)

lemma apply_delete_bare: "apply_delete (bare p) key = map_option (map_sum id bare) (apply_delete p key)"
  by (auto simp: apply_delete_def retire_bare option.map_comp comp_def bare_updates
      split: option.splits prod.splits)

lemma apply_upsert_bare:
  "apply_upsert ln64 (bare p) seq key payload x =
     map_option (map_sum id bare) (apply_upsert ln64 p seq key payload x)"
  by (auto simp: apply_upsert_def Let_def retire_bare option.map_comp comp_def bare_updates
      split: option.splits prod.splits sum.splits)

lemma apply_entry_bare: "apply_entry ln64 (bare p) e = map_option (map_sum id bare) (apply_entry ln64 p e)"
proof -
  have "rbind (map_sum id bare r) (\<lambda>p1. Inr (p1\<lparr>pt_idem := iw_record (pt_idem p1) (e_op_id e) (e_seq e), pt_high_water := e_seq e\<rparr>))
      = map_sum id bare (rbind r (\<lambda>p1. Inr (p1\<lparr>pt_idem := iw_record (pt_idem p1) (e_op_id e) (e_seq e), pt_high_water := e_seq e\<rparr>)))"
    for r :: "partition_error + partition" by (cases r) (simp_all add: bare_updates)
  then show ?thesis
    by (cases "e_operation e")
      (simp_all add: apply_entry_def apply_upsert_bare apply_delete_bare option.map_comp comp_def)
qed

lemma apply_all_bare: "apply_all ln64 es (bare p) = map_option (map_sum id bare) (apply_all ln64 es p)"
proof (induction es arbitrary: p)
  case (Cons e es)
  then show ?case
    by (cases "apply_entry ln64 p e") (auto simp: apply_entry_bare split: sum.splits)
qed simp

end
