(* ===== verification/Partition_Durability.thy ===== *)
theory Partition_Durability
  imports Partition_Recover
begin

text \<open>
  The durability argument: what a serving partition acknowledged is what recovery gives back. The
  invariant \<open>durable\<close> says that recovery from the directory leads to the live state, apart from
  the writer, the failpoint and the last snapshot's mark.
\<close>

definition durable ::
  "platform \<Rightarrow> u64 \<Rightarrow> part_dir \<Rightarrow> (u64 \<times> entry list) list \<Rightarrow> partition \<Rightarrow> bool" where
  "durable pf s d segs p \<longleftrightarrow>
     serving pf s (pd_wal d) segs p \<and> 0 < unat s \<and>
     (\<exists>b report q. recover_base pf d = Inr (b, report) \<and> pt_config b = pt_config p \<and>
        rr_snapshot_high_water report = pt_high_water b \<and> rr_torn_tail_found report = None \<and>
        pt_snapshot_high_water p \<le> pt_high_water b \<and> unat s \<le> unat (pt_high_water b) + 1 \<and>
        unat (pt_high_water b) + 1 \<le> unat s + length (log_entries segs) \<and>
        apply_all (pf_ln pf) (drop (unat (pt_high_water b) + 1 - unat s) (log_entries segs)) b = Some (Inr q) \<and>
        bare q = bare p)"

lemma recover_base_wal [simp]: "recover_base pf (d\<lparr>pd_wal := w\<rparr>) = recover_base pf d"
  by (simp add: recover_base_def)

lemma recover_base_locked [simp]: "recover_base pf (d\<lparr>pd_locked := l\<rparr>) = recover_base pf d"
  by (simp add: recover_base_def)

lemma bare_wal [simp]: "bare (p\<lparr>pt_wal := w\<rparr>) = bare p"
  by (simp add: bare_def)

lemma apply_entry_eq_bare:
  assumes "apply_entry ln64 p e = Some (Inr p')" and "bare q = bare p"
  shows "\<exists>q'. apply_entry ln64 q e = Some (Inr q') \<and> bare q' = bare p'"
proof -
  have "map_option (map_sum id bare) (apply_entry ln64 q e) = Some (Inr (bare p'))"
    using assms by (simp add: apply_entry_bare [symmetric]) (simp add: apply_entry_bare)
  then obtain r where "apply_entry ln64 q e = Some r" "map_sum id bare r = Inr (bare p')" by auto
  then show ?thesis by (cases r) auto
qed

text \<open>Acknowledged mutations keep a partition durable.\<close>

lemma durable_mutate:
  assumes dur: "durable pf s d segs p" and room: "has_room p" "log_room s segs" and id: "length op_id = 16"
    and m: "mutate pf io (pd_wal d) p op_id operation = Some (dir', p', Inr a)"
  shows "\<exists>segs'. durable pf s (d\<lparr>pd_wal := dir'\<rparr>) segs' p' \<and>
    log_entries segs' = log_entries segs @ [\<lparr>e_seq = ap_seq a, e_op_id = op_id, e_operation = operation\<rparr>]"
proof -
  let ?e = "\<lparr>e_seq = ap_seq a, e_op_id = op_id, e_operation = operation\<rparr>"
  obtain b report q where sv: "serving pf s (pd_wal d) segs p" and s: "0 < unat s"
    and b: "recover_base pf d = Inr (b, report)" "pt_config b = pt_config p"
      "rr_snapshot_high_water report = pt_high_water b" "rr_torn_tail_found report = None"
      "unat s \<le> unat (pt_high_water b) + 1"
      "unat (pt_high_water b) + 1 \<le> unat s + length (log_entries segs)"
      "apply_all (pf_ln pf) (drop (unat (pt_high_water b) + 1 - unat s) (log_entries segs)) b = Some (Inr q)"
      "bare q = bare p" "pt_snapshot_high_water p \<le> pt_high_water b" using dur by (auto simp: durable_def)
  obtain segs' where segs': "serving pf s dir' segs' p'" "log_entries segs' = log_entries segs @ [?e]"
    "pt_config p' = pt_config p" using mutate_ok [OF sv room id m] by blast
  obtain w' where ap: "apply_entry (pf_ln pf) (p\<lparr>pt_wal := Some w'\<rparr>) ?e = Some (Inr p')"
    using m by (rule mutate_Inr)
  have "pt_snapshot_high_water p' = pt_snapshot_high_water p" using apply_entry_failpoint(2) [OF ap] by simp
  moreover obtain q' where q': "apply_entry (pf_ln pf) q ?e = Some (Inr q')" "bare q' = bare p'"
    using apply_entry_eq_bare [of "pf_ln pf" "p\<lparr>pt_wal := Some w'\<rparr>" ?e p' q] b(8) ap by auto
  moreover have "apply_all (pf_ln pf) (drop (unat (pt_high_water b) + 1 - unat s) (log_entries segs')) b = Some (Inr q')"
    using b(6,7) q'(1) by (simp add: segs'(2) apply_all_append)
  ultimately show ?thesis
    using segs' s b by (intro exI [of _ segs']) (auto simp: durable_def)
qed

text \<open>Recovery of a durable partition: replay ends in the live state and the log opens at its end.\<close>

lemma durable_recovers:
  assumes dur: "durable pf s d segs p"
  obtains b report q report' dir' w' segs' where
    "recover_base pf d = Inr (b, report)" "pt_config b = pt_config p"
    "log_ok (pf_crc pf) (cfg_id (pt_config b)) s (pd_wal d) segs" "segs \<noteq> []"
    "replay_log pf (pd_wal d) b report = Some (Inr (q, report'))" "rr_torn_tail_found report' = None"
    "wal_open (pf_crc pf) CreateOk (pd_wal d) (cfg_id (pt_config q)) (pt_high_water q) = (dir', Inr w')"
    "durable pf s (d\<lparr>pd_locked := True, pd_wal := dir'\<rparr>) segs' (q\<lparr>pt_wal := Some w'\<rparr>)"
    "log_entries segs' = log_entries segs" "bare q = bare p"
proof -
  obtain b report q where sv: "serving pf s (pd_wal d) segs p" and s: "0 < unat s"
    and b: "recover_base pf d = Inr (b, report)" "pt_config b = pt_config p"
      "rr_snapshot_high_water report = pt_high_water b" "rr_torn_tail_found report = None"
      "unat s \<le> unat (pt_high_water b) + 1"
      "unat (pt_high_water b) + 1 \<le> unat s + length (log_entries segs)"
      "apply_all (pf_ln pf) (drop (unat (pt_high_water b) + 1 - unat s) (log_entries segs)) b = Some (Inr q)"
      "bare q = bare p" using dur by (auto simp: durable_def)
  obtain w where w: "pt_wal p = Some w" "writer_ok (pf_crc pf) (cfg_id (pt_config p)) s (pd_wal d) segs w"
    "ww_next_seq w = pt_high_water p + 1" and wf: "part_wf p" using sv by (auto simp: serving_def)
  then have log: "log_ok (pf_crc pf) (cfg_id (pt_config b)) s (pd_wal d) segs" and ne: "segs \<noteq> []"
    and seq: "pt_high_water p + 1 = s + word_of_nat (length (log_entries segs))"
    by (auto simp: writer_ok_def b(2))
  have tot: "unat (pt_high_water b) + 1 < 2 ^ 64" using log b(6) by (simp add: log_ok_def)
  obtain report' where rep: "replay_log pf (pd_wal d) b report = Some (Inr (q, report'))"
    "rr_torn_tail_found report' = None"
    using replay_log_ok [OF log ne s b(5) tot _ b(7), of report] b(3,4,6) by auto
  have q: "pt_config q = pt_config p" "pt_high_water q = pt_high_water p" "part_wf q"
    using b(8) wf by (metis bare_simps)+
  obtain dir' w' segs' where w': "wal_open (pf_crc pf) CreateOk (pd_wal d) (cfg_id (pt_config q)) (pt_high_water q)
      = (dir', Inr w')" "writer_ok (pf_crc pf) (cfg_id (pt_config p)) s dir' segs' w'"
    "log_entries segs' = log_entries segs"
    using wal_open_log [OF log ne seq] b(2) q by auto
  have "serving pf s dir' segs' (q\<lparr>pt_wal := Some w'\<rparr>)"
    using w'(2,3) q seq by (auto simp: serving_def writer_ok_def)
  then have "durable pf s (d\<lparr>pd_locked := True, pd_wal := dir'\<rparr>) segs' (q\<lparr>pt_wal := Some w'\<rparr>)"
    using s b q w'(3) apply_all_saved [OF b(7)] recover_base_saved [OF b(1)] by (auto simp: durable_def)
  from that [OF b(1,2) log ne rep w'(1) this w'(3) b(8)] show thesis .
qed

text \<open>Reopening after a crash: the lock is gone with its owner, the files are as they were.\<close>

lemma durable_reopen:
  assumes dur: "durable pf s d segs p"
  shows "\<exists>d' p' report segs'. part_open pf CreateOk directory (d\<lparr>pd_locked := False\<rparr>) = Some (d', Inr (p', report)) \<and>
    durable pf s d' segs' p' \<and> log_entries segs' = log_entries segs \<and> bare p' = bare p \<and> pd_snap d' = pd_snap d"
proof -
  obtain b report q report' dir' w' segs' where r: "recover_base pf d = Inr (b, report)"
    "replay_log pf (pd_wal d) b report = Some (Inr (q, report'))" "rr_torn_tail_found report' = None"
    "wal_open (pf_crc pf) CreateOk (pd_wal d) (cfg_id (pt_config q)) (pt_high_water q) = (dir', Inr w')"
    and d: "durable pf s (d\<lparr>pd_locked := True, pd_wal := dir'\<rparr>) segs' (q\<lparr>pt_wal := Some w'\<rparr>)"
    "log_entries segs' = log_entries segs" "bare q = bare p"
    using dur by (rule durable_recovers)
  have "recover pf (d\<lparr>pd_locked := True\<rparr>) = Some (Inr (q, report'))" using r(1,2) by (simp add: recover_def)
  then have "part_open pf CreateOk directory (d\<lparr>pd_locked := False\<rparr>) =
      Some (d\<lparr>pd_locked := True, pd_wal := dir'\<rparr>, Inr (q\<lparr>pt_wal := Some w'\<rparr>, report'))"
    using r(3,4) by (simp add: part_open_def part_lock_def)
  moreover have "bare (q\<lparr>pt_wal := Some w'\<rparr>) = bare p" using d(3) by simp
  moreover have "pd_snap (d\<lparr>pd_locked := True, pd_wal := dir'\<rparr>) = pd_snap d" by simp
  ultimately show ?thesis using d(1,2) by blast
qed

text \<open>A partition just created is durable.\<close>

lemma durable_create:
  assumes new: "pd_wal d = []" "pd_snap d = []" and js: "pf_of_json pf (pf_to_json pf config) = Some config"
    and id: "length (cfg_id config) = 16" and base: "\<not> cfg_base_snapshot config"
    and c: "part_create pf mio cio directory d config = (d', Inr p)"
  shows "durable pf 1 d' [(1, [])] p \<and> contents p = Map.empty"
proof -
  obtain metric w dir where m: "cfg_validate config = Inr ()" "cfg_parse_metric config = Inr metric"
    "wal_open (pf_crc pf) cio [] (cfg_id config) 0 = (dir, Inr w)"
    "p = (fresh_state config metric)\<lparr>pt_wal := Some w\<rparr>"
    and d': "pd_manifest d' = Some (pf_to_json pf config)" "pd_wal d' = dir" "pd_snap d' = []"
    using c new
    by (auto simp: part_create_def part_lock_def Let_def split: sum.splits if_splits prod.splits)
  have mp: "metric_parse (cfg_metric config) = Some metric" using m(2) by (simp add: cfg_parse_metric_def)
  note fresh = fresh_state_wf [OF m(1) mp]
  have w: "writer_ok (pf_crc pf) (cfg_id config) 1 dir [(1, [])] w"
    using wal_open_empty [OF m(3) id] by simp
  let ?b = "fresh_state config metric"
  have "recover_base pf d' = Inr (?b, report_new (cfg_id config))"
    using d' js m(1,2) base by (simp add: recover_base_def snapshot_list_def sort_by_def map_filter_simps report_new_def)
  moreover have "serving pf 1 dir [(1, [])] p"
  proof -
    have "part_wf p" using fresh m(4) by simp
    moreover have "pt_config p = config" "pt_wal p = Some w" "pt_high_water p = 0"
      by (simp_all add: m(4) fresh_state_def)
    ultimately show ?thesis using w by (simp add: serving_def writer_ok_def)
  qed
  ultimately have "durable pf 1 d' [(1, [])] p"
    unfolding durable_def using m(4) d'
    by (auto simp: fresh_state_def report_new_def log_entries_def bare_def)
  with fresh m(4) show ?thesis by simp
qed

end
