(* ===== verification/Partition_Snapshot.thy ===== *)
theory Partition_Snapshot
  imports Partition_Durability
begin

text \<open>
  Writing a snapshot of a partition and dropping the segments of the log it covers
  (\<open>partition.rs\<close>). The state of a well-formed partition passes every structural check of the
  loader, so the snapshot just written is the one recovery uses, and recovery from it gives the
  live state back.
\<close>

section \<open>Operations\<close>

definition snapshot_keys :: "partition \<Rightarrow> (bytes \<times> nat) list" where
  "snapshot_keys p =
     map (\<lambda>key. (key, case Option.bind (pt_keys p key) snd of Some s \<Rightarrow> s | None \<Rightarrow> NO_SLOT))
       (pt_key_table p)"

definition snapshot_input_of :: "partition \<Rightarrow> snapshot_input" where
  "snapshot_input_of p =
     \<lparr>si_partition_id = cfg_id (pt_config p), si_dims = cfg_dims (pt_config p),
      si_metric = pt_metric p, si_params = hn_params (pt_index p), si_high_water = pt_high_water p,
      si_keys = snapshot_keys p, si_slots = pt_slots p, si_vectors = hn_vectors (pt_index p),
      si_quantized = hn_quantized (pt_index p), si_graph = hnsw_graph_parts (pt_index p),
      si_idempotency = iw_entries (pt_idem p)\<rparr>"

definition part_snapshot ::
  "platform \<Rightarrow> snap_io \<Rightarrow> path \<Rightarrow> wal_dir \<Rightarrow> partition \<Rightarrow>
     (wal_dir \<times> partition \<times> (partition_error + path)) option" where
  "part_snapshot pf io temporary dir p =
     (let abort = (pt_failpoint p = Some SnapshotBeforeRename)
      in map_option (\<lambda>(dir', written).
           case written of
             Inl e \<Rightarrow> (dir', p, Inl (SnapErr e))
           | Inr path \<Rightarrow>
               let p1 = p\<lparr>pt_snapshot_high_water := pt_high_water p\<rparr>
               in case (case map_of dir' path of
                          None \<Rightarrow> Inl SnapIo
                        | Some bs \<Rightarrow> map_vectors (pf_crc pf) (pf_blake3 pf) (pf_cast pf) (pf_addr pf) bs
                            (cfg_id (pt_config p)) (cfg_dims (pt_config p)) (length (pt_slots p))) of
                    Inl e \<Rightarrow> (dir', p1, Inl (SnapErr e))
                  | Inr mapped \<Rightarrow>
                      (case replace_vectors (pt_index p1) mapped of
                         (False, _) \<Rightarrow> (dir', p1, Inl (SnapErr (SnapMalformed ''f32 section shape'')))
                       | (True, g) \<Rightarrow>
                           let p2 = p1\<lparr>pt_index := g\<rparr>
                           in (dir', p2, rbind (hit_failpoint p2 SnapshotAfterRename) (\<lambda>_. Inr path))))
           (snapshot_write (pf_crc pf) (pf_blake3 pf) io temporary dir (snapshot_input_of p) (\<not> abort)))"

text \<open>The removal and the final sync may fail; \<open>rm\<close> says for each file whether removing it
  succeeds.\<close>

fun drop_covered ::
  "(path \<Rightarrow> bool) \<Rightarrow> u64 \<Rightarrow> path option \<Rightarrow> (u64 \<times> path) list \<Rightarrow> wal_dir \<Rightarrow> nat \<Rightarrow>
     wal_dir \<times> (partition_error + nat)" where
  "drop_covered rm mark current ((_, path) # (next_first, next_path) # rest) dir removed =
     (if next_first \<le> mark + 1 \<and> Some path \<noteq> current
      then (if rm path
            then drop_covered rm mark current ((next_first, next_path) # rest)
                   (AList.delete path dir) (removed + 1)
            else (dir, Inl PartIo))
      else drop_covered rm mark current ((next_first, next_path) # rest) dir removed)"
| "drop_covered rm mark current _ dir removed = (dir, Inr removed)"

definition truncate_wal_below_snapshot ::
  "(path \<Rightarrow> bool) \<Rightarrow> bool \<Rightarrow> wal_dir \<Rightarrow> partition \<Rightarrow> wal_dir \<times> (partition_error + nat)" where
  "truncate_wal_below_snapshot rm synced dir p =
     (case list_segments dir of
        Inl e \<Rightarrow> (dir, Inl (WalErr e))
      | Inr segments \<Rightarrow>
          (case drop_covered rm (pt_snapshot_high_water p) (map_option ww_path (pt_wal p)) segments dir 0 of
             (dir', Inl e) \<Rightarrow> (dir', Inl e)
           | (dir', Inr removed) \<Rightarrow>
               if 0 < removed \<and> \<not> synced then (dir', Inl PartIo) else (dir', Inr removed)))"

section \<open>Lemmas: the snapshot of a well-formed partition is valid\<close>

lemma guard_err_Inr [simp]: "guard_err e ok = Inr () \<longleftrightarrow> ok"
  by (simp add: guard_err_def)

lemma each_Inr: "each f xs = Inr () \<longleftrightarrow> (\<forall>x\<in>set xs. f x = Inr ())"
  by (induction xs) (auto simp: rbind_eq_Inr)

lemma rbind_unit_Inr: "rbind m f = Inr () \<longleftrightarrow> m = Inr () \<and> f () = Inr ()" for m :: "'e + unit"
  by (cases m) simp_all

text \<open>Sizes the log format enforces on what it lets in.\<close>

definition sizes_ok :: "partition \<Rightarrow> bool" where
  "sizes_ok p \<longleftrightarrow>
     length (cfg_id (pt_config p)) = 16 \<and>
     (\<forall>key\<in>set (pt_key_table p). key \<noteq> [] \<and> length key \<le> MAX_KEY_LEN) \<and>
     (\<forall>r\<in>set (pt_slots p). length (rec_payload r) \<le> MAX_PAYLOAD_LEN) \<and>
     (\<forall>id\<in>set (iw_order (pt_idem p)). length id = 16) \<and>
     iw_capacity (pt_idem p) = cfg_idempotency_window (pt_config p) \<and>
     cfg_idempotency_window (pt_config p) < 2 ^ 32"

lemma snapshot_keys_nth:
  "i < length (pt_key_table p) \<Longrightarrow> snapshot_keys p ! i =
     (pt_key_table p ! i, case slot_for_key p (pt_key_table p ! i) of Some s \<Rightarrow> s | None \<Rightarrow> NO_SLOT)"
  by (simp add: snapshot_keys_def slot_for_key_def)

lemma neighbours_slice:
  assumes "hnsw_wf g" and "has_level g s l" and "neighbours g s l = slice links i n"
  shows "list_all (\<lambda>t. t < hn_len g) (take n (drop i links))"
proof -
  have ok: "shape_ok g" "links_ok g" using assms(1) by (simp_all add: hnsw_wf_def graph_ok_def)
  obtain ns where ns: "neighbours g s l = Some ns" using neighbours_ok [OF ok(1) assms(2)] by blast
  then have "ns = take n (drop i links)" using assms(3) by (simp add: slice_def split: if_splits)
  moreover have "\<forall>t\<in>set ns. has_level g t l" using ok(2) assms(2) ns by (auto simp: links_ok_def)
  ultimately show ?thesis by (auto simp: list_all_iff has_level_def)
qed

lemma validate_level0_wf:
  assumes wf: "hnsw_wf g"
  shows "validate_level0 (hn_params g) (hn_len g) (hnsw_graph_parts g) = Inr ()"
proof -
  have ok: "shape_ok g" using wf by (simp add: hnsw_wf_def graph_ok_def)
  have "hn_level0_len g ! s \<le> hn_m0 g \<and>
      list_all (\<lambda>n. n < hn_len g) (take (hn_level0_len g ! s) (drop (s * hn_m0 g) (hn_level0 g)))"
    if "s < length (hn_level0_len g)" for s
  proof -
    have s: "s < hn_len g" "has_level g s 0" using that ok by (simp_all add: shape_ok_def has_level_def)
    then show ?thesis
      using ok neighbours_slice [OF wf s(2) neighbours_level0(1) [OF ok s(1)]] by (simp add: shape_ok_def)
  qed
  then show ?thesis
    by (auto simp: validate_level0_def each_Inr validate_list_def rbind_unit_Inr hnsw_graph_parts_def
        set_zip list_all_iff)
qed

lemma validate_upper_wf:
  assumes wf: "hnsw_wf g"
  shows "validate_upper (hn_params g) (hn_len g) (hnsw_graph_parts g) = Inr ()"
proof -
  have ok: "shape_ok g" using wf by (simp add: hnsw_wf_def graph_ok_def)
  have "hn_upper_len g ! s ! l \<le> hn_m g \<and>
      list_all (\<lambda>n. n < hn_len g) (take (hn_upper_len g ! s ! l) (drop (l * hn_m g) (hn_upper g ! s)))"
    if "s < hn_len g" "l < length (hn_upper_len g ! s)" for s l
  proof -
    have l: "l < hn_levels g ! s" "has_level g s (Suc l)"
      using that ok by (simp_all add: shape_ok_def has_level_def)
    then show ?thesis
      using ok that(1) neighbours_slice [OF wf l(2) neighbours_upper(1) [OF ok that(1) l(1)]]
      by (simp add: shape_ok_def)
  qed
  moreover have "hn_levels g ! s \<le> 31" if "s < hn_len g" for s using ok that by (simp add: shape_ok_def)
  ultimately show ?thesis
    by (auto simp: validate_upper_def each_Inr validate_list_def rbind_unit_Inr hnsw_graph_parts_def
        set_zip list_all_iff)
qed

lemma validate_entry_wf:
  assumes "hnsw_wf g"
  shows "validate_entry (hn_len g) (hnsw_graph_parts g) = Inr ()"
  using assms by (auto simp: validate_entry_def hnsw_graph_parts_def hnsw_wf_def entry_ok_def split: option.splits)

lemma validate_slots_wf:
  assumes wf: "part_wf p"
  shows "validate_slots (snapshot_keys p) (pt_slots p) (hnsw_graph_parts (pt_index p)) = Inr ()"
proof -
  let ?g = "pt_index p" and ?slots = "pt_slots p"
  have sl: "length ?slots = hn_len ?g" and
    rec: "\<And>s. s < hn_len ?g \<Longrightarrow> rec_tombstone (?slots ! s) = is_tombstoned ?g s \<and>
      rec_key_index (?slots ! s) < length (pt_key_table p)"
    using wf by (auto simp: part_wf_def slots_ok_def)
  have t: "{s. is_tombstoned ?g s} \<subseteq> {..<hn_len ?g}" "hn_tombstone_count ?g = card {s. is_tombstoned ?g s}"
    using wf by (auto simp: part_wf_def hnsw_wf_def graph_ok_def tombstones_ok_def)
  have "length (filter rec_tombstone ?slots) = card {s. s < hn_len ?g \<and> rec_tombstone (?slots ! s)}"
    by (simp add: length_filter_conv_card sl)
  also have "{s. s < hn_len ?g \<and> rec_tombstone (?slots ! s)} = {s. is_tombstoned ?g s}"
    using rec t(1) by auto
  finally have "length (filter rec_tombstone ?slots) = hn_tombstone_count ?g" using t(2) by simp
  moreover have "tombstone_bit (hn_tombstones ?g) s = is_tombstoned ?g s" for s
    by (simp add: tombstone_bit_def is_tombstoned_def)
  ultimately show ?thesis
    using rec sl
    by (auto simp: validate_slots_def each_Inr rbind_unit_Inr set_zip hnsw_graph_parts_def snapshot_keys_def)
qed

lemma validate_keys_wf:
  assumes wf: "part_wf p"
  shows "validate_keys (snapshot_keys p) (pt_slots p) = Inr ()"
proof -
  have keys: "keys_ok (pt_key_table p) (pt_keys p) (pt_slots p)" using wf by (simp add: part_wf_def)
  have step: "(if live = 2 ^ 32 - 1 then Inr ()
      else rbind (ok_or (SnapMalformed ''key slot out of range'') (index (pt_slots p) live)) (\<lambda>r.
        guard_err (SnapMalformed ''key points to a slot it does not own'')
          (\<not> rec_tombstone r \<and> rec_key_index r = i))) = Inr ()"
    if i: "i < length (pt_key_table p)" and k: "snapshot_keys p ! i = (key, live)" for i key live
  proof (cases "slot_for_key p (pt_key_table p ! i)")
    case None
    then show ?thesis using k by (simp add: snapshot_keys_nth [OF i] NO_SLOT_def)
  next
    case (Some s)
    then obtain j where j: "pt_keys p (pt_key_table p ! i) = Some (j, Some s)"
      by (auto simp: slot_for_key_def bind_eq_Some_conv)
    have "j = i" using keys_okD(1,3) [OF keys] j i by (metis nth_eq_iff_index_eq)
    then show ?thesis
      using Some k keys_okD(4) [OF keys j] by (simp add: snapshot_keys_nth [OF i] index_def)
  qed
  show ?thesis
    unfolding validate_keys_def each_Inr
  proof
    fix x assume "x \<in> set (zip [0..<length (snapshot_keys p)] (snapshot_keys p))"
    then obtain i where i: "i < length (pt_key_table p)" "x = (i, snapshot_keys p ! i)"
      by (auto simp: set_zip snapshot_keys_def)
    obtain key live where k: "snapshot_keys p ! i = (key, live)" by (cases "snapshot_keys p ! i")
    from step [OF i(1) k] show "(case x of (i, _, live) \<Rightarrow>
        if live = 2 ^ 32 - 1 then Inr ()
        else rbind (ok_or (SnapMalformed ''key slot out of range'') (index (pt_slots p) live)) (\<lambda>r.
          guard_err (SnapMalformed ''key points to a slot it does not own'')
            (\<not> rec_tombstone r \<and> rec_key_index r = i))) = Inr ()"
      by (simp only: i(2) k prod.case)
  qed
qed

lemma snapshot_valid:
  assumes wf: "part_wf p"
  shows "validate_structure (si_params (snapshot_input_of p)) (length (si_slots (snapshot_input_of p)))
    (si_keys (snapshot_input_of p)) (si_slots (snapshot_input_of p)) (si_graph (snapshot_input_of p)) = Inr ()"
proof -
  have g: "hnsw_wf (pt_index p)" "length (pt_slots p) = hn_len (pt_index p)"
    using wf by (auto simp: part_wf_def slots_ok_def)
  show ?thesis
    using validate_level0_wf [OF g(1)] validate_upper_wf [OF g(1)] validate_entry_wf [OF g(1)]
      validate_slots_wf [OF wf] validate_keys_wf [OF wf] g(2)
    by (simp add: validate_structure_def rbind_unit_Inr snapshot_input_of_def)
qed

lemma graph_parts_fit:
  assumes wf: "hnsw_wf g" and len: "hn_len g < 2 ^ 32"
    and m: "0 < hn_m g" "0 < hn_m0 g" "hp_ef_construction (hn_params g) < 2 ^ 32"
  shows "parts_fit (hn_params g) (hn_len g) (hnsw_graph_parts g)"
proof -
  have ok: "shape_ok g" "words_ok g" "tombstones_ok g" "entry_ok g"
    using wf by (simp_all add: hnsw_wf_def graph_ok_def)
  have t: "hn_tombstone_count g < 2 ^ 64"
  proof -
    have "card {s. is_tombstoned g s} \<le> card {..<hn_len g}"
      using ok(3) by (intro card_mono) (auto simp: tombstones_ok_def)
    with ok(3) len show ?thesis by (simp add: tombstones_ok_def)
  qed
  have mx: "hn_max_level g < 256" and e: "\<forall>e. hn_entry g = Some e \<longrightarrow> e < 2 ^ 32 - 1"
    using ok(1,4) len by (fastforce simp: entry_ok_def shape_ok_def split: option.splits)+
  have up: "\<forall>x\<in>set (hn_upper_len g ! s). x < 256" "\<forall>x\<in>set (hn_upper g ! s). x < 2 ^ 32"
    "hn_levels g ! s < 256" "hn_level0_len g ! s < 256" if "s < hn_len g" for s
  proof -
    have s: "\<forall>l<hn_levels g ! s. hn_upper_len g ! s ! l \<le> hn_m g" "hn_m g \<le> 255"
      "length (hn_upper_len g ! s) = hn_levels g ! s" "hn_levels g ! s \<le> 31" "hn_level0_len g ! s \<le> hn_m0 g"
      "hn_m0 g \<le> 255" "hn_upper g ! s \<in> set (hn_upper g)" using ok(1) that by (auto simp: shape_ok_def)
    show "\<forall>x\<in>set (hn_upper_len g ! s). x < 256"
      using s(1-3) by (fastforce simp: in_set_conv_nth)
    show "\<forall>x\<in>set (hn_upper g ! s). x < 2 ^ 32" using ok(2) s(7) by (fastforce simp: words_ok_def)
    show "hn_levels g ! s < 256" "hn_level0_len g ! s < 256" using s(4-6) by simp_all
  qed
  have "\<forall>x\<in>set (hn_level0 g). x < 2 ^ 32" using ok(2) by (auto simp: words_ok_def)
  with ok(1,3) m t mx e up show ?thesis
    unfolding parts_fit_def by (simp add: hnsw_graph_parts_def shape_ok_def tombstones_ok_def hn_len_def)
qed

lemma snapshot_fits:
  assumes wf: "part_wf p" and room: "has_room p" and sizes: "sizes_ok p"
  shows "input_fits (snapshot_input_of p)"
proof -
  let ?g = "pt_index p" and ?c = "pt_config p"
  have parts: "config_ok p" "hnsw_wf ?g" "iw_wf (pt_idem p)"
    "slots_ok (length (pt_key_table p)) (pt_slots p) ?g" "keys_ok (pt_key_table p) (pt_keys p) (pt_slots p)"
    using wf by (simp_all add: part_wf_def)
  have c: "cfg_validate ?c = Inr ()" "hn_params ?g = cfg_params ?c" "hn_dims ?g = cfg_dims ?c"
    using parts(1) by (simp_all add: config_ok_def)
  note v = cfg_validate_ok [OF c(1)]
  have n: "length (pt_slots p) = hn_len ?g" "hn_len ?g < 2 ^ 32" "length (pt_key_table p) < 2 ^ 32"
    using parts(4) room by (auto simp: slots_ok_def has_room_def)
  have rows: "rows_ok ?g" using parts(2) by (simp add: hnsw_wf_def graph_ok_def)
  have "parts_fit (hn_params ?g) (hn_len ?g) (hnsw_graph_parts ?g)"
    by (rule graph_parts_fit [OF parts(2) n(2)]) (use v c(2) in \<open>simp_all add: cfg_params_def\<close>)
  moreover have "\<forall>(key, slot)\<in>set (snapshot_keys p). key \<noteq> [] \<and> length key < 2 ^ 16 \<and> slot < 2 ^ 32"
  proof -
    have "s < 2 ^ 32" if "slot_for_key p key = Some s" for key s
      using that part_wf_slot(1) [OF wf, of key] n by (fastforce simp: slot_for_key_def bind_eq_Some_conv)
    then show ?thesis
      using sizes by (auto simp: snapshot_keys_def sizes_ok_def MAX_KEY_LEN_def NO_SLOT_def slot_for_key_def
          split: option.splits)
  qed
  moreover have "\<forall>r\<in>set (pt_slots p). rec_key_index r < 2 ^ 32 \<and> length (rec_payload r) < 2 ^ 32"
  proof
    fix r assume r: "r \<in> set (pt_slots p)"
    then obtain s where "s < length (pt_slots p)" "r = pt_slots p ! s" by (auto simp: in_set_conv_nth)
    then have "rec_key_index r < length (pt_key_table p)" using parts(4) by (simp add: slots_ok_def)
    moreover have "length (rec_payload r) \<le> MAX_PAYLOAD_LEN" using sizes r by (simp add: sizes_ok_def)
    ultimately show "rec_key_index r < 2 ^ 32 \<and> length (rec_payload r) < 2 ^ 32"
      using n(3) by (simp add: MAX_PAYLOAD_LEN_def)
  qed
  moreover have "length (iw_entries (pt_idem p)) < 2 ^ 32" "\<forall>(i, s)\<in>set (iw_entries (pt_idem p)). length i = 16"
    using sizes parts(3) by (auto simp: iw_entries_eq [OF parts(3)] sizes_ok_def iw_wf_def)
  ultimately show ?thesis
    using n v rows c sizes
    by (simp add: input_fits_def snapshot_input_of_def rows_ok_def hn_dims_def snapshot_keys_def sizes_ok_def)
qed

section \<open>Lemmas: restoring a snapshot\<close>

lemma index_keys_other: "k \<notin> fst ` set ks \<Longrightarrow> index_keys i ks m k = m k"
  by (induction i ks m rule: index_keys.induct) auto

lemma index_keys_nth:
  assumes "distinct (map fst ks)" and "j < length ks"
  shows "index_keys i ks m (fst (ks ! j)) =
    Some ((i + j) mod 2 ^ 32, if snd (ks ! j) \<noteq> NO_SLOT then Some (snd (ks ! j)) else None)"
  using assms
proof (induction ks arbitrary: i j m)
  case (Cons kl ks)
  obtain key live where kl: "kl = (key, live)" by (cases kl)
  show ?case
  proof (cases j)
    case 0
    have "key \<notin> fst ` set ks" using Cons.prems(1) kl by simp
    with 0 show ?thesis by (simp add: kl index_keys_other)
  next
    case (Suc j')
    define m' where "m' = m(key \<mapsto> (i mod 2 ^ 32, if live \<noteq> NO_SLOT then Some live else None))"
    have "index_keys i (kl # ks) m = index_keys (Suc i) ks m'" by (simp only: kl index_keys.simps m'_def)
    with Suc Cons.IH [of j' "Suc i" m'] Cons.prems show ?thesis by simp
  qed
qed simp

lemma index_keys_snapshot:
  assumes wf: "part_wf p" and room: "has_room p"
  shows "index_keys 0 (snapshot_keys p) Map.empty = pt_keys p"
proof
  fix k
  have keys: "keys_ok (pt_key_table p) (pt_keys p) (pt_slots p)" using wf by (simp add: part_wf_def)
  have fst_keys: "map fst (snapshot_keys p) = pt_key_table p" by (simp add: snapshot_keys_def comp_def)
  show "index_keys 0 (snapshot_keys p) Map.empty k = pt_keys p k"
  proof (cases "k \<in> set (pt_key_table p)")
    case False
    then have "pt_keys p k = None" using keys_okD(2) [OF keys] by auto
    moreover have "k \<notin> fst ` set (snapshot_keys p)" using False fst_keys by (metis set_map)
    ultimately show ?thesis by (simp add: index_keys_other)
  next
    case True
    then obtain j where j: "j < length (pt_key_table p)" "k = pt_key_table p ! j" by (auto simp: in_set_conv_nth)
    from True keys_okD(2) [OF keys] obtain i live where k: "pt_keys p k = Some (i, live)" by fastforce
    then have "i = j" using keys_okD(1,3) [OF keys] j by (metis nth_eq_iff_index_eq)
    have "live \<noteq> Some NO_SLOT"
      using keys_okD(4) [OF keys, of k i NO_SLOT] k room by (auto simp: NO_SLOT_def has_room_def)
    have nth: "snapshot_keys p ! j = (k, case live of Some s \<Rightarrow> s | None \<Rightarrow> NO_SLOT)"
      using snapshot_keys_nth [OF j(1)] j(2) k by (simp add: slot_for_key_def)
    have "distinct (map fst (snapshot_keys p))" "j < length (snapshot_keys p)"
      using keys_okD(1) [OF keys] j(1) fst_keys by (simp_all add: snapshot_keys_def comp_def)
    from index_keys_nth [OF this, of 0 Map.empty]
    have "index_keys 0 (snapshot_keys p) Map.empty k =
        Some (j mod 2 ^ 32, if snd (snapshot_keys p ! j) \<noteq> NO_SLOT then Some (snd (snapshot_keys p ! j)) else None)"
      by (simp add: nth)
    moreover have "j mod 2 ^ 32 = j" using j(1) room by (simp add: has_room_def)
    ultimately show ?thesis
      using k \<open>i = j\<close> \<open>live \<noteq> Some NO_SLOT\<close> nth by (cases live) simp_all
  qed
qed

lemma hnsw_wf_vectors:
  assumes "hnsw_wf g" and "flat_wf v" "flat_len v = hn_len g" "fv_dims v = hn_dims g"
  shows "hnsw_wf (g\<lparr>hn_vectors := v\<rparr>)"
proof -
  let ?g = "g\<lparr>hn_vectors := v\<rparr>"
  have same: "hn_len ?g = hn_len g" "\<And>s l. has_level ?g s l = has_level g s l"
    "\<And>s l. neighbours ?g s l = neighbours g s l" "\<And>s. is_tombstoned ?g s = is_tombstoned g s"
    by (simp_all add: hn_len_def has_level_def neighbours_def is_tombstoned_def)
  with assms show ?thesis
    by (simp add: hnsw_wf_def graph_ok_def shape_ok_def links_ok_def words_ok_def rows_ok_def
        tombstones_ok_def entry_ok_def hn_dims_def split: option.splits)
qed

text \<open>The state with its rows served from elsewhere.\<close>

definition rebased :: "flat_vectors \<Rightarrow> partition \<Rightarrow> partition" where
  "rebased v p = p\<lparr>pt_index := (pt_index p)\<lparr>hn_vectors := v\<rparr>\<rparr>"

lemma rebased_simps [simp]:
  "pt_config (rebased v p) = pt_config p" "pt_metric (rebased v p) = pt_metric p"
  "pt_key_table (rebased v p) = pt_key_table p" "pt_keys (rebased v p) = pt_keys p"
  "pt_slots (rebased v p) = pt_slots p" "pt_idem (rebased v p) = pt_idem p"
  "pt_wal (rebased v p) = pt_wal p" "pt_high_water (rebased v p) = pt_high_water p"
  by (simp_all add: rebased_def)

lemma rebased_ok:
  assumes wf: "part_wf p" and v: "flat_wf v" "flat_rows v = flat_rows (hn_vectors (pt_index p))"
    "fv_dims v = cfg_dims (pt_config p)"
  shows "part_wf (rebased v p)" "contents (rebased v p) = contents p"
proof -
  let ?g = "pt_index p"
  have g: "hnsw_wf ?g" "hn_dims ?g = cfg_dims (pt_config p)" "length (pt_slots p) = hn_len ?g"
    using wf by (auto simp: part_wf_def config_ok_def slots_ok_def)
  have r: "flat_wf (hn_vectors ?g)" "flat_len (hn_vectors ?g) = hn_len ?g" "hn_len ?g \<le> 2 ^ 32"
    using g(1) by (auto simp: hnsw_wf_def graph_ok_def rows_ok_def)
  have "flat_len v = hn_len ?g" using flat_wf_len [OF v(1)] flat_wf_len [OF r(1)] r(2) v(2) by simp
  then have "hnsw_wf (?g\<lparr>hn_vectors := v\<rparr>)" using hnsw_wf_vectors [OF g(1) v(1)] v(3) g(2) by simp
  with wf v(3) show "part_wf (rebased v p)"
    by (simp add: part_wf_def rebased_def config_ok_def slots_ok_def hn_dims_def hn_len_def is_tombstoned_def)
  have "flat_get v s = flat_get (hn_vectors ?g) s" if "pt_keys p key = Some (i, Some s)" for key i s
  proof -
    have "s < 2 ^ 32" using that part_wf_slot(1) [OF wf] g(3) r(3) by fastforce
    then show ?thesis using flat_wf_get [OF v(1)] flat_wf_get [OF r(1)] v(2) by simp
  qed
  then show "contents (rebased v p) = contents p"
    by (auto simp: fun_eq_iff contents_def rebased_def slot_for_key_def intro!: bind_option_cong)
qed

text \<open>Restoring what a snapshot of the state loads as gives that state, its rows served from the
  snapshot.\<close>

lemma restore_snapshot:
  assumes wf: "part_wf p" and room: "has_room p" and sizes: "sizes_ok p"
    and ls: "loads_as (snapshot_input_of p) ls"
  shows "\<exists>b. restore_state (pt_config p) (pt_metric p) ls = Inr b \<and>
    bare b = bare (rebased (ls_vectors ls) p) \<and> pt_high_water b = pt_high_water p"
proof -
  let ?v = "ls_vectors ls" and ?g = "pt_index p"
  have c: "hn_metric ?g = pt_metric p" "hn_params ?g = cfg_params (pt_config p)" "iw_wf (pt_idem p)"
    using wf by (auto simp: part_wf_def config_ok_def)
  have l: "ls_dims ls = cfg_dims (pt_config p)" "ls_metric ls = pt_metric p" "ls_params ls = hn_params ?g"
    "ls_high_water ls = pt_high_water p" "ls_keys ls = snapshot_keys p" "ls_slots ls = pt_slots p"
    "ls_quantized ls = hn_quantized ?g" "ls_graph ls = hnsw_graph_parts ?g"
    "ls_idempotency ls = iw_entries (pt_idem p)"
    "flat_wf ?v" "flat_rows ?v = flat_rows (hn_vectors ?g)" "fv_dims ?v = cfg_dims (pt_config p)"
    using ls by (auto simp: loads_as_def snapshot_input_of_def)
  have "hnsw_wf (pt_index (rebased ?v p))" using rebased_ok(1) [OF wf l(10-12)] by (simp add: part_wf_def)
  from hnsw_from_parts_graph_parts [OF this]
  have "hnsw_from_parts (ls_params ls) (pt_metric p) ?v (ls_quantized ls) (ls_graph ls) =
      Some (?g\<lparr>hn_vectors := ?v\<rparr>)"
    by (simp add: l c rebased_def hnsw_graph_parts_def)
  moreover have "map fst (snapshot_keys p) = pt_key_table p" by (simp add: snapshot_keys_def comp_def)
  moreover have "iw_restore (cfg_idempotency_window (pt_config p)) (iw_entries (pt_idem p)) = pt_idem p"
    using iw_restore_entries [OF c(3)] sizes by (simp add: sizes_ok_def)
  ultimately show ?thesis
    using l c index_keys_snapshot [OF wf room] by (simp add: restore_state_def bare_def rebased_def)
qed

section \<open>Lemmas: the newest snapshot\<close>

definition snap_of :: "path \<Rightarrow> u64 option" where
  "snap_of name = Option.bind (strip_suffix ''.snap'' name) parse_u64"

text \<open>Every snapshot in the directory is named after a state no later than the mark.\<close>

definition snaps_ok :: "wal_dir \<Rightarrow> u64 \<Rightarrow> bool" where
  "snaps_ok dir mark \<longleftrightarrow>
     (\<forall>name\<in>fst ` set dir. \<forall>h. snap_of name = Some h \<longrightarrow> h \<le> mark \<and> name = snapshot_name h)"

lemma snap_of_name [simp]: "snap_of (snapshot_name h) = Some h"
  by (simp add: snap_of_def snapshot_name_def strip_suffix_append parse_fmt_020)

lemma snaps_ok_Nil [simp]: "snaps_ok [] mark"
  by (simp add: snaps_ok_def)

lemma snaps_ok_mono: "snaps_ok dir m \<Longrightarrow> m \<le> m' \<Longrightarrow> snaps_ok dir m'"
  by (fastforce simp: snaps_ok_def)

lemma snaps_ok_written:
  "snaps_ok dir mark \<Longrightarrow> snaps_ok (AList.update (snapshot_name mark) bs (AList.delete temporary dir)) mark"
  by (auto simp: snaps_ok_def dom_update [unfolded dom_map_of_conv_image_fst] AList.delete_eq)

lemma set_snapshot_list:
  "set (snapshot_list dir) = {(h, name) | h name. name \<in> fst ` set dir \<and> snap_of name = Some h}"
  by (force simp: snapshot_list_def map_filter_def snap_of_def)

lemma snapshot_list_newest:
  assumes ok: "snaps_ok dir mark" and mem: "snapshot_name mark \<in> fst ` set dir"
  shows "\<exists>rest. snapshot_list dir = (mark, snapshot_name mark) # rest"
proof -
  let ?k = "\<lambda>(h, name :: path). - uint (h :: u64)"
  let ?xs = "snapshot_list dir"
  have "cmp_of (unat (fst b)) (unat (fst a)) = cmp_of (?k a) (?k b)" for a b
  proof -
    have "unat (fst b) < unat (fst a) \<longleftrightarrow> uint (fst a) > uint (fst b)"
      by (simp only: word_less_nat_alt [symmetric] word_less_def [symmetric])
    moreover have "unat (fst b) = unat (fst a) \<longleftrightarrow> uint (fst b) = uint (fst a)"
      by (simp only: word_unat_eq_iff [symmetric] word_uint_eq_iff [symmetric])
    ultimately show ?thesis unfolding cmp_of_def case_prod_beta by auto
  qed
  then have "\<exists>ys. ?xs = sort_key ?k ys"
    unfolding snapshot_list_def by (intro exI) (rule sort_by_key_eq, simp only: cmp_by_key_def, blast)
  then obtain ys where ys: "?xs = sort_key ?k ys" ..
  have m: "(mark, snapshot_name mark) \<in> set ?xs" using mem by (auto simp: set_snapshot_list)
  then obtain h name rest where r: "?xs = (h, name) # rest" by (cases ?xs) auto
  have "sorted (map ?k ?xs)" by (simp add: ys)
  then have "mark \<le> h" using m by (auto simp: r word_le_def)
  moreover have "(h, name) \<in> set (snapshot_list dir)" using r by simp
  then have "h \<le> mark" "name = snapshot_name h"
    using ok unfolding set_snapshot_list snaps_ok_def by blast+
  ultimately show ?thesis using r by simp
qed

section \<open>Lemmas: a snapshot keeps a partition durable\<close>

lemma part_snapshot_ok:
  assumes wf: "part_wf p" and room: "has_room p" and sizes: "sizes_ok p"
    and plat: "platform_ok (pf_blake3 pf) (pf_cast pf) (pf_addr pf)"
    and size: "length (snap_file (pf_crc pf) (pf_blake3 pf) (snapshot_input_of p)) < 2 ^ 64"
    and fp: "pt_failpoint p \<noteq> Some SnapshotBeforeRename" "pt_failpoint p \<noteq> Some SnapshotAfterRename"
  shows "\<exists>ls. let path = snapshot_name (pt_high_water p);
      file = snap_file (pf_crc pf) (pf_blake3 pf) (snapshot_input_of p)
    in loads_as (snapshot_input_of p) ls \<and> ls_path ls = path \<and>
       snapshot_load (pf_crc pf) (pf_blake3 pf) (pf_cast pf) (pf_addr pf) path file (cfg_id (pt_config p)) = Inr ls \<and>
       part_snapshot pf SnapOk temporary dir p =
         Some (AList.update path file (AList.delete temporary dir),
           (rebased (ls_vectors ls) p)\<lparr>pt_snapshot_high_water := pt_high_water p\<rparr>, Inr path)"
proof -
  let ?in = "snapshot_input_of p" and ?path = "snapshot_name (pt_high_water p)"
  let ?file = "snap_file (pf_crc pf) (pf_blake3 pf) ?in"
  have f: "si_partition_id ?in = cfg_id (pt_config p)" "si_dims ?in = cfg_dims (pt_config p)"
    "si_high_water ?in = pt_high_water p" "si_slots ?in = pt_slots p" "si_vectors ?in = hn_vectors (pt_index p)"
    by (simp_all add: snapshot_input_of_def)
  note fits = snapshot_fits [OF wf room sizes]
  obtain ls where ls: "snapshot_load (pf_crc pf) (pf_blake3 pf) (pf_cast pf) (pf_addr pf) ?path ?file
      (cfg_id (pt_config p)) = Inr ls" "loads_as ?in ls" "ls_path ls = ?path"
    "map_vectors (pf_crc pf) (pf_blake3 pf) (pf_cast pf) (pf_addr pf) ?file (cfg_id (pt_config p))
      (cfg_dims (pt_config p)) (length (pt_slots p)) = Inr (ls_vectors ls)"
    using snapshot_load_encode [OF plat fits size snapshot_valid [OF wf], of ?path]
      map_vectors_load [OF plat fits size] by (auto simp: f)
  have "length (pt_slots p) = flat_len (hn_vectors (pt_index p))" "cfg_dims (pt_config p) = hn_dims (pt_index p)"
    using wf by (auto simp: part_wf_def slots_ok_def config_ok_def hnsw_wf_def graph_ok_def rows_ok_def)
  then have rep: "replace_vectors (pt_index p) (ls_vectors ls) =
      (True, (pt_index p)\<lparr>hn_vectors := ls_vectors ls\<rparr>)"
    using ls(2) by (simp add: replace_vectors_def loads_as_def f)
  have "snapshot_write (pf_crc pf) (pf_blake3 pf) SnapOk temporary dir ?in True =
      Some (AList.update ?path ?file (AList.delete temporary dir), Inr ?path)"
    using snapshot_encode_eq [OF fits] plat by (simp add: snapshot_write_def f platform_ok_def Let_def)
  then have "part_snapshot pf SnapOk temporary dir p =
      Some (AList.update ?path ?file (AList.delete temporary dir),
        (rebased (ls_vectors ls) p)\<lparr>pt_snapshot_high_water := pt_high_water p\<rparr>, Inr ?path)"
    using fp ls(4) rep by (simp add: part_snapshot_def update_conv' rebased_def hit_failpoint_def Let_def)
  with ls(1-3) show ?thesis by (auto simp: Let_def)
qed

lemma restore_state_config: "restore_state config metric ls = Inr b \<Longrightarrow> pt_config b = config"
  by (auto simp: restore_state_def rbind_eq_Inr split: if_splits)

lemma recover_base_config:
  assumes "recover_base pf d = Inr (b, report)"
  obtains json metric where "pd_manifest d = Some json" "pf_of_json pf json = Some (pt_config b)"
    "cfg_validate (pt_config b) = Inr ()" "cfg_parse_metric (pt_config b) = Inr metric"
proof -
  obtain json config where j: "pd_manifest d = Some json" "pf_of_json pf json = Some config"
    using assms by (cases "pd_manifest d"; cases "pf_of_json pf (the (pd_manifest d))")
      (auto simp: recover_base_def)
  obtain u metric where m: "cfg_validate config = Inr u" "cfg_parse_metric config = Inr metric"
    using assms j by (cases "cfg_validate config"; cases "cfg_parse_metric config") (auto simp: recover_base_def)
  obtain loaded rejected where l:
    "load_newest pf (cfg_id config) (pd_snap d) (snapshot_list (pd_snap d)) = (loaded, rejected)"
    by (cases "load_newest pf (cfg_id config) (pd_snap d) (snapshot_list (pd_snap d))")
  have "pt_config b = config"
  proof (cases loaded)
    case None
    then show ?thesis using assms j m l by (auto simp: recover_base_def fresh_state_def split: if_splits)
  next
    case (Some ls)
    then show ?thesis
      using assms j m l restore_state_config [of config metric ls b]
      by (auto simp: recover_base_def rbind_eq_Inr)
  qed
  with j m that show thesis by simp
qed

lemma recover_from_snapshot:
  assumes manifest: "pd_manifest d = Some json" "pf_of_json pf json = Some (pt_config p)"
    and wf: "part_wf p" and room: "has_room p" and sizes: "sizes_ok p"
    and ls: "loads_as (snapshot_input_of p) ls" "ls_path ls = path"
      "snapshot_load (pf_crc pf) (pf_blake3 pf) (pf_cast pf) (pf_addr pf) path bs (cfg_id (pt_config p)) = Inr ls"
    and dir: "snapshot_list dir = (h, path) # rest" "map_of dir path = Some bs"
  shows "\<exists>b report. recover_base pf (d\<lparr>pd_snap := dir\<rparr>) = Inr (b, report) \<and>
    bare b = bare (rebased (ls_vectors ls) p) \<and> pt_high_water b = pt_high_water p \<and>
    rr_snapshot_high_water report = pt_high_water p \<and> rr_torn_tail_found report = None"
proof -
  have m: "cfg_validate (pt_config p) = Inr ()" "cfg_parse_metric (pt_config p) = Inr (pt_metric p)"
    using wf by (simp_all add: part_wf_def config_ok_def cfg_parse_metric_def)
  obtain b where b: "restore_state (pt_config p) (pt_metric p) ls = Inr b"
    "bare b = bare (rebased (ls_vectors ls) p)" "pt_high_water b = pt_high_water p"
    using restore_snapshot [OF wf room sizes ls(1)] by blast
  have "ls_high_water ls = pt_high_water p" using ls(1) by (simp add: loads_as_def snapshot_input_of_def)
  with m manifest b ls dir show ?thesis
    by (simp add: recover_base_def report_new_def)
qed

lemma serving_snapshot:
  assumes sv: "serving pf s (pd_wal d) segs p" and s: "0 < unat s"
    and manifest: "pd_manifest d = Some json" "pf_of_json pf json = Some (pt_config p)"
    and room: "has_room p" and sizes: "sizes_ok p"
    and plat: "platform_ok (pf_blake3 pf) (pf_cast pf) (pf_addr pf)"
    and size: "length (snap_file (pf_crc pf) (pf_blake3 pf) (snapshot_input_of p)) < 2 ^ 64"
    and fp: "pt_failpoint p \<noteq> Some SnapshotBeforeRename" "pt_failpoint p \<noteq> Some SnapshotAfterRename"
    and snaps: "snaps_ok (pd_snap d) (pt_high_water p)"
  shows "\<exists>dir' p'. part_snapshot pf SnapOk temporary (pd_snap d) p =
      Some (dir', p', Inr (snapshot_name (pt_high_water p))) \<and>
    durable pf s (d\<lparr>pd_snap := dir'\<rparr>) segs p' \<and> contents p' = contents p \<and> sizes_ok p' \<and>
    (\<exists>b report. recover_base pf (d\<lparr>pd_snap := dir'\<rparr>) = Inr (b, report) \<and> bare b = bare p') \<and>
    snaps_ok dir' (pt_high_water p') \<and> pt_high_water p' = pt_high_water p \<and>
    pt_snapshot_high_water p' = pt_high_water p \<and> pt_config p' = pt_config p \<and> pt_metric p' = pt_metric p \<and>
    pt_idem p' = pt_idem p \<and> pt_failpoint p' = pt_failpoint p \<and> pt_slots p' = pt_slots p \<and> pt_key_table p' = pt_key_table p"
proof -
  let ?path = "snapshot_name (pt_high_water p)"
  have wf: "part_wf p" using sv by (simp add: serving_def)
  obtain w where w: "pt_wal p = Some w" "writer_ok (pf_crc pf) (cfg_id (pt_config p)) s (pd_wal d) segs w"
    "ww_next_seq w = pt_high_water p + 1" using sv by (auto simp: serving_def)
  obtain bs ls where ls: "loads_as (snapshot_input_of p) ls" "ls_path ls = ?path"
    "snapshot_load (pf_crc pf) (pf_blake3 pf) (pf_cast pf) (pf_addr pf) ?path bs (cfg_id (pt_config p)) = Inr ls"
    and sn: "part_snapshot pf SnapOk temporary (pd_snap d) p =
      Some (AList.update ?path bs (AList.delete temporary (pd_snap d)),
        (rebased (ls_vectors ls) p)\<lparr>pt_snapshot_high_water := pt_high_water p\<rparr>, Inr ?path)"
    using part_snapshot_ok [OF wf room sizes plat size fp, of temporary "pd_snap d"] by (auto simp: Let_def)
  let ?dir = "AList.update ?path bs (AList.delete temporary (pd_snap d))"
  let ?p = "(rebased (ls_vectors ls) p)\<lparr>pt_snapshot_high_water := pt_high_water p\<rparr>"
  have v: "flat_wf (ls_vectors ls)" "flat_rows (ls_vectors ls) = flat_rows (hn_vectors (pt_index p))"
    "fv_dims (ls_vectors ls) = cfg_dims (pt_config p)"
    using ls(1) by (auto simp: loads_as_def snapshot_input_of_def)
  have ok: "snaps_ok ?dir (pt_high_water p)" by (rule snaps_ok_written [OF snaps])
  have m: "map_of ?dir ?path = Some bs" by (simp add: update_conv')
  then have "?path \<in> fst ` set ?dir" by (metis map_of_eq_None_iff option.distinct(1))
  from snapshot_list_newest [OF ok this] obtain rest where
    l: "snapshot_list ?dir = (pt_high_water p, ?path) # rest" by blast
  obtain b report where b: "recover_base pf (d\<lparr>pd_snap := ?dir\<rparr>) = Inr (b, report)"
    "bare b = bare (rebased (ls_vectors ls) p)" "pt_high_water b = pt_high_water p"
    "rr_snapshot_high_water report = pt_high_water p" "rr_torn_tail_found report = None"
    using recover_from_snapshot [OF manifest wf room sizes ls l m] by blast
  have hw: "unat (pt_high_water p) + 1 = unat s + length (log_entries segs)"
  proof -
    have "pt_high_water p + 1 = s + word_of_nat (length (log_entries segs))" and
      tot: "unat s + length (log_entries segs) < 2 ^ 64" using w by (simp_all add: writer_ok_def log_ok_def)
    then have "pt_high_water p = s + word_of_nat (length (log_entries segs)) - 1" by (metis add_diff_cancel_right')
    with unat_last_seq [OF s tot] s show ?thesis by simp
  qed
  have "pt_config b = pt_config p" using b(2) by (metis bare_simps(1) rebased_simps(1))
  moreover have bare: "bare b = bare ?p" using b(2) by (simp add: bare_def)
  moreover have "serving pf s (pd_wal d) segs ?p"
    using rebased_ok(1) [OF wf v] w by (simp add: serving_def part_wf_def config_ok_def)
  ultimately have "durable pf s (d\<lparr>pd_snap := ?dir\<rparr>) segs ?p"
    using s b(1,3-) hw by (simp add: durable_def)
  moreover have "contents ?p = contents p"
    using rebased_ok(2) [OF wf v] by (simp add: contents_def slot_for_key_def fun_eq_iff)
  moreover have "sizes_ok ?p" using sizes by (simp add: sizes_ok_def)
  moreover have "\<exists>b report. recover_base pf (d\<lparr>pd_snap := ?dir\<rparr>) = Inr (b, report) \<and> bare b = bare ?p"
    using b(1) bare by blast
  ultimately show ?thesis using sn ok by (simp add: rebased_def)
qed

lemma durable_manifest:
  assumes "durable pf s d segs p"
  obtains json where "pd_manifest d = Some json" "pf_of_json pf json = Some (pt_config p)"
proof -
  obtain b report where "recover_base pf d = Inr (b, report)" and b: "pt_config b = pt_config p"
    using assms by (auto simp: durable_def)
  from recover_base_config [OF this(1)] that b show thesis by metis
qed

text \<open>A durable partition stays durable.\<close>

lemma durable_snapshot:
  assumes dur: "durable pf s d segs p" and room: "has_room p" and sizes: "sizes_ok p"
    and plat: "platform_ok (pf_blake3 pf) (pf_cast pf) (pf_addr pf)"
    and size: "length (snap_file (pf_crc pf) (pf_blake3 pf) (snapshot_input_of p)) < 2 ^ 64"
    and fp: "pt_failpoint p \<noteq> Some SnapshotBeforeRename" "pt_failpoint p \<noteq> Some SnapshotAfterRename"
    and snaps: "snaps_ok (pd_snap d) (pt_high_water p)"
  shows "\<exists>dir' p'. part_snapshot pf SnapOk temporary (pd_snap d) p =
      Some (dir', p', Inr (snapshot_name (pt_high_water p))) \<and>
    durable pf s (d\<lparr>pd_snap := dir'\<rparr>) segs p' \<and> contents p' = contents p \<and> sizes_ok p' \<and>
    (\<exists>b report. recover_base pf (d\<lparr>pd_snap := dir'\<rparr>) = Inr (b, report) \<and> bare b = bare p') \<and>
    snaps_ok dir' (pt_high_water p') \<and> pt_high_water p' = pt_high_water p \<and>
    pt_snapshot_high_water p' = pt_high_water p \<and> pt_config p' = pt_config p \<and> pt_metric p' = pt_metric p \<and>
    pt_idem p' = pt_idem p \<and> pt_failpoint p' = pt_failpoint p \<and> pt_slots p' = pt_slots p \<and> pt_key_table p' = pt_key_table p"
proof -
  have "serving pf s (pd_wal d) segs p" "0 < unat s" using dur by (simp_all add: durable_def)
  moreover obtain json where "pd_manifest d = Some json" "pf_of_json pf json = Some (pt_config p)"
    using dur by (rule durable_manifest)
  ultimately show ?thesis using room sizes plat size fp snaps by (rule serving_snapshot)
qed

section \<open>Lemmas: sizes\<close>

lemma sizes_ok_bare: "sizes_ok (bare p) = sizes_ok p"
  by (simp add: sizes_ok_def)

lemma iw_record_sizes:
  assumes "iw_wf w"
  shows "iw_capacity (iw_record w i s) = iw_capacity w" "set (iw_order (iw_record w i s)) \<subseteq> insert i (set (iw_order w))"
proof -
  show "iw_capacity (iw_record w i s) = iw_capacity w" by (simp add: iw_record_def Let_def)
  show "set (iw_order (iw_record w i s)) \<subseteq> insert i (set (iw_order w))"
    using assms by (cases "i \<in> set (iw_order w)"; cases "iw_order w") (auto simp: iw_record_known iw_record_new)
qed

lemma retire_sizes:
  "retire s p = Some p' \<Longrightarrow> pt_config p' = pt_config p \<and> pt_key_table p' = pt_key_table p \<and> pt_idem p' = pt_idem p \<and>
     map rec_payload (pt_slots p') = map rec_payload (pt_slots p)"
  by (auto simp: retire_def bind_eq_Some_conv index_def map_update split: if_splits prod.splits)
    (metis list_update_id map_update)

lemma apply_upsert_sizes:
  assumes "apply_upsert ln64 p seq key payload x = Some (Inr p')"
  shows "pt_config p' = pt_config p \<and> set (pt_key_table p') \<subseteq> insert key (set (pt_key_table p)) \<and>
    pt_idem p' = pt_idem p \<and> rec_payload ` set (pt_slots p') \<subseteq> insert payload (rec_payload ` set (pt_slots p))"
proof -
  obtain slot g where ins: "length x = cfg_dims (pt_config p)" "hnsw_insert ln64 (pt_index p) x = Some (Inr (slot, g))"
    using assms by (auto simp: apply_upsert_def split: if_splits option.splits sum.splits prod.splits)
  have img: "rec_payload ` set (pt_slots q) = rec_payload ` set (pt_slots p)"
    if "map rec_payload (pt_slots q) = map rec_payload (pt_slots p)" for q
    using that by (metis set_map)
  show ?thesis
  proof (cases "pt_keys p key")
    case None
    with assms ins show ?thesis by (auto simp: apply_upsert_def Let_def)
  next
    case (Some entry)
    obtain i live where e: "entry = (i, live)" by (cases entry)
    show ?thesis
    proof (cases live)
      case None
      with assms ins Some e show ?thesis by (auto simp: apply_upsert_def Let_def)
    next
      case (Some previous)
      with assms ins \<open>pt_keys p key = Some entry\<close> e obtain q where
        "retire previous (p\<lparr>pt_index := g\<rparr>) = Some q"
        "p' = q\<lparr>pt_keys := (pt_keys q)(key \<mapsto> (i, Some slot)), pt_slots := pt_slots q @
           [\<lparr>rec_version = seq, rec_tombstone = False, rec_key_index = i, rec_payload = payload\<rparr>]\<rparr>"
        by (auto simp: apply_upsert_def Let_def)
      with retire_sizes [of previous "p\<lparr>pt_index := g\<rparr>" q] img [of q] show ?thesis by auto
    qed
  qed
qed

lemma apply_delete_sizes:
  assumes "apply_delete p key = Some (Inr p')"
  shows "pt_config p' = pt_config p \<and> pt_key_table p' = pt_key_table p \<and>
    pt_idem p' = pt_idem p \<and> rec_payload ` set (pt_slots p') = rec_payload ` set (pt_slots p)"
proof (cases "Option.bind (pt_keys p key) snd")
  case None
  with assms show ?thesis by (auto simp: apply_delete_def split: option.splits prod.splits)
next
  case (Some previous)
  then obtain i where "pt_keys p key = Some (i, Some previous)" by (auto simp: bind_eq_Some_conv)
  with assms obtain q where "retire previous p = Some q" "p' = q\<lparr>pt_keys := (pt_keys q)(key \<mapsto> (i, None))\<rparr>"
    by (auto simp: apply_delete_def)
  with retire_sizes [of previous p q] show ?thesis by (simp, metis set_map)
qed

lemma apply_entry_sizes:
  assumes ap: "apply_entry ln64 p e = Some (Inr p')" and wf: "part_wf p" and ok: "sizes_ok p"
    and enc: "entry_encode crc e = Inr frame" and id: "length (e_op_id e) = 16"
  shows "sizes_ok p'"
proof -
  have w: "iw_wf (pt_idem p)" using wf by (simp add: part_wf_def)
  have "\<exists>q key payload. pt_config q = pt_config p \<and> set (pt_key_table q) \<subseteq> insert key (set (pt_key_table p)) \<and>
      pt_idem q = pt_idem p \<and> rec_payload ` set (pt_slots q) \<subseteq> insert payload (rec_payload ` set (pt_slots p)) \<and>
      key \<noteq> [] \<and> length key \<le> MAX_KEY_LEN \<and> length payload \<le> MAX_PAYLOAD_LEN \<and>
      p' = q\<lparr>pt_idem := iw_record (pt_idem q) (e_op_id e) (e_seq e), pt_high_water := e_seq e\<rparr>"
  proof (cases "e_operation e")
    case (Upsert key payload x)
    with ap obtain q where "apply_upsert ln64 p (e_seq e) key payload x = Some (Inr q)"
      "p' = q\<lparr>pt_idem := iw_record (pt_idem q) (e_op_id e) (e_seq e), pt_high_water := e_seq e\<rparr>"
      by (auto simp: apply_entry_def rbind_eq_Inr)
    moreover have "key \<noteq> []" "length key \<le> MAX_KEY_LEN" "length payload \<le> MAX_PAYLOAD_LEN"
      using enc Upsert by (auto simp: entry_encode_def encode_operation_def check_key_def rbind_eq_Inr split: if_splits)
    ultimately show ?thesis
      using apply_upsert_sizes [of ln64 p "e_seq e" key payload x q]
      by (intro exI [of _ q] exI [of _ key] exI [of _ payload]) simp
  next
    case (Delete key)
    with ap obtain q where "apply_delete p key = Some (Inr q)"
      "p' = q\<lparr>pt_idem := iw_record (pt_idem q) (e_op_id e) (e_seq e), pt_high_water := e_seq e\<rparr>"
      by (auto simp: apply_entry_def rbind_eq_Inr)
    moreover have "key \<noteq> []" "length key \<le> MAX_KEY_LEN"
      using enc Delete by (auto simp: entry_encode_def encode_operation_def check_key_def rbind_eq_Inr split: if_splits)
    ultimately show ?thesis
      using apply_delete_sizes [of p key q] by (intro exI [of _ q] exI [of _ key] exI [of _ "[]"]) auto
  qed
  then obtain q key payload where q: "pt_config q = pt_config p"
    "set (pt_key_table q) \<subseteq> insert key (set (pt_key_table p))" "pt_idem q = pt_idem p"
    "rec_payload ` set (pt_slots q) \<subseteq> insert payload (rec_payload ` set (pt_slots p))"
    "key \<noteq> []" "length key \<le> MAX_KEY_LEN" "length payload \<le> MAX_PAYLOAD_LEN"
    "p' = q\<lparr>pt_idem := iw_record (pt_idem q) (e_op_id e) (e_seq e), pt_high_water := e_seq e\<rparr>" by blast
  have "\<forall>r\<in>set (pt_slots q). length (rec_payload r) \<le> MAX_PAYLOAD_LEN"
  proof
    fix r assume "r \<in> set (pt_slots q)"
    then have "rec_payload r \<in> insert payload (rec_payload ` set (pt_slots p))" using q(4) by blast
    with q(7) ok show "length (rec_payload r) \<le> MAX_PAYLOAD_LEN" by (auto simp: sizes_ok_def)
  qed
  moreover have "\<forall>i\<in>set (iw_order (iw_record (pt_idem p) (e_op_id e) (e_seq e))). length i = 16"
    using iw_record_sizes(2) [OF w, of "e_op_id e" "e_seq e"] id ok by (auto simp: sizes_ok_def)
  ultimately show ?thesis
    using q ok iw_record_sizes(1) [OF w] by (auto simp: sizes_ok_def)
qed

text \<open>A successful snapshot met no failpoint.\<close>

lemma snapshot_write_aborted:
  "snapshot_write crc blake3 io temporary dir input False = Some (dir', r) \<Longrightarrow> \<exists>e. r = Inl e"
  by (cases "snapshot_encode crc blake3 input"; cases "the (snapshot_encode crc blake3 input)"; cases io)
    (auto simp: snapshot_write_def Let_def)

lemma part_snapshot_failpoint:
  assumes s: "part_snapshot pf io temporary dir p = Some (dir', p', Inr path)"
  shows "pt_failpoint p \<noteq> Some SnapshotBeforeRename" "pt_failpoint p \<noteq> Some SnapshotAfterRename"
proof -
  let ?w = "snapshot_write (pf_crc pf) (pf_blake3 pf) io temporary dir (snapshot_input_of p)
      (pt_failpoint p \<noteq> Some SnapshotBeforeRename)"
  obtain d r where w: "?w = Some (d, r)" using s by (cases ?w) (auto simp: part_snapshot_def Let_def)
  with s obtain q where r: "r = Inr q" by (cases r) (auto simp: part_snapshot_def Let_def)
  with w snapshot_write_aborted show "pt_failpoint p \<noteq> Some SnapshotBeforeRename" by fastforce
  with w r s show "pt_failpoint p \<noteq> Some SnapshotAfterRename"
    by (auto simp: part_snapshot_def Let_def rbind_eq_Inr replace_vectors_def
        split: option.splits sum.splits prod.splits bool.splits if_splits)
qed

end
