(* ===== verification/Partition_Sizes.thy ===== *)
theory Partition_Sizes
  imports Partition_Snapshot
begin

text \<open>
  Every partition the engine admits has a snapshot file far below the 64-bit offsets of its section
  table: slots and keys fit 32 bits, payloads 64 KiB, rows 65536 dimensions, levels and degrees a byte.
\<close>

section \<open>Lemmas: sections\<close>

lemma length_concat_le:
  "\<forall>x\<in>set xs. length (f x) \<le> b \<Longrightarrow> length (concat (map f xs)) \<le> length xs * b"
  by (induction xs) auto

lemma align_up_le: "align_up n \<le> n + 63"
  by (simp add: align_up_def div_ceil_def snap_consts) presburger

lemma length_pad_section_le: "length (pad_section s) \<le> length (snd s) + 63"
  using align_up_le [of "length (snd s)"] by (simp add: length_pad_section)

lemma length_write_le: "\<forall>x. length (f x) = b \<Longrightarrow> length (write_le f xs) = b * length xs"
  unfolding write_le_def by (induction xs) auto

lemmas length_write_u32 = length_write_le [of u32_le 4, simplified] length_write_le [of nat_u32 4, simplified]
  length_write_le [of u64_le 8, simplified]

lemma length_encode_slots: "length (encode_slots off rs) = 25 * length rs"
  by (induction rs arbitrary: off) simp_all

lemma length_encode_upper:
  assumes "level < 256" and "length lens = level" and "length links = level * m" and "m \<le> 255"
  shows "length (encode_upper (level, lens, links)) \<le> 2 ^ 18"
proof -
  have "level * m \<le> 255 * 255" using assms(1,4) by (intro mult_le_mono) simp_all
  then show ?thesis using assms(1-3) by (simp add: encode_upper_def length_write_u32)
qed

lemma length_encode_graph:
  assumes "parts_fit params n g" and n: "n < 2 ^ 32"
  shows "length (encode_graph params n g) \<le> 2 ^ 51"
proof -
  note f = assms(1) [unfolded parts_fit_def]
  let ?u = "take n (zip (gp_levels g) (zip (gp_upper_len g) (gp_upper g)))"
  have "length (encode_upper u) \<le> 2 ^ 18" if "u \<in> set ?u" for u
  proof -
    obtain s where "s < n" "u = (gp_levels g ! s, gp_upper_len g ! s, gp_upper g ! s)"
      using \<open>u \<in> set ?u\<close> f by (auto simp: in_set_conv_nth)
    with f show ?thesis using length_encode_upper [of "gp_levels g ! s" "gp_upper_len g ! s" "gp_upper g ! s" "hp_m params"]
      by auto
  qed
  then have "length (concat (map encode_upper ?u)) \<le> length ?u * 2 ^ 18" by (intro length_concat_le) blast
  then have "length (concat (map encode_upper ?u)) \<le> n * 262144" using f by simp
  moreover have "length (gp_level0 g) \<le> n * 255" using f by simp
  moreover have "div_ceil n 64 \<le> n" by (cases "n = 0") (simp_all add: div_ceil_def Suc_le_eq)
  moreover have "length (gp_tombstones g) = div_ceil n 64" "length (gp_levels g) = n" "length (gp_level0_len g) = n"
    using f by simp_all
  moreover have "length (encode_graph params n g) = 33 + length (gp_levels g) + length (gp_level0_len g) +
      4 * length (gp_level0 g) + 8 * length (gp_tombstones g) + length (concat (map encode_upper ?u))"
    by (simp add: encode_graph_def length_write_u32)
  ultimately show ?thesis using n by simp
qed

text \<open>Each section is at most half a petabyte.\<close>

lemma length_sections:
  assumes fits: "input_fits si" and pay: "\<forall>r\<in>set (si_slots si). length (rec_payload r) \<le> MAX_PAYLOAD_LEN"
  shows "\<forall>s\<in>set (snap_sections si). length (snd s) \<le> 2 ^ 51"
proof -
  note f = fits [unfolded input_fits_def]
  let ?n = "length (si_slots si)"
  have n: "?n < 2 ^ 32" "length (si_keys si) < 2 ^ 32" "length (si_idempotency si) < 2 ^ 32" using f by simp_all
  have "length (encode_keys (si_keys si)) \<le> length (si_keys si) * (2 ^ 16 + 6)"
    unfolding encode_keys_def using f by (intro length_concat_le) fastforce
  then have keys: "length (encode_keys (si_keys si)) \<le> 2 ^ 51" using n by simp
  have slots: "length (encode_slots 0 (si_slots si)) \<le> 2 ^ 51" using n by (simp add: length_encode_slots)
  have "length (encode_payloads (si_slots si)) \<le> ?n * MAX_PAYLOAD_LEN"
    unfolding encode_payloads_def using pay by (intro length_concat_le) blast
  then have payloads: "length (encode_payloads (si_slots si)) \<le> 2 ^ 51" using n by (simp add: MAX_PAYLOAD_LEN_def)
  have rows: "length (flat_rows (si_vectors si)) = ?n" "\<forall>row\<in>set (flat_rows (si_vectors si)). length row = si_dims si"
    using f flat_wf_len by (auto simp: flat_rows_def dest: chunks_elem_length)
  then have "\<forall>row\<in>set (flat_rows (si_vectors si)). length (write_le u32_le row) \<le> 2 ^ 18"
    using f by (simp add: length_write_u32)
  then have "length (encode_f32 (si_vectors si)) \<le> ?n * 2 ^ 18"
    unfolding encode_f32_def rows(1) [symmetric] by (rule length_concat_le)
  then have f32: "length (encode_f32 (si_vectors si)) \<le> 2 ^ 51" using n by simp
  have "length (qv_scales (si_quantized si)) = ?n" "length (qv_norms_sq (si_quantized si)) = ?n"
    "length (qv_data (si_quantized si)) = ?n * si_dims si"
    using f by (auto simp: quant_wf_def quant_len_def)
  moreover have "?n * si_dims si \<le> 2 ^ 32 * 65536" using f by (intro mult_le_mono) simp_all
  ultimately have i8: "length (encode_i8 (si_quantized si)) \<le> 2 ^ 51"
    using n by (simp add: encode_i8_def length_write_u32)
  have graph: "length (encode_graph (si_params si) ?n (si_graph si)) \<le> 2 ^ 51"
    using f by (intro length_encode_graph) simp_all
  have "length (encode_idempotency (si_idempotency si)) \<le> length (si_idempotency si) * 24"
    unfolding encode_idempotency_def using f by (intro length_concat_le) fastforce
  then have idem: "length (encode_idempotency (si_idempotency si)) \<le> 2 ^ 51" using n by simp
  from keys slots payloads f32 i8 graph idem show ?thesis by (simp add: snap_sections_def)
qed

lemma snap_file_small:
  assumes fits: "input_fits si" and pay: "\<forall>r\<in>set (si_slots si). length (rec_payload r) \<le> MAX_PAYLOAD_LEN"
    and plat: "platform_ok blake3 cast addr"
  shows "length (snap_file crc blake3 si) < 2 ^ 64"
proof -
  have "length (pad_section s) \<le> 2 ^ 51 + 63" if "s \<in> set (snap_sections si)" for s
    using length_pad_section_le [of s] length_sections [OF fits pay] that by fastforce
  then have "length (concat (map pad_section (snap_sections si))) \<le> length (snap_sections si) * (2 ^ 51 + 63)"
    by (intro length_concat_le) blast
  moreover have "length (snap_prefix crc blake3 si) = 512"
    using plat fits by (intro length_snap_prefix) (simp_all add: platform_ok_def input_fits_def)
  ultimately show ?thesis using plat by (simp add: snap_file_def platform_ok_def Let_def)
qed

lemma snapshot_small:
  assumes "part_wf p" and "has_room p" and "sizes_ok p" and "platform_ok (pf_blake3 pf) (pf_cast pf) (pf_addr pf)"
  shows "length (snap_file (pf_crc pf) (pf_blake3 pf) (snapshot_input_of p)) < 2 ^ 64"
proof (rule snap_file_small [OF snapshot_fits [OF assms(1-3)] _ assms(4)])
  show "\<forall>r\<in>set (si_slots (snapshot_input_of p)). length (rec_payload r) \<le> MAX_PAYLOAD_LEN"
    using assms(3) by (simp add: sizes_ok_def snapshot_input_of_def)
qed

end
