(* ===== verification/Hnsw_Build.thy ===== *)
theory Hnsw_Build
  imports Hnsw_Insert
begin

text \<open>
  The parallel bulk builder of \<open>hnsw.rs\<close>. Neighbour lists are guarded by one lock each, so what a
  worker does between two lock acquisitions is one step: \<open>thread_step\<close> is the loop nest of
  \<open>BuildCore::insert\<close> cut at every \<open>lock()\<close>, and \<open>build_step\<close> lets any unfinished worker make
  the next step. Whatever the schedule, no worker panics, every run ends, and the lists stay within
  capacity and lead to slots that have the level.
\<close>

section \<open>The locked lists\<close>

record locked_links =
  ll_m :: nat
  ll_m0 :: nat
  ll_level0 :: "nat list list"
  ll_upper :: "nat list list list"

definition links_new :: "nat list \<Rightarrow> nat \<Rightarrow> nat \<Rightarrow> locked_links" where
  "links_new levels m m0 =
     \<lparr>ll_m = m, ll_m0 = m0, ll_level0 = map (\<lambda>_. []) levels,
      ll_upper = map (\<lambda>level. map (\<lambda>_. []) [0..<level]) levels\<rparr>"

definition links_list :: "locked_links \<Rightarrow> nat \<Rightarrow> nat \<Rightarrow> nat list option" where
  "links_list ll slot level =
     (if level = 0 then index (ll_level0 ll) slot
      else Option.bind (index (ll_upper ll) slot) (\<lambda>lists. index lists (level - 1)))"

text \<open>Assigning through the guard of a list.\<close>

definition links_put :: "locked_links \<Rightarrow> nat \<Rightarrow> nat \<Rightarrow> nat list \<Rightarrow> locked_links option" where
  "links_put ll slot level xs =
     (if level = 0 then map_option (\<lambda>l. ll\<lparr>ll_level0 := l\<rparr>) (store (ll_level0 ll) slot xs)
      else Option.bind (index (ll_upper ll) slot) (\<lambda>lists.
           map_option (\<lambda>lists'. ll\<lparr>ll_upper := (ll_upper ll)[slot := lists']\<rparr>)
             (store lists (level - 1) xs)))"

definition links_capacity :: "locked_links \<Rightarrow> nat \<Rightarrow> nat" where
  "links_capacity ll level = (if level = 0 then ll_m0 ll else ll_m ll)"

section \<open>A worker\<close>

record build_core =
  bc_metric :: metric
  bc_vectors :: flat_vectors
  bc_params :: hnsw_params
  bc_links :: locked_links

definition bc_dist :: "build_core \<Rightarrow> f32 list \<Rightarrow> nat \<Rightarrow> f32 option" where
  "bc_dist core query slot =
     map_option (distance (bc_metric core) query) (flat_get (bc_vectors core) slot)"

text \<open>Where a worker is: on its way down (at a slot with its distance), in a beam search, about to
  merge its own list, about to link the remaining neighbours back.\<close>

datatype phase =
  Start
| Walk nat f32 nat
| Beam nat beam
| Own nat "far list" "nat list"
| Back nat "far list" "nat list"
| Finished

record worker =
  wk_slot :: nat
  wk_level :: nat
  wk_query :: "f32 list"
  wk_scratch :: visited
  wk_phase :: phase

definition begin_beam :: "build_core \<Rightarrow> worker \<Rightarrow> nat list \<Rightarrow> nat \<Rightarrow> worker option" where
  "begin_beam core w entries lc =
     Option.bind (visited_reset (flat_len (bc_vectors core)) (wk_scratch w)) (\<lambda>v.
       map_option (\<lambda>b. w\<lparr>wk_phase := Beam lc b\<rparr>)
         (beam_seed (bc_dist core (wk_query w)) (\<lambda>_. True) entries
            \<lparr>bm_visited = v, bm_candidates = [], bm_results = []\<rparr>))"

definition descend_to :: "build_core \<Rightarrow> nat \<Rightarrow> worker \<Rightarrow> nat \<Rightarrow> nat \<Rightarrow> worker option" where
  "descend_to core max_level w current lc =
     (if wk_level w < lc
      then map_option (\<lambda>best. w\<lparr>wk_phase := Walk current best lc\<rparr>) (bc_dist core (wk_query w) current)
      else begin_beam core w [current] (min (wk_level w) max_level))"

definition end_beam :: "build_core \<Rightarrow> worker \<Rightarrow> nat \<Rightarrow> beam \<Rightarrow> worker option" where
  "end_beam core w lc b =
     map_option (\<lambda>selected. w\<lparr>wk_scratch := bm_visited b, wk_phase := Own lc (bm_results b) selected\<rparr>)
       (select_heuristic (bc_vectors core) (bc_metric core) (bm_results b)
          (links_capacity (bc_links core) lc))"

definition prune :: "build_core \<Rightarrow> f32 list \<Rightarrow> nat list \<Rightarrow> nat \<Rightarrow> nat list option" where
  "prune core base slots cap =
     Option.bind (those (map (far_from (bc_dist core base)) slots)) (\<lambda>candidates.
       select_heuristic (bc_vectors core) (bc_metric core) candidates cap)"

definition merge_own :: "build_core \<Rightarrow> worker \<Rightarrow> nat \<Rightarrow> nat list \<Rightarrow> nat list \<Rightarrow> nat list option" where
  "merge_own core w lc selected own =
     (if own = [] then Some selected
      else prune core (wk_query w) (selected @ filter (\<lambda>s. s \<notin> set selected) own)
             (links_capacity (bc_links core) lc))"

definition link_to :: "build_core \<Rightarrow> nat \<Rightarrow> nat \<Rightarrow> nat \<Rightarrow> nat list \<Rightarrow> nat list option" where
  "link_to core slot neighbour lc ns =
     (if length ns < links_capacity (bc_links core) lc then Some (ns @ [slot])
      else Option.bind (flat_get (bc_vectors core) neighbour) (\<lambda>base.
             prune core base (ns @ [slot]) (links_capacity (bc_links core) lc)))"

definition update_list ::
  "locked_links \<Rightarrow> nat \<Rightarrow> nat \<Rightarrow> (nat list \<Rightarrow> nat list option) \<Rightarrow> locked_links option" where
  "update_list ll slot level f =
     Option.bind (links_list ll slot level) (\<lambda>ns. Option.bind (f ns) (links_put ll slot level))"

text \<open>One step: at most one lock is taken. \<open>None\<close> is a panic.\<close>

definition thread_step ::
  "build_core \<Rightarrow> nat \<Rightarrow> nat \<Rightarrow> worker \<Rightarrow> (locked_links \<times> worker) option" where
  "thread_step core entry max_level w =
     (let ll = bc_links core; dist = bc_dist core (wk_query w)
      in case wk_phase w of
        Start \<Rightarrow>
          Option.bind (flat_get (bc_vectors core) (wk_slot w)) (\<lambda>query.
            map_option (Pair ll) (descend_to core max_level (w\<lparr>wk_query := query\<rparr>) entry max_level))
      | Walk current best lc \<Rightarrow>
          Option.bind (links_list ll current lc) (\<lambda>ns.
          Option.bind (greedy_scan dist ns best current False) (\<lambda>(best', current', improved).
            if improved then Some (ll, w\<lparr>wk_phase := Walk current' best' lc\<rparr>)
            else map_option (Pair ll) (descend_to core max_level w current' (lc - 1))))
      | Beam lc b \<Rightarrow>
          (case heap_peek (bm_candidates b) of
             None \<Rightarrow> map_option (Pair ll) (end_beam core w lc b)
           | Some x \<Rightarrow>
               let b' = b\<lparr>bm_candidates := heap_pop (bm_candidates b)\<rparr>
               in if beam_done (hp_ef_construction (bc_params core)) (bm_results b) x
                  then map_option (Pair ll) (end_beam core w lc b')
                  else Option.bind (links_list ll (snd x) lc) (\<lambda>ns.
                         map_option (\<lambda>b''. (ll, w\<lparr>wk_phase := Beam lc b''\<rparr>))
                           (beam_expand dist (\<lambda>_. True) (hp_ef_construction (bc_params core)) ns b')))
      | Own lc candidates selected \<Rightarrow>
          map_option (\<lambda>ll'. (ll', w\<lparr>wk_phase := Back lc candidates selected\<rparr>))
            (update_list ll (wk_slot w) lc (merge_own core w lc selected))
      | Back lc candidates [] \<Rightarrow>
          (case lc of
             0 \<Rightarrow> Some (ll, w\<lparr>wk_phase := Finished\<rparr>)
           | Suc lc' \<Rightarrow> map_option (Pair ll) (begin_beam core w (map snd candidates) lc'))
      | Back lc candidates (neighbour # rest) \<Rightarrow>
          map_option (\<lambda>ll'. (ll', w\<lparr>wk_phase := Back lc candidates rest\<rparr>))
            (update_list ll neighbour lc (link_to core (wk_slot w) neighbour lc))
      | Finished \<Rightarrow> None)"

section \<open>Workers in parallel\<close>

text \<open>Any unfinished worker makes the next step.\<close>

inductive build_step ::
  "nat \<Rightarrow> nat \<Rightarrow> build_core \<times> worker list \<Rightarrow> build_core \<times> worker list \<Rightarrow> bool" for entry max_level where
  step: "i < length ws \<Longrightarrow> thread_step core entry max_level (ws ! i) = Some (ll, w) \<Longrightarrow>
    build_step entry max_level (core, ws) (core\<lparr>bc_links := ll\<rparr>, ws[i := w])"

inductive_cases build_step_cases: "build_step entry max_level st st'"

definition new_worker :: "nat list \<Rightarrow> nat \<Rightarrow> visited \<Rightarrow> worker" where
  "new_worker levels slot scratch =
     \<lparr>wk_slot = slot, wk_level = levels ! slot, wk_query = [], wk_scratch = scratch, wk_phase = Start\<rparr>"

definition all_finished :: "worker list \<Rightarrow> bool" where
  "all_finished ws \<longleftrightarrow> list_all (\<lambda>w. wk_phase w = Finished) ws"

function doubling_chunks :: "nat \<Rightarrow> 'a list \<Rightarrow> 'a list list" where
  "doubling_chunks chunk order =
     (if order = [] \<or> chunk = 0 then []
      else take chunk order # doubling_chunks (min (chunk * 2) (2 ^ 16)) (drop chunk order))"
  by pat_completeness auto
termination
  by (relation "measure (\<lambda>(chunk, order). length order)") auto

declare doubling_chunks.simps [simp del]

text \<open>The chunks run one after the other, the insertions of a chunk in parallel. A pool thread may
  bring any scratch set an earlier search left.\<close>

inductive build_chunks ::
  "nat \<Rightarrow> nat \<Rightarrow> nat list \<Rightarrow> nat list list \<Rightarrow> build_core \<Rightarrow> build_core \<Rightarrow> bool" for entry max_level levels where
  none: "build_chunks entry max_level levels [] core core"
| chunk: "list_all visited_wf scratch \<Longrightarrow> length scratch = length chunk \<Longrightarrow>
    (build_step entry max_level)\<^sup>*\<^sup>* (core, map2 (new_worker levels) chunk scratch) (core', ws) \<Longrightarrow>
    all_finished ws \<Longrightarrow> build_chunks entry max_level levels rest core' core'' \<Longrightarrow>
    build_chunks entry max_level levels (chunk # rest) core core''"

section \<open>Lemmas: the locked lists as a link store\<close>

definition links_valid :: "locked_links \<Rightarrow> nat \<Rightarrow> nat \<Rightarrow> bool" where
  "links_valid ll s l \<longleftrightarrow> s < length (ll_level0 ll) \<and> l \<le> length (ll_upper ll ! s)"

definition links_shape :: "locked_links \<Rightarrow> bool" where
  "links_shape ll \<longleftrightarrow>
     length (ll_upper ll) = length (ll_level0 ll) \<and>
     (\<forall>xs\<in>set (ll_level0 ll). length xs \<le> ll_m0 ll) \<and>
     (\<forall>lists\<in>set (ll_upper ll). \<forall>xs\<in>set lists. length xs \<le> ll_m ll)"

lemma links_list_nth:
  assumes "links_shape ll" and "links_valid ll s l"
  shows "links_list ll s l = Some (if l = 0 then ll_level0 ll ! s else ll_upper ll ! s ! (l - 1))"
  using assms by (auto simp: links_list_def links_shape_def links_valid_def index_def)

lemma links_put_eq:
  assumes "links_shape ll" and "links_valid ll s l"
  shows "links_put ll s l xs = Some (if l = 0 then ll\<lparr>ll_level0 := (ll_level0 ll)[s := xs]\<rparr>
    else ll\<lparr>ll_upper := (ll_upper ll)[s := (ll_upper ll ! s)[l - 1 := xs]]\<rparr>)"
  using assms by (auto simp: links_put_def links_shape_def links_valid_def index_def store_def)

lemma links_put_shape:
  assumes "links_shape ll" and "links_valid ll s l" and "length xs \<le> links_capacity ll l"
    and "links_put ll s l xs = Some ll'"
  shows "links_shape ll'" "links_valid ll' = links_valid ll" "links_capacity ll' = links_capacity ll"
proof -
  note put = links_put_eq [OF assms(1,2), of xs]
  have s: "s < length (ll_upper ll)" using assms(1,2) by (simp add: links_shape_def links_valid_def)
  then have u: "ll_upper ll ! s \<in> set (ll_upper ll)" by simp
  show "links_shape ll'"
    using assms(1,3,4) put u
    by (auto simp: links_shape_def links_capacity_def split: if_splits
        dest!: set_update_subset_insert [THEN subsetD])
  show "links_valid ll' = links_valid ll" "links_capacity ll' = links_capacity ll"
    using assms(4) put s
    by (auto simp: links_valid_def links_capacity_def fun_eq_iff nth_list_update split: if_splits)
qed

interpretation ll: link_store links_shape links_valid links_capacity links_list links_put
proof unfold_locales
  fix ll s l
  assume ll: "links_shape ll" "links_valid ll s l"
  have "length (ll_upper ll ! s ! (l - 1)) \<le> ll_m ll" if "l \<noteq> 0"
  proof -
    have "ll_upper ll ! s \<in> set (ll_upper ll)" "ll_upper ll ! s ! (l - 1) \<in> set (ll_upper ll ! s)"
      using ll that by (auto simp: links_shape_def links_valid_def)
    with ll(1) show ?thesis unfolding links_shape_def by blast
  qed
  with ll show "\<exists>ns. links_list ll s l = Some ns \<and> length ns \<le> links_capacity ll l"
    by (auto simp: links_list_nth links_shape_def links_valid_def links_capacity_def)
next
  fix ll s l and xs :: "nat list"
  assume ll: "links_shape ll" "links_valid ll s l" "length xs \<le> links_capacity ll l"
  show "\<exists>ll'. links_put ll s l xs = Some ll' \<and> links_shape ll' \<and> links_valid ll' = links_valid ll \<and>
      links_capacity ll' = links_capacity ll"
    using links_put_shape [OF ll] links_put_eq [OF ll(1,2), of xs] by auto
  fix ll' s' l'
  assume put: "links_put ll s l xs = Some ll'" and v': "links_valid ll s' l'"
  have "links_list ll' s' l' =
      Some (if l' = 0 then ll_level0 ll' ! s' else ll_upper ll' ! s' ! (l' - 1))"
    using links_put_shape [OF ll put] v' by (intro links_list_nth) simp_all
  then show "links_list ll' s' l' = (if s' = s \<and> l' = l then Some xs else links_list ll s' l')"
    using put links_put_eq [OF ll(1,2), of xs] ll(1,2) v'
    by (cases l; cases l')
      (auto simp: links_list_nth links_valid_def links_shape_def nth_list_update)
qed

lemma links_new_ok:
  "links_shape (links_new levels m m0)"
  "links_valid (links_new levels m m0) s l \<longleftrightarrow> s < length levels \<and> l \<le> levels ! s"
  "ll.closed (links_new levels m m0)"
proof -
  show shape: "links_shape (links_new levels m m0)"
    by (auto simp: links_shape_def links_new_def)
  show valid: "links_valid (links_new levels m m0) s l \<longleftrightarrow> s < length levels \<and> l \<le> levels ! s" for s l
    by (auto simp: links_valid_def links_new_def)
  have "links_list (links_new levels m m0) s l = Some []"
    if "links_valid (links_new levels m m0) s l" for s l
  proof -
    have "s < length levels" "l \<le> levels ! s" using that by (simp_all only: valid)
    then show ?thesis using links_list_nth [OF shape that] by (simp add: links_new_def)
  qed
  then show "ll.closed (links_new levels m m0)" by (simp add: ll.closed_def)
qed

section \<open>Lemmas: a step does not panic and keeps the invariant\<close>

definition core_ok :: "build_core \<Rightarrow> bool" where
  "core_ok core \<longleftrightarrow>
     links_shape (bc_links core) \<and> ll.closed (bc_links core) \<and> flat_wf (bc_vectors core) \<and>
     flat_len (bc_vectors core) = length (ll_level0 (bc_links core)) \<and>
     flat_len (bc_vectors core) \<le> 2 ^ 32"

abbreviation "core_valid core \<equiv> links_valid (bc_links core)"

lemma bc_dist_row:
  assumes "core_ok core" and "s < flat_len (bc_vectors core)"
  shows "\<exists>row. flat_get (bc_vectors core) s = Some row \<and>
    bc_dist core q s = Some (distance (bc_metric core) q row)"
proof -
  have "flat_wf (bc_vectors core)" "s < 2 ^ 32" using assms by (auto simp: core_ok_def)
  from flat.get_in_range [OF this(1) assms(2) this(2)] show ?thesis by (auto simp: bc_dist_def)
qed

text \<open>Validity does not change while the lists do, so the traversals of a worker need only that
  every list it reads is valid when it reads it.\<close>

interpretation bs: search_space core_ok "\<lambda>c. flat_len (bc_vectors c)" core_valid
  "\<lambda>c l clock s. links_list (bc_links c) s l" bc_dist
proof unfold_locales
  fix g s l
  assume ok: "core_ok g"
  show "core_valid g s l \<Longrightarrow> s < flat_len (bc_vectors g)"
    using ok by (simp add: core_ok_def links_valid_def)
  show "core_valid g s (Suc l) \<Longrightarrow> core_valid g s l" by (simp add: links_valid_def)
  have "links_shape (bc_links g)" "ll.closed (bc_links g)" using ok by (simp_all add: core_ok_def)
  then show "core_valid g s l \<Longrightarrow>
      \<exists>ns. links_list (bc_links g) s l = Some ns \<and> (\<forall>t\<in>set ns. core_valid g t l)"
    by (metis ll.closedD ll.get_ok)
  show "s < flat_len (bc_vectors g) \<Longrightarrow> \<exists>d. bc_dist g q s = Some d" for q
    using bc_dist_row [OF ok, of s q] by auto
qed

definition linking_ok :: "build_core \<Rightarrow> worker \<Rightarrow> nat \<Rightarrow> far list \<Rightarrow> nat list \<Rightarrow> bool" where
  "linking_ok core w lc candidates selected \<longleftrightarrow>
     lc \<le> wk_level w \<and> visited_wf (wk_scratch w) \<and> (\<forall>x\<in>set candidates. core_valid core (snd x) lc) \<and>
     (\<forall>s\<in>set selected. core_valid core s lc)"

definition worker_ok :: "build_core \<Rightarrow> nat \<Rightarrow> worker \<Rightarrow> bool" where
  "worker_ok core max_level w \<longleftrightarrow>
     core_valid core (wk_slot w) (wk_level w) \<and>
     (case wk_phase w of
        Start \<Rightarrow> visited_wf (wk_scratch w)
      | Walk current best lc \<Rightarrow>
          visited_wf (wk_scratch w) \<and> lc \<le> max_level \<and> wk_level w < lc \<and>
          core_valid core current lc \<and> bc_dist core (wk_query w) current = Some best
      | Beam lc b \<Rightarrow> lc \<le> wk_level w \<and> bs.beam_inv core lc (wk_query w) (\<lambda>_. True) b
      | Own lc candidates selected \<Rightarrow>
          linking_ok core w lc candidates selected \<and>
          length selected \<le> links_capacity (bc_links core) lc
      | Back lc candidates rest \<Rightarrow> linking_ok core w lc candidates rest
      | Finished \<Rightarrow> True)"

lemma worker_ok_links:
  assumes "links_valid ll = core_valid core" and "links_capacity ll = links_capacity (bc_links core)"
  shows "worker_ok (core\<lparr>bc_links := ll\<rparr>) M w \<longleftrightarrow> worker_ok core M w"
  using assms
  by (simp add: worker_ok_def linking_ok_def bs.beam_inv_def bc_dist_def split: phase.splits)

lemma begin_beam_ok:
  assumes ok: "core_ok core" and es: "\<forall>e\<in>set es. core_valid core e lc" and lc: "lc \<le> wk_level w"
    and w: "core_valid core (wk_slot w) (wk_level w)" "visited_wf (wk_scratch w)"
  shows "\<exists>w'. begin_beam core w es lc = Some w' \<and> worker_ok core M w'"
proof -
  obtain v where v: "visited_reset (flat_len (bc_vectors core)) (wk_scratch w) = Some v" "visited_wf v"
    "visited_slots v = {}" "flat_len (bc_vectors core) \<le> visited_room v"
    using vis.reset_ok [OF w(2)] by blast
  from bs.beam_seed_ok [OF ok es bs.beam_start [where q = "wk_query w" and accepts = "\<lambda>_. True"]] v(2-4)
  obtain b where "beam_seed (bc_dist core (wk_query w)) (\<lambda>_. True) es
      \<lparr>bm_visited = v, bm_candidates = [], bm_results = []\<rparr> = Some b"
    "bs.beam_inv core lc (wk_query w) (\<lambda>_. True) b" by blast
  with v(1) lc w(1) show ?thesis by (simp add: begin_beam_def worker_ok_def)
qed

lemma descend_to_ok:
  assumes ok: "core_ok core" and cur: "core_valid core cur (max lc (min (wk_level w) M))" and lc: "lc \<le> M"
    and w: "core_valid core (wk_slot w) (wk_level w)" "visited_wf (wk_scratch w)"
  shows "\<exists>w'. descend_to core M w cur lc = Some w' \<and> worker_ok core M w'"
proof (cases "wk_level w < lc")
  case True
  with cur have "core_valid core cur lc" by (simp add: links_valid_def)
  moreover from bs.dist_valid [OF ok this, of "wk_query w"] obtain d where
    "bc_dist core (wk_query w) cur = Some d" by blast
  ultimately show ?thesis using True lc w by (simp add: descend_to_def worker_ok_def)
next
  case False
  have "core_valid core cur (min (wk_level w) M)" using cur by (simp add: links_valid_def)
  with begin_beam_ok [OF ok, of "[cur]" "min (wk_level w) M" w M] w False show ?thesis
    by (simp add: descend_to_def)
qed

lemma core_select_ok:
  assumes ok: "core_ok core" and cs: "\<forall>x\<in>set cs. core_valid core (snd x) lc"
  shows "\<exists>sel. select_heuristic (bc_vectors core) (bc_metric core) cs
      (links_capacity (bc_links core) lc) = Some sel \<and>
    length sel \<le> links_capacity (bc_links core) lc \<and> (\<forall>s\<in>set sel. core_valid core s lc)"
proof -
  have "rows_present (bc_vectors core) (snd ` set cs)"
    using cs bc_dist_row [OF ok] bs.valid_range [OF ok] by (fastforce simp: rows_present_def)
  from select_heuristic_ok [OF this, of "bc_metric core" "links_capacity (bc_links core) lc"]
  obtain sel where sel: "select_heuristic (bc_vectors core) (bc_metric core) cs
      (links_capacity (bc_links core) lc) = Some sel"
    "length sel = min (links_capacity (bc_links core) lc) (length cs)"
    "mset sel \<subseteq># mset (map snd cs)" by blast
  have "set sel \<subseteq> snd ` set cs" using set_mset_mono [OF sel(3)] by (simp del: mset_map)
  with sel cs show ?thesis by auto
qed

lemma prune_ok:
  assumes ok: "core_ok core" and xs: "\<forall>s\<in>set xs. core_valid core s lc"
  shows "\<exists>sel. prune core q xs (links_capacity (bc_links core) lc) = Some sel \<and>
    length sel \<le> links_capacity (bc_links core) lc \<and> (\<forall>s\<in>set sel. core_valid core s lc)"
proof -
  have "\<exists>cs. those (map (far_from (bc_dist core q)) xs) = Some cs \<and> map snd cs = xs"
    using xs
  proof (induction xs)
    case (Cons s xs)
    with bs.dist_valid [OF ok, of s lc q] show ?case by (auto simp: far_from_def)
  qed simp
  then obtain cs where cs: "those (map (far_from (bc_dist core q)) xs) = Some cs" "map snd cs = xs"
    by blast
  have "\<forall>x\<in>set cs. core_valid core (snd x) lc" using xs by (simp flip: cs(2))
  from core_select_ok [OF ok this] cs(1) show ?thesis by (simp add: prune_def)
qed

text \<open>Rewriting one list under its lock.\<close>

lemma update_list_ok:
  assumes ok: "core_ok core" and s: "core_valid core s lc"
    and f: "\<And>ns. \<forall>t\<in>set ns. core_valid core t lc \<Longrightarrow> \<exists>xs. f ns = Some xs \<and>
      length xs \<le> links_capacity (bc_links core) lc \<and> (\<forall>t\<in>set xs. core_valid core t lc)"
  shows "\<exists>ll. update_list (bc_links core) s lc f = Some ll \<and> core_ok (core\<lparr>bc_links := ll\<rparr>) \<and>
    links_valid ll = core_valid core \<and> links_capacity ll = links_capacity (bc_links core)"
proof -
  have shape: "links_shape (bc_links core)" "ll.closed (bc_links core)"
    using ok by (simp_all add: core_ok_def)
  obtain ns where ns: "links_list (bc_links core) s lc = Some ns"
    using ll.get_ok [OF shape(1) s] by blast
  from ll.closedD [OF shape(2) s ns] f obtain xs where xs: "f ns = Some xs"
    "length xs \<le> links_capacity (bc_links core) lc" "\<forall>t\<in>set xs. core_valid core t lc" by blast
  from ll.put_closed [OF shape s xs(2,3)] obtain ll where
    ll: "links_put (bc_links core) s lc xs = Some ll" "links_shape ll" "ll.closed ll"
      "links_valid ll = core_valid core" "links_capacity ll = links_capacity (bc_links core)" by blast
  moreover have "length (ll_level0 ll) = length (ll_level0 (bc_links core))"
    using ll(1) links_put_eq [OF shape(1) s, of xs] by (auto split: if_splits)
  ultimately show ?thesis using ns xs(1) ok by (auto simp: update_list_def core_ok_def)
qed

lemma merge_own_ok:
  assumes "core_ok core" and "\<forall>t\<in>set selected. core_valid core t lc"
    and "length selected \<le> links_capacity (bc_links core) lc" and "\<forall>t\<in>set own. core_valid core t lc"
  shows "\<exists>xs. merge_own core w lc selected own = Some xs \<and>
    length xs \<le> links_capacity (bc_links core) lc \<and> (\<forall>t\<in>set xs. core_valid core t lc)"
  using assms prune_ok [OF assms(1), of "selected @ filter (\<lambda>s. s \<notin> set selected) own" lc "wk_query w"]
  by (auto simp: merge_own_def)

lemma link_to_ok:
  assumes "core_ok core" and "core_valid core n lc" and "core_valid core slot lc"
    and "\<forall>t\<in>set ns. core_valid core t lc"
  shows "\<exists>xs. link_to core slot n lc ns = Some xs \<and>
    length xs \<le> links_capacity (bc_links core) lc \<and> (\<forall>t\<in>set xs. core_valid core t lc)"
proof -
  obtain base where "flat_get (bc_vectors core) n = Some base"
    using bc_dist_row [OF assms(1)] bs.valid_range [OF assms(1,2)] by blast
  with assms prune_ok [OF assms(1), of "ns @ [slot]" lc base] show ?thesis
    by (auto simp: link_to_def)
qed

lemma end_beam_ok:
  assumes ok: "core_ok core" and w: "core_valid core (wk_slot w) (wk_level w)" "lc \<le> wk_level w"
    and b: "bs.beam_inv core lc (wk_query w) (\<lambda>_. True) b"
  shows "\<exists>w'. end_beam core w lc b = Some w' \<and> worker_ok core M w'"
proof -
  have cs: "\<forall>x\<in>set (bm_results b). core_valid core (snd x) lc" using b by (auto simp: bs.beam_inv_def)
  from core_select_ok [OF ok cs] b w cs show ?thesis
    by (auto simp: end_beam_def worker_ok_def linking_ok_def bs.beam_inv_def)
qed

text \<open>The whole step, by the phase of the worker.\<close>

definition steps_well :: "build_core \<Rightarrow> nat \<Rightarrow> (locked_links \<times> worker) option \<Rightarrow> bool" where
  "steps_well core M r \<longleftrightarrow>
     (\<exists>ll w'. r = Some (ll, w') \<and> core_ok (core\<lparr>bc_links := ll\<rparr>) \<and>
        links_valid ll = core_valid core \<and> links_capacity ll = links_capacity (bc_links core) \<and>
        worker_ok core M w')"

lemma steps_well_same: "core_ok core \<Longrightarrow> \<exists>w'. m = Some w' \<and> worker_ok core M w' \<Longrightarrow>
    steps_well core M (map_option (Pair (bc_links core)) m)"
  by (auto simp: steps_well_def)

lemma steps_well_list:
  assumes "\<exists>ll. m = Some ll \<and> core_ok (core\<lparr>bc_links := ll\<rparr>) \<and> links_valid ll = core_valid core \<and>
    links_capacity ll = links_capacity (bc_links core)" and "worker_ok core M w'"
  shows "steps_well core M (map_option (\<lambda>ll. (ll, w')) m)"
  using assms by (auto simp: steps_well_def)

lemma walk_step_ok:
  assumes ok: "core_ok core" and w: "worker_ok core M w" and p: "wk_phase w = Walk cur best lc"
  shows "steps_well core M (thread_step core entry M w)"
proof -
  have c: "core_valid core (wk_slot w) (wk_level w)" "visited_wf (wk_scratch w)" "lc \<le> M"
    "wk_level w < lc" "core_valid core cur lc" "bc_dist core (wk_query w) cur = Some best"
    using w p by (simp_all add: worker_ok_def)
  from bs.read_ok [OF ok c(5)] obtain ns where
    ns: "links_list (bc_links core) cur lc = Some ns" "\<forall>t\<in>set ns. core_valid core t lc" by blast
  from bs.greedy_scan_ok [OF ok ns(2) c(5,6), of False] obtain b' c' imp where
    r: "greedy_scan (bc_dist core (wk_query w)) ns best cur False = Some (b', c', imp)"
      "core_valid core c' lc" "bc_dist core (wk_query w) c' = Some b'" by blast
  show ?thesis
  proof (cases imp)
    case True
    with c r ok have "worker_ok core M (w\<lparr>wk_phase := Walk c' b' lc\<rparr>)" by (simp add: worker_ok_def)
    with True p ns(1) r(1) ok show ?thesis by (simp add: thread_step_def steps_well_def)
  next
    case False
    have "core_valid core c' (max (lc - 1) (min (wk_level w) M))"
      using r(2) c(4) by (auto simp: links_valid_def)
    from descend_to_ok [OF ok this _ c(1,2)] c(3)
    have "\<exists>w'. descend_to core M w c' (lc - 1) = Some w' \<and> worker_ok core M w'" by auto
    from steps_well_same [OF ok this] False p ns(1) r(1) show ?thesis by (simp add: thread_step_def)
  qed
qed

lemma beam_step_ok:
  assumes ok: "core_ok core" and w: "worker_ok core M w" and p: "wk_phase w = Beam lc b"
  shows "steps_well core M (thread_step core entry M w)"
proof -
  have c: "core_valid core (wk_slot w) (wk_level w)" "lc \<le> wk_level w"
    "bs.beam_inv core lc (wk_query w) (\<lambda>_. True) b"
    using w p by (simp_all add: worker_ok_def)
  let ?pop = "b\<lparr>bm_candidates := heap_pop (bm_candidates b)\<rparr>"
  let ?ef = "hp_ef_construction (bc_params core)"
  have pop: "bs.beam_inv core lc (wk_query w) (\<lambda>_. True) ?pop"
    using c(3) set_heap_pop [of "bm_candidates b"] by (auto simp: bs.beam_inv_def)
  note ends = steps_well_same [OF ok end_beam_ok [OF ok c(1,2)]]
  show ?thesis
  proof (cases "heap_peek (bm_candidates b)")
    case None
    with ends [OF c(3)] p show ?thesis by (simp add: thread_step_def)
  next
    case (Some x)
    show ?thesis
    proof (cases "beam_done ?ef (bm_results b) x")
      case True
      with ends [OF pop] p Some show ?thesis by (simp add: thread_step_def)
    next
      case False
      have "x \<in> set (bm_candidates b)" using list_heap.peek_elem [OF Some] by simp
      then have "core_valid core (snd x) lc" using c(3) by (auto simp: bs.beam_inv_def)
      from bs.read_ok [OF ok this] obtain ns where
        ns: "links_list (bc_links core) (snd x) lc = Some ns" "\<forall>t\<in>set ns. core_valid core t lc" by blast
      from bs.beam_expand_ok [OF ok ns(2) pop, of ?ef] obtain b' where
        b': "beam_expand (bc_dist core (wk_query w)) (\<lambda>_. True) ?ef ns ?pop = Some b'"
          "bs.beam_inv core lc (wk_query w) (\<lambda>_. True) b'" by blast
      with c have "worker_ok core M (w\<lparr>wk_phase := Beam lc b'\<rparr>)" by (simp add: worker_ok_def)
      with False Some p ns(1) b'(1) ok show ?thesis by (simp add: thread_step_def steps_well_def)
    qed
  qed
qed

lemma link_step_ok:
  assumes ok: "core_ok core" and w: "worker_ok core M w"
    and p: "wk_phase w = Own lc cs xs \<or> wk_phase w = Back lc cs xs"
  shows "steps_well core M (thread_step core entry M w)"
proof -
  have l: "linking_ok core w lc cs xs" and slot: "core_valid core (wk_slot w) (wk_level w)"
    using w p by (auto simp: worker_ok_def)
  then have at: "core_valid core (wk_slot w) lc" by (simp add: linking_ok_def links_valid_def)
  consider (own) "wk_phase w = Own lc cs xs" | (last) "wk_phase w = Back lc cs []" "xs = []"
    | (link) n ns where "wk_phase w = Back lc cs (n # ns)" "xs = n # ns"
    using p by (cases xs) auto
  then show ?thesis
  proof cases
    case own
    then have "length xs \<le> links_capacity (bc_links core) lc" using w by (simp add: worker_ok_def)
    then have "\<exists>ys. merge_own core w lc xs ns = Some ys \<and> length ys \<le> links_capacity (bc_links core) lc \<and>
        (\<forall>t\<in>set ys. core_valid core t lc)" if "\<forall>t\<in>set ns. core_valid core t lc" for ns
      using l that by (intro merge_own_ok [OF ok]) (auto simp: linking_ok_def)
    from steps_well_list [OF update_list_ok [where f = "merge_own core w lc xs", OF ok at this],
        of M "w\<lparr>wk_phase := Back lc cs xs\<rparr>"]
      own l slot show ?thesis by (simp add: thread_step_def worker_ok_def linking_ok_def)
  next
    case last
    show ?thesis
    proof (cases lc)
      case 0
      with last ok slot show ?thesis by (simp add: thread_step_def steps_well_def worker_ok_def)
    next
      case (Suc k)
      have es: "\<forall>e\<in>set (map snd cs). core_valid core e k" "k \<le> wk_level w" "visited_wf (wk_scratch w)"
        using l Suc by (auto simp: linking_ok_def links_valid_def)
      from steps_well_same [OF ok begin_beam_ok [OF ok es(1,2) slot es(3)]] last Suc show ?thesis
        by (simp add: thread_step_def)
    qed
  next
    case (link n ns)
    then have n: "core_valid core n lc" using l by (simp add: linking_ok_def)
    have "\<exists>ys. link_to core (wk_slot w) n lc ts = Some ys \<and>
        length ys \<le> links_capacity (bc_links core) lc \<and> (\<forall>t\<in>set ys. core_valid core t lc)"
      if "\<forall>t\<in>set ts. core_valid core t lc" for ts using that by (rule link_to_ok [OF ok n at])
    from steps_well_list [OF update_list_ok [where f = "link_to core (wk_slot w) n lc", OF ok n this],
        of M "w\<lparr>wk_phase := Back lc cs ns\<rparr>"] link l slot show ?thesis
      by (simp add: thread_step_def worker_ok_def linking_ok_def)
  qed
qed

lemma thread_step_ok:
  assumes ok: "core_ok core" and w: "worker_ok core M w" and entry: "core_valid core entry M"
    and p: "wk_phase w \<noteq> Finished"
  shows "steps_well core M (thread_step core entry M w)"
proof (cases "wk_phase w")
  case Start
  have c: "core_valid core (wk_slot w) (wk_level w)" "visited_wf (wk_scratch w)"
    using w Start by (simp_all add: worker_ok_def)
  obtain row where row: "flat_get (bc_vectors core) (wk_slot w) = Some row"
    using bc_dist_row [OF ok] bs.valid_range [OF ok c(1)] by blast
  have "core_valid core entry (max M (min (wk_level w) M))" using entry by (simp add: links_valid_def)
  with c have "\<exists>w'. descend_to core M (w\<lparr>wk_query := row\<rparr>) entry M = Some w' \<and> worker_ok core M w'"
    by (intro descend_to_ok [OF ok]) simp_all
  from steps_well_same [OF ok this] Start row show ?thesis by (simp add: thread_step_def)
qed (use p walk_step_ok [OF ok w] beam_step_ok [OF ok w] link_step_ok [OF ok w] in simp_all)

section \<open>Lemmas: schedules\<close>

definition same_build :: "build_core \<Rightarrow> build_core \<Rightarrow> bool" where
  "same_build core core' \<longleftrightarrow>
     bc_metric core' = bc_metric core \<and> bc_vectors core' = bc_vectors core \<and>
     bc_params core' = bc_params core \<and> core_valid core' = core_valid core \<and>
     links_capacity (bc_links core') = links_capacity (bc_links core)"

lemma same_build_refl [simp]: "same_build core core"
  by (simp add: same_build_def)

lemma same_build_trans: "same_build a b \<Longrightarrow> same_build b c \<Longrightarrow> same_build a c"
  by (simp add: same_build_def)

definition state_ok :: "nat \<Rightarrow> nat \<Rightarrow> build_core \<times> worker list \<Rightarrow> bool" where
  "state_ok entry M = (\<lambda>(core, ws).
     core_ok core \<and> core_valid core entry M \<and> (\<forall>w\<in>set ws. worker_ok core M w))"

lemma unfinished_step:
  assumes "state_ok entry M (core, ws)" and "i < length ws" and "wk_phase (ws ! i) \<noteq> Finished"
  shows "steps_well core M (thread_step core entry M (ws ! i))"
  using assms by (intro thread_step_ok) (auto simp: state_ok_def)

lemma build_step_ok:
  assumes "build_step entry M st st'" and "state_ok entry M st"
  shows "state_ok entry M st' \<and> same_build (fst st) (fst st') \<and> length (snd st') = length (snd st)"
  using assms(1)
proof cases
  case (step i ws core ll w)
  then have st: "state_ok entry M (core, ws)" using assms(2) by simp
  have "wk_phase (ws ! i) \<noteq> Finished" using step(4) by (auto simp: thread_step_def Let_def)
  from unfinished_step [OF st step(3) this] step(4) have
    ll: "core_ok (core\<lparr>bc_links := ll\<rparr>)" "links_valid ll = core_valid core"
      "links_capacity ll = links_capacity (bc_links core)" "worker_ok core M w"
    by (auto simp: steps_well_def)
  have "\<forall>v\<in>set (ws[i := w]). worker_ok core M v"
    using st ll(4) set_update_subset_insert [of ws i w] by (auto simp: state_ok_def)
  with ll st step show ?thesis
    by (auto simp: state_ok_def same_build_def worker_ok_links)
qed

lemma build_steps_ok:
  assumes "(build_step entry M)\<^sup>*\<^sup>* st st'" and "state_ok entry M st"
  shows "state_ok entry M st' \<and> same_build (fst st) (fst st') \<and> length (snd st') = length (snd st)"
  using assms
proof (induction rule: rtranclp_induct)
  case (step st' st'')
  with build_step_ok [OF step.hyps(2)] show ?case by (auto intro: same_build_trans)
qed simp

lemma build_progress:
  assumes "state_ok entry M (core, ws)" and "\<not> all_finished ws"
  shows "\<exists>st'. build_step entry M (core, ws) st'"
proof -
  obtain i where "i < length ws" "wk_phase (ws ! i) \<noteq> Finished"
    using assms(2) by (auto simp: all_finished_def list_all_length)
  from unfinished_step [OF assms(1) this] obtain ll w where
    "thread_step core entry M (ws ! i) = Some (ll, w)" by (auto simp: steps_well_def)
  from build_step.step [where ll = ll and w = w and i = i, OF _ this] \<open>i < length ws\<close> show ?thesis
    by blast
qed

text \<open>Every step brings its worker down in this order, so a schedule is as finite as the sum of
  the loops.\<close>

fun phase_rank :: "nat \<Rightarrow> phase \<Rightarrow> nat \<times> (f32 \<times> nat) \<times> nat" where
  "phase_rank M Start = (5 * Suc M + 1, (0, 0), 0)"
| "phase_rank M (Walk current best lc) = (4 * Suc M + min lc M, (best, current), 0)"
| "phase_rank M (Beam lc b) = (4 * lc + 3, (0, 0), beam_size b)"
| "phase_rank M (Own lc candidates selected) = (4 * lc + 2, (0, 0), 0)"
| "phase_rank M (Back lc candidates rest) = (4 * lc + 1, (0, 0), length rest)"
| "phase_rank M Finished = (0, (0, 0), 0)"

definition rank_order :: "((nat \<times> (f32 \<times> nat) \<times> nat) \<times> nat \<times> (f32 \<times> nat) \<times> nat) set" where
  "rank_order = less_than <*lex*> walk_order <*lex*> less_than"

lemma wf_rank_order: "wf rank_order"
  by (simp add: rank_order_def wf_lex_prod wf_walk_order)

lemma rank_begin: "begin_beam core w es lc = Some w' \<Longrightarrow> fst (phase_rank M (wk_phase w')) = 4 * lc + 3"
  by (auto simp: begin_beam_def bind_eq_Some_conv)

lemma rank_descend:
  assumes "descend_to core M w cur lc = Some w'"
  shows "fst (phase_rank M (wk_phase w')) \<le> 4 * Suc M + min lc M"
  using assms rank_begin [of core w "[cur]" "min (wk_level w) M" w' M]
  by (auto simp: descend_to_def split: if_splits)

lemma rank_end: "end_beam core w lc b = Some w' \<Longrightarrow> fst (phase_rank M (wk_phase w')) = 4 * lc + 2"
  by (auto simp: end_beam_def)

lemma rank_less: "fst a < fst b \<Longrightarrow> (a, b) \<in> rank_order"
  by (cases a; cases b) (simp add: rank_order_def)

lemma thread_step_rank:
  assumes step: "thread_step core entry M w = Some (ll, w')"
    and lc: "\<And>c d lc. wk_phase w = Walk c d lc \<Longrightarrow> 0 < lc \<and> lc \<le> M"
  shows "(phase_rank M (wk_phase w'), phase_rank M (wk_phase w)) \<in> rank_order"
proof (cases "wk_phase w")
  case Start
  with step obtain row where "descend_to core M (w\<lparr>wk_query := row\<rparr>) entry M = Some w'"
    by (auto simp: thread_step_def bind_eq_Some_conv)
  from rank_descend [OF this] Start show ?thesis by (intro rank_less) simp
next
  case (Walk cur best l)
  with lc have l: "0 < l" "l \<le> M" by auto
  from step Walk obtain ns b' c' imp where
    r: "greedy_scan (bc_dist core (wk_query w)) ns best cur False = Some (b', c', imp)"
      "if imp then w' = w\<lparr>wk_phase := Walk c' b' l\<rparr> else descend_to core M w c' (l - 1) = Some w'"
    by (auto simp: thread_step_def Let_def bind_eq_Some_conv split: if_splits)
  show ?thesis
  proof (cases imp)
    case True
    with greedy_scan_improves [OF r(1)] r(2) Walk show ?thesis
      by (simp add: rank_order_def walk_order_def)
  next
    case False
    then have "descend_to core M w c' (l - 1) = Some w'" using r(2) by simp
    then have "fst (phase_rank M (wk_phase w')) \<le> 4 * Suc M + min (l - 1) M" by (rule rank_descend)
    also have "\<dots> < 4 * Suc M + min l M" using l by arith
    finally show ?thesis using Walk by (intro rank_less) simp
  qed
next
  case (Beam l b)
  let ?pop = "b\<lparr>bm_candidates := heap_pop (bm_candidates b)\<rparr>"
  show ?thesis
  proof (cases "heap_peek (bm_candidates b)")
    case None
    with step Beam have "end_beam core w l b = Some w'" by (simp add: thread_step_def)
    from rank_end [OF this, of M] Beam show ?thesis by (intro rank_less) simp
  next
    case (Some x)
    then have size: "beam_size ?pop < beam_size b"
      by (auto simp: beam_size_def heap_peek_def split: list.splits)
    show ?thesis
    proof (cases "beam_done (hp_ef_construction (bc_params core)) (bm_results b) x")
      case True
      with step Beam Some have "end_beam core w l ?pop = Some w'" by (simp add: thread_step_def)
      from rank_end [OF this, of M] Beam show ?thesis by (intro rank_less) simp
    next
      case False
      with step Beam Some obtain ns b' where b':
        "beam_expand (bc_dist core (wk_query w)) (\<lambda>_. True) (hp_ef_construction (bc_params core)) ns ?pop = Some b'"
        "w' = w\<lparr>wk_phase := Beam l b'\<rparr>"
        by (auto simp: thread_step_def Let_def bind_eq_Some_conv)
      from beam_expand_size [OF b'(1)] size b'(2) Beam show ?thesis by (simp add: rank_order_def)
    qed
  qed
next
  case (Own l cs xs)
  with step show ?thesis by (auto simp: thread_step_def intro: rank_less)
next
  case (Back l cs xs)
  show ?thesis
  proof (cases xs)
    case Nil
    with Back step rank_begin [of core w "map snd cs" "l - 1" w' M] show ?thesis
      by (cases l) (auto simp: thread_step_def intro!: rank_less)
  next
    case (Cons n ns)
    with Back step show ?thesis by (auto simp: thread_step_def rank_order_def)
  qed
qed (use step in \<open>simp add: thread_step_def\<close>)

definition schedule_order :: "nat \<Rightarrow> ((build_core \<times> worker list) \<times> build_core \<times> worker list) set" where
  "schedule_order M = inv_image (listrel1 rank_order) (\<lambda>(core, ws). map (phase_rank M \<circ> wk_phase) ws)"

lemma wf_schedule_order: "wf (schedule_order M)"
  unfolding schedule_order_def
  by (intro wf_inv_image wf_listrel1_iff [THEN iffD2] wf_rank_order)

lemma build_step_order:
  assumes "build_step entry M st st'" and "state_ok entry M st"
  shows "(st', st) \<in> schedule_order M"
  using assms(1)
proof cases
  case (step i ws core ll w)
  then have "worker_ok core M (ws ! i)" using assms(2) by (simp add: state_ok_def)
  then have "(phase_rank M (wk_phase w), phase_rank M (wk_phase (ws ! i))) \<in> rank_order"
    by (intro thread_step_rank [OF step(4)]) (auto simp: worker_ok_def)
  moreover have "map (phase_rank M \<circ> wk_phase) ws =
      (map (phase_rank M \<circ> wk_phase) (ws[i := w]))[i := phase_rank M (wk_phase (ws ! i))]"
    using step(3) by (intro nth_equalityI) (simp_all add: nth_list_update)
  ultimately have "(map (phase_rank M \<circ> wk_phase) (ws[i := w]), map (phase_rank M \<circ> wk_phase) ws)
      \<in> listrel1 rank_order"
    using step(3) unfolding listrel1_iff_update
    by (intro exI [of _ "phase_rank M (wk_phase (ws ! i))"] exI [of _ i]) simp
  then show ?thesis by (simp add: step(1,2) schedule_order_def)
qed

text \<open>Whatever the schedule, the workers of a chunk all finish.\<close>

lemma workers_finish:
  assumes "state_ok entry M st"
  shows "\<exists>core' ws'. (build_step entry M)\<^sup>*\<^sup>* st (core', ws') \<and> all_finished ws'"
  using assms
proof (induction st rule: wf_induct_rule [OF wf_schedule_order [of M]])
  case (1 st)
  obtain core ws where st: "st = (core, ws)" by force
  show ?case
  proof (cases "all_finished ws")
    case False
    from build_progress [OF _ False] "1.prems" st obtain st' where st': "build_step entry M st st'" by blast
    from "1.IH" [OF build_step_order [OF st' "1.prems"]] build_step_ok [OF st' "1.prems"]
    show ?thesis by (meson converse_rtranclp_into_rtranclp st')
  qed (use st in auto)
qed

section \<open>Lemmas: chunks\<close>

lemma concat_doubling_chunks: "0 < chunk \<Longrightarrow> concat (doubling_chunks chunk order) = order"
  by (induction chunk order rule: doubling_chunks.induct) (subst doubling_chunks.simps, simp)

lemma doubling_chunks_size:
  "0 < chunk \<Longrightarrow> chunk \<le> 2 ^ 16 \<Longrightarrow> xs \<in> set (doubling_chunks chunk order) \<Longrightarrow> length xs \<le> 2 ^ 16"
proof (induction chunk order rule: doubling_chunks.induct)
  case (1 chunk order)
  show ?case
  proof (cases "order = []")
    case False
    with "1.prems" have "xs = take chunk order \<or>
        xs \<in> set (doubling_chunks (min (chunk * 2) (2 ^ 16)) (drop chunk order))"
      by (subst (asm) doubling_chunks.simps) auto
    with 1 False show ?thesis by auto
  qed (use "1.prems"(3) in \<open>simp add: doubling_chunks.simps\<close>)
qed

definition build_ready :: "nat \<Rightarrow> nat \<Rightarrow> nat list \<Rightarrow> build_core \<Rightarrow> bool" where
  "build_ready entry M levels core \<longleftrightarrow>
     core_ok core \<and> core_valid core = (\<lambda>s l. s < length levels \<and> l \<le> levels ! s) \<and>
     entry < length levels \<and> levels ! entry = M"

lemma chunk_state_ok:
  assumes "build_ready entry M levels core" and "set chunk \<subseteq> {..<length levels}"
    and "list_all visited_wf scratch"
  shows "state_ok entry M (core, map2 (new_worker levels) chunk scratch)"
proof -
  have "worker_ok core M (new_worker levels s v)" if "(s, v) \<in> set (zip chunk scratch)" for s v
    using that assms set_zip_leftD [OF that] set_zip_rightD [OF that]
    by (auto simp: worker_ok_def new_worker_def build_ready_def list_all_iff)
  then show ?thesis using assms(1) by (auto simp: state_ok_def build_ready_def)
qed

lemma build_ready_frame:
  "build_ready entry M levels core \<Longrightarrow> same_build core core' \<Longrightarrow> core_ok core' \<Longrightarrow>
    build_ready entry M levels core'"
  by (simp add: build_ready_def same_build_def)

lemma build_chunks_ok:
  assumes "build_chunks entry M levels cs core core'" and "build_ready entry M levels core"
    and "\<forall>c\<in>set cs. set c \<subseteq> {..<length levels}"
  shows "core_ok core' \<and> same_build core core'"
  using assms
proof (induction rule: build_chunks.induct)
  case (none core)
  then show ?case by (simp add: build_ready_def)
next
  case (chunk scratch chunk core core' ws rest core'')
  have "state_ok entry M (core, map2 (new_worker levels) chunk scratch)"
    using chunk.prems chunk.hyps(1) by (intro chunk_state_ok) auto
  from build_steps_ok [OF chunk.hyps(3) this] have
    s: "core_ok core'" "same_build core core'" by (simp_all add: state_ok_def)
  from chunk.IH [OF build_ready_frame [OF chunk.prems(1) s(2,1)]] chunk.prems(2) s(2) show ?case
    by (auto intro: same_build_trans)
qed

lemma build_chunks_exist:
  assumes "build_ready entry M levels core" and "\<forall>c\<in>set cs. set c \<subseteq> {..<length levels}"
  shows "\<exists>core'. build_chunks entry M levels cs core core'"
  using assms
proof (induction cs arbitrary: core)
  case Nil
  show ?case by (blast intro: build_chunks.none)
next
  case (Cons c cs)
  let ?scratch = "replicate (length c) visited_new"
  have sc: "list_all visited_wf ?scratch" "length ?scratch = length c" by (simp_all add: list_all_iff)
  have st: "state_ok entry M (core, map2 (new_worker levels) c ?scratch)"
    using Cons.prems sc(1) by (intro chunk_state_ok) auto
  from workers_finish [OF st] obtain core' ws where
    run: "(build_step entry M)\<^sup>*\<^sup>* (core, map2 (new_worker levels) c ?scratch) (core', ws)"
      "all_finished ws" by blast
  from build_steps_ok [OF run(1) st] have "core_ok core'" "same_build core core'"
    by (simp_all add: state_ok_def)
  from Cons.IH [OF build_ready_frame [OF Cons.prems(1) this(2,1)]] Cons.prems(2) obtain core'' where
    "build_chunks entry M levels cs core' core''" by auto
  from build_chunks.chunk [OF sc run this] show ?case by blast
qed

end
