(* ===== verification/Hnsw_Orphans.thy ===== *)
theory Hnsw_Orphans
  imports Hnsw_Insert
begin

text \<open>
  The repair after a parallel build (\<open>link_level0_orphans\<close> in \<open>hnsw.rs\<close>): a slot without a
  level-0 in-link is appended to the nearest of its own neighbours that has room, or replaces a
  link of that neighbour whose target keeps another in-link. The counters are \<open>u32\<close>.

  The repair does not panic, keeps the invariant, and no slot that has an in-link loses its last
  one; a slot that stays without has only full neighbours all of whose links are last in-links.
\<close>

section \<open>The repair\<close>

definition bump :: "nat list \<Rightarrow> nat \<Rightarrow> nat list option" where
  "bump in_degree n = Option.bind (index in_degree n) (\<lambda>d. store in_degree n ((d + 1) mod 2 ^ 32))"

fun count_in :: "nat list \<Rightarrow> nat list \<Rightarrow> nat list option" where
  "count_in in_degree [] = Some in_degree"
| "count_in in_degree (n # ns) = Option.bind (bump in_degree n) (\<lambda>d. count_in d ns)"

fun count_links :: "hnsw \<Rightarrow> nat list \<Rightarrow> nat list \<Rightarrow> nat list option" where
  "count_links g in_degree [] = Some in_degree"
| "count_links g in_degree (slot # slots) =
     Option.bind (neighbours g slot 0) (\<lambda>ns.
     Option.bind (count_in in_degree ns) (\<lambda>d. count_links g d slots))"

text \<open>\<open>Iterator::max_by\<close> keeps the later of two equal elements.\<close>

fun max_by :: "('a \<Rightarrow> 'a \<Rightarrow> ordering option) \<Rightarrow> 'a \<Rightarrow> 'a list \<Rightarrow> 'a option" where
  "max_by cmp best [] = Some best"
| "max_by cmp best (x # xs) =
     Option.bind (cmp best x) (\<lambda>c. max_by cmp (if c = Greater then best else x) xs)"

definition replace_cmp :: "hnsw \<Rightarrow> f32 list \<Rightarrow> nat \<Rightarrow> nat \<Rightarrow> nat \<Rightarrow> ordering option" where
  "replace_cmp g host_vector start a b =
     Option.bind (Option.bind (index (hn_level0 g) (start + a)) (hn_dist g host_vector)) (\<lambda>da.
     map_option (\<lambda>db. then_cmp (far_cmp (da, 0) (db, 0)) (cmp_of b a))
       (Option.bind (index (hn_level0 g) (start + b)) (hn_dist g host_vector)))"

text \<open>The positions of links whose target has another in-link.\<close>

fun replaceable :: "hnsw \<Rightarrow> nat list \<Rightarrow> nat \<Rightarrow> nat list \<Rightarrow> nat list option" where
  "replaceable g in_degree start [] = Some []"
| "replaceable g in_degree start (i # is) =
     Option.bind (Option.bind (index (hn_level0 g) (start + i)) (index in_degree)) (\<lambda>d.
       map_option (\<lambda>keep. if 1 < d then i # keep else keep) (replaceable g in_degree start is))"

text \<open>One host: \<open>Some None\<close> goes on to the next host, \<open>Some (Some st)\<close> breaks out of the loop.\<close>

definition adopt :: "nat \<Rightarrow> nat \<Rightarrow> hnsw \<times> nat list \<Rightarrow> (hnsw \<times> nat list) option option" where
  "adopt orphan host = (\<lambda>(g, in_degree).
     Option.bind (index (hn_level0_len g) host) (\<lambda>len.
       let start = host * hn_m0 g
       in if len < hn_m0 g
          then Option.bind (append_link g host 0 len orphan) (\<lambda>g'.
               map_option (\<lambda>d. Some (g', d)) (bump in_degree orphan))
          else Option.bind (flat_get (hn_vectors g) host) (\<lambda>host_vector.
               Option.bind (replaceable g in_degree start [0..<len]) (\<lambda>keep.
                 case keep of
                   [] \<Rightarrow> Some None
                 | k # ks \<Rightarrow>
                     Option.bind (max_by (replace_cmp g host_vector start) k ks) (\<lambda>i.
                     Option.bind (index (hn_level0 g) (start + i)) (\<lambda>old.
                     Option.bind (index in_degree old) (\<lambda>d.
                     Option.bind (store (hn_level0 g) (start + i) orphan) (\<lambda>level0.
                       map_option (\<lambda>d. Some (g\<lparr>hn_level0 := level0\<rparr>, d))
                         (bump (in_degree[old := d - 1]) orphan)))))))))"

fun adopt_any :: "nat \<Rightarrow> far list \<Rightarrow> hnsw \<times> nat list \<Rightarrow> (hnsw \<times> nat list) option" where
  "adopt_any orphan [] st = Some st"
| "adopt_any orphan (host # hosts) st =
     Option.bind (adopt orphan (snd host) st) (\<lambda>r.
       case r of None \<Rightarrow> adopt_any orphan hosts st | Some st' \<Rightarrow> Some st')"

definition repair_slot :: "nat \<Rightarrow> hnsw \<times> nat list \<Rightarrow> (hnsw \<times> nat list) option" where
  "repair_slot orphan = (\<lambda>(g, in_degree).
     Option.bind (index in_degree orphan) (\<lambda>d.
       if 0 < d \<or> hn_entry g = Some orphan then Some (g, in_degree)
       else Option.bind (flat_get (hn_vectors g) orphan) (\<lambda>base.
            Option.bind (neighbours g orphan 0) (\<lambda>ns.
            Option.bind (those (map (far_from (hn_dist g base)) ns)) (\<lambda>hosts.
              adopt_any orphan (sort_by far_cmp hosts) (g, in_degree))))))"

fun repair_all :: "nat list \<Rightarrow> hnsw \<times> nat list \<Rightarrow> (hnsw \<times> nat list) option" where
  "repair_all [] st = Some st"
| "repair_all (orphan # slots) st = Option.bind (repair_slot orphan st) (repair_all slots)"

definition link_level0_orphans :: "hnsw \<Rightarrow> hnsw option" where
  "link_level0_orphans g =
     (let all_slots = [0..<hn_len g mod 2 ^ 32]
      in Option.bind (count_links g (replicate (hn_len g) 0) all_slots) (\<lambda>in_degree.
           map_option fst (repair_all all_slots (g, in_degree))))"

section \<open>In-links\<close>

definition level0_list :: "hnsw \<Rightarrow> nat \<Rightarrow> nat list" where
  "level0_list g s = (case neighbours g s 0 of None \<Rightarrow> [] | Some ns \<Rightarrow> ns)"

definition in_links :: "hnsw \<Rightarrow> nat \<Rightarrow> nat" where
  "in_links g t = sum_list (map (\<lambda>s. count_list (level0_list g s) t) [0..<hn_len g])"

definition degrees_ok :: "hnsw \<Rightarrow> nat list \<Rightarrow> bool" where
  "degrees_ok g in_degree \<longleftrightarrow> in_degree = map (in_links g) [0..<hn_len g]"

text \<open>A host that can take no further link without stranding another slot.\<close>

definition stuck :: "hnsw \<Rightarrow> nat \<Rightarrow> bool" where
  "stuck g host \<longleftrightarrow>
     hn_m0 g \<le> length (level0_list g host) \<and> list_all (\<lambda>t. in_links g t \<le> 1) (level0_list g host)"

text \<open>The invariant of the repair: the counters fit \<open>u32\<close>.\<close>

definition repair_ok :: "hnsw \<times> nat list \<Rightarrow> bool" where
  "repair_ok = (\<lambda>(g, in_degree).
     graph_ok g \<and> hn_len g * hn_m0 g < 2 ^ 32 \<and> hn_len g < 2 ^ 32 \<and> degrees_ok g in_degree)"

definition keeps_links :: "hnsw \<Rightarrow> hnsw \<Rightarrow> bool" where
  "keeps_links g g' \<longleftrightarrow> same_rows g g' \<and> (\<forall>t. 0 < in_links g t \<longrightarrow> 0 < in_links g' t)"

lemma keeps_links_refl [simp]: "keeps_links g g"
  by (simp add: keeps_links_def)

lemma keeps_links_trans: "keeps_links a b \<Longrightarrow> keeps_links b c \<Longrightarrow> keeps_links a c"
  by (auto simp: keeps_links_def intro: same_rows_trans)

section \<open>Lemmas: lists of level 0\<close>

lemma level0_list_ok:
  assumes "graph_ok g" and "s < hn_len g"
  shows "neighbours g s 0 = Some (level0_list g s)" "length (level0_list g s) \<le> hn_m0 g"
    "\<forall>t\<in>set (level0_list g s). t < hn_len g" "length (level0_list g s) = hn_level0_len g ! s"
    "slice (hn_level0 g) (s * hn_m0 g) (hn_level0_len g ! s) = Some (level0_list g s)"
proof -
  have shape: "shape_ok g" and closed: "lk.closed g" and v: "has_level g s 0"
    using assms by (simp_all add: graph_ok_def links_ok_closed has_level_def)
  obtain ns where ns: "neighbours g s 0 = Some ns" "length ns \<le> capacity g 0"
    using lk.get_ok [OF shape v] by blast
  then show "neighbours g s 0 = Some (level0_list g s)" "length (level0_list g s) \<le> hn_m0 g"
    by (simp_all add: level0_list_def capacity_def)
  show "\<forall>t\<in>set (level0_list g s). t < hn_len g"
    using lk.closedD [OF closed v ns(1)] ns(1) by (auto simp: level0_list_def has_level_def)
  show "length (level0_list g s) = hn_level0_len g ! s"
    "slice (hn_level0 g) (s * hn_m0 g) (hn_level0_len g ! s) = Some (level0_list g s)"
    using neighbours_level0 [OF shape assms(2)] ns(1) by (auto simp: level0_list_def)
qed

lemma level0_index:
  assumes "graph_ok g" and "s < hn_len g" and "i < hn_level0_len g ! s"
  shows "index (hn_level0 g) (s * hn_m0 g + i) = Some (level0_list g s ! i)"
  using level0_list_ok(5) [OF assms(1,2)] assms(3)
  by (auto simp: slice_eq_Some index_eq_Some)

lemma in_links_pos:
  assumes "s < hn_len g" and "t \<in> set (level0_list g s)"
  shows "0 < in_links g t"
proof -
  have "count_list (level0_list g s) t \<noteq> 0" using assms(2) by (simp add: count_list_0_iff)
  moreover have "count_list (level0_list g s) t \<le> in_links g t"
    unfolding in_links_def using assms(1) by (intro member_le_sum_list) auto
  ultimately show ?thesis by simp
qed

lemma in_links_put:
  assumes ok: "graph_ok g" and h: "h < hn_len g" and xs: "length xs \<le> hn_m0 g"
    and put: "set_neighbours g h 0 xs = Some g'"
  shows "in_links g' t + count_list (level0_list g h) t = in_links g t + count_list xs t"
    "level0_list g' h = xs"
proof -
  have shape: "shape_ok g" and v: "has_level g h 0" and xs': "length xs \<le> capacity g 0"
    using ok h xs by (simp_all add: graph_ok_def has_level_def capacity_def)
  have len: "hn_len g' = hn_len g" using same_rowsD(1) [OF set_neighbours_same_rows [OF put]] .
  have new: "level0_list g' s = (if s = h then xs else level0_list g s)" if "s < hn_len g" for s
    using lk.get_put [OF shape v xs' put, of s 0] that by (simp add: level0_list_def has_level_def)
  show "level0_list g' h = xs" using new [OF h] by simp
  have sums: "in_links g t = (\<Sum>s<hn_len g. count_list (level0_list g s) t)"
    "in_links g' t = (\<Sum>s<hn_len g. count_list (level0_list g' s) t)"
    by (simp_all add: in_links_def len interv_sum_list_conv_sum_set_nat atLeast0LessThan)
  show "in_links g' t + count_list (level0_list g h) t = in_links g t + count_list xs t"
    unfolding sums using h new
    by (simp add: sum.remove [of "{..<hn_len g}" h])
qed

lemma count_list_update:
  "i < length xs \<Longrightarrow> count_list (xs[i := v]) t + (if xs ! i = t then 1 else 0) =
    count_list xs t + (if v = t then 1 else 0)"
proof (induction xs arbitrary: i)
  case (Cons x xs)
  show ?case using Cons.prems Cons.IH [of "i - 1"] by (cases i) auto
qed simp

text \<open>Overwriting one link in place is rewriting the list.\<close>

lemma store_link_set:
  assumes ok: "graph_ok g" and h: "h < hn_len g" and i: "i < hn_level0_len g ! h"
    and put: "store (hn_level0 g) (h * hn_m0 g + i) v = Some level0"
  shows "set_neighbours g h 0 ((level0_list g h)[i := v]) = Some (g\<lparr>hn_level0 := level0\<rparr>)"
proof -
  let ?ns = "level0_list g h" and ?k = "h * hn_m0 g"
  note l = level0_list_ok [OF ok h]
  have sl: "?k + length ?ns \<le> length (hn_level0 g)" "?ns = take (length ?ns) (drop ?k (hn_level0 g))"
    using l(4,5) by (auto simp: slice_eq_Some)
  have "splice (hn_level0 g) ?k (?ns[i := v]) = Some level0"
  proof -
    have "(hn_level0 g)[?k + i := v] =
        take ?k (hn_level0 g) @ ?ns[i := v] @ drop (?k + length ?ns) (hn_level0 g)"
      using sl i l(4)
      by (intro nth_equalityI) (auto simp: nth_append nth_list_update)
    then show ?thesis using put sl(1) by (auto simp: splice_def store_eq_Some)
  qed
  moreover have "length ?ns < 256" using l(2) ok by (simp add: graph_ok_def shape_ok_def)
  moreover have "(hn_level0_len g)[h := length ?ns] = hn_level0_len g"
    using l(4) by (simp add: list_update_same_conv)
  moreover have "h < length (hn_level0_len g)" using ok h by (simp add: graph_ok_def shape_ok_def)
  ultimately show ?thesis by (simp add: set_neighbours_def store_def)
qed

section \<open>Lemmas: counters\<close>

lemma in_links_bound:
  assumes "graph_ok g"
  shows "in_links g t \<le> hn_len g * hn_m0 g"
proof -
  have "in_links g t \<le> sum_list (map (\<lambda>s. hn_m0 g) [0..<hn_len g])"
    unfolding in_links_def
    using level0_list_ok(2) [OF assms] count_le_length order_trans
    by (intro sum_list_mono) fastforce
  then show ?thesis by (simp add: sum_list_triv)
qed

lemma bump_ok: "n < length d \<Longrightarrow> d ! n + 1 < 2 ^ 32 \<Longrightarrow> bump d n = Some (d[n := d ! n + 1])"
  by (simp add: bump_def index_def store_def)

lemma count_in_ok:
  assumes "\<forall>n\<in>set ns. n < length d" and "\<forall>t<length d. d ! t + count_list ns t < 2 ^ 32"
  shows "\<exists>d'. count_in d ns = Some d' \<and> length d' = length d \<and>
    (\<forall>t<length d. d' ! t = d ! t + count_list ns t)"
  using assms
proof (induction ns arbitrary: d)
  case (Cons n ns)
  let ?d = "d[n := d ! n + 1]"
  have n: "n < length d" using Cons.prems(1) by simp
  then have "d ! n + 1 < 2 ^ 32" using Cons.prems(2) by fastforce
  then have "bump d n = Some ?d" using n by (rule bump_ok [rotated])
  moreover have "\<forall>t<length ?d. ?d ! t + count_list ns t < 2 ^ 32"
    using Cons.prems(2) n by (auto simp: nth_list_update)
  moreover have "\<forall>m\<in>set ns. m < length ?d" using Cons.prems(1) by simp
  ultimately show ?case using Cons.IH [of ?d] n by (auto simp: nth_list_update)
qed simp

lemma count_links_ok:
  assumes "graph_ok g" and "\<forall>s\<in>set ss. s < hn_len g" and "length d = hn_len g"
    and "\<forall>t<hn_len g. d ! t + sum_list (map (\<lambda>s. count_list (level0_list g s) t) ss) < 2 ^ 32"
  shows "\<exists>d'. count_links g d ss = Some d' \<and> length d' = hn_len g \<and>
    (\<forall>t<hn_len g. d' ! t = d ! t + sum_list (map (\<lambda>s. count_list (level0_list g s) t) ss))"
  using assms(2-)
proof (induction ss arbitrary: d)
  case (Cons s ss)
  have s: "s < hn_len g" using Cons.prems(1) by simp
  have lt: "\<forall>t<length d. d ! t + count_list (level0_list g s) t < 2 ^ 32"
    using Cons.prems(2,3) by fastforce
  from count_in_ok [OF _ lt] level0_list_ok(3) [OF assms(1) s] Cons.prems(2) obtain d1 where
    d1: "count_in d (level0_list g s) = Some d1" "length d1 = hn_len g"
      "\<forall>t<hn_len g. d1 ! t = d ! t + count_list (level0_list g s) t" by auto
  from Cons.IH [OF _ d1(2)] Cons.prems(1,3) d1(3) obtain d2 where
    "count_links g d1 ss = Some d2" "length d2 = hn_len g"
      "\<forall>t<hn_len g. d2 ! t = d1 ! t + sum_list (map (\<lambda>s. count_list (level0_list g s) t) ss)"
    by (auto simp: add.assoc)
  with d1 level0_list_ok(1) [OF assms(1) s] show ?case by (auto simp: add.assoc)
qed simp

lemma max_by_elem:
  assumes "\<forall>a\<in>set (x # xs). \<forall>b\<in>set (x # xs). cmp a b \<noteq> None"
  shows "\<exists>m. max_by cmp x xs = Some m \<and> m \<in> set (x # xs)"
  using assms
proof (induction xs arbitrary: x)
  case (Cons y xs)
  obtain c where c: "cmp x y = Some c" using Cons.prems by (cases "cmp x y") auto
  show ?case using Cons.IH [of x] Cons.IH [of y] Cons.prems c by (cases "c = Greater") auto
qed simp

section \<open>Lemmas: one host\<close>

lemma degrees_nth: "degrees_ok g d \<Longrightarrow> t < hn_len g \<Longrightarrow> index d t = Some (in_links g t)"
  by (simp add: degrees_ok_def index_def)

lemma repair_okI:
  assumes "repair_ok (g, d)" and "graph_ok g'" and "same_rows g g'" and "length d' = hn_len g"
    and "\<And>t. t < hn_len g \<Longrightarrow> d' ! t = in_links g' t"
  shows "repair_ok (g', d')"
proof -
  have "hn_len g' = hn_len g" "hn_params g' = hn_params g"
    using assms(3) by (simp_all add: same_rows_def hn_len_def)
  then show ?thesis
    using assms by (auto simp: repair_ok_def degrees_ok_def intro!: nth_equalityI)
qed

text \<open>Giving the orphan a link, with or without taking one away.\<close>

lemma append_adopts:
  assumes ok: "repair_ok (g, d)" and h: "host < hn_len g" and n: "orphan < hn_len g"
    and none: "in_links g orphan = 0" and room: "length (level0_list g host) < hn_m0 g"
  shows "\<exists>g' d'. append_link g host 0 (length (level0_list g host)) orphan = Some g' \<and>
    bump d orphan = Some d' \<and> repair_ok (g', d') \<and> keeps_links g g' \<and> 0 < in_links g' orphan"
proof -
  let ?xs = "level0_list g host @ [orphan]"
  have g: "graph_ok g" "degrees_ok g d" using ok by (simp_all add: repair_ok_def)
  note l = level0_list_ok [OF g(1) h]
  have v: "has_level g host 0" and xs: "length ?xs \<le> capacity g 0" "\<forall>t\<in>set ?xs. has_level g t 0"
    using h n room l(3) by (auto simp: has_level_def capacity_def)
  from set_neighbours_graph_ok [OF g(1) v xs] obtain g' where
    g': "set_neighbours g host 0 ?xs = Some g'" "graph_ok g'" "same_rows g g'" by blast
  have "append_link g host 0 (length (level0_list g host)) orphan = Some g'"
    using append_link_set [OF _ v l(1)] g(1) room g'(1) by (simp add: graph_ok_def capacity_def)
  moreover have links: "in_links g' t = in_links g t + (if t = orphan then 1 else 0)" for t
    using in_links_put(1) [OF g(1) h _ g'(1), of t] room by auto
  moreover have d: "length d = hn_len g" "d ! t = in_links g t" if "t < hn_len g" for t
    using g(2) that by (simp_all add: degrees_ok_def)
  then have "bump d orphan = Some (d[orphan := 1])" using n none by (simp add: bump_ok)
  moreover have "repair_ok (g', d[orphan := 1])"
    using d n none links by (intro repair_okI [OF ok g'(2,3)]) (auto simp: nth_list_update)
  ultimately show ?thesis using g'(3) by (auto simp: keeps_links_def)
qed

lemma replace_adopts:
  assumes ok: "repair_ok (g, d)" and h: "host < hn_len g" and n: "orphan < hn_len g"
    and none: "in_links g orphan = 0" and i: "i < hn_level0_len g ! host"
    and old: "level0_list g host ! i = old" "1 < in_links g old"
  shows "\<exists>level0 d'. store (hn_level0 g) (host * hn_m0 g + i) orphan = Some level0 \<and>
    bump (d[old := in_links g old - 1]) orphan = Some d' \<and>
    repair_ok (g\<lparr>hn_level0 := level0\<rparr>, d') \<and> keeps_links g (g\<lparr>hn_level0 := level0\<rparr>) \<and>
    0 < in_links (g\<lparr>hn_level0 := level0\<rparr>) orphan"
proof -
  let ?ns = "level0_list g host"
  let ?d = "d[old := in_links g old - 1]"
  have g: "graph_ok g" "degrees_ok g d" using ok by (simp_all add: repair_ok_def)
  note l = level0_list_ok [OF g(1) h]
  have oldm: "old \<in> set ?ns" and il: "i < length ?ns" using old(1) i l(4) nth_mem [of i ?ns] by auto
  then have old_len: "old < hn_len g" using l(3) by blast
  obtain level0 where st: "store (hn_level0 g) (host * hn_m0 g + i) orphan = Some level0"
    using level0_index [OF g(1) h i] by (auto simp: index_def store_def split: if_splits)
  let ?g = "g\<lparr>hn_level0 := level0\<rparr>"
  note put = store_link_set [OF g(1) h i st]
  have v: "has_level g host 0" using h by (simp add: has_level_def)
  have xs: "length (?ns[i := orphan]) \<le> capacity g 0" "\<forall>t\<in>set (?ns[i := orphan]). has_level g t 0"
    using n l(2,3) set_update_subset_insert [of ?ns i orphan] by (auto simp: has_level_def capacity_def)
  from set_neighbours_graph_ok [OF g(1) v xs] put have
    g': "graph_ok ?g" "same_rows g ?g" by auto
  have links: "in_links ?g t + (if t = old then 1 else 0) =
      in_links g t + (if t = orphan then 1 else 0)" for t
    using in_links_put(1) [OF g(1) h _ put, of t] l(2) count_list_update [OF il, of orphan t] old(1)
    by auto
  have ne: "old \<noteq> orphan" using none old(2) by auto
  have d: "length d = hn_len g" "d ! t = in_links g t" if "t < hn_len g" for t
    using g(2) that by (simp_all add: degrees_ok_def)
  then have "bump ?d orphan = Some (?d[orphan := 1])" using n none ne by (simp add: bump_ok)
  moreover have "repair_ok (?g, ?d[orphan := 1])"
  proof (rule repair_okI [OF ok g'])
    show "length (?d[orphan := 1]) = hn_len g" using d(1) n by simp
    fix t assume t: "t < hn_len g"
    then show "?d[orphan := 1] ! t = in_links ?g t"
      using d [OF t] links [of t] none ne by (cases "t = orphan"; cases "t = old") auto
  qed
  moreover have "0 < in_links ?g t" if "0 < in_links g t \<or> t = orphan" for t
    using that links [of t] old(2) ne by (auto split: if_splits)
  ultimately show ?thesis using st g'(2) by (auto simp: keeps_links_def)
qed

lemma replaceable_ok:
  assumes "\<forall>i\<in>set is. \<exists>t. index (hn_level0 g) (start + i) = Some t \<and> index d t \<noteq> None"
  shows "replaceable g d start is =
    Some (filter (\<lambda>i. 1 < d ! (hn_level0 g ! (start + i))) is)"
  using assms by (induction "is") (auto simp: index_def split: if_splits)

lemma adopt_ok:
  assumes ok: "repair_ok (g, d)" and h: "host < hn_len g" and n: "orphan < hn_len g"
    and none: "in_links g orphan = 0"
  shows "adopt orphan host (g, d) = Some None \<and> stuck g host \<or>
    (\<exists>g' d'. adopt orphan host (g, d) = Some (Some (g', d')) \<and> repair_ok (g', d') \<and>
       keeps_links g g' \<and> 0 < in_links g' orphan)"
proof -
  let ?ns = "level0_list g host" and ?len = "hn_level0_len g ! host" and ?start = "host * hn_m0 g"
  have g: "graph_ok g" "degrees_ok g d" using ok by (simp_all add: repair_ok_def)
  note l = level0_list_ok [OF g(1) h]
  have len: "index (hn_level0_len g) host = Some ?len"
    using g(1) h by (simp add: index_def graph_ok_def shape_ok_def)
  show ?thesis
  proof (cases "?len < hn_m0 g")
    case True
    with append_adopts [OF ok h n none] l(4) len show ?thesis by (auto simp: adopt_def Let_def)
  next
    case False
    obtain hv where hv: "flat_get (hn_vectors g) host = Some hv"
      using hn_dist_Some [of g host] g(1) h by (auto simp: graph_ok_def)
    have at: "index (hn_level0 g) (?start + i) = Some (?ns ! i)"
      "index d (?ns ! i) = Some (in_links g (?ns ! i))" if "i < ?len" for i
      using level0_index [OF g(1) h that] that degrees_nth [OF g(2)] l(3,4) nth_mem [of i ?ns]
      by auto
    let ?keep = "filter (\<lambda>i. 1 < in_links g (?ns ! i)) [0..<?len]"
    have "replaceable g d ?start [0..<?len] =
        Some (filter (\<lambda>i. 1 < d ! (hn_level0 g ! (?start + i))) [0..<?len])"
      using at by (intro replaceable_ok) auto
    moreover have "filter (\<lambda>i. 1 < d ! (hn_level0 g ! (?start + i))) [0..<?len] = ?keep"
      using at by (intro filter_cong) (auto simp: index_eq_Some)
    ultimately have keep: "replaceable g d ?start [0..<?len] = Some ?keep" by simp
    show ?thesis
    proof (cases ?keep)
      case Nil
      then have "\<forall>t\<in>set ?ns. in_links g t \<le> 1"
        using l(4) by (auto simp: filter_empty_conv in_set_conv_nth not_less)
      with False l(4) have "stuck g host" by (simp add: stuck_def list_all_iff)
      with False len hv keep Nil show ?thesis by (simp add: adopt_def Let_def)
    next
      case (Cons k ks)
      have "replace_cmp g hv ?start a b \<noteq> None" if "a < ?len" "b < ?len" for a b
      proof -
        have "?ns ! a < hn_len g" "?ns ! b < hn_len g" using that l(3,4) by auto
        then show ?thesis
          using at(1) that hn_dist_Some [of g "?ns ! a" hv] hn_dist_Some [of g "?ns ! b" hv] g(1)
          by (auto simp: replace_cmp_def graph_ok_def)
      qed
      moreover have ks: "set (k # ks) = {i. i < ?len \<and> 1 < in_links g (?ns ! i)}"
        using arg_cong [OF Cons, of set] by auto
      ultimately obtain i where i: "max_by (replace_cmp g hv ?start) k ks = Some i" "i < ?len"
        "1 < in_links g (?ns ! i)"
        using max_by_elem [of k ks "replace_cmp g hv ?start"] by blast
      from replace_adopts [OF ok h n none i(2) refl i(3)] False len hv keep Cons i(1) at [OF i(2)]
      show ?thesis by (auto simp: adopt_def Let_def)
    qed
  qed
qed

section \<open>Lemmas: the whole repair\<close>

lemma adopt_any_ok:
  assumes "repair_ok (g, d)" and "\<forall>x\<in>set hosts. snd x < hn_len g" and "orphan < hn_len g"
    and "in_links g orphan = 0"
  shows "\<exists>g' d'. adopt_any orphan hosts (g, d) = Some (g', d') \<and> repair_ok (g', d') \<and>
    keeps_links g g' \<and> (0 < in_links g' orphan \<or> g' = g \<and> (\<forall>x\<in>set hosts. stuck g (snd x)))"
  using assms
proof (induction hosts)
  case (Cons x hosts)
  from adopt_ok [OF Cons.prems(1) _ Cons.prems(3,4), of "snd x"] Cons.prems(2) Cons.IH [OF Cons.prems(1)]
    Cons.prems(3,4) show ?case by auto
qed simp

lemma repair_slot_ok:
  assumes ok: "repair_ok (g, d)" and n: "orphan < hn_len g"
  shows "\<exists>g' d'. repair_slot orphan (g, d) = Some (g', d') \<and> repair_ok (g', d') \<and> keeps_links g g' \<and>
    (hn_entry g = Some orphan \<or> 0 < in_links g' orphan \<or>
      g' = g \<and> (\<forall>host\<in>set (level0_list g orphan). stuck g host))"
proof -
  have g: "graph_ok g" "degrees_ok g d" using ok by (simp_all add: repair_ok_def)
  note l = level0_list_ok [OF g(1) n]
  show ?thesis
  proof (cases "0 < in_links g orphan \<or> hn_entry g = Some orphan")
    case True
    with degrees_nth [OF g(2) n] ok show ?thesis by (auto simp: repair_slot_def)
  next
    case False
    obtain base where base: "flat_get (hn_vectors g) orphan = Some base"
      using hn_dist_Some [of g orphan] g(1) n by (auto simp: graph_ok_def)
    have "\<forall>s\<in>set (level0_list g orphan). has_level g s 0" using l(3) by (simp add: has_level_def)
    from far_from_all [OF g(1) this] obtain hosts where
      hosts: "those (map (far_from (hn_dist g base)) (level0_list g orphan)) = Some hosts"
        "map snd hosts = level0_list g orphan" by blast
    have members: "snd ` set (sort_by far_cmp hosts) = set (level0_list g orphan)"
      by (simp flip: hosts(2))
    then have "\<forall>x\<in>set (sort_by far_cmp hosts). snd x < hn_len g" using l(3) by blast
    from adopt_any_ok [OF ok this n] False obtain g' d' where
      r: "adopt_any orphan (sort_by far_cmp hosts) (g, d) = Some (g', d')" "repair_ok (g', d')"
        "keeps_links g g'"
        "0 < in_links g' orphan \<or> g' = g \<and> (\<forall>x\<in>set (sort_by far_cmp hosts). stuck g (snd x))"
      by auto
    have "repair_slot orphan (g, d) = Some (g', d')"
      using degrees_nth [OF g(2) n] False base l(1) hosts(1) r(1) by (simp add: repair_slot_def)
    moreover have "(\<forall>x\<in>set (sort_by far_cmp hosts). stuck g (snd x)) \<longleftrightarrow>
        (\<forall>host\<in>set (level0_list g orphan). stuck g host)" by (simp flip: members)
    ultimately show ?thesis using r(2-4) by blast
  qed
qed

lemma repair_all_ok:
  assumes "repair_ok (g, d)" and "\<forall>s\<in>set slots. s < hn_len g"
  shows "\<exists>g' d'. repair_all slots (g, d) = Some (g', d') \<and> repair_ok (g', d') \<and> keeps_links g g'"
  using assms
proof (induction slots arbitrary: g d)
  case (Cons s slots)
  from repair_slot_ok [OF Cons.prems(1), of s] Cons.prems(2) obtain g1 d1 where
    r: "repair_slot s (g, d) = Some (g1, d1)" "repair_ok (g1, d1)" "keeps_links g g1" by auto
  have "hn_len g1 = hn_len g" using r(3) same_rowsD(1) by (auto simp: keeps_links_def)
  with Cons.IH [OF r(2)] Cons.prems(2) r show ?case by (fastforce intro: keeps_links_trans)
qed simp

lemma initial_degrees:
  assumes "graph_ok g" and "hn_len g * hn_m0 g < 2 ^ 32" and "hn_len g < 2 ^ 32"
  shows "\<exists>d. count_links g (replicate (hn_len g) 0) [0..<hn_len g] = Some d \<and> repair_ok (g, d)"
proof -
  have "in_links g t < 2 ^ 32" for t
    using in_links_bound [OF assms(1), of t] assms(2) by simp
  with count_links_ok [OF assms(1), of "[0..<hn_len g]" "replicate (hn_len g) 0"] obtain d where
    d: "count_links g (replicate (hn_len g) 0) [0..<hn_len g] = Some d" "length d = hn_len g"
      "\<forall>t<hn_len g. d ! t = in_links g t" by (auto simp: in_links_def)
  then have "degrees_ok g d" by (auto simp: degrees_ok_def intro!: nth_equalityI)
  with d(1) assms show ?thesis by (simp add: repair_ok_def)
qed

lemma link_level0_orphans_ok:
  assumes "graph_ok g" and "hn_len g * hn_m0 g < 2 ^ 32" and "hn_len g < 2 ^ 32"
  shows "\<exists>g'. link_level0_orphans g = Some g' \<and> graph_ok g' \<and> keeps_links g g'"
proof -
  obtain d where d: "count_links g (replicate (hn_len g) 0) [0..<hn_len g] = Some d" "repair_ok (g, d)"
    using initial_degrees [OF assms] by blast
  from repair_all_ok [OF d(2), of "[0..<hn_len g]"] obtain g' d' where
    "repair_all [0..<hn_len g] (g, d) = Some (g', d')" "repair_ok (g', d')" "keeps_links g g'" by auto
  with d(1) assms(3) show ?thesis by (simp add: link_level0_orphans_def Let_def repair_ok_def)
qed

end
