(* ===== verification/Hnsw_Bulk.thy ===== *)
theory Hnsw_Bulk
  imports Hnsw_Build Hnsw_Orphans
begin

text \<open>
  Bulk construction (\<open>Hnsw::build_parallel\<close> in \<open>hnsw.rs\<close>): the levels and the entry, the chunks of
  parallel insertions, the copy of the locked lists into the flat arrays and the repair. Neighbour
  lists depend on scheduling, so the result is the predicate \<open>built\<close>, which holds of every index
  some schedule gives. Some index is always built, and every built index is well-formed over
  the given rows.
\<close>

section \<open>The entry point\<close>

definition entry_cmp :: "nat \<times> nat \<Rightarrow> nat \<times> nat \<Rightarrow> ordering option" where
  "entry_cmp a b = Some (then_cmp (cmp_of (snd a) (snd b)) (cmp_of (fst b) (fst a)))"

definition choose_entry :: "nat list \<Rightarrow> (nat \<times> nat) option" where
  "choose_entry levels =
     (case zip (map (\<lambda>slot. slot mod 2 ^ 32) [0..<length levels]) levels of
        [] \<Rightarrow> None
      | x # xs \<Rightarrow> max_by entry_cmp x xs)"

section \<open>Compacting\<close>

fun copy_lists :: "nat \<Rightarrow> nat list list \<Rightarrow> nat \<Rightarrow> nat list \<Rightarrow> nat list option" where
  "copy_lists m [] i flat = Some flat"
| "copy_lists m (xs # lss) i flat =
     Option.bind (splice flat (i * m) xs) (copy_lists m lss (Suc i))"

definition list_lens :: "nat list list \<Rightarrow> nat list" where
  "list_lens lss = map (\<lambda>xs. length xs mod 256) lss"

definition copy_upper :: "nat \<Rightarrow> nat \<Rightarrow> nat list list \<Rightarrow> (nat list \<times> nat list) option" where
  "copy_upper m level lss =
     Option.bind (copy_lists m lss 0 (replicate (level * m) 0)) (\<lambda>flat.
       map_option (Pair flat) (splice (replicate level 0) 0 (list_lens lss)))"

definition quantize_rows :: "flat_vectors \<Rightarrow> quantized_vectors option" where
  "quantize_rows vectors =
     map_option (\<lambda>rows. foldl push_quantized (quant_new (fv_dims vectors)) (map quantize rows))
       (those (map (flat_get vectors) [0..<flat_len vectors]))"

definition assemble :: "build_core \<Rightarrow> nat list \<Rightarrow> nat \<Rightarrow> nat \<Rightarrow> hnsw option" where
  "assemble core levels entry max_level =
     (let links = bc_links core; params = bc_params core; slots = length levels
      in Option.bind (quantize_rows (bc_vectors core)) (\<lambda>quantized.
         Option.bind (copy_lists (hp_m0 params) (ll_level0 links) 0
             (replicate (slots * hp_m0 params) 0)) (\<lambda>level0.
         Option.bind (those (map2 (copy_upper (hp_m params)) levels (ll_upper links))) (\<lambda>upper.
           Some \<lparr>hn_params = params, hn_metric = bc_metric core, hn_vectors = bc_vectors core,
                 hn_quantized = quantized, hn_levels = levels, hn_level0 = level0,
                 hn_level0_len = list_lens (ll_level0 links), hn_upper = map fst upper,
                 hn_upper_len = map snd upper, hn_tombstones = replicate (div_ceil slots 64) 0,
                 hn_tombstone_count = 0, hn_entry = Some entry, hn_max_level = max_level\<rparr>))))"

section \<open>Building\<close>

definition build_levels :: "(f64 \<Rightarrow> f64) \<Rightarrow> hnsw_params \<Rightarrow> flat_vectors \<Rightarrow> nat list" where
  "build_levels ln64 params vectors = map (level_for ln64 params) [0..<flat_len vectors]"

definition build_order :: "nat \<Rightarrow> nat \<Rightarrow> nat list" where
  "build_order slots entry = filter (\<lambda>s. s \<noteq> entry) [0..<slots mod 2 ^ 32]"

definition build_start :: "metric \<Rightarrow> hnsw_params \<Rightarrow> flat_vectors \<Rightarrow> nat list \<Rightarrow> build_core" where
  "build_start metric params vectors levels =
     \<lparr>bc_metric = metric, bc_vectors = vectors, bc_params = params,
      bc_links = links_new levels (hp_m params) (hp_m0 params)\<rparr>"

inductive built ::
  "(f64 \<Rightarrow> f64) \<Rightarrow> flat_vectors \<Rightarrow> metric \<Rightarrow> hnsw_params \<Rightarrow> hnsw \<Rightarrow> bool"
  for ln64 vectors metric params where
  empty: "flat_len vectors = 0 \<Longrightarrow>
    built ln64 vectors metric params (hnsw_new (fv_dims vectors) metric params)"
| chunks: "flat_len vectors \<noteq> 0 \<Longrightarrow> levels = build_levels ln64 params vectors \<Longrightarrow>
    choose_entry levels = Some (entry, max_level) \<Longrightarrow>
    build_chunks entry max_level levels (doubling_chunks 1 (build_order (flat_len vectors) entry))
      (build_start metric params vectors levels) core \<Longrightarrow>
    assemble core levels entry max_level = Some g \<Longrightarrow> link_level0_orphans g = Some g' \<Longrightarrow>
    built ln64 vectors metric params g'"

inductive_cases built_cases: "built ln64 vectors metric params g"

section \<open>Lemmas: the entry point\<close>

lemma entry_max:
  assumes "max_by entry_cmp x xs = Some r"
  shows "\<forall>y\<in>set (x # xs). snd y \<le> snd r"
  using assms
proof (induction xs arbitrary: x)
  case (Cons y xs)
  let ?z = "if then_cmp (cmp_of (snd x) (snd y)) (cmp_of (fst y) (fst x)) = Greater then x else y"
  have "max_by entry_cmp ?z xs = Some r" using Cons.prems by (simp add: entry_cmp_def [of x y])
  from Cons.IH [OF this] have "\<forall>v\<in>set xs. snd v \<le> snd r" "snd ?z \<le> snd r" by auto
  moreover have "snd x \<le> snd ?z" "snd y \<le> snd ?z"
    by (auto simp: then_cmp_def cmp_of_def split: if_splits)
  ultimately show ?case by auto
qed simp

lemma choose_entry_ok:
  assumes "levels \<noteq> []" and "length levels \<le> 2 ^ 32"
  shows "\<exists>e. choose_entry levels = Some (e, levels ! e) \<and> e < length levels \<and>
    (\<forall>l\<in>set levels. l \<le> levels ! e)"
proof -
  have slots: "map (\<lambda>slot. slot mod 2 ^ 32) [0..<length levels] = [0..<length levels]"
    using assms(2) by (intro map_idI) simp
  obtain x xs where z: "zip [0..<length levels] levels = x # xs"
    using assms(1) by (cases "zip [0..<length levels] levels") auto
  obtain r where r: "max_by entry_cmp x xs = Some r" "r \<in> set (zip [0..<length levels] levels)"
    using max_by_elem [of x xs entry_cmp] z by (auto simp: entry_cmp_def)
  have "l \<le> snd r" if "l \<in> set levels" for l
  proof -
    have "(SOME i. i < length levels \<and> levels ! i = l, l) \<in> set (zip [0..<length levels] levels)"
      using someI_ex [of "\<lambda>i. i < length levels \<and> levels ! i = l"] that
      by (auto simp: in_set_zip in_set_conv_nth)
    then show ?thesis using entry_max [OF r(1)] z by fastforce
  qed
  moreover have "fst r < length levels" "snd r = levels ! fst r" using r(2) by (auto simp: in_set_zip)
  moreover have "choose_entry levels = max_by entry_cmp x xs"
    by (simp only: choose_entry_def slots z list.case)
  ultimately show ?thesis using r(1) by (intro exI [of _ "fst r"]) (auto simp: prod_eq_iff)
qed

section \<open>Lemmas: compacting\<close>

lemma copy_lists_ok:
  assumes "\<forall>xs\<in>set lss. length xs \<le> m" and "(i + length lss) * m \<le> length flat"
  shows "\<exists>out. copy_lists m lss i flat = Some out \<and> length out = length flat \<and>
    set out \<subseteq> set flat \<union> \<Union> (set ` set lss) \<and>
    (\<forall>j n. j < i \<longrightarrow> n \<le> m \<longrightarrow> slice out (j * m) n = slice flat (j * m) n) \<and>
    (\<forall>k<length lss. slice out ((i + k) * m) (length (lss ! k)) = Some (lss ! k))"
  using assms
proof (induction lss arbitrary: i flat)
  case (Cons xs lss)
  have "i * m + length xs \<le> length flat"
    using Cons.prems block_bound [of i "i + length (xs # lss)" "length xs" m] by simp
  then obtain flat1 where sp: "splice flat (i * m) xs = Some flat1" by (simp add: splice_def)
  note len = length_splice [OF sp]
  from Cons.IH [of "Suc i" flat1] Cons.prems len obtain out where
    out: "copy_lists m lss (Suc i) flat1 = Some out" "length out = length flat1"
      "set out \<subseteq> set flat1 \<union> \<Union> (set ` set lss)"
      "\<forall>j n. j < Suc i \<longrightarrow> n \<le> m \<longrightarrow> slice out (j * m) n = slice flat1 (j * m) n"
      "\<forall>k<length lss. slice out ((Suc i + k) * m) (length (lss ! k)) = Some (lss ! k)" by auto
  have "slice out (j * m) n = slice flat (j * m) n" if "j < i" "n \<le> m" for j n
    using out(4) that slice_splice_other [OF sp, of "j * m" n] block_bound [of j i n m] by simp
  moreover have "slice out ((i + k) * m) (length ((xs # lss) ! k)) = Some ((xs # lss) ! k)"
    if "k < length (xs # lss)" for k
    using out(4,5) that slice_splice_same [OF sp] Cons.prems(1) by (cases k) auto
  ultimately show ?case using sp out(1-3) len set_splice [OF sp] by auto
qed auto

lemma copy_upper_ok:
  assumes "\<forall>xs\<in>set lss. length xs \<le> m" and "m \<le> 255" and "length lss = level"
  shows "\<exists>flat. copy_upper m level lss = Some (flat, map length lss) \<and>
    length flat = level * m \<and> set flat \<subseteq> {0} \<union> \<Union> (set ` set lss) \<and>
    (\<forall>k<level. slice flat (k * m) (length (lss ! k)) = Some (lss ! k))"
proof -
  have lens: "list_lens lss = map length lss" using assms(1,2) by (fastforce simp: list_lens_def)
  from copy_lists_ok [OF assms(1), of 0 "replicate (level * m) 0"] assms(3) obtain flat where
    "copy_lists m lss 0 (replicate (level * m) 0) = Some flat" "length flat = level * m"
    "set flat \<subseteq> set (replicate (level * m) 0) \<union> \<Union> (set ` set lss)"
    "\<forall>k<level. slice flat (k * m) (length (lss ! k)) = Some (lss ! k)" by auto
  then show ?thesis
    using assms(3) by (auto simp: copy_upper_def lens splice_def split: if_splits)
qed

lemma quantize_rows_ok:
  assumes "flat_wf vectors" and "flat_len vectors \<le> 2 ^ 32"
  shows "\<exists>q. quantize_rows vectors = Some q \<and> quant_wf q \<and> quant_len q = flat_len vectors \<and>
    qv_dims q = fv_dims vectors"
proof -
  have rows: "those (map (flat_get vectors) ss) = Some (map (\<lambda>s. flat_rows vectors ! s) ss)"
    if "\<forall>s\<in>set ss. s < flat_len vectors" for ss
    using that
  proof (induction ss)
    case (Cons s ss)
    then have "s < 2 ^ 32" "s < length (flat_rows vectors)"
      using assms by (auto simp: flat_wf_len)
    then have "flat_get vectors s = Some (flat_rows vectors ! s)"
      by (simp add: flat_wf_get [OF assms(1)] index_def)
    with Cons show ?case by simp
  qed simp
  have fold: "quant_wf (foldl push_quantized q (map quantize rs)) \<and>
      quant_len (foldl push_quantized q (map quantize rs)) = quant_len q + length rs \<and>
      qv_dims (foldl push_quantized q (map quantize rs)) = qv_dims q"
    if "quant_wf q" "\<forall>r\<in>set rs. length r = qv_dims q" for q rs
    using that
  proof (induction rs arbitrary: q)
    case (Cons r rs)
    from quant_push_wf [OF Cons.prems(1), of "quantize r"] Cons.prems(2) Cons.IH [of "push_quantized q (quantize r)"]
    show ?case by simp
  qed simp
  let ?rows = "map (\<lambda>s. flat_rows vectors ! s) [0..<flat_len vectors]"
  have "\<forall>r\<in>set ?rows. length r = fv_dims vectors"
    using assms(1) flat.row_dims [OF assms(1)] by (auto simp: flat_wf_len)
  with fold [of "quant_new (fv_dims vectors)" ?rows] rows [of "[0..<flat_len vectors]"] assms(1)
    quant_new_wf [of "fv_dims vectors"] show ?thesis
    by (simp add: quantize_rows_def flat_wf_def) (simp add: quant_new_def quant_len_def)
qed

section \<open>Lemmas: a built index is well-formed\<close>

lemma those_map2:
  assumes "length xs = length ys" and "\<forall>i<length xs. f (xs ! i) (ys ! i) = Some (h i)"
  shows "those (map2 f xs ys) = Some (map h [0..<length xs])"
  using assms
proof (induction xs ys arbitrary: h rule: list_induct2)
  case (Cons x xs y ys)
  from Cons.IH [of "h \<circ> Suc"] Cons.prems have
    "those (map2 f xs ys) = Some (map (h \<circ> Suc) [0..<length xs])" by fastforce
  moreover have "f x y = Some (h 0)" using Cons.prems by fastforce
  moreover have "map h [0..<length (x # xs)] = h 0 # map (h \<circ> Suc) [0..<length xs]"
    using map_upt_Suc [of h "length xs"] by (simp add: comp_def del: upt_Suc)
  ultimately show ?case by simp
qed simp

text \<open>Assembling is total on the lists of a finished build, and the accessors read them back.\<close>

lemma lists_below:
  assumes "build_ready entry M levels core"
  shows "length (ll_level0 (bc_links core)) = length levels" "length (ll_upper (bc_links core)) = length levels"
    "\<And>s. s < length levels \<Longrightarrow> length (ll_upper (bc_links core) ! s) = levels ! s"
    "\<And>s l. s < length levels \<Longrightarrow> l \<le> levels ! s \<Longrightarrow> \<exists>ns. links_list (bc_links core) s l = Some ns \<and>
      length ns \<le> links_capacity (bc_links core) l \<and> (\<forall>t\<in>set ns. t < length levels \<and> l \<le> levels ! t)"
proof -
  let ?ll = "bc_links core"
  have valid: "core_valid core s l \<longleftrightarrow> s < length levels \<and> l \<le> levels ! s" for s l
    using assms by (simp add: build_ready_def)
  have ll: "links_shape ?ll" "ll.closed ?ll" using assms by (simp_all add: build_ready_def core_ok_def)
  have "s < length (ll_level0 ?ll) \<longleftrightarrow> s < length levels" for s
    using valid [of s 0] by (simp add: links_valid_def)
  then show n: "length (ll_level0 ?ll) = length levels" by (metis nat_neq_iff)
  then show "length (ll_upper ?ll) = length levels" using ll(1) by (simp add: links_shape_def)
  show "length (ll_upper ?ll ! s) = levels ! s" if "s < length levels" for s
  proof -
    have "l \<le> length (ll_upper ?ll ! s) \<longleftrightarrow> l \<le> levels ! s" for l
      using valid [of s l] that n by (simp add: links_valid_def)
    then show ?thesis by (metis le_antisym order_refl)
  qed
  fix s l
  assume "s < length levels" "l \<le> levels ! s"
  then have v: "core_valid core s l" by (simp add: valid)
  from ll.get_ok [OF ll(1) v] ll.closedD [OF ll(2) v] show "\<exists>ns. links_list ?ll s l = Some ns \<and>
      length ns \<le> links_capacity ?ll l \<and> (\<forall>t\<in>set ns. t < length levels \<and> l \<le> levels ! t)"
    by (auto simp: valid)
qed

text \<open>Assembling is total on the lists of a finished build, and the accessors read them back.\<close>

lemma assemble_ok:
  assumes ready: "build_ready entry M levels core" and fits: "hp_m (bc_params core) \<le> 255"
    "hp_m0 (bc_params core) \<le> 255" and levels: "\<forall>l\<in>set levels. l \<le> 31 \<and> l \<le> M"
    and caps: "links_capacity (bc_links core) =
      (\<lambda>l. if l = 0 then hp_m0 (bc_params core) else hp_m (bc_params core))"
  shows "\<exists>g. assemble core levels entry M = Some g \<and> hnsw_wf g \<and> hn_vectors g = bc_vectors core \<and>
    hn_levels g = levels \<and> hn_params g = bc_params core \<and> hn_metric g = bc_metric core \<and>
    (\<forall>s. \<not> is_tombstoned g s) \<and>
    (\<forall>s l. has_level g s l \<longrightarrow> neighbours g s l = links_list (bc_links core) s l)"
proof -
  let ?ll = "bc_links core" and ?m = "hp_m (bc_params core)" and ?cap = "hp_m0 (bc_params core)"
  let ?n = "length levels"
  note below = lists_below [OF ready]
  have e: "entry < ?n" "levels ! entry = M" and c: "core_ok core" using ready by (simp_all add: build_ready_def)
  then have shape: "links_shape ?ll" and v: "flat_wf (bc_vectors core)"
    "flat_len (bc_vectors core) = ?n" "?n \<le> 2 ^ 32"
    by (simp_all add: core_ok_def below(1))
  have nth: "links_list ?ll s l = Some (if l = 0 then ll_level0 ?ll ! s else ll_upper ?ll ! s ! (l - 1))"
    if "s < ?n" "l \<le> levels ! s" for s l
    using that ready by (intro links_list_nth [OF shape]) (simp add: build_ready_def)
  have slots0: "length (ll_level0 ?ll ! s) \<le> ?cap \<and> set (ll_level0 ?ll ! s) \<subseteq> {..<?n}" if "s < ?n" for s
    using below(4) [OF that, of 0] nth [OF that, of 0] by (auto simp: caps)
  have slots1: "length (ll_upper ?ll ! s ! k) \<le> ?m \<and> set (ll_upper ?ll ! s ! k) \<subseteq> {..<?n}"
    if "s < ?n" "k < levels ! s" for s k
    using below(4) [OF that(1), of "Suc k"] nth [OF that(1), of "Suc k"] that(2) by (auto simp: caps)
  obtain q where q: "quantize_rows (bc_vectors core) = Some q" "quant_wf q" "quant_len q = ?n"
    "qv_dims q = fv_dims (bc_vectors core)" using quantize_rows_ok [OF v(1)] v(2,3) by auto
  have len0: "\<forall>xs\<in>set (ll_level0 ?ll). length xs \<le> ?cap" "\<Union> (set ` set (ll_level0 ?ll)) \<subseteq> {..<?n}"
    using slots0 below(1) by (force simp: in_set_conv_nth)+
  from copy_lists_ok [OF len0(1), of 0 "replicate (?n * ?cap) 0"] below(1) obtain level0 where
    l0: "copy_lists ?cap (ll_level0 ?ll) 0 (replicate (?n * ?cap) 0) = Some level0"
      "length level0 = ?n * ?cap"
      "set level0 \<subseteq> set (replicate (?n * ?cap) 0) \<union> \<Union> (set ` set (ll_level0 ?ll))"
      "\<forall>k<?n. slice level0 (k * ?cap) (length (ll_level0 ?ll ! k)) = Some (ll_level0 ?ll ! k)" by auto
  have "\<forall>s<?n. \<exists>flat. copy_upper ?m (levels ! s) (ll_upper ?ll ! s) =
        Some (flat, map length (ll_upper ?ll ! s)) \<and> length flat = levels ! s * ?m \<and>
      set flat \<subseteq> insert 0 {..<?n} \<and>
      (\<forall>k<levels ! s. slice flat (k * ?m) (length (ll_upper ?ll ! s ! k)) = Some (ll_upper ?ll ! s ! k))"
  proof (intro allI impI)
    fix s assume s: "s < ?n"
    note u = below(3) [OF s]
    have len: "\<forall>xs\<in>set (ll_upper ?ll ! s). length xs \<le> ?m" "\<Union> (set ` set (ll_upper ?ll ! s)) \<subseteq> {..<?n}"
      using slots1 [OF s] u by (force simp: in_set_conv_nth)+
    from copy_upper_ok [OF len(1) fits(1) u] obtain flat where
      f: "copy_upper ?m (levels ! s) (ll_upper ?ll ! s) = Some (flat, map length (ll_upper ?ll ! s))"
        "length flat = levels ! s * ?m" "set flat \<subseteq> {0} \<union> \<Union> (set ` set (ll_upper ?ll ! s))"
        "\<forall>k<levels ! s. slice flat (k * ?m) (length (ll_upper ?ll ! s ! k)) = Some (ll_upper ?ll ! s ! k)"
      by blast
    have "set flat \<subseteq> insert 0 {..<?n}" using f(3) len(2) by blast
    with f(1,2,4) show "\<exists>flat. copy_upper ?m (levels ! s) (ll_upper ?ll ! s) =
        Some (flat, map length (ll_upper ?ll ! s)) \<and> length flat = levels ! s * ?m \<and>
      set flat \<subseteq> insert 0 {..<?n} \<and>
      (\<forall>k<levels ! s. slice flat (k * ?m) (length (ll_upper ?ll ! s ! k)) = Some (ll_upper ?ll ! s ! k))"
      by (intro exI [of _ flat] conjI)
  qed
  then obtain F where F: "\<forall>s<?n. copy_upper ?m (levels ! s) (ll_upper ?ll ! s) =
        Some (F s, map length (ll_upper ?ll ! s)) \<and> length (F s) = levels ! s * ?m \<and>
      set (F s) \<subseteq> insert 0 {..<?n} \<and>
      (\<forall>k<levels ! s. slice (F s) (k * ?m) (length (ll_upper ?ll ! s ! k)) = Some (ll_upper ?ll ! s ! k))"
    by metis
  let ?up = "map (\<lambda>s. (F s, map length (ll_upper ?ll ! s))) [0..<?n]"
  have up: "those (map2 (copy_upper ?m) levels (ll_upper ?ll)) = Some ?up"
    using F below(2) by (intro those_map2) auto
  have lens0: "list_lens (ll_level0 ?ll) = map length (ll_level0 ?ll)"
    using len0(1) fits(2) by (fastforce simp: list_lens_def)
  define g where "g = \<lparr>hn_params = bc_params core, hn_metric = bc_metric core,
     hn_vectors = bc_vectors core, hn_quantized = q, hn_levels = levels, hn_level0 = level0,
     hn_level0_len = map length (ll_level0 ?ll), hn_upper = map fst ?up, hn_upper_len = map snd ?up,
     hn_tombstones = replicate (div_ceil ?n 64) 0, hn_tombstone_count = 0, hn_entry = Some entry,
     hn_max_level = M\<rparr>"
  have run: "assemble core levels entry M = Some g"
    by (simp add: assemble_def Let_def q(1) l0(1) up lens0 g_def del: map_map)
  have gn: "hn_len g = ?n" by (simp add: g_def hn_len_def)
  have has: "has_level g s l \<longleftrightarrow> s < ?n \<and> l \<le> levels ! s" for s l by (simp add: has_level_def gn) (simp add: g_def)
  have "shape_ok g"
    unfolding shape_ok_def gn using fits levels l0(2) F slots0 slots1 below
    by (auto simp: g_def)
  have nb: "neighbours g s l = links_list ?ll s l" if "s < ?n" "l \<le> levels ! s" for s l
  proof (cases l)
    case 0
    with that(1) nth [OF that] l0(4) below(1) show ?thesis by (simp add: neighbours_def g_def index_def)
  next
    case (Suc k)
    with that nth [OF that] F below(3) show ?thesis by (simp add: neighbours_def g_def index_def)
  qed
  have "links_ok g"
    unfolding links_ok_def using nb below(4) by (fastforce simp: has)
  moreover have "set level0 \<subseteq> {..<2 ^ 32}" using l0(3) len0(2) v(3) by force
  then have "words_ok g" using F v(3) by (fastforce simp: words_ok_def g_def)
  moreover have "rows_ok g" using v q by (simp add: rows_ok_def gn hn_dims_def) (simp add: g_def hn_len_def)
  moreover have no: "\<not> is_tombstoned g s" for s by (simp add: is_tombstoned_def g_def index_def split: option.splits)
  then have "tombstones_ok g" by (simp add: tombstones_ok_def gn) (simp add: g_def hn_len_def)
  moreover have "entry_ok g" using e levels by (simp add: entry_ok_def gn) (simp add: g_def hn_len_def)
  ultimately have "hnsw_wf g" using \<open>shape_ok g\<close> by (simp add: hnsw_wf_def graph_ok_def)
  moreover have "\<forall>s l. has_level g s l \<longrightarrow> neighbours g s l = links_list ?ll s l"
    using nb by (simp add: has)
  ultimately show ?thesis using run no
    by (intro exI [of _ g] conjI) (simp_all add: g_def)
qed

lemma build_start_ready:
  assumes "flat_wf vectors" and "flat_len vectors < 2 ^ 32" and "flat_len vectors \<noteq> 0"
    and "levels = build_levels ln64 params vectors" and "choose_entry levels = Some (entry, M)"
  shows "build_ready entry M levels (build_start metric params vectors levels)"
    "\<forall>l\<in>set levels. l \<le> 31 \<and> l \<le> M"
    "links_capacity (bc_links (build_start metric params vectors levels)) =
      (\<lambda>l. if l = 0 then hp_m0 params else hp_m params)"
proof -
  have len: "length levels = flat_len vectors" using assms(4) by (simp add: build_levels_def)
  then have "levels \<noteq> []" "length levels \<le> 2 ^ 32" using assms(2,3) by auto
  from choose_entry_ok [OF this] assms(5) have
    e: "entry < length levels" "levels ! entry = M" "\<forall>l\<in>set levels. l \<le> M" by auto
  let ?ll = "links_new levels (hp_m params) (hp_m0 params)"
  have "length (ll_level0 ?ll) = length levels" by (simp add: links_new_def)
  then have "core_ok (build_start metric params vectors levels)"
    using assms(1,2) links_new_ok(1,3) [of levels] len by (simp add: core_ok_def build_start_def)
  then show "build_ready entry M levels (build_start metric params vectors levels)"
    using e by (simp add: build_ready_def build_start_def links_new_ok(2) fun_eq_iff)
  show "\<forall>l\<in>set levels. l \<le> 31 \<and> l \<le> M"
    using e(3) assms(4) by (auto simp: build_levels_def level_for_le)
  show "links_capacity (bc_links (build_start metric params vectors levels)) =
      (\<lambda>l. if l = 0 then hp_m0 params else hp_m params)"
    by (auto simp: build_start_def links_capacity_def links_new_def)
qed

lemma build_order_chunks:
  assumes "c \<in> set (doubling_chunks 1 (build_order slots entry))"
  shows "set c \<subseteq> {..<slots}"
proof -
  have "set c \<subseteq> set (concat (doubling_chunks 1 (build_order slots entry)))" using assms by auto
  also have "\<dots> = set (build_order slots entry)" by (subst concat_doubling_chunks) simp_all
  also have "\<dots> \<subseteq> {..<slots}"
    using mod_less_eq_dividend [of slots "2 ^ 32"] by (auto simp: build_order_def)
  finally show ?thesis .
qed

text \<open>What the caller gets.\<close>

definition built_from :: "flat_vectors \<Rightarrow> metric \<Rightarrow> hnsw_params \<Rightarrow> hnsw \<Rightarrow> bool" where
  "built_from vectors metric params g \<longleftrightarrow>
     hnsw_wf g \<and> hn_len g = flat_len vectors \<and> hn_dims g = fv_dims vectors \<and>
     flat_rows (hn_vectors g) = flat_rows vectors \<and> hn_metric g = metric \<and> hn_params g = params \<and>
     (\<forall>s. \<not> is_tombstoned g s)"

definition build_fits :: "flat_vectors \<Rightarrow> hnsw_params \<Rightarrow> bool" where
  "build_fits vectors params \<longleftrightarrow>
     flat_wf vectors \<and> flat_len vectors < 2 ^ 32 \<and> hp_m params \<le> 255 \<and> hp_m0 params \<le> 255 \<and>
     flat_len vectors * hp_m0 params < 2 ^ 32"

lemma built_finish:
  assumes fits: "build_fits vectors params" and ne: "flat_len vectors \<noteq> 0"
    and levels: "levels = build_levels ln64 params vectors"
    and entry: "choose_entry levels = Some (entry, M)"
    and run: "build_chunks entry M levels (doubling_chunks 1 (build_order (flat_len vectors) entry))
      (build_start metric params vectors levels) core"
  shows "\<exists>g g'. assemble core levels entry M = Some g \<and> link_level0_orphans g = Some g' \<and>
    hnsw_wf g \<and> keeps_links g g' \<and> built_from vectors metric params g'"
proof -
  have v: "flat_wf vectors" "flat_len vectors < 2 ^ 32" using fits by (simp_all add: build_fits_def)
  note start = build_start_ready [OF v ne levels entry]
  have "length levels = flat_len vectors" by (simp add: levels build_levels_def)
  then have c: "core_ok core" "same_build (build_start metric params vectors levels) core"
    using build_chunks_ok [OF run start(1)] build_order_chunks by auto
  have core: "bc_params core = params" "bc_metric core = metric" "bc_vectors core = vectors"
    "links_capacity (bc_links core) = (\<lambda>l. if l = 0 then hp_m0 params else hp_m params)"
    using c(2) start(3) by (simp_all add: same_build_def build_start_def)
  have "hp_m (bc_params core) \<le> 255" "hp_m0 (bc_params core) \<le> 255"
    using fits by (simp_all add: build_fits_def core(1))
  from assemble_ok [OF build_ready_frame [OF start(1) c(2,1)] this start(2)] core obtain g where
    g: "assemble core levels entry M = Some g" "hnsw_wf g" "hn_vectors g = vectors" "hn_levels g = levels"
      "hn_params g = params" "hn_metric g = metric" "\<forall>s. \<not> is_tombstoned g s" by auto
  have len: "hn_len g = flat_len vectors" using g(4) by (simp add: hn_len_def levels build_levels_def)
  from g(2) have "graph_ok g" "entry_ok g" by (simp_all add: hnsw_wf_def)
  with link_level0_orphans_ok [of g] fits len g(5) obtain g' where
    g': "link_level0_orphans g = Some g'" "graph_ok g'" "keeps_links g g'" by (auto simp: build_fits_def)
  then have r: "same_rows g g'" by (simp add: keeps_links_def)
  have "hnsw_wf g'" using g'(2) \<open>entry_ok g\<close> same_rowsD(7) [OF r] by (simp add: hnsw_wf_def)
  moreover have "hn_vectors g' = vectors" "hn_params g' = params" "hn_metric g' = metric"
    using r g(3,5,6) by (simp_all add: same_rows_def)
  ultimately have "built_from vectors metric params g'"
    using same_rowsD(1,8) [OF r] len g(7) by (simp add: built_from_def hn_dims_def)
  with g(1,2) g'(1,3) show ?thesis by blast
qed

lemma built_ok:
  assumes "built ln64 vectors metric params g" and "build_fits vectors params"
  shows "built_from vectors metric params g"
  using assms(1)
proof cases
  case empty
  have v: "flat_wf vectors" "hp_m params \<le> 255" "hp_m0 params \<le> 255"
    using assms(2) by (simp_all add: build_fits_def)
  then have d: "0 < fv_dims vectors" "fv_dims vectors \<le> 65536" by (simp_all add: flat_wf_def)
  have "flat_rows vectors = []" using flat_wf_len [OF v(1)] empty(2) by simp
  then show ?thesis
    using hnsw_new_wf [OF d v(2,3)] empty
    by (simp add: built_from_def) (simp add: hnsw_new_def hn_len_def hn_dims_def is_tombstoned_def index_def)
next
  case (chunks levels entry M core g1)
  from built_finish [OF assms(2) chunks(1-4)] chunks(5,6) show ?thesis by auto
qed

lemma built_exists:
  assumes "build_fits vectors params"
  shows "\<exists>g. built ln64 vectors metric params g"
proof (cases "flat_len vectors = 0")
  case True
  then show ?thesis by (blast intro: built.empty)
next
  case False
  have v: "flat_wf vectors" "flat_len vectors < 2 ^ 32" using assms by (simp_all add: build_fits_def)
  define levels where levels: "levels = build_levels ln64 params vectors"
  then have len: "length levels = flat_len vectors" by (simp add: build_levels_def)
  then have "levels \<noteq> []" "length levels \<le> 2 ^ 32" using False v(2) by auto
  from choose_entry_ok [OF this] obtain entry where e: "choose_entry levels = Some (entry, levels ! entry)"
    by blast
  have "\<forall>c\<in>set (doubling_chunks 1 (build_order (flat_len vectors) entry)). set c \<subseteq> {..<length levels}"
    using build_order_chunks len by simp
  from build_chunks_exist [OF build_start_ready(1) [OF v False levels e] this] obtain core where run: "build_chunks entry (levels ! entry) levels
      (doubling_chunks 1 (build_order (flat_len vectors) entry)) (build_start metric params vectors levels) core"
    by blast
  from built_finish [OF assms False levels e run] show ?thesis
    using built.chunks [OF False levels e run] by blast
qed

end
