(* ===== verification/Partition_Compact.thy ===== *)
theory Partition_Compact
  imports Partition_Sizes Hnsw_Bulk
begin

text \<open>
  Compaction and bulk loading (\<open>partition.rs\<close>). Compaction captures the live slots, rebuilds the
  graph over them while the partition keeps serving, replays the entries acknowledged meanwhile
  onto the rebuilt state, writes its snapshot and swaps it in. The rebuilt graph is any that
  \<open>build_parallel\<close> may give.

  A compaction keeps every key with its vector, payload and operation id, whatever was
  acknowledged between capture and swap, and the directory then recovers to the swapped state.
\<close>

section \<open>Capture\<close>

record compaction_input =
  ci_rebuild_point :: u64
  ci_metric :: metric
  ci_params :: hnsw_params
  ci_vectors :: flat_vectors
  ci_old_slots :: "nat list"
  ci_slots :: "slot_record list"
  ci_key_table :: "bytes list"
  ci_keys :: "bytes \<rightharpoonup> nat \<times> nat option"
  ci_idempotency :: "(bytes \<times> u64) list"

fun capture_slots ::
  "flat_vectors \<Rightarrow> (nat \<times> slot_record) list \<Rightarrow> flat_vectors \<times> nat list \<times> slot_record list \<Rightarrow>
     partition_error + flat_vectors \<times> nat list \<times> slot_record list" where
  "capture_slots rows [] acc = Inr acc"
| "capture_slots rows ((old_slot, r) # rest) (vectors, old_slots, slots) =
     (if rec_tombstone r then capture_slots rows rest (vectors, old_slots, slots)
      else rbind (ok_or (Manifest ''slot without vector'') (flat_get rows old_slot)) (\<lambda>row.
           rbind (map_err VectorErr (flat_push vectors row L2)) (\<lambda>(_, vectors').
             capture_slots rows rest
               (vectors', old_slots @ [old_slot mod 2 ^ 32], slots @ [r]))))"

definition capture_compaction :: "partition \<Rightarrow> partition_error + compaction_input" where
  "capture_compaction p =
     rbind (capture_slots (hn_vectors (pt_index p)) (zip [0..<length (pt_slots p)] (pt_slots p))
         (flat_new (cfg_dims (pt_config p)), [], [])) (\<lambda>(vectors, old_slots, slots). Inr
       \<lparr>ci_rebuild_point = pt_high_water p, ci_metric = pt_metric p,
        ci_params = cfg_params (pt_config p), ci_vectors = vectors, ci_old_slots = old_slots,
        ci_slots = slots, ci_key_table = pt_key_table p, ci_keys = pt_keys p,
        ci_idempotency = iw_entries (pt_idem p)\<rparr>)"

section \<open>Rebuild\<close>

record compaction_plan =
  cp_rebuild_point :: u64
  cp_index :: hnsw
  cp_key_table :: "bytes list"
  cp_keys :: "bytes \<rightharpoonup> nat \<times> nat option"
  cp_slots :: "slot_record list"
  cp_idempotency :: "(bytes \<times> u64) list"

definition old_to_new :: "nat list \<Rightarrow> nat \<rightharpoonup> nat" where
  "old_to_new old_slots =
     map_of (rev (zip old_slots (map (\<lambda>new. new mod 2 ^ 32) [0..<length old_slots])))"

definition remap_keys ::
  "(nat \<rightharpoonup> nat) \<Rightarrow> (bytes \<rightharpoonup> nat \<times> nat option) \<Rightarrow> bytes \<rightharpoonup> nat \<times> nat option" where
  "remap_keys to_new keys key = map_option (\<lambda>(i, live). (i, Option.bind live to_new)) (keys key)"

text \<open>The plans the rebuild of an input may produce.\<close>

definition compaction_build :: "(f64 \<Rightarrow> f64) \<Rightarrow> compaction_input \<Rightarrow> compaction_plan \<Rightarrow> bool" where
  "compaction_build ln64 ci plan \<longleftrightarrow>
     (\<exists>g. built ln64 (ci_vectors ci) (ci_metric ci) (ci_params ci) g \<and>
        plan = \<lparr>cp_rebuild_point = ci_rebuild_point ci, cp_index = g,
                cp_key_table = ci_key_table ci,
                cp_keys = remap_keys (old_to_new (ci_old_slots ci)) (ci_keys ci),
                cp_slots = ci_slots ci, cp_idempotency = ci_idempotency ci\<rparr>)"

definition begin_compaction ::
  "(f64 \<Rightarrow> f64) \<Rightarrow> partition \<Rightarrow> partition_error + compaction_plan \<Rightarrow> bool" where
  "begin_compaction ln64 p r \<longleftrightarrow>
     (case capture_compaction p of
        Inl e \<Rightarrow> r = Inl e
      | Inr ci \<Rightarrow> (case r of Inl _ \<Rightarrow> False | Inr plan \<Rightarrow> compaction_build ln64 ci plan))"

section \<open>Catch up and swap\<close>

record compaction_report =
  cr_rebuild_point :: u64
  cr_caught_up_entries :: nat
  cr_slots_before :: nat
  cr_tombstones_before :: nat
  cr_slots_after :: nat
  cr_snapshot :: path

definition staged_state :: "partition \<Rightarrow> compaction_plan \<Rightarrow> partition" where
  "staged_state p plan =
     \<lparr>pt_config = pt_config p, pt_metric = pt_metric p, pt_index = cp_index plan,
      pt_key_table = cp_key_table plan, pt_keys = cp_keys plan, pt_slots = cp_slots plan,
      pt_idem = iw_restore (cfg_idempotency_window (pt_config p)) (cp_idempotency plan),
      pt_wal = None, pt_high_water = cp_rebuild_point plan,
      pt_snapshot_high_water = pt_snapshot_high_water p, pt_failpoint = None\<rparr>"

fun catch_up_entries ::
  "platform \<Rightarrow> path \<Rightarrow> u64 \<Rightarrow> u64 \<Rightarrow> entry list \<Rightarrow> partition \<times> nat \<Rightarrow>
     (partition_error + partition \<times> nat) option" where
  "catch_up_entries pf path rebuild mark [] st = Some (Inr st)"
| "catch_up_entries pf path rebuild mark (e # es) (staged, replayed) =
     (if e_seq e \<le> rebuild \<or> mark < e_seq e then catch_up_entries pf path rebuild mark es (staged, replayed)
      else if e_seq e \<noteq> pt_high_water staged + 1
      then Some (Inl (WalErr (SequenceGap path (pt_high_water staged + 1) (e_seq e))))
      else case apply_entry (pf_ln pf) staged e of
             None \<Rightarrow> None
           | Some (Inl err) \<Rightarrow> Some (Inl err)
           | Some (Inr staged1) \<Rightarrow>
               catch_up_entries pf path rebuild mark es (staged1, replayed + 1))"

fun catch_up ::
  "platform \<Rightarrow> wal_dir \<Rightarrow> uuid \<Rightarrow> u64 \<Rightarrow> u64 \<Rightarrow> (u64 \<times> path) list \<Rightarrow> partition \<times> nat \<Rightarrow>
     (partition_error + partition \<times> nat) option" where
  "catch_up pf dir pid rebuild mark [] st = Some (Inr st)"
| "catch_up pf dir pid rebuild mark ((first_seq, path) # segs) st =
     (if mark < first_seq then catch_up pf dir pid rebuild mark segs st
      else case (case map_of dir path of
                   None \<Rightarrow> Inl WalIo
                 | Some bs \<Rightarrow> read_segment (pf_crc pf) path bs pid (segs = [])) of
             Inl e \<Rightarrow> Some (Inl (WalErr e))
           | Inr r \<Rightarrow>
               (case catch_up_entries pf path rebuild mark (sr_entries r) st of
                  None \<Rightarrow> None
                | Some (Inl e) \<Rightarrow> Some (Inl e)
                | Some (Inr st1) \<Rightarrow> catch_up pf dir pid rebuild mark segs st1))"

definition swap_state :: "partition \<Rightarrow> partition \<Rightarrow> partition" where
  "swap_state p staged =
     p\<lparr>pt_index := pt_index staged, pt_key_table := pt_key_table staged, pt_keys := pt_keys staged,
       pt_slots := pt_slots staged, pt_idem := pt_idem staged,
       pt_snapshot_high_water := pt_high_water p\<rparr>"

definition finish_staged ::
  "platform \<Rightarrow> snap_io \<Rightarrow> path \<Rightarrow> part_dir \<Rightarrow> partition \<Rightarrow> u64 \<Rightarrow> partition \<times> nat \<Rightarrow>
     (wal_dir \<times> partition \<times> (partition_error + compaction_report)) option" where
  "finish_staged pf io temporary d p rebuild = (\<lambda>(staged, replayed).
     if pt_high_water staged \<noteq> pt_high_water p
     then Some (pd_snap d, p, Inl (MissingHistory (pt_high_water staged) (Some (pt_high_water p))))
     else map_option (\<lambda>(dir', staged', written).
            case written of
              Inl e \<Rightarrow> (dir', p, Inl e)
            | Inr path \<Rightarrow>
                (case hit_failpoint p CompactionBeforeSwap of
                   Inl e \<Rightarrow> (dir', p, Inl e)
                 | Inr _ \<Rightarrow>
                     let p' = swap_state p staged'
                     in (dir', p', Inr \<lparr>cr_rebuild_point = rebuild, cr_caught_up_entries = replayed,
                           cr_slots_before = length (pt_slots p),
                           cr_tombstones_before = hn_tombstone_count (pt_index p),
                           cr_slots_after = length (pt_slots p'), cr_snapshot = path\<rparr>)))
          (part_snapshot pf io temporary (pd_snap d) staged))"

definition finish_compaction ::
  "platform \<Rightarrow> snap_io \<Rightarrow> path \<Rightarrow> part_dir \<Rightarrow> partition \<Rightarrow> compaction_plan \<Rightarrow>
     (wal_dir \<times> partition \<times> (partition_error + compaction_report)) option" where
  "finish_compaction pf io temporary d p plan =
     (case list_segments (pd_wal d) of
        Inl e \<Rightarrow> Some (pd_snap d, p, Inl (WalErr e))
      | Inr segments \<Rightarrow>
          (case catch_up pf (pd_wal d) (cfg_id (pt_config p)) (cp_rebuild_point plan) (pt_high_water p)
                  segments (staged_state p plan, 0) of
             None \<Rightarrow> None
           | Some (Inl e) \<Rightarrow> Some (pd_snap d, p, Inl e)
           | Some (Inr st) \<Rightarrow> finish_staged pf io temporary d p (cp_rebuild_point plan) st))"

section \<open>Bulk load\<close>

fun load_keys ::
  "nat \<Rightarrow> bytes list \<Rightarrow> bytes list \<times> (bytes \<rightharpoonup> nat \<times> nat option) \<times> slot_record list \<Rightarrow>
     partition_error + bytes list \<times> (bytes \<rightharpoonup> nat \<times> nat option) \<times> slot_record list" where
  "load_keys slot [] acc = Inr acc"
| "load_keys slot (key # rest) (table, keys, slots) =
     (if keys key \<noteq> None then Inl (Manifest ''bulk load keys must be unique'')
      else load_keys (Suc slot) rest
        (table @ [key], keys(key \<mapsto> (slot mod 2 ^ 32, Some (slot mod 2 ^ 32))),
         slots @ [\<lparr>rec_version = 0, rec_tombstone = False, rec_key_index = slot mod 2 ^ 32,
                   rec_payload = []\<rparr>]))"

text \<open>The partition just created, and the one to persist once \<open>g\<close> is built.\<close>

definition bulk_prepare ::
  "partition \<Rightarrow> flat_vectors \<Rightarrow> bytes list \<Rightarrow>
     partition_error + bytes list \<times> (bytes \<rightharpoonup> nat \<times> nat option) \<times> slot_record list" where
  "bulk_prepare p vectors keys =
     (if fv_dims vectors \<noteq> cfg_dims (pt_config p)
      then Inl (VectorErr (WrongDims (cfg_dims (pt_config p)) (fv_dims vectors)))
      else rbind (load_keys 0 (take (flat_len vectors) keys) ([], Map.empty, [])) (\<lambda>(table, kmap, slots).
             if length table \<noteq> flat_len vectors
             then Inl (Manifest ''bulk load needs one key per vector'')
             else Inr (table, kmap, slots)))"

definition bulk_load ::
  "platform \<Rightarrow> manifest_io \<Rightarrow> create_io \<Rightarrow> snap_io \<Rightarrow> path \<Rightarrow> path \<Rightarrow> part_dir \<Rightarrow> partition_config \<Rightarrow>
     flat_vectors \<Rightarrow> bytes list \<Rightarrow> hnsw \<Rightarrow>
     (part_dir \<times> (partition_error + partition \<times> path)) option" where
  "bulk_load pf mio cio io directory temporary d config vectors keys g =
     (case part_create pf mio cio directory d (config\<lparr>cfg_base_snapshot := True\<rparr>) of
        (d1, Inl e) \<Rightarrow> Some (d1, Inl e)
      | (d1, Inr p) \<Rightarrow>
          (case bulk_prepare p vectors keys of
             Inl e \<Rightarrow> Some (d1\<lparr>pd_locked := pd_locked d\<rparr>, Inl e)
           | Inr (table, kmap, slots) \<Rightarrow>
               map_option (\<lambda>(dir', p', written).
                   case written of
                     Inl e \<Rightarrow> (d1\<lparr>pd_snap := dir', pd_locked := pd_locked d\<rparr>, Inl e)
                   | Inr path \<Rightarrow> (d1\<lparr>pd_snap := dir'\<rparr>, Inr (p', path)))
                 (part_snapshot pf io temporary (pd_snap d1)
                   (p\<lparr>pt_index := g, pt_key_table := table, pt_keys := kmap, pt_slots := slots\<rparr>))))"

section \<open>Lemmas: capture\<close>

text \<open>What is stored is finite, as every accepted vector is.\<close>

definition stored_finite :: "partition \<Rightarrow> bool" where
  "stored_finite p \<longleftrightarrow> (\<forall>(row, payload)\<in>ran (contents p). list_all f32_is_finite row)"

definition live_slots :: "slot_record list \<Rightarrow> nat list" where
  "live_slots slots = filter (\<lambda>s. \<not> rec_tombstone (slots ! s)) [0..<length slots]"

lemma capture_slots_ok:
  assumes v: "flat_wf v" and m: "fv_dims v = d"
    and live: "\<forall>(s, r)\<in>set xs. \<not> rec_tombstone r \<longrightarrow>
      s < 2 ^ 32 \<and> (\<exists>row. flat_get rows s = Some row \<and> length row = d \<and> list_all f32_is_finite row)"
  shows "\<exists>v'. capture_slots rows xs (v, os, ss) =
      Inr (v', os @ map fst (filter (\<lambda>x. \<not> rec_tombstone (snd x)) xs),
        ss @ map snd (filter (\<lambda>x. \<not> rec_tombstone (snd x)) xs)) \<and>
    flat_wf v' \<and> fv_dims v' = d \<and>
    flat_rows v' = flat_rows v @ map (\<lambda>x. the (flat_get rows (fst x)))
      (filter (\<lambda>x. \<not> rec_tombstone (snd x)) xs)"
  using assms
proof (induction xs arbitrary: v os ss)
  case (Cons x xs)
  obtain s r where x: "x = (s, r)" by (cases x)
  show ?case
  proof (cases "rec_tombstone r")
    case True
    with Cons.IH [OF Cons.prems(1,2)] Cons.prems(3) x show ?thesis by simp
  next
    case False
    with Cons.prems(3) x obtain row where row: "flat_get rows s = Some row" "length row = d"
      "list_all f32_is_finite row" "s < 2 ^ 32" by auto
    then have push: "flat_push v row L2 = Inr (flat_len v, v\<lparr>fv_tail := fv_tail v @ row\<rparr>)"
      using Cons.prems(2) by (simp add: flat_push_def list_ex_iff list_all_iff)
    let ?v = "v\<lparr>fv_tail := fv_tail v @ row\<rparr>"
    have v1: "flat_wf ?v" "fv_dims ?v = d" "flat_rows ?v = flat_rows v @ [row]"
      using flat.push_ok [OF Cons.prems(1) push] Cons.prems(2) by auto
    from Cons.IH [OF v1(1,2), of "os @ [s]" "ss @ [r]"] Cons.prems(3) row push x False v1(3)
    show ?thesis by simp
  qed
qed simp

lemma capture_slots_Inr:
  assumes "capture_slots rows xs (v, os, ss) = Inr out"
  shows "\<forall>(s, r)\<in>set xs. \<not> rec_tombstone r \<longrightarrow>
    (\<exists>row. flat_get rows s = Some row \<and> length row = fv_dims v \<and> list_all f32_is_finite row)"
  using assms
proof (induction xs arbitrary: v os ss)
  case (Cons x xs)
  obtain s r where x: "x = (s, r)" by (cases x)
  show ?case
  proof (cases "rec_tombstone r")
    case True
    with Cons x show ?thesis by auto
  next
    case False
    with Cons.prems x obtain row i v1 where r: "flat_get rows s = Some row"
      "flat_push v row L2 = Inr (i, v1)" "capture_slots rows xs (v1, os @ [s mod 2 ^ 32], ss @ [r]) = Inr out"
      by (auto simp: rbind_eq_Inr)
    then have "length row = fv_dims v" "list_all f32_is_finite row" "fv_dims v1 = fv_dims v"
      by (auto simp: flat_push_def list_ex_iff list_all_iff split: if_splits)
    with Cons.IH [OF r(3)] r(1) x show ?thesis by auto
  qed
qed simp

definition captured :: "partition \<Rightarrow> compaction_input \<Rightarrow> bool" where
  "captured p ci \<longleftrightarrow>
     (let L = live_slots (pt_slots p)
      in ci_rebuild_point ci = pt_high_water p \<and> ci_metric ci = pt_metric p \<and>
         ci_params ci = cfg_params (pt_config p) \<and> ci_old_slots ci = L \<and>
         ci_slots ci = map ((!) (pt_slots p)) L \<and> ci_key_table ci = pt_key_table p \<and>
         ci_keys ci = pt_keys p \<and> ci_idempotency ci = iw_entries (pt_idem p) \<and>
         flat_wf (ci_vectors ci) \<and> fv_dims (ci_vectors ci) = cfg_dims (pt_config p) \<and>
         flat_rows (ci_vectors ci) = map (\<lambda>s. the (flat_get (hn_vectors (pt_index p)) s)) L)"

lemma live_slot_row:
  assumes wf: "part_wf p" and s: "s < length (pt_slots p)" "\<not> rec_tombstone (pt_slots p ! s)"
  shows "\<exists>key row. pt_keys p key = Some (rec_key_index (pt_slots p ! s), Some s) \<and>
    flat_get (hn_vectors (pt_index p)) s = Some row \<and> length row = cfg_dims (pt_config p) \<and>
    contents p key = Some (row, rec_payload (pt_slots p ! s))"
proof -
  let ?r = "pt_slots p ! s"
  have keys: "pt_keys p (pt_key_table p ! rec_key_index ?r) = Some (rec_key_index ?r, Some s)"
    using wf s keys_okD(5) by (auto simp: part_wf_def)
  have "rows_ok (pt_index p)" "s < hn_len (pt_index p)" "hn_dims (pt_index p) = cfg_dims (pt_config p)"
    using wf s(1) by (auto simp: part_wf_def hnsw_wf_def graph_ok_def slots_ok_def config_ok_def)
  with hn_dist_Some [of "pt_index p" s] obtain row where
    "flat_get (hn_vectors (pt_index p)) s = Some row" "length row = cfg_dims (pt_config p)" by auto
  with keys s(1) show ?thesis by (auto simp: contents_def slot_for_key_def index_def)
qed

text \<open>Live slots and stored keys are as many.\<close>

lemma live_slots_card:
  assumes wf: "part_wf p"
  shows "length (live_slots (pt_slots p)) = card (dom (contents p))"
proof -
  let ?key = "\<lambda>s. pt_key_table p ! rec_key_index (pt_slots p ! s)" and ?L = "set (live_slots (pt_slots p))"
  have keys: "keys_ok (pt_key_table p) (pt_keys p) (pt_slots p)" using wf by (simp add: part_wf_def)
  have L: "s \<in> ?L \<longleftrightarrow> s < length (pt_slots p) \<and> \<not> rec_tombstone (pt_slots p ! s)" for s
    by (auto simp: live_slots_def)
  have at: "pt_keys p (?key s) = Some (rec_key_index (pt_slots p ! s), Some s)" if "s \<in> ?L" for s
    using that keys_okD(5) [OF keys] by (simp add: L)
  have "inj_on ?key ?L"
  proof (rule inj_onI)
    fix s t assume s: "s \<in> ?L" and t: "t \<in> ?L" and key: "?key s = ?key t"
    from at [OF s, unfolded key] at [OF t] show "s = t" by auto
  qed
  moreover have "?key ` ?L = dom (contents p)"
  proof (intro equalityI subsetI)
    fix k assume "k \<in> ?key ` ?L"
    then obtain s where s: "s \<in> ?L" "k = ?key s" by blast
    then have b: "s < length (pt_slots p)" "\<not> rec_tombstone (pt_slots p ! s)" by (simp_all add: L)
    obtain key where "pt_keys p key = Some (rec_key_index (pt_slots p ! s), Some s)" "contents p key \<noteq> None"
      using live_slot_row [OF wf b] by auto
    moreover from this(1) have "key = k" using keys_okD(3) [OF keys, of key] s(2) by auto
    ultimately show "k \<in> dom (contents p)" by auto
  next
    fix k assume "k \<in> dom (contents p)"
    then obtain i s where k: "pt_keys p k = Some (i, Some s)"
      by (cases "slot_for_key p k") (auto simp: contents_def slot_for_key_def bind_eq_Some_conv)
    then have "s \<in> ?L" "rec_key_index (pt_slots p ! s) = i" "pt_key_table p ! i = k"
      using keys_okD(3,4) [OF keys k] by (auto simp: L)
    then show "k \<in> ?key ` ?L" by force
  qed
  moreover have "distinct (live_slots (pt_slots p))" by (simp add: live_slots_def)
  ultimately show ?thesis using card_image distinct_card by metis
qed

lemma all_live:
  assumes wf: "part_wf p" and "length (pt_slots p) \<le> card (dom (contents p))"
  shows "length (pt_slots p) = card (dom (contents p))" and "hn_tombstone_count (pt_index p) = 0"
proof -
  let ?n = "length (pt_slots p)"
  have len: "length (live_slots (pt_slots p)) = card (dom (contents p))" by (rule live_slots_card [OF wf])
  have le: "length (live_slots (pt_slots p)) \<le> ?n"
    using length_filter_le [of _ "[0..<?n]"] by (simp add: live_slots_def)
  with len assms(2) show "?n = card (dom (contents p))" by simp
  have "\<not> rec_tombstone (pt_slots p ! s)" if "s < ?n" for s
  proof (rule ccontr)
    assume "\<not> \<not> rec_tombstone (pt_slots p ! s)"
    then have "length (live_slots (pt_slots p)) < length [0..<?n]"
      unfolding live_slots_def using that by (intro length_filter_less [of s]) auto
    with len assms(2) show False by simp
  qed
  moreover have "tombstones_ok (pt_index p)" "slots_ok (length (pt_key_table p)) (pt_slots p) (pt_index p)"
    using wf by (simp_all add: part_wf_def hnsw_wf_def graph_ok_def)
  ultimately have "{s. is_tombstoned (pt_index p) s} = {}" "hn_tombstone_count (pt_index p) = card {s. is_tombstoned (pt_index p) s}"
    by (auto simp: tombstones_ok_def slots_ok_def)
  then show "hn_tombstone_count (pt_index p) = 0" by simp
qed

lemma slots_below: "part_wf p \<Longrightarrow> length (pt_slots p) \<le> 2 ^ 32"
  by (auto simp: part_wf_def hnsw_wf_def graph_ok_def slots_ok_def rows_ok_def)

lemma filter_zip_upt:
  "filter (\<lambda>x. P (snd x)) (zip [0..<length xs] xs) =
    map (\<lambda>i. (i, xs ! i)) (filter (\<lambda>i. P (xs ! i)) [0..<length xs])"
proof -
  have "zip [0..<length xs] xs = map (\<lambda>i. (i, xs ! i)) [0..<length xs]"
    by (intro nth_equalityI) auto
  then show ?thesis by (simp add: filter_map comp_def)
qed

lemma slots_finite_captured:
  assumes wf: "part_wf p"
    and live: "\<forall>(s, r)\<in>set (zip [0..<length (pt_slots p)] (pt_slots p)). \<not> rec_tombstone r \<longrightarrow>
      (\<exists>row. flat_get (hn_vectors (pt_index p)) s = Some row \<and> length row = cfg_dims (pt_config p) \<and>
        list_all f32_is_finite row)"
  shows "\<exists>ci. capture_compaction p = Inr ci \<and> captured p ci"
proof -
  let ?d = "cfg_dims (pt_config p)" and ?xs = "zip [0..<length (pt_slots p)] (pt_slots p)"
  have d: "0 < ?d" "?d \<le> 65536" using wf cfg_validate_ok(1,2) by (auto simp: part_wf_def config_ok_def Suc_le_eq)
  have "s < 2 ^ 32" if "(s, r) \<in> set ?xs" for s r using that slots_below [OF wf] by (auto simp: set_zip)
  with live have "\<forall>(s, r)\<in>set ?xs. \<not> rec_tombstone r \<longrightarrow> s < 2 ^ 32 \<and>
      (\<exists>row. flat_get (hn_vectors (pt_index p)) s = Some row \<and> length row = ?d \<and> list_all f32_is_finite row)"
    by fast
  from capture_slots_ok [OF flat_new_wf [OF d] _ this, of "[]" "[]"] obtain v where
    "capture_slots (hn_vectors (pt_index p)) ?xs (flat_new ?d, [], []) =
       Inr (v, live_slots (pt_slots p), map ((!) (pt_slots p)) (live_slots (pt_slots p)))"
    "flat_wf v" "fv_dims v = ?d"
    "flat_rows v = map (\<lambda>s. the (flat_get (hn_vectors (pt_index p)) s)) (live_slots (pt_slots p))"
    unfolding filter_zip_upt [of "\<lambda>r. \<not> rec_tombstone r"] live_slots_def by (auto simp: comp_def)
  then show ?thesis by (simp add: capture_compaction_def captured_def Let_def)
qed

lemma capture_Inr:
  assumes wf: "part_wf p" and ci: "capture_compaction p = Inr ci"
  shows "captured p ci"
proof -
  obtain out where "capture_slots (hn_vectors (pt_index p)) (zip [0..<length (pt_slots p)] (pt_slots p))
      (flat_new (cfg_dims (pt_config p)), [], []) = Inr out"
    using ci by (auto simp: capture_compaction_def rbind_eq_Inr)
  from slots_finite_captured [OF wf] capture_slots_Inr [OF this] ci show ?thesis by auto
qed

lemma capture_ok:
  assumes wf: "part_wf p" and fin: "stored_finite p"
  shows "\<exists>ci. capture_compaction p = Inr ci \<and> captured p ci"
proof (rule slots_finite_captured [OF wf], intro ballI, clarify)
  fix s r assume "(s, r) \<in> set (zip [0..<length (pt_slots p)] (pt_slots p))" "\<not> rec_tombstone r"
  then have s: "s < length (pt_slots p)" "\<not> rec_tombstone (pt_slots p ! s)" by (auto simp: set_zip)
  from live_slot_row [OF wf s] fin show "\<exists>row. flat_get (hn_vectors (pt_index p)) s = Some row \<and>
      length row = cfg_dims (pt_config p) \<and> list_all f32_is_finite row"
    by (force simp: stored_finite_def ran_def)
qed

section \<open>Lemmas: the rebuilt state\<close>

lemma old_to_new_eq:
  assumes "distinct L" and "length L \<le> 2 ^ 32"
  shows "old_to_new L x = Some y \<longleftrightarrow> y < length L \<and> L ! y = x"
proof -
  let ?zs = "zip L (map (\<lambda>new. new mod 2 ^ 32) [0..<length L])"
  have "map (\<lambda>new. new mod 2 ^ 32) [0..<length L] = [0..<length L]"
    using assms(2) by (intro map_idI) simp
  then have zs: "?zs = zip L [0..<length L]" by simp
  then have "distinct (map fst (rev ?zs))" using assms(1) by (simp flip: rev_map)
  from map_of_eq_Some_iff [OF this] show ?thesis
    unfolding old_to_new_def zs by (auto simp: set_zip)
qed

definition compactable :: "partition \<Rightarrow> bool" where
  "compactable p \<longleftrightarrow>
     iw_capacity (pt_idem p) = cfg_idempotency_window (pt_config p) \<and>
     length (live_slots (pt_slots p)) * cfg_m0 (pt_config p) < 2 ^ 32"

lemma live_slots_nth:
  assumes "i < length (live_slots slots)"
  shows "live_slots slots ! i < length slots" "\<not> rec_tombstone (slots ! (live_slots slots ! i))"
  using nth_mem [OF assms] by (auto simp: live_slots_def)

lemma captured_fits:
  assumes wf: "part_wf p" and c: "compactable p" and ci: "captured p ci"
  shows "build_fits (ci_vectors ci) (ci_params ci)"
    "flat_len (ci_vectors ci) = length (live_slots (pt_slots p))"
proof -
  have cfg: "2 \<le> cfg_m (pt_config p)" "cfg_m (pt_config p) \<le> cfg_m0 (pt_config p)"
    "cfg_m0 (pt_config p) \<le> 255"
    using wf cfg_validate_ok by (auto simp: part_wf_def config_ok_def)
  have v: "flat_wf (ci_vectors ci)" "ci_params ci = cfg_params (pt_config p)"
    "flat_rows (ci_vectors ci) = map (\<lambda>s. the (flat_get (hn_vectors (pt_index p)) s)) (live_slots (pt_slots p))"
    using ci by (simp_all add: captured_def Let_def)
  show len: "flat_len (ci_vectors ci) = length (live_slots (pt_slots p))"
    using flat_wf_len [OF v(1)] v(3) by simp
  have "length (live_slots (pt_slots p)) \<le> length (live_slots (pt_slots p)) * cfg_m0 (pt_config p)"
    using cfg by simp
  also have "\<dots> < 2 ^ 32" using c by (simp add: compactable_def)
  finally show "build_fits (ci_vectors ci) (ci_params ci)"
    using v(1,2) cfg c len by (simp add: build_fits_def compactable_def cfg_params_def)
qed

lemma remapped_keys_ok:
  assumes keys: "keys_ok table keys slots" and len: "length slots \<le> 2 ^ 32"
  shows "keys_ok table (remap_keys (old_to_new (live_slots slots)) keys) (map ((!) slots) (live_slots slots))"
proof (rule keys_okI)
  let ?L = "live_slots slots"
  let ?keys = "remap_keys (old_to_new ?L) keys"
  have L: "distinct ?L" "length ?L \<le> 2 ^ 32"
    using len length_filter_le [of _ "[0..<length slots]"] by (auto simp: live_slots_def intro: order_trans)
  note to_new = old_to_new_eq [OF L]
  show "distinct table" by (rule keys_okD(1) [OF keys])
  show "dom ?keys = set table" using keys_okD(2) [OF keys] by (auto simp: remap_keys_def dom_def)
  fix key i live s
  show "?keys key = Some (i, live) \<Longrightarrow> i < length table \<and> table ! i = key"
    using keys_okD(3) [OF keys] by (auto simp: remap_keys_def)
  show "?keys key = Some (i, Some s) \<Longrightarrow> s < length (map ((!) slots) ?L) \<and>
      \<not> rec_tombstone (map ((!) slots) ?L ! s) \<and> rec_key_index (map ((!) slots) ?L ! s) = i"
    using keys_okD(4) [OF keys] by (auto simp: remap_keys_def bind_eq_Some_conv to_new)
  assume s: "s < length (map ((!) slots) ?L)"
  let ?i = "rec_key_index (map ((!) slots) ?L ! s)"
  have "keys (table ! ?i) = Some (?i, Some (?L ! s))"
    using s keys_okD(5) [OF keys live_slots_nth] by simp
  moreover have "old_to_new ?L (?L ! s) = Some s" using s by (simp add: to_new)
  ultimately show "?keys (table ! ?i) = Some (?i, Some s)" by (simp add: remap_keys_def)
qed

lemma staged_ok:
  assumes wf: "part_wf p0" and c: "compactable p0" and ci: "captured p0 ci"
    and plan: "compaction_build ln64 ci plan"
    and same: "pt_config p = pt_config p0" "pt_metric p = pt_metric p0"
  shows "part_wf (staged_state p plan)" "contents (staged_state p plan) = contents p0"
    "pt_idem (staged_state p plan) = pt_idem p0" "pt_high_water (staged_state p plan) = pt_high_water p0"
    "pt_key_table (staged_state p plan) = pt_key_table p0"
    "length (pt_slots (staged_state p plan)) = length (live_slots (pt_slots p0))"
    "list_all (\<lambda>r. \<not> rec_tombstone r) (pt_slots (staged_state p plan))"
proof -
  let ?L = "live_slots (pt_slots p0)" and ?q = "staged_state p plan" and ?rows = "hn_vectors (pt_index p0)"
  note i = ci [unfolded captured_def Let_def]
  have parts: "config_ok p0" "keys_ok (pt_key_table p0) (pt_keys p0) (pt_slots p0)" "iw_wf (pt_idem p0)"
    "slots_ok (length (pt_key_table p0)) (pt_slots p0) (pt_index p0)" using wf by (simp_all add: part_wf_def)
  have q: "pt_config ?q = pt_config p0" "pt_metric ?q = pt_metric p0" "pt_index ?q = cp_index plan"
    "pt_key_table ?q = pt_key_table p0" "pt_keys ?q = remap_keys (old_to_new ?L) (pt_keys p0)"
    "pt_slots ?q = map ((!) (pt_slots p0)) ?L" "pt_high_water ?q = pt_high_water p0"
    "pt_idem ?q = iw_restore (cfg_idempotency_window (pt_config p0)) (iw_entries (pt_idem p0))"
    using plan same i by (auto simp: staged_state_def compaction_build_def)
  then show "pt_high_water ?q = pt_high_water p0" "pt_key_table ?q = pt_key_table p0"
    "length (pt_slots ?q) = length ?L" by simp_all
  show idem: "pt_idem ?q = pt_idem p0"
    using iw_restore_entries [OF parts(3)] c q(8) by (simp add: compactable_def)
  show live: "list_all (\<lambda>r. \<not> rec_tombstone r) (pt_slots ?q)"
    by (auto simp: q(6) list_all_iff live_slots_def)
  have "built ln64 (ci_vectors ci) (ci_metric ci) (ci_params ci) (cp_index plan)"
    using plan by (auto simp: compaction_build_def)
  from built_ok [OF this captured_fits(1) [OF wf c ci]] captured_fits(2) [OF wf c ci] have
    g: "hnsw_wf (cp_index plan)" "hn_len (cp_index plan) = length ?L"
      "hn_dims (cp_index plan) = cfg_dims (pt_config p0)" "hn_metric (cp_index plan) = pt_metric p0"
      "hn_params (cp_index plan) = cfg_params (pt_config p0)" "\<forall>s. \<not> is_tombstoned (cp_index plan) s"
      "flat_rows (hn_vectors (cp_index plan)) = map (\<lambda>s. the (flat_get ?rows s)) ?L"
    using i by (simp_all add: built_from_def)
  have "slots_ok (length (pt_key_table p0)) (pt_slots ?q) (cp_index plan)"
    using parts(4) g(2,6) live_slots_nth [of _ "pt_slots p0"] by (simp add: slots_ok_def q(6))
  moreover have "keys_ok (pt_key_table p0) (pt_keys ?q) (pt_slots ?q)"
    using remapped_keys_ok [OF parts(2) slots_below [OF wf]] by (simp add: q(5,6))
  ultimately show "part_wf ?q"
    using parts(1,3) g idem q by (simp add: part_wf_def config_ok_def)
  have L: "distinct ?L" "length ?L \<le> 2 ^ 32"
    using slots_below [OF wf] length_filter_le [of _ "[0..<length (pt_slots p0)]"]
    by (auto simp: live_slots_def intro: order_trans)
  have wfv: "flat_wf (hn_vectors (cp_index plan))" using g(1) by (simp add: hnsw_wf_def graph_ok_def rows_ok_def)
  show "contents ?q = contents p0"
  proof
    fix key
    show "contents ?q key = contents p0 key"
    proof (cases "slot_for_key p0 key")
      case None
      then show ?thesis
        by (auto simp: contents_def slot_for_key_def q(5) remap_keys_def bind_eq_None_conv
            split: Option.bind_splits option.splits)
    next
      case (Some s)
      then obtain j where k: "pt_keys p0 key = Some (j, Some s)"
        by (auto simp: slot_for_key_def bind_eq_Some_conv)
      have s: "s < length (pt_slots p0)" "\<not> rec_tombstone (pt_slots p0 ! s)"
        using keys_okD(4) [OF parts(2) k] by simp_all
      then have "s \<in> set ?L" by (auto simp: live_slots_def)
      then obtain n where n: "n < length ?L" "?L ! n = s" by (auto simp: in_set_conv_nth)
      then have "slot_for_key ?q key = Some n"
        using k old_to_new_eq [OF L] by (auto simp: slot_for_key_def q(5) remap_keys_def)
      moreover have "flat_get (hn_vectors (cp_index plan)) n = flat_get ?rows s"
        using flat_wf_get [OF wfv, of n] n g(7) L(2) live_slot_row [OF wf s] by (auto simp: index_def)
      ultimately show ?thesis using n s by (simp add: contents_def Some q(3,6) index_def)
    qed
  qed
qed

section \<open>Lemmas: catching up\<close>

lemma catch_up_entries_ok:
  assumes "consecutive f es" and "unat f + length es \<le> unat mark + 1" and "unat f + length es < 2 ^ 64"
    and "unat (pt_high_water st) + 1 = max (unat rebuild + 1) (unat f)"
    and "apply_all (pf_ln pf) (drop (unat (pt_high_water st) + 1 - unat f) es) st = Some (Inr st')"
  shows "catch_up_entries pf path rebuild mark es (st, n) =
    Some (Inr (st', n + length (drop (unat (pt_high_water st) + 1 - unat f) es)))"
  using assms
proof (induction es arbitrary: f st n)
  case (Cons e es)
  let ?hw = "pt_high_water st"
  have e: "e_seq e = f" "consecutive (f + 1) es" using Cons.prems(1) by simp_all
  have f1: "unat (f + 1) = unat f + 1" using unat_advance [of f 1 "length es"] Cons.prems(3) by simp
  have "f \<le> mark" using Cons.prems(2) by (simp add: word_le_nat_alt)
  then have mark: "\<not> mark < f" by simp
  show ?case
  proof (cases "f \<le> rebuild")
    case True
    then have le: "unat f \<le> unat rebuild" by (simp add: word_le_nat_alt)
    then have hw: "unat ?hw = unat rebuild" using Cons.prems(4) by simp
    with le f1 have k: "unat ?hw + 1 - unat f = Suc (unat ?hw + 1 - unat (f + 1))" by simp
    have "unat ?hw + 1 = max (unat rebuild + 1) (unat (f + 1))" using hw le f1 by simp
    from Cons.IH [OF e(2) _ _ this] Cons.prems(2,3,5) f1 k True e(1) show ?thesis by simp
  next
    case False
    then have gt: "unat rebuild < unat f" by (simp add: word_le_nat_alt)
    then have hw: "unat ?hw + 1 = unat f" using Cons.prems(4) by simp
    moreover have "unat (?hw + 1) = unat ?hw + 1"
      using unat_advance [of ?hw 1 0] hw unat_bound [of f] by simp
    ultimately have next1: "?hw + 1 = f" by (simp add: unsigned_word_eqI [where ?'a = nat])
    from Cons.prems(5) hw obtain st1 where st1: "apply_entry (pf_ln pf) st e = Some (Inr st1)"
      "apply_all (pf_ln pf) es st1 = Some (Inr st')" by (auto split: option.splits sum.splits)
    have hw1: "pt_high_water st1 = f" using apply_entry_high_water [OF st1(1)] e(1) by simp
    have "unat (pt_high_water st1) + 1 = max (unat rebuild + 1) (unat (f + 1))" using hw1 gt f1 by simp
    from Cons.IH [OF e(2) _ _ this] Cons.prems(2,3) st1 hw hw1 f1 False mark next1 e(1)
    show ?thesis by simp
  qed
qed simp

lemma catch_up_ok:
  assumes ch: "chain s segs" and pid: "length pid = 16"
    and tot: "unat s + length (log_entries segs) < 2 ^ 64" "unat s + length (log_entries segs) = unat mark + 1"
    and dir: "\<forall>(f, es)\<in>set segs. \<exists>c. map_of dir (segment_name f) = Some c \<and> seg_content (pf_crc pf) pid (f, es) c"
    and hw: "unat (pt_high_water st) + 1 = max (unat rebuild + 1) (unat s)"
    and ap: "apply_all (pf_ln pf) (drop (unat (pt_high_water st) + 1 - unat s) (log_entries segs)) st = Some (Inr st')"
  shows "catch_up pf dir pid rebuild mark (segment_names segs) (st, n) =
    Some (Inr (st', n + length (drop (unat (pt_high_water st) + 1 - unat s) (log_entries segs))))"
  using assms
proof (induction segs arbitrary: s st n)
  case Nil
  then show ?case by (simp add: segment_names_def)
next
  case (Cons seg segs)
  obtain f es where seg: "seg = (f, es)" by (cases seg)
  have fs: "f = s" and chs: "chain (s + word_of_nat (length es)) segs" using Cons.prems(1) seg by simp_all
  let ?s' = "s + word_of_nat (length es)" and ?k = "unat (pt_high_water st) + 1 - unat s"
  have s': "unat ?s' = unat s + length es"
    using unat_advance [of s "length es" "length (log_entries segs)"] Cons.prems(3) seg by simp
  show ?case
  proof (cases "mark < s")
    case True
    then have "unat mark < unat s" by (simp add: word_less_nat_alt)
    moreover have "unat s + (length es + length (log_entries segs)) = unat mark + 1"
      using Cons.prems(4) seg by simp
    ultimately have "length es = 0" by linarith
    then have "es = []" by simp
    then have "segs = []" using Cons.prems(1) seg by simp
    with True Cons.prems(7) seg fs \<open>es = []\<close> show ?thesis by (simp add: segment_names_def)
  next
    case False
    obtain c where c: "map_of dir (segment_name s) = Some c" "seg_content (pf_crc pf) pid (s, es) c"
      using Cons.prems(5) seg fs by auto
    have con: "consecutive s es" using c(2) by (auto simp: seg_content_def)
    have dr: "drop ?k (log_entries (seg # segs)) = drop ?k es @ drop (?k - length es) (log_entries segs)"
      by (simp add: seg)
    with Cons.prems(7) obtain st1 where st1: "apply_all (pf_ln pf) (drop ?k es) st = Some (Inr st1)"
      "apply_all (pf_ln pf) (drop (?k - length es) (log_entries segs)) st1 = Some (Inr st')"
      using apply_all_appendD by metis
    have b: "unat s + length es \<le> unat mark + 1" "unat s + length es < 2 ^ 64"
      using Cons.prems(3,4) seg by simp_all
    have read: "catch_up_entries pf (segment_name s) rebuild mark es (st, n) =
        Some (Inr (st1, n + length (drop ?k es)))"
      by (rule catch_up_entries_ok [OF con b Cons.prems(6) st1(1)])
    have hw1: "unat (pt_high_water st1) = (if ?k < length es then unat s + length es - 1 else unat (pt_high_water st))"
    proof (cases "?k < length es")
      case True
      then have "es \<noteq> []" "drop ?k es \<noteq> []" by auto
      moreover have "e_seq (last es) = s + word_of_nat (length es) - 1"
        using consecutive_last [OF con] \<open>es \<noteq> []\<close> by simp
      moreover have "unat (s + word_of_nat (length es) - 1) = unat s + length es - 1"
        using s' True by (metis add_is_0 diff_is_0_eq less_nat_zero_code unat_0_iff unat_minus_one)
      ultimately show ?thesis using True apply_all_high_water [OF st1(1)] by (simp add: last_drop)
    next
      case False
      then show ?thesis using apply_all_high_water [OF st1(1)] by simp
    qed
    have "unat (pt_high_water st1) + 1 = max (unat rebuild + 1) (unat ?s')"
      using hw1 s' Cons.prems(6) by (auto simp: max_def split: if_splits)
    moreover have k1: "unat (pt_high_water st1) + 1 - unat ?s' = ?k - length es" using hw1 s' by auto
    ultimately have "catch_up pf dir pid rebuild mark (segment_names segs) (st1, n + length (drop ?k es)) =
        Some (Inr (st', n + length (drop ?k es) + length (drop (?k - length es) (log_entries segs))))"
      using Cons.IH [OF chs Cons.prems(2), of st1 "n + length (drop ?k es)"] Cons.prems(3-5) st1(2) s' seg
      by simp
    then show ?thesis
      using False c(1) read seg_content_read [OF c(2) Cons.prems(2), of "segment_names segs = []"] seg fs dr
      by (simp add: segment_names_def)
  qed
qed

section \<open>Lemmas: finishing a compaction\<close>

lemma encode_all_each: "encode_all crc es = Inr body \<Longrightarrow> e \<in> set es \<Longrightarrow> \<exists>frame. entry_encode crc e = Inr frame"
  by (induction es arbitrary: body) (auto simp: rbind_eq_Inr)

lemma chain_consecutive:
  "chain s segs \<Longrightarrow> \<forall>(f, es)\<in>set segs. consecutive f es \<Longrightarrow> consecutive s (log_entries segs)"
proof (induction segs arbitrary: s)
  case (Cons seg segs)
  then show ?case by (cases seg) (simp add: consecutive_append)
qed simp

lemma log_entries_ok:
  assumes log: "log_ok crc pid s dir segs"
  shows "consecutive s (log_entries segs)" "e \<in> set (log_entries segs) \<Longrightarrow> \<exists>frame. entry_encode crc e = Inr frame"
proof -
  have sc: "\<exists>c. seg_content crc pid (f, es) c" if "(f, es) \<in> set segs" for f es
    using log_ok_content [OF log that] by blast
  have "\<forall>(f, es)\<in>set segs. consecutive f es" using sc by (fastforce simp: seg_content_def)
  with log show "consecutive s (log_entries segs)" by (intro chain_consecutive) (auto simp: log_ok_def)
  assume "e \<in> set (log_entries segs)"
  then obtain f es where "(f, es) \<in> set segs" "e \<in> set es" by (auto simp: log_entries_def)
  with sc show "\<exists>frame. entry_encode crc e = Inr frame"
    using encode_all_each by (fastforce simp: seg_content_def)
qed

text \<open>What an entry needs to be applied and remembered.\<close>

definition entry_fits :: "(bytes \<Rightarrow> u32) \<Rightarrow> partition \<Rightarrow> entry \<Rightarrow> bool" where
  "entry_fits crc p e \<longleftrightarrow>
     op_ok p (e_operation e) \<and> length (e_op_id e) = 16 \<and> (\<exists>frame. entry_encode crc e = Inr frame)"

lemma entry_fits_config: "pt_config q = pt_config p \<Longrightarrow> entry_fits crc q = entry_fits crc p"
  by (auto simp: entry_fits_def op_ok_def fun_eq_iff split: operation.splits)

lemma apply_all_sizes:
  assumes "apply_all ln64 es p = Some (Inr p')" and "part_wf p" and "room_for (length es) p"
    and "sizes_ok p" and "\<forall>e\<in>set es. entry_fits crc p e"
  shows "sizes_ok p'"
  using assms
proof (induction es arbitrary: p)
  case (Cons e es)
  then obtain p1 where p1: "apply_entry ln64 p e = Some (Inr p1)" "apply_all ln64 es p1 = Some (Inr p')"
    by (auto split: option.splits sum.splits)
  have e: "op_ok p (e_operation e)" "length (e_op_id e) = 16" "\<exists>frame. entry_encode crc e = Inr frame"
    using Cons.prems(5) by (simp_all add: entry_fits_def)
  have room: "has_room p" using Cons.prems(3) by (simp add: room_for_def has_room_def)
  obtain p2 where p2: "apply_entry ln64 p e = Some (Inr p2)" "part_wf p2" "same_frame p p2"
      "length (pt_slots p2) \<le> Suc (length (pt_slots p))"
      "length (pt_key_table p2) \<le> Suc (length (pt_key_table p))"
    using apply_entry_ok [OF Cons.prems(2) room e(1)] by blast
  then have "p2 = p1" using p1(1) by simp
  with p2 have q: "part_wf p1" "same_frame p p1" "length (pt_slots p1) \<le> Suc (length (pt_slots p))"
      "length (pt_key_table p1) \<le> Suc (length (pt_key_table p))" by simp_all
  have "room_for (length es) p1" using Cons.prems(3) q(3,4) by (simp add: room_for_def)
  moreover have "sizes_ok p1" using apply_entry_sizes [OF p1(1) Cons.prems(2,4) _ e(2)] e(3) by blast
  moreover have "\<forall>e\<in>set es. entry_fits crc p1 e"
    using Cons.prems(5) q(2) entry_fits_config [of p1 p] by (simp add: same_frame_def)
  ultimately show ?case using Cons.IH [OF p1(2) q(1)] by blast
qed simp

text \<open>A rebuilt state that the log leads from to the live state.\<close>

definition leads_to :: "platform \<Rightarrow> u64 \<Rightarrow> (u64 \<times> entry list) list \<Rightarrow> partition \<Rightarrow> partition \<Rightarrow> bool" where
  "leads_to pf s segs q p \<longleftrightarrow>
     (let es = drop (unat (pt_high_water q) + 1 - unat s) (log_entries segs)
      in part_wf q \<and> sizes_ok q \<and> pt_config q = pt_config p \<and>
         unat s \<le> unat (pt_high_water q) + 1 \<and>
         unat (pt_high_water q) + 1 \<le> unat s + length (log_entries segs) \<and>
         length (pt_slots q) + length es < 2 ^ 32 \<and> length (pt_key_table q) + length es < 2 ^ 32 \<and>
         (\<forall>e\<in>set es. entry_fits (pf_crc pf) p e) \<and>
         contents p = spec_all (pt_metric p) es (contents q) \<and>
         pt_idem p = foldl (\<lambda>w e. iw_record w (e_op_id e) (e_seq e)) (pt_idem q) es)"

lemma catch_up_reaches:
  assumes dur: "durable pf s d segs p" and lead: "leads_to pf s segs (staged_state p plan) p"
  shows "\<exists>q n. finish_compaction pf io temporary d p plan =
      finish_staged pf io temporary d p (cp_rebuild_point plan) (q, n) \<and>
    part_wf q \<and> sizes_ok q \<and> has_room q \<and> same_frame (staged_state p plan) q \<and>
    contents q = contents p \<and> pt_idem q = pt_idem p \<and> pt_high_water q = pt_high_water p \<and>
    n = length (drop (unat (cp_rebuild_point plan) + 1 - unat s) (log_entries segs)) \<and>
    length (pt_slots q) \<le> length (pt_slots (staged_state p plan)) + n \<and>
    length (pt_key_table q) \<le> length (pt_key_table (staged_state p plan)) + n"
proof -
  let ?q = "staged_state p plan"
  let ?h = "unat (pt_high_water ?q) + 1 - unat s"
  let ?es = "drop ?h (log_entries segs)"
  have sv: "serving pf s (pd_wal d) segs p" and s: "0 < unat s" using dur by (auto simp: durable_def)
  obtain w where w: "writer_ok (pf_crc pf) (cfg_id (pt_config p)) s (pd_wal d) segs w"
    "ww_next_seq w = pt_high_water p + 1" using sv by (auto simp: serving_def)
  have log: "log_ok (pf_crc pf) (cfg_id (pt_config p)) s (pd_wal d) segs" using w(1) by (simp add: writer_ok_def)
  have l: "chain s segs" "length (cfg_id (pt_config p)) = 16" "unat s + length (log_entries segs) < 2 ^ 64"
    using log by (auto simp: log_ok_def)
  have seq: "pt_high_water p = s + word_of_nat (length (log_entries segs)) - 1"
    using w by (simp add: writer_ok_def) (metis add_diff_cancel_right')
  then have hw: "unat s + length (log_entries segs) = unat (pt_high_water p) + 1"
    using unat_last_seq [OF s l(3)] s by simp
  have hwq: "pt_high_water ?q = cp_rebuild_point plan" by (simp add: staged_state_def)
  have m: "pt_metric ?q = pt_metric p" "pt_config ?q = pt_config p" by (simp_all add: staged_state_def)
  note fits = entry_fits_config [OF m(2)]
  have q: "part_wf ?q" "sizes_ok ?q" "pt_config ?q = pt_config p"
    "unat s \<le> unat (pt_high_water ?q) + 1" "unat (pt_high_water ?q) + 1 \<le> unat s + length (log_entries segs)"
    "length (pt_slots ?q) + length ?es < 2 ^ 32" "length (pt_key_table ?q) + length ?es < 2 ^ 32"
    "\<forall>e\<in>set ?es. entry_fits (pf_crc pf) ?q e"
    "contents p = spec_all (pt_metric p) ?es (contents ?q)"
    "pt_idem p = foldl (\<lambda>w e. iw_record w (e_op_id e) (e_seq e)) (pt_idem ?q) ?es"
    using lead unfolding leads_to_def Let_def fits by blast+
  have room: "room_for (length ?es) ?q" using q(6,7) by (simp add: room_for_def)
  have "\<forall>e\<in>set ?es. op_ok ?q (e_operation e)" using q(8) by (simp add: entry_fits_def)
  from apply_all_ok [OF q(1) room this] obtain r where
    r: "apply_all (pf_ln pf) ?es ?q = Some (Inr r)" "part_wf r"
      "contents r = spec_all (pt_metric ?q) ?es (contents ?q)" "same_frame ?q r"
      "pt_idem r = foldl (\<lambda>w e. iw_record w (e_op_id e) (e_seq e)) (pt_idem ?q) ?es"
      "pt_high_water r = (if ?es = [] then pt_high_water ?q else e_seq (last ?es))"
      "length (pt_slots r) \<le> length (pt_slots ?q) + length ?es"
      "length (pt_key_table r) \<le> length (pt_key_table ?q) + length ?es" by blast
  have "pt_high_water r = pt_high_water p"
  proof (cases "?es = []")
    case True
    then have "unat (pt_high_water ?q) = unat (pt_high_water p)" using q(4,5) hw by simp
    with True r(6) show ?thesis by (simp add: word_unat_eq_iff)
  next
    case False
    then have "log_entries segs \<noteq> []" "last ?es = last (log_entries segs)" by (auto simp: last_drop)
    with False r(6) consecutive_last [OF log_entries_ok(1) [OF log]] seq show ?thesis by simp
  qed
  moreover have dir: "\<forall>(f, es)\<in>set segs. \<exists>c. map_of (pd_wal d) (segment_name f) = Some c \<and>
      seg_content (pf_crc pf) (cfg_id (pt_config p)) (f, es) c" using log_ok_content [OF log] by auto
  have "unat (pt_high_water ?q) + 1 = max (unat (cp_rebuild_point plan) + 1) (unat s)" using q(4) hwq by simp
  from catch_up_ok [OF l hw dir this r(1), of 0] have
    "catch_up pf (pd_wal d) (cfg_id (pt_config p)) (cp_rebuild_point plan) (pt_high_water p)
       (segment_names segs) (?q, 0) = Some (Inr (r, length ?es))" by simp
  then have "finish_compaction pf io temporary d p plan =
      finish_staged pf io temporary d p (cp_rebuild_point plan) (r, length ?es)"
    by (simp add: finish_compaction_def list_segments_log [OF log])
  moreover have "sizes_ok r" using apply_all_sizes [OF r(1) q(1) room q(2,8)] .
  moreover have "has_room r" using r(7,8) q(6,7) by (simp add: has_room_def)
  ultimately show ?thesis using r q m hwq by (intro exI [of _ r] exI [of _ "length ?es"]) simp
qed

lemma durable_failpoint: "durable pf s d segs p \<Longrightarrow> durable pf s d segs (p\<lparr>pt_failpoint := f\<rparr>)"
proof -
  have "bare (p\<lparr>pt_failpoint := f\<rparr>) = bare p" by (simp add: bare_def)
  moreover from this have "part_wf (p\<lparr>pt_failpoint := f\<rparr>) = part_wf p" by (metis bare_simps(9))
  ultimately show "durable pf s d segs p \<Longrightarrow> durable pf s d segs (p\<lparr>pt_failpoint := f\<rparr>)"
    by (simp add: durable_def serving_def)
qed

lemma finish_staged_ok:
  assumes dur: "durable pf s d segs p"
    and q: "part_wf q" "sizes_ok q" "has_room q" "pt_config q = pt_config p" "pt_metric q = pt_metric p"
      "pt_high_water q = pt_high_water p" "pt_failpoint q = None"
    and plat: "platform_ok (pf_blake3 pf) (pf_cast pf) (pf_addr pf)"
    and snaps: "snaps_ok (pd_snap d) (pt_high_water p)"
    and fp: "pt_failpoint p \<noteq> Some CompactionBeforeSwap"
  shows "\<exists>snap p' report. finish_staged pf SnapOk temporary d p rebuild (q, n) = Some (snap, p', Inr report) \<and>
    cr_rebuild_point report = rebuild \<and> cr_caught_up_entries report = n \<and>
    cr_slots_after report = length (pt_slots q) \<and> cr_snapshot report = snapshot_name (pt_high_water p) \<and>
    durable pf s (d\<lparr>pd_snap := snap\<rparr>) segs p' \<and> contents p' = contents q \<and> sizes_ok p' \<and>
    snaps_ok snap (pt_high_water p') \<and> pt_high_water p' = pt_high_water p \<and>
    pt_config p' = pt_config p \<and> pt_metric p' = pt_metric p \<and> pt_idem p' = pt_idem q \<and>
    pt_failpoint p' = pt_failpoint p \<and> pt_slots p' = pt_slots q \<and> pt_key_table p' = pt_key_table q"
proof -
  let ?r = "(swap_state p q)\<lparr>pt_failpoint := None\<rparr>"
  note size = snapshot_small [OF q(1,3,2) plat]
  have bare: "bare ?r = bare q" using q(4-6) by (simp add: bare_def swap_state_def)
  have input: "snapshot_input_of ?r = snapshot_input_of q"
    using q(4-6) by (simp add: snapshot_input_of_def snapshot_keys_def swap_state_def)
  have wf: "part_wf ?r" "sizes_ok ?r" "has_room ?r"
    using q(1-3) bare by (metis bare_simps(9), metis sizes_ok_bare, simp add: has_room_def swap_state_def)
  have same: "pt_config ?r = pt_config p" "pt_high_water ?r = pt_high_water p" "pt_wal ?r = pt_wal p"
    "pt_metric ?r = pt_metric p" "pt_failpoint ?r = None" by (simp_all add: swap_state_def)
  obtain json where manifest: "pd_manifest d = Some json" "pf_of_json pf json = Some (pt_config ?r)"
    using durable_manifest [OF dur] same(1) by metis
  have sv: "serving pf s (pd_wal d) segs ?r" and s: "0 < unat s"
    using dur wf(1) same by (auto simp: durable_def serving_def)
  have fps: "pt_failpoint ?r \<noteq> Some SnapshotBeforeRename" "pt_failpoint ?r \<noteq> Some SnapshotAfterRename"
    "pt_failpoint q \<noteq> Some SnapshotBeforeRename" "pt_failpoint q \<noteq> Some SnapshotAfterRename"
    using q(7) same(5) by simp_all
  obtain dir' r' where r': "part_snapshot pf SnapOk temporary (pd_snap d) ?r =
      Some (dir', r', Inr (snapshot_name (pt_high_water ?r)))"
    "durable pf s (d\<lparr>pd_snap := dir'\<rparr>) segs r'" "contents r' = contents ?r" "sizes_ok r'"
    "snaps_ok dir' (pt_high_water r')" "pt_high_water r' = pt_high_water ?r"
    "pt_snapshot_high_water r' = pt_high_water ?r" "pt_config r' = pt_config ?r" "pt_metric r' = pt_metric ?r"
    "pt_idem r' = pt_idem ?r" "pt_slots r' = pt_slots ?r" "pt_key_table r' = pt_key_table ?r"
    using serving_snapshot [OF sv s manifest wf(3,2) plat _ fps(1,2), of temporary] size snaps
    unfolding input same(2) by blast
  obtain ls where ls: "snapshot_load (pf_crc pf) (pf_blake3 pf) (pf_cast pf) (pf_addr pf) (snapshot_name (pt_high_water p))
      (snap_file (pf_crc pf) (pf_blake3 pf) (snapshot_input_of q)) (cfg_id (pt_config p)) = Inr ls"
    "part_snapshot pf SnapOk temporary (pd_snap d) q = Some (AList.update (snapshot_name (pt_high_water p))
         (snap_file (pf_crc pf) (pf_blake3 pf) (snapshot_input_of q)) (AList.delete temporary (pd_snap d)),
       (rebased (ls_vectors ls) q)\<lparr>pt_snapshot_high_water := pt_high_water p\<rparr>,
       Inr (snapshot_name (pt_high_water p)))"
    using part_snapshot_ok [OF q(1,3,2) plat size fps(3,4), of temporary "pd_snap d"]
    unfolding Let_def q(4,6) by blast
  from part_snapshot_ok [OF wf(1,3,2) plat _ fps(1,2), of temporary "pd_snap d"] size obtain ls' where
    ls': "snapshot_load (pf_crc pf) (pf_blake3 pf) (pf_cast pf) (pf_addr pf) (snapshot_name (pt_high_water p))
      (snap_file (pf_crc pf) (pf_blake3 pf) (snapshot_input_of q)) (cfg_id (pt_config p)) = Inr ls'"
    "part_snapshot pf SnapOk temporary (pd_snap d) ?r = Some (AList.update (snapshot_name (pt_high_water p))
         (snap_file (pf_crc pf) (pf_blake3 pf) (snapshot_input_of q)) (AList.delete temporary (pd_snap d)),
       (rebased (ls_vectors ls') ?r)\<lparr>pt_snapshot_high_water := pt_high_water p\<rparr>,
       Inr (snapshot_name (pt_high_water p)))"
    unfolding Let_def input same(1,2) by blast
  have eq: "ls' = ls" using ls(1) ls'(1) by simp
  let ?staged = "(rebased (ls_vectors ls) q)\<lparr>pt_snapshot_high_water := pt_high_water p\<rparr>"
  have out: "dir' = AList.update (snapshot_name (pt_high_water p))
       (snap_file (pf_crc pf) (pf_blake3 pf) (snapshot_input_of q)) (AList.delete temporary (pd_snap d))"
    "r' = (rebased (ls_vectors ls) ?r)\<lparr>pt_snapshot_high_water := pt_high_water p\<rparr>"
    using r'(1) ls'(2) unfolding eq by (auto simp: swap_state_def)
  let ?p' = "r'\<lparr>pt_failpoint := pt_failpoint p\<rparr>"
  have swap: "swap_state p ?staged = ?p'"
    by (simp add: out(2) swap_state_def rebased_def)
  have "finish_staged pf SnapOk temporary d p rebuild (q, n) =
      Some (dir', ?p', Inr \<lparr>cr_rebuild_point = rebuild, cr_caught_up_entries = n,
        cr_slots_before = length (pt_slots p), cr_tombstones_before = hn_tombstone_count (pt_index p),
        cr_slots_after = length (pt_slots q), cr_snapshot = snapshot_name (pt_high_water p)\<rparr>)"
    using q(6) fp r'(11) unfolding finish_staged_def
    by (simp add: ls(2) out(1) hit_failpoint_def Let_def swap) (simp add: swap_state_def)
  moreover have "contents ?p' = contents q"
  proof -
    have "contents ?p' = contents r'" by (simp add: contents_def slot_for_key_def fun_eq_iff)
    then show ?thesis using r'(3) bare by (metis bare_simps(10))
  qed
  moreover have "sizes_ok ?p'" using r'(4) by (simp add: sizes_ok_def)
  moreover have "durable pf s (d\<lparr>pd_snap := dir'\<rparr>) segs ?p'" using durable_failpoint [OF r'(2)] .
  ultimately show ?thesis
    using r' same by (auto simp: swap_state_def)
qed

text \<open>What a finished compaction keeps.\<close>

definition compacted ::
  "platform \<Rightarrow> u64 \<Rightarrow> part_dir \<Rightarrow> (u64 \<times> entry list) list \<Rightarrow> partition \<Rightarrow> wal_dir \<Rightarrow> partition \<Rightarrow> bool" where
  "compacted pf s d segs p snap p' \<longleftrightarrow>
     durable pf s (d\<lparr>pd_snap := snap\<rparr>) segs p' \<and> contents p' = contents p \<and> sizes_ok p' \<and>
     snaps_ok snap (pt_high_water p') \<and> pt_high_water p' = pt_high_water p \<and>
     pt_config p' = pt_config p \<and> pt_metric p' = pt_metric p \<and> pt_idem p' = pt_idem p \<and>
     pt_failpoint p' = pt_failpoint p"

definition reported ::
  "u64 \<Rightarrow> (u64 \<times> entry list) list \<Rightarrow> partition \<Rightarrow> partition \<Rightarrow> compaction_report \<Rightarrow> bool" where
  "reported s segs q p' report \<longleftrightarrow>
     (let n = length (drop (unat (pt_high_water q) + 1 - unat s) (log_entries segs))
      in cr_rebuild_point report = pt_high_water q \<and> cr_caught_up_entries report = n \<and>
         cr_slots_after report = length (pt_slots p') \<and> cr_snapshot report = snapshot_name (pt_high_water p') \<and>
         length (pt_slots p') \<le> length (pt_slots q) + n \<and>
         length (pt_key_table p') \<le> length (pt_key_table q) + n)"

lemma finish_live:
  assumes dur: "durable pf s d segs p" and lead: "leads_to pf s segs (staged_state p plan) p"
    and plat: "platform_ok (pf_blake3 pf) (pf_cast pf) (pf_addr pf)"
    and snaps: "snaps_ok (pd_snap d) (pt_high_water p)"
    and fp: "pt_failpoint p \<noteq> Some CompactionBeforeSwap"
  shows "\<exists>snap p' report. finish_compaction pf SnapOk temporary d p plan = Some (snap, p', Inr report) \<and>
    compacted pf s d segs p snap p' \<and> reported s segs (staged_state p plan) p' report"
proof -
  let ?q = "staged_state p plan"
  obtain q n where q: "finish_compaction pf SnapOk temporary d p plan =
      finish_staged pf SnapOk temporary d p (cp_rebuild_point plan) (q, n)"
    "part_wf q" "sizes_ok q" "has_room q" "same_frame ?q q" "contents q = contents p" "pt_idem q = pt_idem p"
    "pt_high_water q = pt_high_water p"
    "n = length (drop (unat (cp_rebuild_point plan) + 1 - unat s) (log_entries segs))"
    "length (pt_slots q) \<le> length (pt_slots ?q) + n" "length (pt_key_table q) \<le> length (pt_key_table ?q) + n"
    using catch_up_reaches [OF dur lead] by blast
  have frame: "pt_config q = pt_config p" "pt_metric q = pt_metric p" "pt_failpoint q = None"
    "pt_slots ?q = cp_slots plan" "pt_high_water ?q = cp_rebuild_point plan"
    using q(5) by (simp_all add: same_frame_def staged_state_def)
  from finish_staged_ok [OF dur q(2-4) frame(1,2) q(8) frame(3) plat snaps fp]
  show ?thesis unfolding q(1) compacted_def reported_def Let_def frame(5) using q(6-11) by fastforce
qed

lemma finish_ok:
  assumes dur: "durable pf s d segs p" and lead: "leads_to pf s segs (staged_state p plan) p"
    and plat: "platform_ok (pf_blake3 pf) (pf_cast pf) (pf_addr pf)"
    and snaps: "snaps_ok (pd_snap d) (pt_high_water p)"
    and fin: "finish_compaction pf SnapOk temporary d p plan = Some (snap, p', Inr report)"
  shows "compacted pf s d segs p snap p'" and "reported s segs (staged_state p plan) p' report"
proof -
  let ?q = "staged_state p plan"
  obtain q n where q: "finish_compaction pf SnapOk temporary d p plan =
      finish_staged pf SnapOk temporary d p (cp_rebuild_point plan) (q, n)"
    "part_wf q" "sizes_ok q" "has_room q" "same_frame ?q q" "contents q = contents p" "pt_idem q = pt_idem p"
    "pt_high_water q = pt_high_water p"
    "n = length (drop (unat (cp_rebuild_point plan) + 1 - unat s) (log_entries segs))"
    "length (pt_slots q) \<le> length (pt_slots ?q) + n" "length (pt_key_table q) \<le> length (pt_key_table ?q) + n"
    using catch_up_reaches [OF dur lead] by blast
  have frame: "pt_config q = pt_config p" "pt_metric q = pt_metric p" "pt_failpoint q = None"
    "pt_slots ?q = cp_slots plan" "pt_high_water ?q = cp_rebuild_point plan"
    using q(5) by (simp_all add: same_frame_def staged_state_def)
  have s: "pt_failpoint p \<noteq> Some CompactionBeforeSwap"
  proof -
    obtain out where out: "part_snapshot pf SnapOk temporary (pd_snap d) q = Some out"
      using fin q(8) unfolding q(1) finish_staged_def
      by (cases "part_snapshot pf SnapOk temporary (pd_snap d) q") simp_all
    obtain dir' staged' r where o: "out = (dir', staged', r)" by (cases out)
    show ?thesis
      using fin q(8) unfolding q(1) finish_staged_def
      by (cases r; cases "hit_failpoint p CompactionBeforeSwap") (auto simp: Let_def out o)
  qed
  from finish_staged_ok [OF dur q(2-4) frame(1,2) q(8) frame(3) plat snaps s,
      of temporary "cp_rebuild_point plan" n] fin q(1)
  have *: "cr_rebuild_point report = cp_rebuild_point plan" "cr_caught_up_entries report = n"
    "cr_slots_after report = length (pt_slots q)" "cr_snapshot report = snapshot_name (pt_high_water p)"
    "durable pf s (d\<lparr>pd_snap := snap\<rparr>) segs p'" "contents p' = contents q" "sizes_ok p'"
    "snaps_ok snap (pt_high_water p')" "pt_high_water p' = pt_high_water p" "pt_config p' = pt_config p"
    "pt_metric p' = pt_metric p" "pt_idem p' = pt_idem q" "pt_failpoint p' = pt_failpoint p"
    "pt_slots p' = pt_slots q" "pt_key_table p' = pt_key_table q" by auto
  show "compacted pf s d segs p snap p'" using * q(6,7) by (simp add: compacted_def)
  show "reported s segs ?q p' report" using * q(9-11) frame(5) by (simp add: reported_def)
qed

section \<open>Lemmas: bulk load\<close>

text \<open>Every row is live under its own key, with nothing else stored for it.\<close>

definition bulk_slots :: "nat \<Rightarrow> slot_record list" where
  "bulk_slots n =
     map (\<lambda>i. \<lparr>rec_version = 0, rec_tombstone = False, rec_key_index = i, rec_payload = []\<rparr>) [0..<n]"

definition bulk_keys :: "bytes list \<Rightarrow> (bytes \<rightharpoonup> nat \<times> nat option) \<Rightarrow> bool" where
  "bulk_keys table keys \<longleftrightarrow>
     distinct table \<and> dom keys = set table \<and> (\<forall>i<length table. keys (table ! i) = Some (i, Some i))"

lemma load_keys_Inr:
  assumes "load_keys n ks (table, keys, bulk_slots n) = Inr (table', keys', slots')"
    and "length table = n" and "n + length ks \<le> 2 ^ 32" and "bulk_keys table keys"
  shows "table' = table @ ks \<and> bulk_keys table' keys' \<and> slots' = bulk_slots (n + length ks)"
  using assms
proof (induction ks arbitrary: n table keys)
  case (Cons key ks)
  have n: "n mod 2 ^ 32 = n" using Cons.prems(3) by simp
  have "keys key = None" using Cons.prems(1) by (cases "keys key") simp_all
  then have "key \<notin> set table" using Cons.prems(4) by (auto simp: bulk_keys_def)
  moreover have rest: "load_keys (Suc n) ks (table @ [key], keys(key \<mapsto> (n, Some n)),
      bulk_slots (Suc n)) = Inr (table', keys', slots')"
    using Cons.prems(1) n by (auto simp: bulk_slots_def split: if_splits)
  ultimately have "bulk_keys (table @ [key]) (keys(key \<mapsto> (n, Some n)))"
    using Cons.prems(2,4) by (auto simp: bulk_keys_def nth_append less_Suc_eq)
  from Cons.IH [OF rest _ _ this] Cons.prems(2,3) show ?case by auto
qed simp

lemma load_keys_live:
  assumes "distinct ks" and "set ks \<inter> dom keys = {}"
  shows "\<exists>out. load_keys n ks (table, keys, slots) = Inr out"
  using assms
proof (induction ks arbitrary: n table keys slots)
  case (Cons key ks)
  then have "keys key = None" by auto
  moreover have "set ks \<inter> dom (keys(key \<mapsto> v)) = {}" for v using Cons.prems by auto
  ultimately show ?case using Cons.IH Cons.prems(1) by simp
qed simp

lemma bulk_prepare_Inr:
  assumes "bulk_prepare p vectors ks = Inr (table, keys, slots)" and "flat_len vectors \<le> 2 ^ 32"
  shows "fv_dims vectors = cfg_dims (pt_config p) \<and> flat_len vectors \<le> length ks \<and>
    table = take (flat_len vectors) ks \<and> bulk_keys table keys \<and> slots = bulk_slots (flat_len vectors)"
proof -
  have l: "load_keys 0 (take (flat_len vectors) ks) ([], Map.empty, []) = Inr (table, keys, slots)"
    "length table = flat_len vectors" "fv_dims vectors = cfg_dims (pt_config p)"
    using assms(1) by (auto simp: bulk_prepare_def rbind_eq_Inr split: if_splits)
  have "bulk_slots 0 = []" "bulk_keys [] Map.empty" by (simp_all add: bulk_slots_def bulk_keys_def)
  with load_keys_Inr [of 0 "take (flat_len vectors) ks" "[]" Map.empty table keys slots] l assms(2)
  show ?thesis by (auto simp: min_def split: if_splits)
qed

lemma bulk_keys_ok:
  assumes "bulk_keys table keys" and "length table = n"
  shows "keys_ok table keys (bulk_slots n)"
proof (rule keys_okI)
  show "distinct table" "dom keys = set table" using assms(1) by (simp_all add: bulk_keys_def)
  fix key i live s
  have at: "i < n \<and> table ! i = key \<and> live = Some i" if k: "keys key = Some (i, live)" for key i live
  proof -
    have "key \<in> set table" using k assms(1) by (auto simp: bulk_keys_def)
    then obtain j where "j < n" "table ! j = key" using assms(2) by (auto simp: in_set_conv_nth)
    moreover from this have "keys key = Some (j, Some j)" using assms by (auto simp: bulk_keys_def)
    ultimately show ?thesis using k by simp
  qed
  show "keys key = Some (i, live) \<Longrightarrow> i < length table \<and> table ! i = key" using at assms(2) by blast
  show "keys key = Some (i, Some s) \<Longrightarrow> s < length (bulk_slots n) \<and> \<not> rec_tombstone (bulk_slots n ! s) \<and>
      rec_key_index (bulk_slots n ! s) = i" using at [of key i "Some s"] by (simp add: bulk_slots_def)
  show "s < length (bulk_slots n) \<Longrightarrow> keys (table ! rec_key_index (bulk_slots n ! s)) =
      Some (rec_key_index (bulk_slots n ! s), Some s)"
    using assms by (simp add: bulk_slots_def bulk_keys_def)
qed

text \<open>What a bulk load stores.\<close>

definition bulk_contents :: "flat_vectors \<Rightarrow> bytes list \<Rightarrow> kv_store" where
  "bulk_contents vectors ks = map_of (zip ks (map (\<lambda>row. (row, [])) (flat_rows vectors)))"

lemma zip_take_length: "length ys = n \<Longrightarrow> zip (take n xs) ys = zip xs ys"
  by (rule nth_equalityI) auto

lemma bulk_state_ok:
  assumes p: "part_wf p" "sizes_ok p" and g: "built_from vectors (pt_metric p) (cfg_params (pt_config p)) g"
    and v: "flat_wf vectors" "flat_len vectors < 2 ^ 32"
    and prep: "bulk_prepare p vectors ks = Inr (table, keys, slots)"
    and ok: "\<forall>key\<in>set ks. key \<noteq> [] \<and> length key \<le> MAX_KEY_LEN"
  shows "let q = p\<lparr>pt_index := g, pt_key_table := table, pt_keys := keys, pt_slots := slots\<rparr>
    in part_wf q \<and> sizes_ok q \<and> has_room q \<and> contents q = bulk_contents vectors ks"
proof -
  let ?q = "p\<lparr>pt_index := g, pt_key_table := table, pt_keys := keys, pt_slots := slots\<rparr>"
  let ?n = "flat_len vectors"
  have b: "fv_dims vectors = cfg_dims (pt_config p)" "?n \<le> length ks" "table = take ?n ks"
    "bulk_keys table keys" "slots = bulk_slots ?n"
    using bulk_prepare_Inr [OF prep] v(2) by auto
  have len: "length table = ?n" using b(2,3) by simp
  have q: "pt_index ?q = g" "pt_key_table ?q = table" "pt_keys ?q = keys" "pt_slots ?q = slots"
    "pt_config ?q = pt_config p" "pt_metric ?q = pt_metric p" "pt_idem ?q = pt_idem p" by simp_all
  note fg = g [unfolded built_from_def]
  have "slots_ok (length table) slots g"
    using fg len by (simp add: slots_ok_def b(5) bulk_slots_def)
  then have wf: "part_wf ?q"
  proof -
    have "hn_dims g = cfg_dims (pt_config p)" "hnsw_wf g" "hn_metric g = pt_metric p"
      "hn_params g = cfg_params (pt_config p)" using fg b(1) by simp_all
    moreover have "cfg_validate (pt_config p) = Inr ()" "metric_parse (cfg_metric (pt_config p)) = Some (pt_metric p)"
      "iw_wf (pt_idem p)" using p(1) by (simp_all add: part_wf_def config_ok_def)
    moreover have "keys_ok table keys slots" using bulk_keys_ok [OF b(4) len] b(5) by simp
    ultimately show ?thesis
      using \<open>slots_ok (length table) slots g\<close> unfolding part_wf_def config_ok_def q by blast
  qed
  have "set table \<subseteq> set ks" unfolding b(3) by (rule set_take_subset)
  with ok have "\<forall>key\<in>set table. key \<noteq> [] \<and> length key \<le> MAX_KEY_LEN" by blast
  moreover have "\<forall>r\<in>set slots. length (rec_payload r) \<le> MAX_PAYLOAD_LEN" by (simp add: b(5) bulk_slots_def)
  ultimately have "sizes_ok ?q" using p(2) unfolding sizes_ok_def q by blast
  moreover have "has_room ?q" using v(2) len b(5) by (simp add: has_room_def bulk_slots_def)
  moreover have "contents ?q key = bulk_contents vectors ks key" for key
  proof (cases "key \<in> set table")
    case False
    then have "keys key = None" using b(4) by (auto simp: bulk_keys_def)
    moreover have "zip table (map (\<lambda>row. (row, [] :: bytes)) (flat_rows vectors)) =
        zip ks (map (\<lambda>row. (row, [] :: bytes)) (flat_rows vectors))"
      using flat_wf_len [OF v(1)] by (simp add: b(3) zip_take_length)
    moreover have "map_of (zip table (map (\<lambda>row. (row, [] :: bytes)) (flat_rows vectors))) key = None"
      using False len v(1) by (simp add: map_of_zip_is_None flat_wf_len)
    ultimately have "keys key = None" "bulk_contents vectors ks key = None" by (simp_all only: bulk_contents_def)
    then show ?thesis by (simp add: contents_def slot_for_key_def)
  next
    case True
    then obtain i where i: "i < ?n" "table ! i = key" using len by (auto simp: in_set_conv_nth)
    then have k: "keys key = Some (i, Some i)" using b(4) len by (auto simp: bulk_keys_def)
    have rows: "length (flat_rows vectors) = ?n" using flat_wf_len [OF v(1)] by simp
    have zip: "zip table (map (\<lambda>row. (row, [] :: bytes)) (flat_rows vectors)) =
        zip ks (map (\<lambda>row. (row, [] :: bytes)) (flat_rows vectors))"
      using rows by (simp add: b(3) zip_take_length)
    have "distinct table" using b(4) by (simp add: bulk_keys_def)
    then have "bulk_contents vectors ks key = Some (flat_rows vectors ! i, [])"
      unfolding bulk_contents_def zip [symmetric]
      using map_of_zip_nth [of table "map (\<lambda>row. (row, [] :: bytes)) (flat_rows vectors)" i] i len rows by simp
    moreover have "flat_wf (hn_vectors g)"
      using fg by (simp add: hnsw_wf_def graph_ok_def rows_ok_def)
    then have "flat_get (hn_vectors g) i = Some (flat_rows vectors ! i)"
      using flat_wf_get [of "hn_vectors g" i] fg i rows v(2) by (simp add: index_def)
    ultimately show ?thesis
      using k i by (simp add: contents_def slot_for_key_def b(5) bulk_slots_def index_def)
  qed
  ultimately show ?thesis using wf by (simp add: Let_def fun_eq_iff)
qed

lemma part_create_Inr:
  assumes c: "part_create pf mio cio directory d config = (d', Inr p)" and new: "pd_wal d = []" "pd_snap d = []"
    and id: "length (cfg_id config) = 16"
  obtains metric w where "cfg_parse_metric config = Inr metric" "p = (fresh_state config metric)\<lparr>pt_wal := Some w\<rparr>"
    "pd_manifest d' = Some (pf_to_json pf config)" "pd_snap d' = []" "serving pf 1 (pd_wal d') [(1, [])] p"
proof -
  obtain metric w dir where m: "cfg_validate config = Inr ()" "cfg_parse_metric config = Inr metric"
    "wal_open (pf_crc pf) cio [] (cfg_id config) 0 = (dir, Inr w)"
    "p = (fresh_state config metric)\<lparr>pt_wal := Some w\<rparr>"
    and d': "pd_manifest d' = Some (pf_to_json pf config)" "pd_wal d' = dir" "pd_snap d' = []"
    using c new
    by (auto simp: part_create_def part_lock_def Let_def split: sum.splits if_splits prod.splits)
  have mp: "metric_parse (cfg_metric config) = Some metric" using m(2) by (simp add: cfg_parse_metric_def)
  have w: "writer_ok (pf_crc pf) (cfg_id config) 1 dir [(1, [])] w"
    using wal_open_empty [OF m(3) id] by simp
  have "part_wf p" using fresh_state_wf [OF m(1) mp] m(4) by simp
  moreover have "pt_config p = config" "pt_wal p = Some w" "pt_high_water p = 0"
    by (simp_all add: m(4) fresh_state_def)
  ultimately have "serving pf 1 dir [(1, [])] p" using w by (simp add: serving_def writer_ok_def)
  with m d' that show thesis by simp
qed

lemma bulk_load_ok:
  assumes new: "pd_wal d = []" "pd_snap d = []"
    and js: "pf_of_json pf (pf_to_json pf (config\<lparr>cfg_base_snapshot := True\<rparr>)) = Some (config\<lparr>cfg_base_snapshot := True\<rparr>)"
    and cfg: "length (cfg_id config) = 16" "cfg_idempotency_window config < 2 ^ 32"
      "cfg_parse_metric config = Inr metric"
    and g: "built (pf_ln pf) vectors metric (cfg_params config) g" "build_fits vectors (cfg_params config)"
    and keys: "\<forall>key\<in>set ks. key \<noteq> [] \<and> length key \<le> MAX_KEY_LEN"
    and plat: "platform_ok (pf_blake3 pf) (pf_cast pf) (pf_addr pf)"
    and c: "part_create pf mio cio directory d (config\<lparr>cfg_base_snapshot := True\<rparr>) = (d1, Inr p)"
    and prep: "bulk_prepare p vectors ks = Inr (table, keys, slots)"
  shows "\<exists>d' p'. bulk_load pf mio cio SnapOk directory temporary d config vectors ks g = Some (d', Inr (p', snapshot_name 0)) \<and>
    durable pf 1 d' [(1, [])] p' \<and> contents p' = bulk_contents vectors ks \<and> sizes_ok p' \<and>
    snaps_ok (pd_snap d') (pt_high_water p') \<and> length (pt_slots p') = flat_len vectors \<and> pt_high_water p' = 0"
proof -
  let ?config = "config\<lparr>cfg_base_snapshot := True\<rparr>"
  have id: "length (cfg_id ?config) = 16" using cfg(1) by simp
  obtain w where p: "p = (fresh_state ?config metric)\<lparr>pt_wal := Some w\<rparr>"
    and d1: "pd_manifest d1 = Some (pf_to_json pf ?config)" "pd_snap d1 = []"
    and sv: "serving pf 1 (pd_wal d1) [(1, [])] p"
    by (rule part_create_Inr [OF c new id]) (use cfg(3) in \<open>simp_all add: cfg_parse_metric_def\<close>)
  have pm: "pt_metric p = metric" "pt_config p = ?config" "pt_high_water p = 0" "pt_failpoint p = None"
    by (simp_all add: p fresh_state_def)
  have wf: "part_wf p" using sv by (simp add: serving_def)
  have win: "0 < cfg_idempotency_window config"
    using wf cfg_validate_ok(8) [of ?config] pm(2) by (simp add: part_wf_def config_ok_def)
  have sizes: "sizes_ok p" using cfg(1,2) win by (simp add: sizes_ok_def p fresh_state_def iw_new_def max_def)
  have v: "flat_wf vectors" "flat_len vectors < 2 ^ 32" using g(2) by (simp_all add: build_fits_def)
  have "cfg_params ?config = cfg_params config" by (simp add: cfg_params_def)
  with built_ok [OF g] have from1: "built_from vectors (pt_metric p) (cfg_params (pt_config p)) g" using pm by simp
  let ?q = "p\<lparr>pt_index := g, pt_key_table := table, pt_keys := keys, pt_slots := slots\<rparr>"
  have q: "part_wf ?q" "sizes_ok ?q" "has_room ?q" "contents ?q = bulk_contents vectors ks"
    using bulk_state_ok [OF wf sizes from1 v prep keys] by (simp_all add: Let_def)
  have svq: "serving pf 1 (pd_wal d1) [(1, [])] ?q" using sv q(1) by (simp add: serving_def)
  have manifest: "pd_manifest d1 = Some (pf_to_json pf ?config)"
    "pf_of_json pf (pf_to_json pf ?config) = Some (pt_config ?q)" using d1(1) js pm(2) by simp_all
  have fp: "pt_failpoint ?q \<noteq> Some SnapshotBeforeRename" "pt_failpoint ?q \<noteq> Some SnapshotAfterRename"
    "snaps_ok (pd_snap d1) (pt_high_water ?q)" using pm(4) d1(2) by simp_all
  have hw: "pt_high_water ?q = 0" using pm(3) by simp
  have len: "length slots = flat_len vectors"
    using bulk_prepare_Inr [OF prep] v(2) by (simp add: bulk_slots_def)
  have one: "0 < unat (1 :: u64)" by simp
  from serving_snapshot [OF svq one manifest q(3,2) plat snapshot_small [OF q(1,3,2) plat] fp, of temporary]
  obtain dir' p' where s: "part_snapshot pf SnapOk temporary (pd_snap d1) ?q = Some (dir', p', Inr (snapshot_name 0))"
    "durable pf 1 (d1\<lparr>pd_snap := dir'\<rparr>) [(1, [])] p'" "contents p' = contents ?q" "sizes_ok p'"
    "snaps_ok dir' (pt_high_water p')" "pt_high_water p' = pt_high_water ?q" "pt_slots p' = pt_slots ?q"
    unfolding hw by blast
  have "bulk_load pf mio cio SnapOk directory temporary d config vectors ks g =
      Some (d1\<lparr>pd_snap := dir'\<rparr>, Inr (p', snapshot_name 0))"
    by (simp add: bulk_load_def c prep s(1))
  then show ?thesis using s(2-) q(4) len pm(3) by simp
qed

end
