(* ===== verification/Partition_Truncate.thy ===== *)
theory Partition_Truncate
  imports Partition_Compact
begin

text \<open>
  Truncating the log (\<open>Partition::truncate_wal_below_snapshot\<close>): whatever removals succeed, only
  segments covered by the snapshot recovery starts from disappear, so the partition stays durable;
  a successful call leaves no covered segment but the active one.
\<close>

section \<open>Lemmas: dropping leading segments\<close>

lemma log_ok_tl:
  assumes log: "log_ok crc pid s dir ((f, es) # segs)" and ne: "segs \<noteq> []"
  shows "log_ok crc pid (fst (hd segs)) (tl dir) segs"
    and "unat (fst (hd segs)) = unat s + length es"
proof -
  obtain g fs rest where segs: "segs = (g, fs) # rest" using ne by (metis list.exhaust surj_pair)
  have ch: "chain (s + word_of_nat (length es)) segs" "g = s + word_of_nat (length es)"
    and tot: "unat s + (length es + length (log_entries segs)) < 2 ^ 64" and id: "length pid = 16"
    using log by (simp_all add: log_ok_def segs)
  have g: "unat g = unat s + length es"
    using unat_advance [of s "length es" "length (log_entries segs)"] tot ch(2) by simp
  have "list_all2 (\<lambda>(p, c) seg. p = segment_name (fst seg) \<and> seg_content crc pid seg c) (tl dir) segs"
    using log by (auto simp: log_ok_def list_all2_Cons2)
  with ch tot id g show "log_ok crc pid (fst (hd segs)) (tl dir) segs"
    by (simp add: log_ok_def segs)
  show "unat (fst (hd segs)) = unat s + length es" using g segs by simp
qed

lemma log_ok_drop:
  assumes "log_ok crc pid s dir segs" and "k < length segs"
  shows "log_ok crc pid (fst (segs ! k)) (drop k dir) (drop k segs) \<and>
    unat (fst (segs ! k)) = unat s + length (log_entries (take k segs))"
  using assms
proof (induction k arbitrary: s dir segs)
  case 0
  then show ?case by (cases segs) (auto simp: log_ok_def log_entries_def)
next
  case (Suc k)
  then obtain f es rest where segs: "segs = (f, es) # rest" "k < length rest"
    by (cases segs) (auto intro: that)
  then have ne: "rest \<noteq> []" by auto
  note t = log_ok_tl [OF Suc.prems(1) [unfolded segs(1)] ne]
  from Suc.IH [OF t(1) segs(2)] t(2) segs ne show ?case by (simp add: drop_Suc)
qed

lemma drop_covered_keep:
  "\<forall>f\<in>fst ` set (tl segs). \<not> f \<le> mark + 1 \<Longrightarrow>
   drop_covered rm mark cur (segment_names segs) dir n = (dir, Inr n)"
proof (induction segs)
  case (Cons seg segs)
  obtain f es where "seg = (f, es)" by (cases seg)
  with Cons show ?case by (cases segs) (auto simp: segment_names_def)
qed (simp add: segment_names_def)

lemma drop_covered_ok:
  assumes "log_ok crc pid s dir segs" and "segs \<noteq> []" and "fst (last dir) = cur"
    and "drop_covered rm mark (Some cur) (segment_names segs) dir n = (dir', r)"
  shows "\<exists>k<length segs. dir' = drop k dir \<and> (0 < k \<longrightarrow> fst (segs ! k) \<le> mark + 1) \<and>
    (\<forall>m. r = Inr m \<longrightarrow> m = n + k \<and> (\<forall>f\<in>fst ` set (tl (drop k segs)). \<not> f \<le> mark + 1))"
  using assms
proof (induction segs arbitrary: s dir n)
  case (Cons seg rest)
  obtain f es where seg: "seg = (f, es)" by (cases seg)
  show ?case
  proof (cases rest)
    case Nil
    with Cons.prems(4) seg show ?thesis by (auto simp: segment_names_def)
  next
    case (Cons seg1 rest1)
    obtain g fs where seg1: "seg1 = (g, fs)" by (cases seg1)
    have ne: "rest \<noteq> []" using Cons by simp
    note t = log_ok_tl [OF Cons.prems(1) [unfolded seg] ne]
    have names: "map fst dir = map (segment_name \<circ> fst) (seg # rest)" "distinct (map fst dir)"
      using log_ok_names [OF Cons.prems(1)] by simp_all
    then obtain c dir2 where d: "dir = (segment_name f, c) # dir2" "map fst dir2 = map (segment_name \<circ> fst) rest"
      by (cases dir) (auto simp: seg)
    moreover have "segment_name f \<notin> fst ` set dir2" using names(2) unfolding d(1) by simp
    ultimately have dir: "dir = (segment_name f, c) # dir2" "segment_name f \<notin> fst ` set dir2"
      "map fst dir2 = map (segment_name \<circ> fst) rest" by blast+
    then have dir2: "dir2 \<noteq> []" "tl dir = dir2" "last dir = last dir2" using Cons by auto
    then have cur: "segment_name f \<noteq> cur"
      using Cons.prems(3) dir(2) by (metis image_eqI last_in_set)
    have del: "AList.delete (segment_name f) dir = dir2"
      using dir(1,2) by simp
    show ?thesis
    proof (cases "g \<le> mark + 1")
      case False
      have "sorted_wrt (<) (map (unat \<circ> fst) rest)" using t(1) by (auto simp: log_ok_def intro: chain_sorted)
      then have "\<forall>h\<in>fst ` set rest. unat g \<le> unat h" using Cons seg1 by auto
      with False have "\<forall>h\<in>fst ` set rest. \<not> h \<le> mark + 1" by (auto simp: word_le_nat_alt)
      then show ?thesis
        using Cons.prems(4) drop_covered_keep [of "seg # rest" mark rm "Some cur" dir n] by auto
    next
      case True
      show ?thesis
      proof (cases "rm (segment_name f)")
        case False
        with True cur Cons.prems(4) seg seg1 Cons show ?thesis by (auto simp: segment_names_def)
      next
        case rm: True
        then have "drop_covered rm mark (Some cur) (segment_names rest) dir2 (n + 1) = (dir', r)"
          using True cur Cons.prems(4) seg seg1 Cons del by (simp add: segment_names_def)
        moreover have "fst (last dir2) = cur" using Cons.prems(3) dir2(3) by simp
        ultimately obtain k where k: "k < length rest" "dir' = drop k dir2"
          "0 < k \<longrightarrow> fst (rest ! k) \<le> mark + 1"
          "\<forall>m. r = Inr m \<longrightarrow> m = n + 1 + k \<and> (\<forall>f\<in>fst ` set (tl (drop k rest)). \<not> f \<le> mark + 1)"
          using Cons.IH [OF t(1) [unfolded dir2(2)] ne] by blast
        have "fst (rest ! k) \<le> mark + 1" using k(3) True Cons seg1 by (cases k) simp_all
        with k dir(1) show ?thesis by (intro exI [of _ "Suc k"]) simp
      qed
    qed
  qed
qed simp

section \<open>Lemmas: a truncated log still recovers\<close>

lemma durable_truncate:
  assumes dur: "durable pf s d segs p"
    and t: "truncate_wal_below_snapshot rm synced (pd_wal d) p = (dir', r)"
  shows "\<exists>s' k. durable pf s' (d\<lparr>pd_wal := dir'\<rparr>) (drop k segs) p \<and> unat s \<le> unat s' \<and>
    log_entries (drop k segs) = drop (unat s' - unat s) (log_entries segs) \<and>
    unat s' \<le> unat s + length (log_entries segs) \<and> k < length segs \<and> dir' = drop k (pd_wal d) \<and>
    (\<forall>removed. r = Inr removed \<longrightarrow>
       removed = k \<and> (\<forall>f\<in>fst ` set (tl (drop k segs)). \<not> f \<le> pt_snapshot_high_water p + 1))"
proof -
  obtain b report q where sv: "serving pf s (pd_wal d) segs p" and s: "0 < unat s"
    and b: "recover_base pf d = Inr (b, report)" "pt_config b = pt_config p"
      "rr_snapshot_high_water report = pt_high_water b" "rr_torn_tail_found report = None"
      "unat s \<le> unat (pt_high_water b) + 1"
      "unat (pt_high_water b) + 1 \<le> unat s + length (log_entries segs)"
      "apply_all (pf_ln pf) (drop (unat (pt_high_water b) + 1 - unat s) (log_entries segs)) b = Some (Inr q)"
      "bare q = bare p" "pt_snapshot_high_water p \<le> pt_high_water b" using dur by (auto simp: durable_def)
  obtain w where w: "pt_wal p = Some w" "writer_ok (pf_crc pf) (cfg_id (pt_config p)) s (pd_wal d) segs w"
    "ww_next_seq w = pt_high_water p + 1" and wf: "part_wf p" using sv by (auto simp: serving_def)
  have log: "log_ok (pf_crc pf) (cfg_id (pt_config p)) s (pd_wal d) segs" and ne: "segs \<noteq> []"
    and cur: "fst (last (pd_wal d)) = ww_path w" using w(2) by (auto simp: writer_ok_def)
  let ?mark = "pt_snapshot_high_water p"
  obtain r1 where r1: "drop_covered rm ?mark (Some (ww_path w)) (segment_names segs) (pd_wal d) 0 = (dir', r1)"
    "\<forall>removed. r = Inr removed \<longrightarrow> r1 = Inr removed"
    using t w(1) by (auto simp: truncate_wal_below_snapshot_def list_segments_log [OF log]
        split: prod.splits sum.splits if_splits)
  from drop_covered_ok [OF log ne cur r1(1)] obtain k where k: "k < length segs" "dir' = drop k (pd_wal d)"
    "0 < k \<longrightarrow> fst (segs ! k) \<le> ?mark + 1"
    "\<forall>m. r1 = Inr m \<longrightarrow> m = k \<and> (\<forall>f\<in>fst ` set (tl (drop k segs)). \<not> f \<le> ?mark + 1)" by auto
  let ?s' = "fst (segs ! k)" and ?n = "length (log_entries (take k segs))"
  have log': "log_ok (pf_crc pf) (cfg_id (pt_config p)) ?s' dir' (drop k segs)"
    and s': "unat ?s' = unat s + ?n" using log_ok_drop [OF log k(1)] k(2) by simp_all
  have es: "log_entries segs = log_entries (take k segs) @ log_entries (drop k segs)"
    by (simp add: log_entries_def flip: concat_append map_append)
  then have es': "log_entries (drop k segs) = drop (unat ?s' - unat s) (log_entries segs)" by (simp add: s')
  have le: "unat ?s' \<le> unat (pt_high_water b) + 1"
  proof (cases "k = 0")
    case True
    then show ?thesis using s' b(5) by (simp add: log_entries_def)
  next
    case False
    then have "unat ?s' \<le> unat (?mark + 1)" using k(3) by (simp add: word_le_nat_alt)
    moreover have "unat (?mark + 1) \<le> unat ?mark + 1" by (simp add: unat_word_ariths)
    moreover have "unat ?mark \<le> unat (pt_high_water b)" using b(9) by (simp add: word_le_nat_alt)
    ultimately show ?thesis by linarith
  qed
  have "length (pd_wal d) = length segs" using log by (auto simp: log_ok_def dest: list_all2_lengthD)
  then have last: "last dir' = last (pd_wal d)" using k(1,2) by (simp add: last_drop)
  have "word_of_nat (unat ?s') = (s + word_of_nat ?n)" unfolding s' by simp
  then have "?s' = s + word_of_nat ?n" by simp
  then have "ww_next_seq w = ?s' + word_of_nat (length (log_entries (drop k segs)))"
    using w(2) es by (simp add: writer_ok_def)
  then have "serving pf ?s' dir' (drop k segs) p"
    using wf w log' k(1) last by (auto simp: serving_def writer_ok_def)
  moreover have "drop (unat (pt_high_water b) + 1 - unat ?s') (log_entries (drop k segs)) =
      drop (unat (pt_high_water b) + 1 - unat s) (log_entries segs)"
    using le s' by (simp add: es')
  moreover have "unat ?s' + length (log_entries (drop k segs)) = unat s + length (log_entries segs)"
    using s' es by simp
  ultimately have "durable pf ?s' (d\<lparr>pd_wal := dir'\<rparr>) (drop k segs) p"
    using b le s s' by (auto simp: durable_def)
  moreover have "?n \<le> length (log_entries segs)" by (subst es) simp
  ultimately show ?thesis
    using s' es' k r1(2) by (intro exI [of _ ?s'] exI [of _ k]) auto
qed

end
