(* ===== verification/Partition_Crash.thy ===== *)
theory Partition_Crash
  imports Partition_Durability
begin

text \<open>
  Crashes in the middle of an append. What a torn write leaves behind the last complete entry is
  recognised, cut off when the partition is opened, and the state before the write is recovered.
\<close>

section \<open>Lemmas: a torn segment\<close>

lemma entry_encode_prefix:
  assumes wf: "entry_wf e" and enc: "entry_encode crc e = Inr frame" and n: "n < length frame"
  shows "\<exists>reason. parse_entry crc (take n frame) = Inl (Unreadable reason)"
proof -
  obtain op where op: "encode_operation (e_operation e) = Inr op" and
    fr: "frame = u32_le (word_of_nat (length (entry_body e op) + 4))
      @ u32_le (crc (entry_body e op)) @ entry_body e op"
    using enc by (rule entry_encode_Inr)
  let ?b = "entry_body e op"
  have len: "MIN_FRAME_LEN \<le> length ?b + 4" "length ?b + 4 \<le> MAX_FRAME_LEN"
    using entry_body_length [OF wf op] by auto
  show ?thesis
  proof (cases "n < 8")
    case True
    then show ?thesis by (auto simp: parse_entry_def)
  next
    case False
    then have "take 4 (take n frame) = u32_le (word_of_nat (length ?b + 4))" by (simp add: fr take_Cons')
    moreover have "unat (word_of_nat (length ?b + 4) :: u32) = length ?b + 4"
      by (rule unat_nat32) (use len(2) in \<open>simp add: frame_consts\<close>)
    ultimately have "frame_len (take n frame) = Some (length ?b + 4)"
      using False n len by (simp add: frame_len_def del: of_nat_add)
    moreover have "length (take n frame) < 4 + (length ?b + 4)" using n by (simp add: fr)
    ultimately show ?thesis using False n by (simp add: parse_entry_def)
  qed
qed

text \<open>Bytes that a reader takes for a torn write: no entry starts there and none is found after.\<close>

definition torn_bytes :: "(bytes \<Rightarrow> u32) \<Rightarrow> bytes \<Rightarrow> bytes \<Rightarrow> bool" where
  "torn_bytes crc c junk \<longleftrightarrow>
     junk \<noteq> [] \<and> (\<exists>reason. parse_entry crc junk = Inl (Unreadable reason)) \<and>
     next_valid_frame crc (c @ junk) (length c + 1) = None"

lemma read_torn_segment:
  assumes sc: "seg_content crc pid (f, es) c" and pid: "length pid = 16" and torn: "torn_bytes crc c junk"
  shows "read_segment crc (segment_name f) (c @ junk) pid True =
    Inr \<lparr>sr_entries = es, sr_torn_tail = Some (length c, length junk)\<rparr>"
proof -
  from sc obtain body where body: "encode_all crc es = Inr body" "consecutive f es"
    "c = encode_header pid f @ body" by (auto simp: seg_content_def)
  have len: "HEADER_LEN + length body = length c" using pid by (simp add: body(3))
  obtain reason where "parse_entry crc junk = Inl (Unreadable reason)" "junk \<noteq> []"
    using torn by (auto simp: torn_bytes_def)
  then have "read_frames crc (segment_name f) (c @ junk) True (length c) s es =
      Inr \<lparr>sr_entries = es, sr_torn_tail = Some (length c, length junk)\<rparr>" for s
    using torn by (subst read_frames.simps) (simp add: torn_bytes_def)
  with seg_content_read_frames [OF body(1,2) pid, of junk True] show ?thesis
    by (simp add: len) (simp add: body(3))
qed

section \<open>Lemmas: replaying a torn log\<close>

definition torn_at :: "path \<times> nat \<Rightarrow> recovery_report \<Rightarrow> recovery_report" where
  "torn_at t report = report\<lparr>rr_torn_tail_found := Some t\<rparr>"

lemma replay_entries_torn:
  "replay_entries pf path es p (torn_at t report) =
     map_option (map_sum id (map_prod id (torn_at t))) (replay_entries pf path es p report)"
proof (induction es arbitrary: p report)
  case (Cons e es)
  have upd: "(torn_at t report)\<lparr>rr_wal_entries_skipped := n\<rparr> = torn_at t (report\<lparr>rr_wal_entries_skipped := n\<rparr>)"
    "(torn_at t report)\<lparr>rr_wal_entries_replayed := n\<rparr> = torn_at t (report\<lparr>rr_wal_entries_replayed := n\<rparr>)"
    "rr_wal_entries_skipped (torn_at t report) = rr_wal_entries_skipped report"
    "rr_wal_entries_replayed (torn_at t report) = rr_wal_entries_replayed report" for n report
    by (simp_all add: torn_at_def)
  show ?case by (auto simp: upd Cons.IH split: option.splits sum.splits)
qed simp

lemma replay_segment_torn:
  assumes sc: "seg_content (pf_crc pf) pid (f, es) c" and pid: "length pid = 16"
    and torn: "torn_bytes (pf_crc pf) c junk"
    and dirs: "map_of dir (segment_name f) = Some c" "map_of dir' (segment_name f) = Some (c @ junk)"
    and ok: "replay_segment pf dir pid True (f, segment_name f) st = Some (Inr st')"
  shows "replay_segment pf dir' pid True (f, segment_name f) st =
    Some (Inr (st'\<lparr>rs_report := torn_at (segment_name f, length c) (rs_report st')\<rparr>))"
proof -
  let ?t = "torn_at (segment_name f, length c)"
  let ?r = "(rs_report st)\<lparr>rr_wal_segments_read := rr_wal_segments_read (rs_report st) + 1\<rparr>"
  have last: "sr_last_seq \<lparr>sr_entries = es, sr_torn_tail = t\<rparr> = sr_last_seq \<lparr>sr_entries = es, sr_torn_tail = None\<rparr>" for t
    by (simp add: sr_last_seq_def)
  obtain res where res: "replay_entries pf (segment_name f) es (rs_part st) ?r = Some res"
    using ok seg_content_read [OF sc pid, of True] dirs(1)
    by (cases "replay_entries pf (segment_name f) es (rs_part st) ?r") (auto simp: replay_segment_def Let_def)
  moreover have "replay_entries pf (segment_name f) es (rs_part st)
      (?r\<lparr>rr_torn_tail_found := Some (segment_name f, length c)\<rparr>) = Some (map_sum id (map_prod id ?t) res)"
    using replay_entries_torn [of pf "segment_name f" es "rs_part st" "(segment_name f, length c)" ?r] res
    by (simp add: torn_at_def)
  ultimately show ?thesis
    using ok seg_content_read [OF sc pid, of True] read_torn_segment [OF sc pid torn] dirs
    by (cases res) (auto simp: replay_segment_def Let_def last [of "Some _"])
qed

lemma replay_segments_torn:
  assumes sc: "seg_content (pf_crc pf) pid (f, es) c" and pid: "length pid = 16"
    and torn: "torn_bytes (pf_crc pf) c junk"
    and dirs: "map_of dir (segment_name f) = Some c" "map_of dir' (segment_name f) = Some (c @ junk)"
    and others: "\<forall>(g, _)\<in>set gs. map_of dir' (segment_name g) = map_of dir (segment_name g)"
    and ok: "replay_segments pf dir pid (segment_names (gs @ [(f, es)])) st = Some (Inr st')"
  shows "replay_segments pf dir' pid (segment_names (gs @ [(f, es)])) st =
    Some (Inr (st'\<lparr>rs_report := torn_at (segment_name f, length c) (rs_report st')\<rparr>))"
  using others ok
proof (induction gs arbitrary: st)
  case Nil
  then obtain st1 where "replay_segment pf dir pid True (f, segment_name f) st = Some (Inr st1)" "st1 = st'"
    by (auto simp: segment_names_def split: option.splits sum.splits)
  with replay_segment_torn [OF sc pid torn dirs, of st st1] show ?case by (simp add: segment_names_def)
next
  case (Cons seg gs)
  obtain g fs where seg: "seg = (g, fs)" by (cases seg)
  have ne: "segment_names (gs @ [(f, es)]) \<noteq> []" by (simp add: segment_names_def)
  have names: "segment_names (seg # gs @ [(f, es)]) = (g, segment_name g) # segment_names (gs @ [(f, es)])"
    by (simp add: segment_names_def seg)
  have same: "replay_segment pf dir' pid False (g, segment_name g) st =
      replay_segment pf dir pid False (g, segment_name g) st"
    using Cons.prems(1) seg by (simp add: replay_segment_def)
  from Cons.prems(2) obtain st1 where "replay_segment pf dir pid False (g, segment_name g) st = Some (Inr st1)"
    "replay_segments pf dir pid (segment_names (gs @ [(f, es)])) st1 = Some (Inr st')"
    using ne by (auto simp: names split: option.splits sum.splits)
  with Cons.IH [of st1] Cons.prems(1) ne same show ?case by (simp add: names)
qed

lemma replay_log_torn:
  assumes log: "log_ok (pf_crc pf) (cfg_id (pt_config b)) s dir segs" and segs: "segs = gs @ [(f, es)]"
    and c: "map_of dir (segment_name f) = Some c" and torn: "torn_bytes (pf_crc pf) c junk"
    and ok: "replay_log pf dir b report = Some (Inr (q, report'))"
  shows "replay_log pf (AList.update (segment_name f) (c @ junk) dir) b report =
    Some (Inr (q, torn_at (segment_name f, length c) report'))"
proof -
  let ?dir = "AList.update (segment_name f) (c @ junk) dir" and ?t = "torn_at (segment_name f, length c)"
  let ?pid = "cfg_id (pt_config b)"
  let ?st = "\<lparr>rs_part = b, rs_report = report, rs_saw_history = (pt_high_water b = 0 \<and> segment_names segs = []),
      rs_wal_end = None\<rparr>"
  have pid: "length ?pid = 16" using log by (simp add: log_ok_def)
  have sc: "seg_content (pf_crc pf) ?pid (f, es) c" using log_ok_content [OF log, of f es] segs c by auto
  have "map fst ?dir = map fst dir"
    using c by (simp add: update_keys) (metis map_of_eq_None_iff option.distinct(1) set_map)
  then have list: "list_segments ?dir = Inr (segment_names segs)"
    using list_segments_log [OF log] by (simp add: list_segments_def)
  have "g \<noteq> f" if "(g, fs) \<in> set gs" for g fs
  proof -
    have "sorted_wrt (<) (map (unat \<circ> fst) segs)" using log by (auto simp: log_ok_def intro: chain_sorted)
    then show ?thesis using that by (auto simp: segs sorted_wrt_append)
  qed
  then have others: "\<forall>(g, _)\<in>set gs. map_of ?dir (segment_name g) = map_of dir (segment_name g)"
    by (auto simp: update_conv' segment_name_inj)
  obtain st where st: "replay_segments pf dir ?pid (segment_names segs) ?st = Some (Inr st)"
    using ok by (auto simp: replay_log_def list_segments_log [OF log] rbind_eq_Inr)
  have "replay_segments pf ?dir ?pid (segment_names segs) ?st = Some (Inr (st\<lparr>rs_report := ?t (rs_report st)\<rparr>))"
    unfolding segs by (rule replay_segments_torn [OF sc pid torn c _ others])
      (use st in \<open>simp_all add: update_conv' segs\<close>)
  with st ok show ?thesis
    by (auto simp: replay_log_def list_segments_log [OF log] list torn_at_def split: if_splits option.splits)
qed

section \<open>Lemmas: reopening after a torn write\<close>

lemma durable_reopen_torn:
  assumes dur: "durable pf s d segs p" and segs: "segs = gs @ [(f, es)]"
    and c: "map_of (pd_wal d) (segment_name f) = Some c" and torn: "torn_bytes (pf_crc pf) c junk"
  shows "\<exists>d' p' report segs'.
    part_open pf CreateOk directory
      (d\<lparr>pd_locked := False, pd_wal := AList.update (segment_name f) (c @ junk) (pd_wal d)\<rparr>) =
      Some (d', Inr (p', report)) \<and>
    (segment_name f, length c) \<in> set (rr_torn_tails_truncated report) \<and>
    durable pf s d' segs' p' \<and> log_entries segs' = log_entries segs \<and> bare p' = bare p \<and> pd_snap d' = pd_snap d"
proof -
  let ?wal = "AList.update (segment_name f) (c @ junk) (pd_wal d)"
  let ?d = "d\<lparr>pd_locked := True, pd_wal := ?wal\<rparr>"
  obtain b report q report' dir' w' segs' where r: "recover_base pf d = Inr (b, report)"
    and log: "log_ok (pf_crc pf) (cfg_id (pt_config b)) s (pd_wal d) segs"
    and rep: "replay_log pf (pd_wal d) b report = Some (Inr (q, report'))"
    and op: "wal_open (pf_crc pf) CreateOk (pd_wal d) (cfg_id (pt_config q)) (pt_high_water q) = (dir', Inr w')"
    and d: "durable pf s (d\<lparr>pd_locked := True, pd_wal := dir'\<rparr>) segs' (q\<lparr>pt_wal := Some w'\<rparr>)"
    "log_entries segs' = log_entries segs" "bare q = bare p"
    using dur by (rule durable_recovers)
  let ?r = "report'\<lparr>rr_torn_tail_found := None, rr_torn_tails_truncated :=
      rr_torn_tails_truncated report' @ [(segment_name f, length c)]\<rparr>"
  have hd: "HEADER_LEN \<le> length c"
    using log_ok_content [OF log, of f es] segs c log by (auto simp: seg_content_def log_ok_def)
  have "AList.update (segment_name f) c ?wal = pd_wal d"
    using c by (simp add: update_triv)
  then have cut: "truncate_torn_tail ?wal (segment_name f) (length c) = Inr (pd_wal d)"
    using hd by (simp add: truncate_torn_tail_def update_conv')
  have lock: "part_lock directory (d\<lparr>pd_locked := False, pd_wal := ?wal\<rparr>) = Inr ?d"
    by (simp add: part_lock_def)
  have rec: "recover pf ?d = Some (Inr (q, torn_at (segment_name f, length c) report'))"
    using r replay_log_torn [OF log segs c torn rep] by (simp add: recover_def)
  have "pd_wal ?d = ?wal" by simp
  then have "part_open pf CreateOk directory (d\<lparr>pd_locked := False, pd_wal := ?wal\<rparr>) =
      Some (d\<lparr>pd_locked := True, pd_wal := dir'\<rparr>, Inr (q\<lparr>pt_wal := Some w'\<rparr>, ?r))"
    unfolding part_open_def lock sum.case rec using cut op by (simp add: torn_at_def)
  moreover have "bare (q\<lparr>pt_wal := Some w'\<rparr>) = bare p" using d(3) by simp
  moreover have "pd_snap (d\<lparr>pd_locked := True, pd_wal := dir'\<rparr>) = pd_snap d"
    "(segment_name f, length c) \<in> set (rr_torn_tails_truncated ?r)" by simp_all
  ultimately show ?thesis using d(1,2) by blast
qed

end
