(* ===== verification/Partition_Run.thy ===== *)
theory Partition_Run
  imports Partition_Truncate Partition_Crash
begin

text \<open>
  Whole runs of a partition: acknowledged mutations, snapshots, crashes and reopenings in any order.
  A ghost list records what was acknowledged. Along every run the partition holds exactly what the
  acknowledged operations say, and recovery from its directory gives that state back.
\<close>

section \<open>Steps\<close>

datatype client_op =
  Put bytes "f32 list" bytes
| Remove bytes

definition perform ::
  "platform \<Rightarrow> wal_io \<Rightarrow> wal_dir \<Rightarrow> partition \<Rightarrow> bytes \<Rightarrow> client_op \<Rightarrow>
     (wal_dir \<times> partition \<times> (partition_error + applied)) option" where
  "perform pf io dir p op_id c =
     (case c of
        Put key vector payload \<Rightarrow> upsert pf io dir p op_id key vector payload
      | Remove key \<Rightarrow> delete pf io dir p op_id key)"

text \<open>The operation a request puts into the log.\<close>

definition logged :: "partition \<Rightarrow> client_op \<Rightarrow> operation" where
  "logged p c =
     (case c of
        Put key vector payload \<Rightarrow>
          Upsert key payload (case prepare_vector p vector of Inr stored \<Rightarrow> stored | Inl _ \<Rightarrow> vector)
      | Remove key \<Rightarrow> Delete key)"

record run_state =
  rn_dir :: part_dir
  rn_part :: partition
  rn_acked :: "entry list"
  rn_plan :: "compaction_plan option"

text \<open>A rebuilt graph fits its 32-bit link counters. Truncation may stop at any removal. A compaction rebuilds from what was captured and is
  finished later, with any steps between. A crash drops the lock and the plan; a crash in the middle
  of an append leaves bytes behind the last segment that no reader takes for an entry.\<close>

inductive run_step :: "platform \<Rightarrow> path \<Rightarrow> run_state \<Rightarrow> run_state \<Rightarrow> bool" for pf directory where
  acknowledge:
    "length op_id = 16 \<Longrightarrow> perform pf io (pd_wal d) p op_id c = Some (wal, p', Inr a) \<Longrightarrow>
     run_step pf directory \<lparr>rn_dir = d, rn_part = p, rn_acked = es, rn_plan = plan\<rparr>
       \<lparr>rn_dir = d\<lparr>pd_wal := wal\<rparr>, rn_part = p',
        rn_acked = (if ap_deduplicated a then es
                    else es @ [\<lparr>e_seq = ap_seq a, e_op_id = op_id, e_operation = logged p c\<rparr>]),
        rn_plan = plan\<rparr>"
| snapshot:
    "part_snapshot pf SnapOk temporary (pd_snap d) p = Some (snap, p', Inr path) \<Longrightarrow>
     run_step pf directory \<lparr>rn_dir = d, rn_part = p, rn_acked = es, rn_plan = plan\<rparr>
       \<lparr>rn_dir = d\<lparr>pd_snap := snap\<rparr>, rn_part = p', rn_acked = es, rn_plan = plan\<rparr>"
| truncate:
    "truncate_wal_below_snapshot rm synced (pd_wal d) p = (wal, removed) \<Longrightarrow>
     run_step pf directory \<lparr>rn_dir = d, rn_part = p, rn_acked = es, rn_plan = plan\<rparr>
       \<lparr>rn_dir = d\<lparr>pd_wal := wal\<rparr>, rn_part = p, rn_acked = es, rn_plan = plan\<rparr>"
| capture:
    "capture_compaction p = Inr ci \<Longrightarrow> length (ci_slots ci) * cfg_m0 (pt_config p) < 2 ^ 32 \<Longrightarrow>
     compaction_build (pf_ln pf) ci plan \<Longrightarrow>
     run_step pf directory \<lparr>rn_dir = d, rn_part = p, rn_acked = es, rn_plan = before\<rparr>
       \<lparr>rn_dir = d, rn_part = p, rn_acked = es, rn_plan = Some plan\<rparr>"
| compact:
    "finish_compaction pf SnapOk temporary d p plan = Some (snap, p', Inr report) \<Longrightarrow>
     run_step pf directory \<lparr>rn_dir = d, rn_part = p, rn_acked = es, rn_plan = Some plan\<rparr>
       \<lparr>rn_dir = d\<lparr>pd_snap := snap\<rparr>, rn_part = p', rn_acked = es, rn_plan = None\<rparr>"
| crash:
    "part_open pf CreateOk directory (d\<lparr>pd_locked := False\<rparr>) = Some (d', Inr (p', report)) \<Longrightarrow>
     run_step pf directory \<lparr>rn_dir = d, rn_part = p, rn_acked = es, rn_plan = plan\<rparr>
       \<lparr>rn_dir = d', rn_part = p', rn_acked = es, rn_plan = None\<rparr>"
| torn_crash:
    "pd_wal d = before @ [(path, bytes)] \<Longrightarrow> torn_bytes (pf_crc pf) bytes junk \<Longrightarrow>
     part_open pf CreateOk directory (d\<lparr>pd_locked := False, pd_wal := before @ [(path, bytes @ junk)]\<rparr>) =
       Some (d', Inr (p', report)) \<Longrightarrow>
     run_step pf directory \<lparr>rn_dir = d, rn_part = p, rn_acked = es, rn_plan = plan\<rparr>
       \<lparr>rn_dir = d', rn_part = p', rn_acked = es, rn_plan = None\<rparr>"

inductive_cases run_step_cases: "run_step pf directory st st'"

inductive run :: "platform \<Rightarrow> path \<Rightarrow> partition_config \<Rightarrow> run_state \<Rightarrow> bool" for pf directory config where
  created:
    "pd_wal d = [] \<Longrightarrow> pd_snap d = [] \<Longrightarrow>
     part_create pf ManifestOk CreateOk directory d config = (d', Inr p) \<Longrightarrow>
     run pf directory config \<lparr>rn_dir = d', rn_part = p, rn_acked = [], rn_plan = None\<rparr>"
| stepped: "run pf directory config st \<Longrightarrow> run_step pf directory st st' \<Longrightarrow> run pf directory config st'"

section \<open>The invariant\<close>

definition window_after :: "partition_config \<Rightarrow> entry list \<Rightarrow> idem_window" where
  "window_after config es =
     foldl (\<lambda>w e. iw_record w (e_op_id e) (e_seq e)) (iw_new (cfg_idempotency_window config)) es"

text \<open>The state a partition must be in after the operations acknowledged so far.\<close>

definition state_after :: "(bytes \<Rightarrow> u32) \<Rightarrow> partition \<Rightarrow> entry list \<Rightarrow> partition \<Rightarrow> bool" where
  "state_after crc p es q \<longleftrightarrow>
     part_wf q \<and> sizes_ok q \<and> contents q = spec_all (pt_metric p) es Map.empty \<and>
     pt_idem q = window_after (pt_config p) es \<and> unat (pt_high_water q) = length es \<and>
     length (pt_slots q) \<le> length es \<and> length (pt_key_table q) \<le> length es \<and>
     (\<forall>e\<in>set es. entry_fits crc p e)"

definition plan_ok :: "(bytes \<Rightarrow> u32) \<Rightarrow> partition \<Rightarrow> entry list \<Rightarrow> compaction_plan \<Rightarrow> bool" where
  "plan_ok crc p es plan \<longleftrightarrow>
     (\<exists>k\<le>length es. state_after crc p (take k es) (staged_state p plan))"

definition run_ok :: "platform \<Rightarrow> partition_config \<Rightarrow> run_state \<Rightarrow> bool" where
  "run_ok pf config st \<longleftrightarrow>
     (let p = rn_part st; es = rn_acked st
      in (\<exists>s segs. durable pf s (rn_dir st) segs p \<and> unat s \<le> length es + 1 \<and>
            log_entries segs = drop (unat s - 1) es) \<and>
         pt_config p = config \<and> state_after (pf_crc pf) p es p \<and>
         snaps_ok (pd_snap (rn_dir st)) (pt_high_water p) \<and>
         (case rn_plan st of None \<Rightarrow> True | Some plan \<Rightarrow> plan_ok (pf_crc pf) p es plan))"

section \<open>Lemmas: every step keeps the invariant\<close>

text \<open>An acknowledged request is a duplicate that changes nothing, or a logged mutation.\<close>

lemma perform_Inr:
  assumes "perform pf io dir p op_id c = Some (dir', p', Inr a)"
  shows "if ap_deduplicated a then dir' = dir \<and> p' = p \<and> iw_get (pt_idem p) op_id = Some (ap_seq a)
    else iw_get (pt_idem p) op_id = None \<and> mutate pf io dir p op_id (logged p c) = Some (dir', p', Inr a)"
proof (cases "iw_get (pt_idem p) op_id")
  case (Some seq)
  with assms show ?thesis by (auto simp: perform_def upsert_def delete_def split: client_op.splits)
next
  case None
  with assms have "mutate pf io dir p op_id (logged p c) = Some (dir', p', Inr a)"
    by (auto simp: perform_def upsert_def delete_def logged_def split: client_op.splits sum.splits)
  with None show ?thesis by (auto elim: mutate_Inr)
qed

lemma state_after_bare: "bare q' = bare q \<Longrightarrow> state_after crc p es q' = state_after crc p es q"
proof -
  assume b: "bare q' = bare q"
  have "part_wf q' = part_wf q" "sizes_ok q' = sizes_ok q" "contents q' = contents q" "pt_idem q' = pt_idem q"
    "pt_high_water q' = pt_high_water q" "pt_slots q' = pt_slots q" "pt_key_table q' = pt_key_table q"
    using arg_cong [OF b, of part_wf] arg_cong [OF b, of sizes_ok] arg_cong [OF b, of contents]
      arg_cong [OF b, of pt_idem] arg_cong [OF b, of pt_high_water] arg_cong [OF b, of pt_slots]
      arg_cong [OF b, of pt_key_table] by (simp_all add: sizes_ok_bare)
  then show "state_after crc p es q' = state_after crc p es q" by (simp add: state_after_def)
qed

lemma state_after_frame:
  assumes "pt_config p' = pt_config p" and "pt_metric p' = pt_metric p"
  shows "state_after crc p' = state_after crc p"
  unfolding fun_eq_iff state_after_def entry_fits_config [OF assms(1)] assms by blast

lemma plan_ok_frame:
  assumes "pt_config p' = pt_config p" and "pt_metric p' = pt_metric p"
  shows "plan_ok crc p' es plan = plan_ok crc p es plan"
proof -
  have "bare (staged_state p' plan) = bare (staged_state p plan)"
    using assms by (simp add: staged_state_def bare_def)
  then show ?thesis unfolding plan_ok_def state_after_frame [OF assms] using state_after_bare by metis
qed

lemma plan_ok_append: "plan_ok crc p es plan \<Longrightarrow> plan_ok crc p (es @ es') plan"
proof -
  assume "plan_ok crc p es plan"
  then obtain k where "k \<le> length es" "state_after crc p (take k es) (staged_state p plan)"
    by (auto simp: plan_ok_def)
  then show "plan_ok crc p (es @ es') plan" by (auto simp: plan_ok_def intro!: exI [of _ k])
qed

lemma run_okD:
  assumes "run_ok pf config \<lparr>rn_dir = d, rn_part = p, rn_acked = es, rn_plan = plan\<rparr>"
  obtains s segs where "durable pf s d segs p" "unat s \<le> length es + 1" "log_entries segs = drop (unat s - 1) es"
    "pt_config p = config" "state_after (pf_crc pf) p es p" "snaps_ok (pd_snap d) (pt_high_water p)"
    "\<And>q. plan = Some q \<Longrightarrow> plan_ok (pf_crc pf) p es q"
  using assms by (auto simp: run_ok_def split: option.splits)

text \<open>The directory changes and the state is the same but for its writer and marks.\<close>

lemma run_ok_same:
  assumes ok: "run_ok pf config \<lparr>rn_dir = d, rn_part = p, rn_acked = es, rn_plan = plan\<rparr>"
    and new: "durable pf s d' segs p'" "unat s \<le> length es + 1" "log_entries segs = drop (unat s - 1) es"
    and same: "pt_config p' = pt_config p" "pt_metric p' = pt_metric p" "state_after (pf_crc pf) p es p'"
    and snaps: "snaps_ok (pd_snap d') (pt_high_water p')" and plan: "plan' = plan \<or> plan' = None"
  shows "run_ok pf config \<lparr>rn_dir = d', rn_part = p', rn_acked = es, rn_plan = plan'\<rparr>"
  using assms state_after_frame [OF same(1,2)] plan_ok_frame [OF same(1,2)]
  by (auto simp: run_ok_def split: option.splits)

lemma run_ok_acknowledge:
  assumes ok: "run_ok pf config \<lparr>rn_dir = d, rn_part = p, rn_acked = es, rn_plan = plan\<rparr>"
    and len: "length es < 2 ^ 32" and id: "length op_id = 16"
    and m: "mutate pf io (pd_wal d) p op_id operation = Some (wal, p', Inr a)"
  shows "run_ok pf config \<lparr>rn_dir = d\<lparr>pd_wal := wal\<rparr>, rn_part = p',
    rn_acked = es @ [\<lparr>e_seq = ap_seq a, e_op_id = op_id, e_operation = operation\<rparr>], rn_plan = plan\<rparr>"
proof -
  let ?e = "\<lparr>e_seq = ap_seq a, e_op_id = op_id, e_operation = operation\<rparr>"
  obtain s segs where r: "durable pf s d segs p" "unat s \<le> length es + 1" "log_entries segs = drop (unat s - 1) es"
    "pt_config p = config" "state_after (pf_crc pf) p es p" "snaps_ok (pd_snap d) (pt_high_water p)"
    and plan: "\<And>q. plan = Some q \<Longrightarrow> plan_ok (pf_crc pf) p es q" using ok by (rule run_okD) blast
  have sv: "serving pf s (pd_wal d) segs p" and wf: "part_wf p" and s: "0 < unat s"
    using r(1) by (auto simp: durable_def serving_def)
  have st: "sizes_ok p" "contents p = spec_all (pt_metric p) es Map.empty"
    "pt_idem p = window_after (pt_config p) es" "unat (pt_high_water p) = length es"
    "length (pt_slots p) \<le> length es" "length (pt_key_table p) \<le> length es"
    "\<forall>e\<in>set es. entry_fits (pf_crc pf) p e" using r(5) by (simp_all add: state_after_def)
  have "unat s + length (log_entries segs) = length es + 1" using r(2,3) s by simp
  then have room: "has_room p" "log_room s segs" using len st(5,6) by (simp_all add: has_room_def log_room_def)
  obtain segs' where segs': "durable pf s (d\<lparr>pd_wal := wal\<rparr>) segs' p'"
    "log_entries segs' = log_entries segs @ [?e]"
    using durable_mutate [OF r(1) room id m] by blast
  have p': "contents p' = spec_apply (pt_metric p) operation (contents p)" "ap_seq a = pt_high_water p + 1"
    "pt_high_water p' = ap_seq a" "pt_config p' = pt_config p" "pt_metric p' = pt_metric p"
    using mutate_ok [OF sv room id m] by blast+
  obtain w w' where w: "pt_wal p = Some w"
    "append_unsynced (pf_crc pf) io (pd_wal d) w op_id operation = (wal, w', Inr (ap_seq a))"
    and ap: "apply_entry (pf_ln pf) (p\<lparr>pt_wal := Some w'\<rparr>) ?e = Some (Inr p')" using m by (rule mutate_Inr)
  have op: "op_ok (p\<lparr>pt_wal := Some w'\<rparr>) (e_operation ?e)" by (rule apply_entry_op_ok [OF ap])
  have wf': "part_wf (p\<lparr>pt_wal := Some w'\<rparr>)" "has_room (p\<lparr>pt_wal := Some w'\<rparr>)" using wf room(1) by simp_all
  have lens: "length (pt_slots p') \<le> Suc (length (pt_slots p))" "length (pt_key_table p') \<le> Suc (length (pt_key_table p))"
    "part_wf p'" "pt_idem p' = iw_record (pt_idem p) op_id (ap_seq a)"
    using apply_entry_ok [OF wf' op, of "pf_ln pf"] ap by auto
  have "ww_next_seq w = ap_seq a" using sv w(1) p'(2) by (auto simp: serving_def)
  then obtain frame where enc: "entry_encode (pf_crc pf) ?e = Inr frame"
    using w(2) by (cases "entry_encode (pf_crc pf) ?e") (simp_all add: append_unsynced_def split: if_splits)
  have "sizes_ok (p\<lparr>pt_wal := Some w'\<rparr>)" using st(1) by (simp add: sizes_ok_def)
  then have sizes: "sizes_ok p'" using apply_entry_sizes [OF ap _ _ enc] wf id by simp
  have hw: "unat (pt_high_water p') = length es + 1"
    using p'(2,3) st(4) len unat_advance [of "pt_high_water p" 1 0] by simp
  then have "pt_high_water p \<le> pt_high_water p'" using st(4) by (simp add: word_le_nat_alt)
  then have snaps: "snaps_ok (pd_snap d) (pt_high_water p')" using r(6) snaps_ok_mono by blast
  have "entry_fits (pf_crc pf) p ?e" using op id enc by (auto simp: entry_fits_def)
  then have "state_after (pf_crc pf) p (es @ [?e]) p'"
    using lens sizes hw st p'(1) by (simp add: state_after_def window_after_def)
  moreover have "\<exists>s segs. durable pf s (d\<lparr>pd_wal := wal\<rparr>) segs p' \<and> unat s \<le> length (es @ [?e]) + 1 \<and>
      log_entries segs = drop (unat s - 1) (es @ [?e])"
    using segs' r(2,3) by (intro exI [of _ s] exI [of _ segs']) simp
  moreover have "plan_ok (pf_crc pf) p' (es @ [?e]) q" if "plan = Some q" for q
    unfolding plan_ok_frame [OF p'(4,5)] by (rule plan_ok_append) (rule plan [OF that])
  ultimately show ?thesis
    using r(4) snaps p'(4) state_after_frame [OF p'(4,5)] unfolding run_ok_def
    by (simp add: Let_def split: option.splits)
qed

lemma run_ok_snapshot:
  assumes ok: "run_ok pf config \<lparr>rn_dir = d, rn_part = p, rn_acked = es, rn_plan = plan\<rparr>"
    and len: "length es < 2 ^ 32" and plat: "platform_ok (pf_blake3 pf) (pf_cast pf) (pf_addr pf)"
    and s: "part_snapshot pf SnapOk temporary (pd_snap d) p = Some (snap, p', Inr path)"
  shows "run_ok pf config \<lparr>rn_dir = d\<lparr>pd_snap := snap\<rparr>, rn_part = p', rn_acked = es, rn_plan = plan\<rparr>"
proof -
  obtain t segs where r: "durable pf t d segs p" "unat t \<le> length es + 1" "log_entries segs = drop (unat t - 1) es"
    "pt_config p = config" "state_after (pf_crc pf) p es p" "snaps_ok (pd_snap d) (pt_high_water p)"
    using ok by (rule run_okD) blast
  have room: "has_room p" and sizes: "sizes_ok p" and wf: "part_wf p"
    using len r(5) by (simp_all add: has_room_def state_after_def)
  note size = snapshot_small [OF wf room sizes plat]
  note fp = part_snapshot_failpoint [OF s]
  obtain dir' q where q: "part_snapshot pf SnapOk temporary (pd_snap d) p =
      Some (dir', q, Inr (snapshot_name (pt_high_water p)))" "durable pf t (d\<lparr>pd_snap := dir'\<rparr>) segs q"
    "contents q = contents p" "sizes_ok q" "snaps_ok dir' (pt_high_water q)" "pt_high_water q = pt_high_water p"
    "pt_config q = pt_config p" "pt_metric q = pt_metric p" "pt_idem q = pt_idem p"
    "pt_slots q = pt_slots p" "pt_key_table q = pt_key_table p"
    using durable_snapshot [OF r(1) room sizes plat size fp r(6), of temporary] by blast
  have "part_wf q" using q(2) by (auto simp: durable_def serving_def)
  then have "state_after (pf_crc pf) p es q" using r(5) q by (simp add: state_after_def)
  moreover have "p' = q" "snap = dir'" using s q(1) by simp_all
  ultimately show ?thesis using q r by (intro run_ok_same [OF ok]) simp_all
qed

lemma run_ok_truncate:
  assumes ok: "run_ok pf config \<lparr>rn_dir = d, rn_part = p, rn_acked = es, rn_plan = plan\<rparr>"
    and t: "truncate_wal_below_snapshot rm synced (pd_wal d) p = (wal, removed)"
  shows "run_ok pf config \<lparr>rn_dir = d\<lparr>pd_wal := wal\<rparr>, rn_part = p, rn_acked = es, rn_plan = plan\<rparr>"
proof -
  obtain s segs where r: "durable pf s d segs p" "unat s \<le> length es + 1" "log_entries segs = drop (unat s - 1) es"
    "state_after (pf_crc pf) p es p" "snaps_ok (pd_snap d) (pt_high_water p)"
    using ok by (rule run_okD) blast
  have s: "0 < unat s" using r(1) by (simp add: durable_def)
  obtain s' k where k: "durable pf s' (d\<lparr>pd_wal := wal\<rparr>) (drop k segs) p" "unat s \<le> unat s'"
    "log_entries (drop k segs) = drop (unat s' - unat s) (log_entries segs)"
    "unat s' \<le> unat s + length (log_entries segs)" using durable_truncate [OF r(1) t] by blast
  have "log_entries (drop k segs) = drop (unat s' - 1) es" "unat s' \<le> length es + 1"
    using k(2-4) r(2,3) s by simp_all
  then show ?thesis using k(1) r by (intro run_ok_same [OF ok]) simp_all
qed

section \<open>Lemmas: compactions of a run\<close>

lemma run_ok_capture:
  assumes ok: "run_ok pf config \<lparr>rn_dir = d, rn_part = p, rn_acked = es, rn_plan = before\<rparr>"
    and ci: "capture_compaction p = Inr ci" and fits: "length (ci_slots ci) * cfg_m0 (pt_config p) < 2 ^ 32"
    and plan: "compaction_build (pf_ln pf) ci plan"
  shows "run_ok pf config \<lparr>rn_dir = d, rn_part = p, rn_acked = es, rn_plan = Some plan\<rparr>"
proof -
  have st: "state_after (pf_crc pf) p es p" using ok by (rule run_okD) blast
  then have wf: "part_wf p" and sizes: "sizes_ok p" by (simp_all add: state_after_def)
  note c = capture_Inr [OF wf ci]
  have "compactable p" using fits sizes c by (simp add: compactable_def sizes_ok_def captured_def Let_def)
  note q = staged_ok [OF wf this c plan refl refl]
  have slots: "cp_slots plan = map ((!) (pt_slots p)) (live_slots (pt_slots p))"
    using plan c by (auto simp: compaction_build_def captured_def Let_def)
  have lens: "length (live_slots (pt_slots p)) \<le> length (pt_slots p)"
    using length_filter_le [of _ "[0..<length (pt_slots p)]"] by (simp add: live_slots_def)
  have "set (cp_slots plan) \<subseteq> set (pt_slots p)" unfolding slots by (auto simp: live_slots_def)
  then have "sizes_ok (staged_state p plan)"
    using sizes q(3,5) by (auto simp: sizes_ok_def staged_state_def)
  then have "state_after (pf_crc pf) p es (staged_state p plan)"
    using q st lens by (simp add: state_after_def)
  then have "plan_ok (pf_crc pf) p es plan" by (auto simp: plan_ok_def intro!: exI [of _ "length es"])
  with ok show ?thesis by (simp add: run_ok_def)
qed

text \<open>A compaction that finished found every entry after its rebuild point in the log.\<close>

lemma finish_covered:
  assumes dur: "durable pf s d segs p"
    and fin: "finish_compaction pf io temporary d p plan = Some (snap, p', Inr report)"
  shows "unat s \<le> unat (cp_rebuild_point plan) + 1"
proof (rule ccontr)
  assume "\<not> ?thesis"
  then have gt: "unat (cp_rebuild_point plan) + 1 < unat s" by simp
  let ?q = "staged_state p plan"
  have hwq: "pt_high_water ?q = cp_rebuild_point plan" by (simp add: staged_state_def)
  obtain w where w: "writer_ok (pf_crc pf) (cfg_id (pt_config p)) s (pd_wal d) segs w"
    "ww_next_seq w = pt_high_water p + 1" using dur by (auto simp: durable_def serving_def)
  then have log: "log_ok (pf_crc pf) (cfg_id (pt_config p)) s (pd_wal d) segs" and ne: "segs \<noteq> []"
    and next1: "pt_high_water p + 1 = s + word_of_nat (length (log_entries segs))" by (simp_all add: writer_ok_def)
  have pid: "length (cfg_id (pt_config p)) = 16" and tot: "unat s + length (log_entries segs) < 2 ^ 64"
    and ch: "chain s segs" using log by (simp_all add: log_ok_def)
  have hw: "unat (pt_high_water p) + 1 = unat s + length (log_entries segs)"
  proof -
    have "pt_high_water p = s + word_of_nat (length (log_entries segs)) - 1" using next1 by (metis add_diff_cancel_right')
    then show ?thesis using unat_last_seq [OF _ tot] gt by simp
  qed
  obtain es rest where segs: "segs = (s, es) # rest" using ne ch by (cases segs) auto
  obtain c where c: "map_of (pd_wal d) (segment_name s) = Some c"
    "seg_content (pf_crc pf) (cfg_id (pt_config p)) (s, es) c" using log_ok_content [OF log] segs by auto
  note read = seg_content_read [OF c(2) pid, of "segment_names rest = []"]
  show False
  proof (cases es)
    case Nil
    then have rest: "rest = []" using ch segs by simp
    then have "\<exists>n. catch_up pf (pd_wal d) (cfg_id (pt_config p)) (cp_rebuild_point plan) (pt_high_water p)
        (segment_names segs) (?q, 0) = Some (Inr (?q, n))"
      using c(1) read Nil segs by (simp add: segment_names_def)
    moreover have "cp_rebuild_point plan \<noteq> pt_high_water p" using hw gt segs Nil rest by auto
    ultimately show False
      using fin hwq by (auto simp: finish_compaction_def list_segments_log [OF log] finish_staged_def)
  next
    case (Cons e es1)
    then have e: "e_seq e = s" using c(2) by (auto simp: seg_content_def)
    have le: "\<not> pt_high_water p < s" using hw segs Cons by (simp add: word_less_nat_alt)
    have "\<not> s \<le> cp_rebuild_point plan" using gt by (simp add: word_le_nat_alt)
    moreover have "s \<noteq> cp_rebuild_point plan + 1"
    proof
      assume "s = cp_rebuild_point plan + 1"
      then have "unat s \<le> unat (cp_rebuild_point plan) + 1" by (simp add: unat_word_ariths)
      with gt show False by simp
    qed
    ultimately have "\<exists>err. catch_up pf (pd_wal d) (cfg_id (pt_config p)) (cp_rebuild_point plan) (pt_high_water p)
        (segment_names segs) (?q, 0) = Some (Inl err)"
      using c(1) read Cons segs e le hwq by (simp add: segment_names_def)
    with fin show False by (auto simp: finish_compaction_def list_segments_log [OF log])
  qed
qed

text \<open>The plan of a run leads to the live state over the log that is left.\<close>

lemma plan_leads:
  assumes dur: "durable pf s d segs p" and es: "unat s \<le> length es + 1" "log_entries segs = drop (unat s - 1) es"
    and st: "state_after (pf_crc pf) p es p" and plan: "plan_ok (pf_crc pf) p es plan"
    and len: "length es < 2 ^ 32" and covered: "unat s \<le> unat (cp_rebuild_point plan) + 1"
  shows "leads_to pf s segs (staged_state p plan) p" and "unat (cp_rebuild_point plan) \<le> length es"
    and "drop (unat (pt_high_water (staged_state p plan)) + 1 - unat s) (log_entries segs) =
      drop (unat (cp_rebuild_point plan)) es"
    and "length (pt_slots (staged_state p plan)) \<le> unat (cp_rebuild_point plan)"
      "length (pt_key_table (staged_state p plan)) \<le> unat (cp_rebuild_point plan)"
proof -
  let ?q = "staged_state p plan"
  obtain k where k: "k \<le> length es" "state_after (pf_crc pf) p (take k es) ?q"
    using plan by (auto simp: plan_ok_def)
  have hwq: "unat (pt_high_water ?q) = k" and rp: "pt_high_water ?q = cp_rebuild_point plan"
    using k by (simp_all add: state_after_def staged_state_def)
  have rk: "unat (cp_rebuild_point plan) = k" using hwq rp by simp
  have s: "0 < unat s" "unat s \<le> k + 1" using dur covered rk by (simp_all add: durable_def)
  have dr: "drop (unat (pt_high_water ?q) + 1 - unat s) (log_entries segs) = drop k es"
    using s hwq es(2) by simp
  have q: "part_wf ?q" "sizes_ok ?q" "contents ?q = spec_all (pt_metric p) (take k es) Map.empty"
    "pt_idem ?q = window_after (pt_config p) (take k es)" "length (pt_slots ?q) \<le> k" "length (pt_key_table ?q) \<le> k"
    using k by (simp_all add: state_after_def)
  have "spec_all (pt_metric p) es Map.empty =
      spec_all (pt_metric p) (drop k es) (spec_all (pt_metric p) (take k es) Map.empty)"
    by (metis append_take_drop_id spec_all_simps(3))
  moreover have "window_after (pt_config p) es = foldl (\<lambda>w e. iw_record w (e_op_id e) (e_seq e))
      (window_after (pt_config p) (take k es)) (drop k es)"
    unfolding window_after_def by (metis append_take_drop_id foldl_append)
  moreover have "contents p = spec_all (pt_metric p) es Map.empty" "pt_idem p = window_after (pt_config p) es"
    "\<forall>e\<in>set es. entry_fits (pf_crc pf) p e" using st unfolding state_after_def by blast+
  moreover have "pt_config ?q = pt_config p" by (simp add: staged_state_def)
  moreover have "unat s \<le> unat (pt_high_water ?q) + 1"
    "unat (pt_high_water ?q) + 1 \<le> unat s + length (log_entries segs)" using s hwq k(1) es by simp_all
  moreover have "length (pt_slots ?q) + length (drop k es) < 2 ^ 32"
    "length (pt_key_table ?q) + length (drop k es) < 2 ^ 32" using q(5,6) k(1) len by simp_all
  moreover have "\<forall>e\<in>set (drop k es). entry_fits (pf_crc pf) p e"
    using calculation(5) by (blast dest: in_set_dropD)
  ultimately show "leads_to pf s segs ?q p"
    using q(1-4) unfolding leads_to_def Let_def dr by metis
  show "unat (cp_rebuild_point plan) \<le> length es" using k(1) rk by simp
  show "drop (unat (pt_high_water ?q) + 1 - unat s) (log_entries segs) = drop (unat (cp_rebuild_point plan)) es"
    unfolding dr rk ..
  show "length (pt_slots ?q) \<le> unat (cp_rebuild_point plan)" "length (pt_key_table ?q) \<le> unat (cp_rebuild_point plan)"
    unfolding rk by (rule q)+
qed

lemma run_ok_compacted:
  assumes ok: "run_ok pf config \<lparr>rn_dir = d, rn_part = p, rn_acked = es, rn_plan = Some plan\<rparr>"
    and r: "unat s \<le> length es + 1" "log_entries segs = drop (unat s - 1) es" "state_after (pf_crc pf) p es p"
    and c: "compacted pf s d segs p snap p'" "reported s segs (staged_state p plan) p' report"
    and lead: "unat (cp_rebuild_point plan) \<le> length es"
      "drop (unat (pt_high_water (staged_state p plan)) + 1 - unat s) (log_entries segs) =
        drop (unat (cp_rebuild_point plan)) es"
      "length (pt_slots (staged_state p plan)) \<le> unat (cp_rebuild_point plan)"
      "length (pt_key_table (staged_state p plan)) \<le> unat (cp_rebuild_point plan)"
  shows "run_ok pf config \<lparr>rn_dir = d\<lparr>pd_snap := snap\<rparr>, rn_part = p', rn_acked = es, rn_plan = None\<rparr>"
proof -
  let ?q = "staged_state p plan" and ?es = "drop (unat (cp_rebuild_point plan)) es"
  have p': "durable pf s (d\<lparr>pd_snap := snap\<rparr>) segs p'" "contents p' = contents p" "sizes_ok p'"
    "snaps_ok snap (pt_high_water p')" "pt_high_water p' = pt_high_water p" "pt_config p' = pt_config p"
    "pt_metric p' = pt_metric p" "pt_idem p' = pt_idem p" using c(1) unfolding compacted_def by blast+
  have "length (pt_slots p') \<le> length (pt_slots ?q) + length ?es"
    "length (pt_key_table p') \<le> length (pt_key_table ?q) + length ?es"
    using c(2) unfolding reported_def Let_def lead(2) by blast+
  then have "length (pt_slots p') \<le> length es" "length (pt_key_table p') \<le> length es"
    using lead(1,3,4) by simp_all
  moreover have "part_wf p'" using p'(1) by (auto simp: durable_def serving_def)
  ultimately have "state_after (pf_crc pf) p es p'" using r(3) p' by (simp add: state_after_def)
  then show ?thesis using p' r by (intro run_ok_same [OF ok]) simp_all
qed

lemma run_ok_compact:
  assumes ok: "run_ok pf config \<lparr>rn_dir = d, rn_part = p, rn_acked = es, rn_plan = Some plan\<rparr>"
    and len: "length es < 2 ^ 32" and plat: "platform_ok (pf_blake3 pf) (pf_cast pf) (pf_addr pf)"
    and fin: "finish_compaction pf SnapOk temporary d p plan = Some (snap, p', Inr report)"
  shows "run_ok pf config \<lparr>rn_dir = d\<lparr>pd_snap := snap\<rparr>, rn_part = p', rn_acked = es, rn_plan = None\<rparr>"
proof -
  obtain s segs where r: "durable pf s d segs p" "unat s \<le> length es + 1" "log_entries segs = drop (unat s - 1) es"
    "state_after (pf_crc pf) p es p" "snaps_ok (pd_snap d) (pt_high_water p)"
    and plan: "plan_ok (pf_crc pf) p es plan"
    using ok by (rule run_okD) blast
  note lead = plan_leads [OF r(1-4) plan len finish_covered [OF r(1) fin]]
  from run_ok_compacted [OF ok r(2-4) finish_ok [OF r(1) lead(1) plat r(5) fin] lead(2-5)] show ?thesis .
qed

section \<open>Lemmas: crashes\<close>

lemma run_ok_bare:
  assumes ok: "run_ok pf config \<lparr>rn_dir = d, rn_part = p, rn_acked = es, rn_plan = plan\<rparr>"
    and b: "bare p' = bare p" and old: "durable pf s d segs p" "unat s \<le> length es + 1"
      "log_entries segs = drop (unat s - 1) es" "state_after (pf_crc pf) p es p" "snaps_ok (pd_snap d) (pt_high_water p)"
    and d': "durable pf s d' segs' p'" "log_entries segs' = log_entries segs" "pd_snap d' = pd_snap d"
  shows "run_ok pf config \<lparr>rn_dir = d', rn_part = p', rn_acked = es, rn_plan = None\<rparr>"
proof -
  have "pt_config p' = pt_config p" "pt_metric p' = pt_metric p" "pt_high_water p' = pt_high_water p"
    using b by (metis bare_simps)+
  moreover have "state_after (pf_crc pf) p es p'" using old(4) b state_after_bare by blast
  ultimately show ?thesis using old d' by (intro run_ok_same [OF ok, of s _ segs']) simp_all
qed

text \<open>The last file of the log is the last segment.\<close>

lemma durable_last:
  assumes dur: "durable pf s d segs p" and dir: "pd_wal d = before @ [(path, bytes)]"
  obtains gs f fs where "segs = gs @ [(f, fs)]" "path = segment_name f" "map_of (pd_wal d) path = Some bytes"
    "AList.update path (bytes @ junk) (pd_wal d) = before @ [(path, bytes @ junk)]"
proof -
  obtain pid where log: "log_ok (pf_crc pf) pid s (pd_wal d) segs" and ne: "segs \<noteq> []"
    using dur by (auto simp: durable_def serving_def writer_ok_def)
  then obtain gs f fs where segs: "segs = gs @ [(f, fs)]" by (metis rev_exhaust surj_pair)
  have "path = segment_name f" using log_ok_names(1) [OF log] by (simp add: dir segs)
  then show thesis
    using segs log_ok_names(2) [OF log] unfolding dir by (intro that) (simp_all only: update_last dir)
qed

text \<open>Every step of a run keeps the invariant while the slots and keys fit their 32-bit ids.\<close>

lemma run_ok_step:
  assumes step: "run_step pf directory st st'" and ok: "run_ok pf config st" and len: "length (rn_acked st') < 2 ^ 32"
    and plat: "platform_ok (pf_blake3 pf) (pf_cast pf) (pf_addr pf)"
  shows "run_ok pf config st'"
  using step ok len
proof (cases rule: run_step.cases)
  case (acknowledge op_id io d p c wal p' a es plan)
  with ok len perform_Inr [OF acknowledge(4)] show ?thesis
    by (cases "ap_deduplicated a") (auto intro!: run_ok_acknowledge)
next
  case (snapshot temporary d p snap p' path es plan)
  with ok len plat show ?thesis by (auto intro!: run_ok_snapshot)
next
  case (truncate rm synced d p wal removed es plan)
  with ok show ?thesis by (auto intro!: run_ok_truncate)
next
  case (capture p ci plan d es before)
  with ok show ?thesis using run_ok_capture by blast
next
  case (compact temporary d p plan snap p' report es)
  with ok len plat show ?thesis using run_ok_compact by force
next
  case (crash d d' p' report p es plan)
  with ok have ok': "run_ok pf config \<lparr>rn_dir = d, rn_part = p, rn_acked = es, rn_plan = plan\<rparr>" by simp
  then obtain s segs where r: "durable pf s d segs p" "unat s \<le> length es + 1"
    "log_entries segs = drop (unat s - 1) es" "state_after (pf_crc pf) p es p" "snaps_ok (pd_snap d) (pt_high_water p)"
    by (rule run_okD) blast
  from durable_reopen [OF r(1), of directory] crash(3) obtain segs' where
    "durable pf s d' segs' p'" "log_entries segs' = log_entries segs" "bare p' = bare p" "pd_snap d' = pd_snap d"
    by auto
  with crash(2) run_ok_bare [OF ok' _ r] show ?thesis by simp
next
  case (torn_crash d before path bytes junk d' p' report p es plan)
  with ok have ok': "run_ok pf config \<lparr>rn_dir = d, rn_part = p, rn_acked = es, rn_plan = plan\<rparr>" by simp
  then obtain s segs where r: "durable pf s d segs p" "unat s \<le> length es + 1"
    "log_entries segs = drop (unat s - 1) es" "state_after (pf_crc pf) p es p" "snaps_ok (pd_snap d) (pt_high_water p)"
    by (rule run_okD) blast
  obtain gs f fs where "segs = gs @ [(f, fs)]" "path = segment_name f" "map_of (pd_wal d) path = Some bytes"
    "AList.update path (bytes @ junk) (pd_wal d) = before @ [(path, bytes @ junk)]"
    using r(1) torn_crash(3) by (rule durable_last)
  with durable_reopen_torn [OF r(1), of gs f fs bytes junk directory] torn_crash(4,5) obtain segs' where
    "durable pf s d' segs' p'" "log_entries segs' = log_entries segs" "bare p' = bare p" "pd_snap d' = pd_snap d"
    by auto
  with torn_crash(2) run_ok_bare [OF ok' _ r] show ?thesis by simp
qed

section \<open>Runs\<close>

lemma created_sizes:
  assumes "part_create pf mio cio directory d config = (d', Inr p)" and "length (cfg_id config) = 16"
    and "cfg_idempotency_window config < 2 ^ 32" and "pd_snap d = []"
  shows "sizes_ok p" "pt_slots p = []" "pt_key_table p = []" "pt_config p = config" "pd_snap d' = []"
    "pt_idem p = window_after config []" "pt_high_water p = 0"
proof -
  obtain metric w where p: "p = (fresh_state config metric)\<lparr>pt_wal := Some w\<rparr>" "pd_snap d' = []"
    "cfg_validate config = Inr ()"
    using assms(1,4) by (auto simp: part_create_def part_lock_def Let_def split: sum.splits if_splits prod.splits)
  have "0 < cfg_idempotency_window config" using cfg_validate_ok(8) [OF p(3)] by simp
  with p assms(2,3) show "sizes_ok p" by (simp add: sizes_ok_def fresh_state_def iw_new_def max_def)
  show "pt_slots p = []" "pt_key_table p = []" "pt_config p = config" "pd_snap d' = []"
    "pt_idem p = window_after config []" "pt_high_water p = 0"
    using p by (simp_all add: fresh_state_def window_after_def)
qed

lemma run_step_acked: "run_step pf directory st st' \<Longrightarrow> length (rn_acked st) \<le> length (rn_acked st')"
  by (auto elim!: run_step_cases)

lemma run_invariant:
  assumes run: "run pf directory config st" and len: "length (rn_acked st) < 2 ^ 32"
    and plat: "platform_ok (pf_blake3 pf) (pf_cast pf) (pf_addr pf)"
    and js: "pf_of_json pf (pf_to_json pf config) = Some config"
    and cfg: "length (cfg_id config) = 16" "\<not> cfg_base_snapshot config" "cfg_idempotency_window config < 2 ^ 32"
  shows "run_ok pf config st"
  using run len
proof (induction rule: run.induct)
  case (created d d' p)
  note dur = durable_create [OF created(1,2) js cfg(1,2) created(3)]
  moreover have "log_entries [(1, [])] = drop (unat (1 :: u64) - 1) []" by (simp add: log_entries_def)
  moreover have "part_wf p" using dur by (auto simp: durable_def serving_def)
  ultimately show ?case
    using created_sizes [OF created(3) cfg(1,3) created(2)]
    by (auto simp: run_ok_def state_after_def intro!: exI [of _ 1] exI [of _ "[(1, [])]"])
next
  case (stepped st st')
  then have "run_ok pf config st" using run_step_acked [OF stepped(2)] by simp
  from run_ok_step [OF stepped(2) this stepped(4) plat] show ?case .
qed

section \<open>Lemmas: a valid request is acknowledged\<close>

text \<open>Every system call succeeds.\<close>

definition io_good :: "wal_io \<Rightarrow> bool" where
  "io_good io \<longleftrightarrow> io_seal io \<and> io_create io = CreateOk \<and> io_reopen io \<and> io_write io = None \<and> io_sync io"

lemma append_unsynced_live:
  assumes ok: "writer_ok crc pid s dir segs w" and io: "io_good io"
    and enc: "entry_encode crc \<lparr>e_seq = ww_next_seq w, e_op_id = op_id, e_operation = operation\<rparr> = Inr frame"
  shows "\<exists>dir' w'. append_unsynced crc io dir w op_id operation = (dir', w', Inr (ww_next_seq w)) \<and> \<not> ww_poisoned w'"
proof -
  have np: "\<not> ww_poisoned w" using ok by (simp add: writer_ok_def)
  show ?thesis
  proof (cases "SEGMENT_ROTATE_BYTES \<le> ww_bytes w")
    case True
    then have "map_of dir (segment_name (ww_next_seq w)) = None"
      using next_segment_fresh(1) [OF ok] by (simp add: map_of_eq_None_iff)
    with np io enc True show ?thesis
      by (simp add: append_unsynced_def io_good_def rotate_def create_segment_def write_frame_def Let_def)
  next
    case False
    with np io enc show ?thesis by (simp add: append_unsynced_def io_good_def write_frame_def)
  qed
qed

lemma mutate_live:
  assumes sv: "serving pf s dir segs p" and room: "has_room p" and io: "io_good io"
    and fp: "pt_failpoint p = None" and op: "op_ok p operation"
    and enc: "encode_operation operation = Inr bytes"
  shows "\<exists>dir' p'. mutate pf io dir p op_id operation =
    Some (dir', p', Inr \<lparr>ap_seq = pt_high_water p + 1, ap_deduplicated = False\<rparr>)"
proof -
  obtain w where w: "pt_wal p = Some w" "writer_ok (pf_crc pf) (cfg_id (pt_config p)) s dir segs w"
    "ww_next_seq w = pt_high_water p + 1" and wf: "part_wf p" using sv by (auto simp: serving_def)
  let ?e = "\<lparr>e_seq = ww_next_seq w, e_op_id = op_id, e_operation = operation\<rparr>"
  obtain frame where "entry_encode (pf_crc pf) ?e = Inr frame" using enc by (auto simp: entry_encode_def Let_def)
  from append_unsynced_live [OF w(2) io this] obtain dir' w' where
    app: "append_unsynced (pf_crc pf) io dir w op_id operation = (dir', w', Inr (ww_next_seq w))" "\<not> ww_poisoned w'"
    by blast
  obtain p' where p': "apply_entry (pf_ln pf) (p\<lparr>pt_wal := Some w'\<rparr>) ?e = Some (Inr p')"
    using apply_entry_ok [of "p\<lparr>pt_wal := Some w'\<rparr>" ?e "pf_ln pf"] wf room op by auto
  then have fp': "pt_failpoint p' = None" using apply_entry_failpoint(1) [OF p'] fp by simp
  have "sync_and_apply pf io (p\<lparr>pt_wal := Some w'\<rparr>) (ww_next_seq w) op_id operation = Some (p', Inr ())"
    using p' app(2) io fp by (simp add: sync_and_apply_def wal_sync_def io_good_def hit_failpoint_def)
  with w app fp' show ?thesis by (simp add: mutate_def hit_failpoint_def)
qed

end
