(* ===== verification/Samples.thy ===== *)
theory Samples
  imports Partition_Run
begin

text \<open>
  Small concrete values: an index of two rows, a partition that holds it, a log entry and a
  snapshot. The witnesses of the properties apply them; nothing else depends on this theory.
\<close>

definition sample_params :: hnsw_params where
  "sample_params = \<lparr>hp_m = 2, hp_m0 = 2, hp_ef_construction = 4, hp_seed = 7\<rparr>"
definition sample_rows :: "f32 list" where "sample_rows = [f32_one, f32_zero, f32_zero, f32_two]"
definition sample_index :: hnsw where
  "sample_index =
     (hnsw_new 2 L2 sample_params)
       \<lparr>hn_vectors := \<lparr>fv_dims = 2, fv_base = None, fv_tail = sample_rows\<rparr>,
        hn_quantized := \<lparr>qv_dims = 2, qv_data = [127, 0, 0, 127], qv_scales = [0x3C010204, 0x3C810204],
          qv_norms_sq = [0x3F800000, 0x40800000]\<rparr>,
        hn_levels := [0, 0], hn_level0 := [1, 0, 0, 0], hn_level0_len := [1, 1],
        hn_upper := [[], []], hn_upper_len := [[], []], hn_tombstones := [0], hn_entry := Some 0\<rparr>"
lemma sample_index_simps [simp]:
  "hn_len sample_index = 2" "hn_dims sample_index = 2" "hn_metric sample_index = L2"
  "hn_params sample_index = sample_params" "hn_entry sample_index = Some 0" "hn_max_level sample_index = 0"
  "hn_levels sample_index = [0, 0]" "hn_vectors sample_index = \<lparr>fv_dims = 2, fv_base = None, fv_tail = sample_rows\<rparr>"
  by (simp_all add: sample_index_def hn_len_def hn_dims_def hnsw_new_def)

lemma two_slots: "s < (2::nat) \<longleftrightarrow> s = 0 \<or> s = 1" by auto

lemma all_less_2: "(\<forall>s<(2::nat). P s) \<longleftrightarrow> P 0 \<and> P 1"
  by (auto simp: two_slots)

lemma sample_graph_wf:
  assumes "a = 0 \<or> a = 1"
  shows "hnsw_wf (sample_index\<lparr>hn_level0_len := [a, 1]\<rparr>)"
proof -
  define g where "g = sample_index\<lparr>hn_level0_len := [a, 1]\<rparr>"
  note g_simps = g_def sample_index_def hnsw_new_def sample_params_def
  have len [simp]: "hn_len g = 2" "hn_levels g = [0, 0]" by (simp_all add: hn_len_def g_simps)
  have lists: "neighbours g 0 0 = Some (take a [1])" "neighbours g 1 0 = Some [0]"
    using assms by (auto simp: neighbours_def index_def slice_def g_simps)
  have "shape_ok g" using assms by (auto simp: shape_ok_def two_slots less_Suc_eq) (auto simp: g_simps)
  moreover have has: "has_level g s l \<longleftrightarrow> (s = 0 \<or> s = 1) \<and> l = 0" for s l
    by (auto simp: has_level_def two_slots)
  have "links_ok g"
    unfolding links_ok_def
  proof (intro allI impI ballI)
    fix s l ns t assume "has_level g s l" "neighbours g s l = Some ns" "t \<in> set ns"
    then have "(s = 0 \<or> s = 1) \<and> l = 0" "neighbours g s l = Some ns" "t \<in> set ns" by (simp_all only: has)
    then have "t \<in> set (take a [1]) \<or> t \<in> set [0]" "l = 0" using lists by auto
    then have "(t = 0 \<or> t = 1) \<and> l = 0" by (auto dest: in_set_takeD)
    then show "has_level g t l" by (simp only: has)
  qed
  moreover have "words_ok g" by (simp add: words_ok_def g_simps)
  moreover have "rows_ok g"
    by (simp add: rows_ok_def) (simp add: g_simps flat_wf_def flat_len_def base_rows_def sample_rows_def
        hn_dims_def quant_wf_def quant_len_def)
  moreover have t: "\<not> is_tombstoned g s" for s
    by (auto simp: is_tombstoned_def g_simps index_def split: option.splits if_splits)
  then have "tombstones_ok g" by (simp add: tombstones_ok_def) (simp add: g_simps div_ceil_def)
  moreover have "hn_entry g = Some 0" "hn_max_level g = 0" by (simp_all add: g_simps)
  ultimately show ?thesis
    unfolding g_def [symmetric] by (auto simp: hnsw_wf_def graph_ok_def entry_ok_def two_slots)
qed

lemma sample_neighbours:
  "neighbours sample_index 0 0 = Some [1]" "neighbours sample_index 1 0 = Some [0]"
  by (simp_all add: neighbours_def index_def slice_def sample_index_def hnsw_new_def sample_params_def)

lemma sample_index_wf: "hnsw_wf sample_index"
proof -
  have "sample_index\<lparr>hn_level0_len := [1, 1]\<rparr> = sample_index" by (simp add: sample_index_def)
  with sample_graph_wf [of 1] show ?thesis by simp
qed

lemma sample_finite [simp]: "f32_is_finite f32_zero" "f32_is_finite f32_one" "f32_is_finite f32_two"
  by code_simp+

definition sample_crc :: "bytes \<Rightarrow> u32" where
  "sample_crc bs = word_of_nat (sum_list (map unat bs))"

definition sample_digest :: "bytes \<Rightarrow> bytes" where
  "sample_digest bs = replicate 32 (word_of_nat (length bs))"

definition sample_cast :: "bytes \<Rightarrow> f32 list" where
  "sample_cast bs = map u32_of_le (chunks 4 bs)"

definition sample_pid :: uuid where "sample_pid = replicate 16 7"

definition sample_entry :: entry where
  "sample_entry = \<lparr>e_seq = 1, e_op_id = replicate 16 3, e_operation = Upsert [65] [1, 2] [f32_one, f32_zero]\<rparr>"

definition sample_input :: snapshot_input where
  "sample_input =
     \<lparr>si_partition_id = sample_pid, si_dims = 2, si_metric = L2, si_params = sample_params,
      si_high_water = 2, si_keys = [([65], 0), ([66], 1)],
      si_slots = [\<lparr>rec_version = 1, rec_tombstone = False, rec_key_index = 0, rec_payload = [1, 2]\<rparr>,
                  \<lparr>rec_version = 2, rec_tombstone = False, rec_key_index = 1, rec_payload = []\<rparr>],
      si_vectors = hn_vectors sample_index, si_quantized = hn_quantized sample_index,
      si_graph = hnsw_graph_parts sample_index, si_idempotency = [(replicate 16 3, 1), (replicate 16 4, 2)]\<rparr>"

lemma sample_platform: "platform_ok sample_digest sample_cast 0"
  by (simp add: platform_ok_def sample_digest_def sample_cast_def chunks_u32_le)

lemma sample_encode: "\<exists>frame. entry_encode sample_crc sample_entry = Inr frame"
  by (simp add: entry_encode_def sample_entry_def encode_operation_def frame_consts Let_def)

lemma sample_input_fits: "input_fits sample_input"
proof -
  have "rows_ok sample_index" using sample_index_wf by (simp add: hnsw_wf_def graph_ok_def)
  moreover have "parts_fit sample_params 2 (hnsw_graph_parts sample_index)"
    by (simp add: parts_fit_def hnsw_graph_parts_def two_slots all_less_2)
      (simp add: sample_index_def hnsw_new_def sample_params_def div_ceil_def)
  ultimately show ?thesis
    by (simp add: input_fits_def sample_input_def sample_pid_def rows_ok_def numeral_2_eq_2 [symmetric])
qed

lemma sample_input_valid:
  "validate_structure (si_params sample_input) (length (si_slots sample_input)) (si_keys sample_input)
    (si_slots sample_input) (si_graph sample_input) = Inr ()"
  by code_simp

lemma sample_file_size: "length (snap_file sample_crc sample_digest sample_input) < 2 ^ 64"
  by code_simp

definition sample_dir :: wal_dir where
  "sample_dir = [(segment_name 1, encode_header sample_pid 1)]"

definition sample_writer :: wal_writer where
  "sample_writer = \<lparr>ww_partition_id = sample_pid, ww_path = segment_name 1, ww_bytes = HEADER_LEN,
     ww_next_seq = 1, ww_poisoned = False\<rparr>"

definition sample_io :: wal_io where
  "sample_io = \<lparr>io_seal = True, io_create = CreateOk, io_reopen = True, io_write = None, io_sync = True\<rparr>"

lemma sample_writer_ok: "writer_ok sample_crc sample_pid 1 sample_dir [(1, [])] sample_writer"
  using seg_content_empty [of sample_crc sample_pid 1]
  by (simp add: writer_ok_def log_ok_def sample_dir_def sample_writer_def sample_pid_def
      log_entries_def)

definition sample_window :: idem_window where
  "sample_window = iw_record (iw_new 3) [1] 7"

lemma sample_window_eq: "sample_window = \<lparr>iw_capacity = 3, iw_order = [[1]], iw_seqs = [[1] \<mapsto> 7]\<rparr>"
  by (simp add: sample_window_def iw_record_def iw_new_def Let_def)

lemma sample_window_wf: "iw_wf sample_window"
  by (simp add: sample_window_def iw_record_wf)

definition sample_config :: partition_config where
  "sample_config = config_new sample_pid 2 L2 sample_params"

definition sample_partition :: partition where
  "sample_partition = fresh_state sample_config L2"

lemma sample_config_valid: "cfg_validate sample_config = Inr ()"
  by code_simp

lemma sample_partition_wf: "part_wf sample_partition"
  unfolding sample_partition_def
  by (rule conjunct1 [OF fresh_state_wf [OF sample_config_valid]])
    (simp add: sample_config_def config_new_def metric_parse_def)

text \<open>A partition just created in an empty directory.\<close>

definition sample_pf :: platform where
  "sample_pf = \<lparr>pf_crc = sample_crc, pf_blake3 = sample_digest, pf_cast = sample_cast, pf_addr = 0,
     pf_ln = (\<lambda>_. f64_one), pf_to_json = (\<lambda>_. []), pf_of_json = (\<lambda>_. Some sample_config)\<rparr>"

definition sample_empty :: part_dir where
  "sample_empty = \<lparr>pd_manifest = None, pd_wal = [], pd_snap = [], pd_locked = False\<rparr>"

definition sample_home :: part_dir where
  "sample_home = \<lparr>pd_manifest = Some [], pd_wal = sample_dir, pd_snap = [], pd_locked = True\<rparr>"

definition sample_live :: partition where
  "sample_live = sample_partition\<lparr>pt_wal := Some sample_writer\<rparr>"

lemma sample_pf_simps [simp]:
  "pf_crc sample_pf = sample_crc" "pf_blake3 sample_pf = sample_digest" "pf_cast sample_pf = sample_cast"
  "pf_addr sample_pf = 0" "pf_ln sample_pf = (\<lambda>_. f64_one)" "pf_to_json sample_pf = (\<lambda>_. [])"
  "pf_of_json sample_pf = (\<lambda>_. Some sample_config)"
  by (simp_all add: sample_pf_def)

lemma sample_config_simps [simp]:
  "cfg_id sample_config = sample_pid" "cfg_dims sample_config = 2" "\<not> cfg_base_snapshot sample_config"
  "cfg_ram_budget sample_config = None" "cfg_idempotency_window sample_config < 4294967296" "length sample_pid = 16"
  by (simp_all add: sample_config_def config_new_def sample_pid_def DEFAULT_IDEMPOTENCY_WINDOW_def)

lemma sample_live_simps [simp]:
  "pt_config sample_live = sample_config" "pt_metric sample_live = L2" "pt_slots sample_live = []"
  "pt_key_table sample_live = []" "pt_high_water sample_live = 0" "pt_failpoint sample_live = None"
  "pt_idem sample_live = iw_new (cfg_idempotency_window sample_config)" "pt_wal sample_live = Some sample_writer"
  by (simp_all add: sample_live_def sample_partition_def fresh_state_def)

lemma sample_create:
  "part_create sample_pf ManifestOk CreateOk directory sample_empty sample_config = (sample_home, Inr sample_live)"
proof -
  have "cfg_parse_metric sample_config = Inr L2"
    by (simp add: cfg_parse_metric_def sample_config_def config_new_def metric_parse_def)
  moreover have "wal_open sample_crc CreateOk [] sample_pid 0 = (sample_dir, Inr sample_writer)"
    by (simp add: wal_open_def open_extend_def list_segments_def create_segment_def Let_def sample_dir_def sample_writer_def)
  ultimately show ?thesis
    by (simp add: part_create_def sample_config_valid part_lock_def sample_empty_def sample_home_def sample_live_def
        sample_partition_def)
qed

lemma sample_durable: "durable sample_pf 1 sample_home [(1, [])] sample_live"
  using durable_create [OF _ _ _ _ _ sample_create] by (simp add: sample_empty_def)

lemma sample_serving: "serving sample_pf 1 sample_dir [(1, [])] sample_live"
  using sample_durable by (simp add: durable_def sample_home_def)

lemma sample_room [simp]: "has_room sample_live" "log_room 1 [(1, [])]"
  by (simp_all add: has_room_def log_room_def log_entries_def)

lemma sample_io_good: "io_good sample_io"
  by (simp add: io_good_def sample_io_def)

lemma sample_remove:
  "\<exists>dir' p'. perform sample_pf sample_io sample_dir sample_live (replicate 16 3) (Remove [65]) =
    Some (dir', p', Inr \<lparr>ap_seq = 1, ap_deduplicated = False\<rparr>)"
proof -
  have "\<exists>bytes. encode_operation (Delete [65]) = Inr bytes"
    by (simp add: encode_operation_def check_key_def MAX_KEY_LEN_def)
  then obtain bytes where "encode_operation (Delete [65]) = Inr bytes" ..
  from mutate_live [OF sample_serving _ sample_io_good _ _ this, of "replicate 16 3"]
  show ?thesis by (simp add: perform_def delete_def iw_get_def iw_new_def op_ok_def)
qed

lemma sample_put:
  "\<exists>dir' p'. perform sample_pf sample_io sample_dir sample_live (replicate 16 3) (Put [65] [f32_one, f32_zero] [1, 2]) =
      Some (dir', p', Inr \<lparr>ap_seq = 1, ap_deduplicated = False\<rparr>) \<and>
    contents p' = [[65] \<mapsto> ([f32_one, f32_zero], [1, 2])] \<and> pt_failpoint p' = None"
proof -
  let ?op = "Upsert [65] [1, 2] [f32_one, f32_zero]"
  have "\<exists>bytes. encode_operation ?op = Inr bytes" by (simp add: encode_operation_def check_key_def frame_consts)
  then obtain bytes where e: "encode_operation ?op = Inr bytes" ..
  have ok: "op_ok sample_live ?op" by (simp add: op_ok_def)
  obtain dir' p' where m: "mutate sample_pf sample_io sample_dir sample_live (replicate 16 3) ?op =
      Some (dir', p', Inr \<lparr>ap_seq = 1, ap_deduplicated = False\<rparr>)"
    using mutate_live [OF sample_serving _ sample_io_good _ ok e, of "replicate 16 3"] by auto
  have "contents p' = spec_apply (pt_metric sample_live) ?op (contents sample_live)"
    using mutate_ok [OF sample_serving _ _ _ m] by auto
  moreover have "contents sample_live = Map.empty"
    using durable_create [OF _ _ _ _ _ sample_create] by (simp add: sample_empty_def)
  moreover have "pt_failpoint p' = None"
    using m by (elim mutate_Inr) (auto dest: apply_entry_failpoint(1))
  moreover have "prepare_vector sample_live [f32_one, f32_zero] = Inr [f32_one, f32_zero]"
    by (simp add: prepare_vector_def)
  ultimately show ?thesis
    using m by (simp add: perform_def upsert_def admit_def iw_get_def iw_new_def spec_apply_def)
qed

lemma sample_run: "run sample_pf directory sample_config \<lparr>rn_dir = sample_home, rn_part = sample_live, rn_acked = [], rn_plan = None\<rparr>"
  by (rule run.created [OF _ _ sample_create]) (simp_all add: sample_empty_def)

end
