(* ===== verification/Index_Properties.thy ===== *)
theory Index_Properties
  imports Samples
begin

text \<open>
  The properties of the index: the distance kernels, the row store, the exact oracle, the int8
  copies and the HNSW graph. Each is stated over the definitions of the component theories and
  rests on their lemmas and on the interpretations of their locales.
\<close>

section \<open>Shared lemmas\<close>

definition sample_filter :: bitmap where
  "sample_filter = \<lparr>rb_is_empty = False, rb_len = 1, rb_contains = (\<lambda>s. s = 1), rb_iter = [1]\<rparr>"

lemma oracle_hits_enum:
  assumes "flat_wf vectors"
  shows "oracle_hits vectors metric query allow =
    map (\<lambda>i. \<lparr>hit_id = i, hit_distance = distance metric query (flat_rows vectors ! i)\<rparr>)
      (filter allow [0..<flat_len vectors])"
proof -
  have "flat_enum vectors = map (\<lambda>i. (i, flat_rows vectors ! i)) [0..<flat_len vectors]"
    by (intro nth_equalityI) (simp_all add: flat_enum_def flat_wf_len [OF assms])
  then show ?thesis by (simp add: oracle_hits_def filter_map o_def)
qed

lemma quantize_code_bound: "c \<in> set (qq_codes (quantize v)) \<Longrightarrow> \<bar>sint c\<bar> \<le> 127"
  using quant_code_range by (auto simp: quantize_def Let_def split: if_splits)

lemma descend_Some:
  assumes "hnsw_wf g" and "hn_entry g = Some e"
  shows "\<exists>r. greedy_descend (hn_greedy_closest g (hn_dist g query)) 0 e (hn_max_level g) = Some r"
  using hs.greedy_descend_ok [OF hnsw_wf_entry(2,1) [OF assms], of "(F32, query)" 0]
  by (auto simp: hn_greedy_closest_def [abs_def] traverse_dist_def)

section \<open>Approximate search\<close>

text \<open>C21: On a well-formed index a search never panics, whatever the mode, the width of the beam and
  the filter. It returns at most \<open>k\<close> hits with distinct ids in strictly ascending rank, and
  every hit is a live slot the filter accepts, with its exact distance even in int8 mode.\<close>

theorem search_with_sound:
  assumes "hnsw_wf g" and "length query = hn_dims g"
  shows "\<exists>hits. search_with g query k ef mode allow = Some hits \<and> length hits \<le> k \<and>
    sorted_wrt (\<lambda>a b. cmp_rank a b = Less) hits \<and>
    (\<forall>h\<in>set hits. hit_id h < hn_len g \<and> hn_accepts g allow (hit_id h) \<and>
       hn_dist g query (hit_id h) = Some (hit_distance h))"
proof -
  obtain P where P: "search_with g query k ef mode allow = Some (take k (ranked_hits g query P))"
    "\<forall>s. P s \<longrightarrow> s < hn_len g \<and> hn_accepts g allow s"
    using search_with_ranked [OF assms] by blast
  show ?thesis
    using P ranked_hits_ok [where g = g and query = query and P = P]
    by (auto intro!: sorted_wrt_take dest!: in_set_takeD)
qed

theorem search_with_sound_witness:
  "\<exists>hits. search_with sample_index [f32_one, f32_one] 1 4 (Int8 100) None = Some hits \<and>
    length hits \<le> 1 \<and> sorted_wrt (\<lambda>a b. cmp_rank a b = Less) hits \<and>
    (\<forall>h\<in>set hits. hit_id h < hn_len sample_index \<and> hn_accepts sample_index None (hit_id h) \<and>
       hn_dist sample_index [f32_one, f32_one] (hit_id h) = Some (hit_distance h))"
  using search_with_sound [OF sample_index_wf, of "[f32_one, f32_one]" 1 4 "Int8 100" None] by simp

text \<open>C22: A search whose beam is at least as wide as the index is exact: it returns what the oracle
  returns over the live, accepted slots that level 0 reaches from the slot the descent stops at.\<close>

theorem wide_search_exact:
  assumes "hnsw_wf g" and "length query = hn_dims g" and "hn_entry g = Some e" and "hn_len g \<le> ef"
  shows "\<exists>r. greedy_descend (hn_greedy_closest g (hn_dist g query)) 0 e (hn_max_level g) = Some r \<and>
    search_with g query k ef F32 allow = Some (oracle_search (hn_vectors g) (hn_metric g) query k
      (\<lambda>s. reachable (\<lambda>s. neighbours g s 0) {r} s \<and> hn_accepts g allow s))"
proof -
  have "rows_ok g" using assms(1) by (simp add: hnsw_wf_def graph_ok_def)
  note exact = oracle_search_ranked [OF this]
  obtain r where r: "greedy_descend (hn_greedy_closest g (hn_dist g query)) 0 e (hn_max_level g) = Some r"
    using descend_Some [OF assms(1,3)] by blast
  then show ?thesis using search_with_full [OF assms(1-4) r] by (simp add: exact)
qed

theorem wide_search_exact_witness:
  "\<exists>r. greedy_descend (hn_greedy_closest sample_index (hn_dist sample_index [f32_one, f32_one])) 0 0 0
      = Some r \<and>
    search_with sample_index [f32_one, f32_one] 2 2 F32 None =
      Some (oracle_search (hn_vectors sample_index) L2 [f32_one, f32_one] 2
        (\<lambda>s. reachable (\<lambda>s. neighbours sample_index s 0) {r} s \<and> hn_accepts sample_index None s))"
  using wide_search_exact [OF sample_index_wf, of "[f32_one, f32_one]" 0 2 2 None] by simp

text \<open>C23: A filtered search below the cutover is the oracle over the filter's live slots.\<close>

theorem filtered_search_exact:
  assumes "hnsw_wf g" and "length query = hn_dims g" and "bitmap_ok allowed" and "0 < k"
    and "rb_len allowed \<le> cutover"
  shows "search_filtered g query k ef mode allowed cutover =
    Some (oracle_search (hn_vectors g) (hn_metric g) query k
      (\<lambda>s. s \<in> set (rb_iter allowed) \<and> \<not> is_tombstoned g s))"
proof -
  have rows: "rows_ok g" using assms(1) by (simp add: hnsw_wf_def graph_ok_def)
  have b: "distinct (rb_iter allowed)" "rb_is_empty allowed \<longleftrightarrow> rb_iter allowed = []"
    using assms(3) by (simp_all add: bitmap_ok_def)
  show ?thesis
    using assms(4,5) b(2) search_exact_over_ranked [OF rows b(1) assms(2), of k]
    by (simp add: search_filtered_def oracle_search_ranked [OF rows] ranked_hits_empty)
qed

theorem filtered_search_exact_witness:
  "search_filtered sample_index [f32_one, f32_one] 1 4 F32 sample_filter (filter_cutover 4) =
    Some (oracle_search (hn_vectors sample_index) L2 [f32_one, f32_one] 1
      (\<lambda>s. s \<in> set (rb_iter sample_filter) \<and> \<not> is_tombstoned sample_index s))"
  using filtered_search_exact [OF sample_index_wf, of "[f32_one, f32_one]" sample_filter 1
      "filter_cutover 4" 4 F32]
  by (simp add: bitmap_ok_def sample_filter_def filter_cutover_def FILTER_CUTOVER_PER_EF_def)

text \<open>The beam search of a layer does not depend on what earlier searches left in the
  thread-local visited set: any well-formed scratch set gives the results of a fresh one.\<close>

theorem search_scratch_independent:
  assumes "hnsw_wf g" and "visited_wf scratch" and "\<forall>s\<in>set entries. has_level g s l"
  shows "map_option bm_results (search_layer scratch (hn_len g) (hn_reader g l)
      (traverse_dist g (mode, query)) entries ef accepts) =
    hn_search_layer g (traverse_dist g (mode, query)) entries ef l accepts"
  unfolding hn_search_layer_def
  using hs.search_layer_scratch [of g scratch visited_new entries l "(mode, query)" ef accepts] assms
  by (simp add: hnsw_wf_def)

theorem search_scratch_independent_witness:
  "map_option bm_results (search_layer \<lparr>vis_bits = [1], vis_touched = [0]\<rparr> (hn_len sample_index)
      (hn_reader sample_index 0) (traverse_dist sample_index (F32, [f32_one, f32_one])) [0] 4 (\<lambda>_. True)) =
    hn_search_layer sample_index (traverse_dist sample_index (F32, [f32_one, f32_one])) [0] 4 0 (\<lambda>_. True)"
  by (rule search_scratch_independent [OF sample_index_wf])
    (auto simp: visited_wf_def has_level_def)

section \<open>Walking and linking\<close>

text \<open>C24: The greedy walk of a level always ends, on a slot of that level that is at least as close as
  its start and that no neighbour on the level improves on.\<close>

theorem greedy_walk_local_optimum:
  assumes "hnsw_wf g" and "has_level g start l" and "hn_dist g query start = Some d0"
  shows "\<exists>r d ns. hn_greedy_closest g (hn_dist g query) l start = Some r \<and> has_level g r l \<and>
    hn_dist g query r = Some d \<and> (r = start \<or> improves d r d0 start) \<and>
    neighbours g r l = Some ns \<and>
    (\<forall>n\<in>set ns. \<forall>d'. hn_dist g query n = Some d' \<longrightarrow> \<not> improves d' n d r)"
proof -
  have "graph_ok g" using assms(1) by (simp add: hnsw_wf_def)
  from hs.greedy_loop_ok [OF this assms(2), of "(F32, query)" d0 0] assms(3)
  show ?thesis
    by (auto simp: hn_greedy_closest_def greedy_closest_def traverse_dist_def hn_reader_def)
qed

theorem greedy_walk_local_optimum_witness:
  "\<exists>r d ns. hn_greedy_closest sample_index (hn_dist sample_index [f32_zero, f32_zero]) 0 1 = Some r \<and>
    has_level sample_index r 0 \<and> hn_dist sample_index [f32_zero, f32_zero] r = Some d \<and>
    (r = 1 \<or> improves d r (l2_squared [f32_zero, f32_zero] [f32_zero, f32_two]) 1) \<and>
    neighbours sample_index r 0 = Some ns \<and>
    (\<forall>n\<in>set ns. \<forall>d'. hn_dist sample_index [f32_zero, f32_zero] n = Some d' \<longrightarrow> \<not> improves d' n d r)"
  by (rule greedy_walk_local_optimum [OF sample_index_wf])
    (simp_all add: has_level_def hn_dist_def flat_get_def base_rows_def sample_rows_def checked_mul_def
      slice_def)

text \<open>C25: Inserting a vector of the right shape into a well-formed index with room for its slot never
  panics: it appends the vector as the next slot, keeps every older row, and leaves a well-formed
  index with the same parameters, metric and tombstones.\<close>

theorem insert_preserves_index:
  assumes "hnsw_wf g" and "hn_len g < 2 ^ 32" and "length x = hn_dims g" and "list_all f32_is_finite x"
  shows "\<exists>g'. hnsw_insert ln64 g x = Some (Inr (hn_len g, g')) \<and> hnsw_wf g' \<and>
    hn_len g' = Suc (hn_len g) \<and>
    flat_rows (hn_vectors g') = flat_rows (hn_vectors g) @
      [if normalizes (hn_metric g) then snd (normalize x) else x] \<and>
    hn_params g' = hn_params g \<and> hn_metric g' = hn_metric g \<and>
    (\<forall>s. is_tombstoned g' s \<longleftrightarrow> is_tombstoned g s)"
proof -
  have wf: "flat_wf (hn_vectors g)" using assms(1) by (simp add: hnsw_wf_def graph_ok_def rows_ok_def)
  obtain v where v: "flat_push (hn_vectors g) x (hn_metric g) = Inr (flat_len (hn_vectors g), v)"
    using flat_push_ok [of x "hn_vectors g"] assms(3,4) by (auto simp: hn_dims_def)
  show ?thesis
    using hnsw_insert_ok [OF assms(1,2) v, of ln64] flat.push_ok [OF wf v] by auto
qed

theorem insert_preserves_index_witness:
  "\<exists>g'. hnsw_insert (\<lambda>_. f64_one) sample_index [f32_two, f32_two] = Some (Inr (2, g')) \<and> hnsw_wf g' \<and>
    hn_len g' = 3 \<and>
    flat_rows (hn_vectors g') = flat_rows (hn_vectors sample_index) @ [[f32_two, f32_two]] \<and>
    hn_params g' = sample_params \<and> hn_metric g' = L2 \<and>
    (\<forall>s. is_tombstoned g' s \<longleftrightarrow> is_tombstoned sample_index s)"
  using insert_preserves_index [OF sample_index_wf, of "[f32_two, f32_two]" "\<lambda>_. f64_one"]
  by simp

text \<open>The neighbour heuristic selects as many candidates as asked for or as there are, each at
  most once, and always the nearest candidate first.\<close>

theorem heuristic_selects:
  assumes "\<forall>c\<in>set candidates. \<exists>row. flat_get vectors (snd c) = Some row"
  shows "\<exists>sel. select_heuristic vectors metric candidates m = Some sel \<and>
    length sel = min m (length candidates) \<and> mset sel \<subseteq># mset (map snd candidates) \<and>
    (candidates \<noteq> [] \<and> 0 < m \<longrightarrow> hd sel = snd (hd (sort_by far_cmp candidates)))"
  by (rule select_heuristic_ok) (use assms in \<open>auto simp: rows_present_def\<close>)

theorem heuristic_selects_witness:
  "\<exists>sel. select_heuristic (hn_vectors sample_index) L2 [(f32_two, 1), (f32_one, 0)] 1 = Some sel \<and>
    length sel = 1 \<and> mset sel \<subseteq># {#1, 0#} \<and> hd sel = 0"
proof -
  have "sort_by far_cmp [(f32_two, 1), (f32_one, 0)] = [(f32_one, 0), (f32_two, 1)]" by code_simp
  then show ?thesis
    using heuristic_selects [of "[(f32_two, 1), (f32_one, 0)]" "hn_vectors sample_index" L2 1]
    by (simp add: flat_get_def base_rows_def sample_rows_def checked_mul_def slice_def)
qed

text \<open>Tombstoning a slot of a well-formed index marks exactly that slot, reports whether it was
  live, keeps the count of tombstones exact, and changes nothing else.\<close>

theorem tombstone_marks:
  assumes "hnsw_wf g" and "s < hn_len g"
  shows "\<exists>g'. tombstone g s = Some (\<not> is_tombstoned g s, g') \<and> hnsw_wf g' \<and>
    (\<forall>t. is_tombstoned g' t \<longleftrightarrow> t = s \<or> is_tombstoned g t) \<and>
    live_len g' = (if is_tombstoned g s then live_len g else live_len g - 1) \<and>
    g' = g\<lparr>hn_tombstones := hn_tombstones g', hn_tombstone_count := hn_tombstone_count g'\<rparr>"
proof -
  obtain g' where g': "tombstone g s = Some (\<not> is_tombstoned g s, g')" "hnsw_wf g'"
    "\<forall>t. is_tombstoned g' t \<longleftrightarrow> t = s \<or> is_tombstoned g t"
    "g' = g\<lparr>hn_tombstones := hn_tombstones g', hn_tombstone_count := hn_tombstone_count g'\<rparr>"
    using hnsw_wf_tombstone [OF assms] by blast
  have "hn_len g' = hn_len g" by (subst g'(4)) simp
  moreover have "{t. is_tombstoned g' t} = insert s {t. is_tombstoned g t}" using g'(3) by auto
  moreover have t: "tombstones_ok g" "tombstones_ok g'"
    using assms(1) g'(2) by (simp_all add: hnsw_wf_def graph_ok_def)
  moreover have "finite {t. is_tombstoned g t}"
    using t(1) finite_subset [OF _ finite_lessThan] by (auto simp: tombstones_ok_def)
  ultimately have "live_len g' = (if is_tombstoned g s then live_len g else live_len g - 1)"
    by (auto simp: live_len_def tombstones_ok_def card_insert_if)
  with g' show ?thesis by blast
qed

theorem tombstone_marks_witness:
  "\<exists>g'. tombstone sample_index 1 = Some (\<not> is_tombstoned sample_index 1, g') \<and> hnsw_wf g' \<and>
    (\<forall>t. is_tombstoned g' t \<longleftrightarrow> t = 1 \<or> is_tombstoned sample_index t) \<and>
    live_len g' = (if is_tombstoned sample_index 1 then live_len sample_index
                   else live_len sample_index - 1) \<and>
    g' = sample_index\<lparr>hn_tombstones := hn_tombstones g', hn_tombstone_count := hn_tombstone_count g'\<rparr>"
  using tombstone_marks [OF sample_index_wf, of 1] by simp

text \<open>Taking a well-formed index apart for a snapshot and putting it together again gives the
  same index.\<close>

theorem parts_round_trip:
  assumes "hnsw_wf g"
  shows "hnsw_from_parts (hn_params g) (hn_metric g) (hn_vectors g) (hn_quantized g)
    (hnsw_graph_parts g) = Some g"
  by (rule hnsw_from_parts_graph_parts [OF assms])

theorem parts_round_trip_witness:
  "hnsw_from_parts sample_params L2 (hn_vectors sample_index) (hn_quantized sample_index)
    (hnsw_graph_parts sample_index) = Some sample_index"
  using parts_round_trip [OF sample_index_wf] by simp

text \<open>The level drawn for a slot never exceeds 31, whatever the natural logarithm returns.\<close>

theorem level_bounded: "level_for ln64 params slot \<le> 31"
  by (rule level_for_le)

section \<open>Exact search\<close>

text \<open>The bounded collector is exact: pushing hits with distinct ranks one by one and sorting
  what it kept gives the \<open>k\<close> best of them in rank order.\<close>

theorem collector_exact:
  assumes "distinct (map hit_id hits)"
  shows "into_sorted (foldl topk_push (topk_new k) hits) = take k (sort_key rank_key hits)"
  by (rule topk_exact [OF inj_rank_key [OF assms]])

theorem collector_exact_witness:
  "into_sorted (foldl topk_push (topk_new 1)
      [\<lparr>hit_id = 4, hit_distance = f32_two\<rparr>, \<lparr>hit_id = 9, hit_distance = f32_one\<rparr>]) =
    take 1 (sort_key rank_key
      [\<lparr>hit_id = 4, hit_distance = f32_two\<rparr>, \<lparr>hit_id = 9, hit_distance = f32_one\<rparr>])"
  by (rule collector_exact) simp

text \<open>The rank order of hits is a total order in which NaN distances come last and ties are
  broken by id: it is transitive, antisymmetric under reversal, and only a hit with the same id and
  an equal distance compares as equal.\<close>

theorem rank_total_order:
  "cmp_rank b a = rev_cmp (cmp_rank a b) \<and>
   (cmp_rank a b = Less \<longrightarrow> cmp_rank b c = Less \<longrightarrow> cmp_rank a c = Less) \<and>
   (cmp_rank a b = Equal \<longleftrightarrow> hit_id a = hit_id b \<and>
      (f32_is_nan (hit_distance a) \<and> f32_is_nan (hit_distance b) \<or>
       f32_eq (hit_distance a) (hit_distance b))) \<and>
   (\<not> f32_is_nan (hit_distance a) \<longrightarrow> f32_is_nan (hit_distance b) \<longrightarrow> cmp_rank a b = Less)"
proof -
  have "cmp_rank b a = rev_cmp (cmp_rank a b)" by (simp add: cmp_rank_key rev_cmp_of)
  moreover have "cmp_rank a b = Less \<longrightarrow> cmp_rank b c = Less \<longrightarrow> cmp_rank a c = Less"
    by (auto simp: cmp_rank_key)
  moreover have "cmp_rank a b = Equal \<longleftrightarrow> rank_key a = rank_key b" by (simp add: cmp_rank_key)
  moreover note f32_key_bound [of "hit_distance a"] f32_key_bound [of "hit_distance b"]
  ultimately show ?thesis by (auto simp: rank_key_def f32_eq_def cmp_rank_key)
qed

theorem rank_total_order_witness:
  "cmp_rank \<lparr>hit_id = 1, hit_distance = f32_one\<rparr> \<lparr>hit_id = 0, hit_distance = 0x7FC00000\<rparr> = Less \<and>
   cmp_rank \<lparr>hit_id = 0, hit_distance = 0x7FC00000\<rparr> \<lparr>hit_id = 1, hit_distance = f32_one\<rparr> = Greater"
proof -
  have "\<not> f32_is_nan f32_one" "f32_is_nan 0x7FC00000" by code_simp+
  with rank_total_order [of "\<lparr>hit_id = 0, hit_distance = 0x7FC00000\<rparr>"
      "\<lparr>hit_id = 1, hit_distance = f32_one\<rparr>" "\<lparr>hit_id = 1, hit_distance = f32_one\<rparr>"]
  show ?thesis by (simp add: cmp_rank_def [symmetric])
qed

text \<open>The oracle returns the \<open>k\<close> best of all admitted rows in rank order, each at its exact
  distance to the query.\<close>

theorem oracle_is_brute_force:
  assumes "flat_wf vectors"
  shows "oracle_search vectors metric query k allow =
    take k (sort_key rank_key
      (map (\<lambda>i. \<lparr>hit_id = i, hit_distance = distance metric query (flat_rows vectors ! i)\<rparr>)
        (filter allow [0..<flat_len vectors])))"
proof -
  note enum = oracle_hits_enum [OF assms, of metric query allow]
  show ?thesis
    unfolding oracle_search_foldl
    by (subst topk_exact [OF inj_rank_key [OF oracle_hits_distinct]]) (simp only: enum)
qed

theorem oracle_is_brute_force_witness:
  "oracle_search (hn_vectors sample_index) L2 [f32_zero, f32_zero] 1 (\<lambda>_. True) =
    take 1 (sort_key rank_key
      (map (\<lambda>i. \<lparr>hit_id = i, hit_distance = distance L2 [f32_zero, f32_zero]
          (flat_rows (hn_vectors sample_index) ! i)\<rparr>) (filter (\<lambda>_. True) [0..<2])))"
proof -
  have "rows_ok sample_index" using sample_index_wf by (simp add: hnsw_wf_def graph_ok_def)
  then have "flat_wf (hn_vectors sample_index)" "flat_len (hn_vectors sample_index) = 2"
    unfolding rows_ok_def by auto
  with oracle_is_brute_force [of "hn_vectors sample_index" L2 "[f32_zero, f32_zero]" 1 "\<lambda>_. True"]
  show ?thesis by simp
qed

section \<open>Kernels and rows\<close>

text \<open>C30: The unrolled int8 dot product is exact for every dimension the engine admits: the 32-bit
  accumulators never overflow, so it equals the integer dot product of the codes.\<close>

theorem dot_i8_exact:
  assumes "length a = length b" and "length a \<le> MAX_DIMS"
  shows "sint (dot_i8 a b) = int_dot a b"
proof -
  have "\<bar>int_dot a b\<bar> \<le> 16384 * 65536"
    using int_dot_bound [of a b] assms(2) by (simp add: MAX_DIMS_def)
  then have "- (2 ^ 31) \<le> int_dot a b \<and> int_dot a b < 2 ^ 31" by (simp add: abs_le_iff)
  then show ?thesis
    by (simp add: dot_i8_int_dot [OF assms(1)] sint_sbintrunc' signed_take_bit_int_eq_self)
qed

theorem dot_i8_exact_witness:
  "sint (dot_i8 (replicate 65 0x80) (replicate 65 0x80)) = int_dot (replicate 65 0x80) (replicate 65 0x80)"
  by (rule dot_i8_exact) (simp_all add: MAX_DIMS_def)

text \<open>Quantizing keeps the number of components and gives codes between -127 and 127, so the
  code -128 never occurs.\<close>

theorem quantize_codes:
  "length (qq_codes (quantize v)) = length v \<and> list_all (\<lambda>c. \<bar>sint c\<bar> \<le> 127) (qq_codes (quantize v))"
  using quantize_code_bound by (auto simp: list_all_iff)

text \<open>A row read back after a push is the pushed vector (unit-normalized for cosine), every
  other row is unchanged, and ids are consecutive; a vector of another length or with a component
  that is not finite is refused.\<close>

theorem flat_push_get:
  assumes "flat_wf v" and "j < 2 ^ 32"
  shows "(case flat_push v x metric of
      Inr (i, v') \<Rightarrow> i = flat_len v \<and> flat_wf v' \<and> flat_len v' = Suc (flat_len v) \<and>
        flat_get v' j = (if j = i then Some (if normalizes metric then snd (normalize x) else x)
                         else flat_get v j)
    | Inl e \<Rightarrow> e = WrongDims (fv_dims v) (length x) \<and> length x \<noteq> fv_dims v \<or>
        e = NonFinite \<and> \<not> list_all f32_is_finite x)"
proof (cases "flat_push v x metric")
  case (Inl e)
  then show ?thesis by (auto simp: flat_push_def list_all_iff list_ex_iff split: if_splits)
next
  case (Inr r)
  then obtain i v' where r: "flat_push v x metric = Inr (i, v')" by (cases r) simp
  show ?thesis
    using flat.push_ok [OF assms(1) r] flat.push_len [OF assms(1) r] flat.get_push [OF assms(1) r assms(2)]
    by (auto simp: r)
qed

theorem flat_push_get_witness:
  "flat_wf (flat_new 2) \<and> (case flat_push (flat_new 2) [f32_one, f32_two] L2 of
      Inr (i, v') \<Rightarrow> i = flat_len (flat_new 2) \<and> flat_wf v' \<and> flat_len v' = Suc (flat_len (flat_new 2)) \<and>
        flat_get v' 0 = (if 0 = i then Some [f32_one, f32_two] else flat_get (flat_new 2) 0)
    | Inl e \<Rightarrow> e = WrongDims 2 2 \<and> False \<or> e = NonFinite \<and> \<not> list_all f32_is_finite [f32_one, f32_two])"
  using flat_push_get [OF flat_new_wf [of 2], of 0 "[f32_one, f32_two]" L2] flat_new_wf [of 2]
  by (auto split: sum.splits)

text \<open>On finite vectors distances are symmetric for every metric, and the squared Euclidean
  distance is a non-negative number, never NaN, and zero from a vector to itself.\<close>

theorem distance_laws:
  assumes "\<forall>x\<in>set a. f32_is_finite x" and "\<forall>y\<in>set b. f32_is_finite y"
  shows "distance m a b = distance m b a \<and> f32_nonneg (distance L2 a b) \<and> distance L2 a a = f32_zero"
  using l2_squared_commute [OF assms] l2_squared_nonneg [OF assms] l2_squared_self [OF assms(1)]
  by (cases m) (simp_all add: dot_commute)

theorem distance_laws_witness:
  "distance L2 [f32_one] [f32_two] = distance L2 [f32_two] [f32_one] \<and>
    f32_nonneg (distance L2 [f32_one] [f32_two]) \<and> distance L2 [f32_one] [f32_one] = f32_zero"
  by (rule distance_laws) simp_all

end
