(* ===== verification/Hnsw_Race.thy ===== *)
theory Hnsw_Race
  imports Hnsw_Bulk
begin

text \<open>
  Two workers that link each other. Three equal rows with an upper level each: the worker of slot 1
  links level 1 and is delayed, the worker of slot 2 finds slot 1 there and links back to it at
  level 0, and the first worker then reaches its own slot through slot 2. It selects itself as a
  neighbour, and once more when it links back. The schedule is executed step by step; the
  distance of a row to itself need not be evaluated.
\<close>

section \<open>A schedule\<close>

fun run_schedule ::
  "nat \<Rightarrow> nat \<Rightarrow> nat list \<Rightarrow> build_core \<times> worker list \<Rightarrow> (build_core \<times> worker list) option" where
  "run_schedule entry M [] st = Some st"
| "run_schedule entry M (i # is) (core, ws) =
     Option.bind (index ws i) (\<lambda>w.
     Option.bind (thread_step core entry M w) (\<lambda>(ll, w').
       run_schedule entry M is (core\<lparr>bc_links := ll\<rparr>, ws[i := w'])))"

lemma run_schedule_steps:
  "run_schedule entry M is st = Some st' \<Longrightarrow> (build_step entry M)\<^sup>*\<^sup>* st st'"
proof (induction entry M "is" st rule: run_schedule.induct)
  case (2 entry M i "is" core ws)
  then obtain ll w where i: "i < length ws" "thread_step core entry M (ws ! i) = Some (ll, w)"
    "run_schedule entry M is (core\<lparr>bc_links := ll\<rparr>, ws[i := w]) = Some st'"
    by (auto simp: bind_eq_Some_conv index_eq_Some)
  have "(build_step entry M)\<^sup>*\<^sup>* (core\<lparr>bc_links := ll\<rparr>, ws[i := w]) st'"
    using 2 i by (auto simp: index_def)
  with build_step.step [OF i(1,2)] show ?case by (rule converse_rtranclp_into_rtranclp)
qed simp

section \<open>Three equal rows\<close>

definition twins :: flat_vectors where
  "twins = \<lparr>fv_dims = 1, fv_base = None, fv_tail = [0, 0, 0]\<rparr>"

definition twin_params :: hnsw_params where
  "twin_params = \<lparr>hp_m = 2, hp_m0 = 4, hp_ef_construction = 4, hp_seed = 0\<rparr>"

definition twin_core :: "nat list list \<Rightarrow> nat list list list \<Rightarrow> build_core" where
  "twin_core level0 upper =
     \<lparr>bc_metric = L2, bc_vectors = twins, bc_params = twin_params,
      bc_links = \<lparr>ll_m = 2, ll_m0 = 4, ll_level0 = level0, ll_upper = upper\<rparr>\<rparr>"

lemma twin_get: "s < 3 \<Longrightarrow> flat_get twins s = Some [0]"
  by (auto simp: twins_def flat_get_def base_rows_def checked_mul_def slice_def less_Suc_eq numeral_3_eq_3)

lemma twin_dist: "s < 3 \<Longrightarrow> bc_dist (twin_core level0 upper) [0] s = Some (distance L2 [0] [0])"
  by (simp add: bc_dist_def twin_core_def twin_get)

lemma far_same: "far_cmp (d, i) (d, j) = cmp_of i j"
  by (simp add: far_cmp_def partial_cmp_def then_cmp_def cmp_of_def)

lemma twin_fields:
  "flat_len twins = 3" "bc_vectors (twin_core a b) = twins" "bc_metric (twin_core a b) = L2"
  "bc_params (twin_core a b) = twin_params"
  "bc_links (twin_core a b) = \<lparr>ll_m = 2, ll_m0 = 4, ll_level0 = a, ll_upper = b\<rparr>"
  "(twin_core a b)\<lparr>bc_links := \<lparr>ll_m = 2, ll_m0 = 4, ll_level0 = c, ll_upper = d\<rparr>\<rparr> = twin_core c d"
  by (simp_all add: twin_core_def flat_len_def twins_def base_rows_def)

lemmas twin_simps = twin_get twin_dist twin_fields far_same near_cmp_def twin_params_def
  index_def store_def thread_step_def Let_def begin_beam_def descend_to_def end_beam_def
  merge_own_def link_to_def update_list_def links_list_def links_put_def links_capacity_def
  prune_def far_from_def select_heuristic_def sort_by_def cmp_of_def improves_def
  heap_push_def heap_peek_def heap_pop_def beam_done_def beam_admits_def
  visited_insert_def visited_reset_def slot_mask_def div_ceil_def new_worker_def visited_new_def

definition twin_worker :: "nat \<Rightarrow> u64 \<Rightarrow> nat \<Rightarrow> phase \<Rightarrow> worker" where
  "twin_worker slot bits first p =
     \<lparr>wk_slot = slot, wk_level = 1, wk_query = [0],
      wk_scratch = \<lparr>vis_bits = [bits], vis_touched = [first]\<rparr>, wk_phase = p\<rparr>"

abbreviation "d0 \<equiv> distance L2 [0] [0]"

definition twin_start :: "build_core \<times> worker list" where
  "twin_start = (twin_core [[], [], []] [[[]], [[]], [[]]],
     map2 (new_worker [1, 1, 1]) [1, 2] [visited_new, visited_new])"

text \<open>The first worker links its slot at level 1 and waits.\<close>

definition twin_waiting :: "build_core \<times> worker list" where
  "twin_waiting = (twin_core [[], [], []] [[[1]], [[0]], [[]]],
     [twin_worker 1 1 0 (Back 1 [(d0, 0)] []), new_worker [1, 1, 1] 2 visited_new])"

text \<open>The second worker finds the first slot and links both of its levels.\<close>

definition twin_found :: "build_core \<times> worker list" where
  "twin_found = (twin_core [[], [], []] [[[1]], [[0]], [[0, 1]]],
     [twin_worker 1 1 0 (Back 1 [(d0, 0)] []), twin_worker 2 3 0 (Back 1 [(d0, 1), (d0, 0)] [0, 1])])"

definition twin_below :: "build_core \<times> worker list" where
  "twin_below = (twin_core [[], [], []] [[[1, 2]], [[0, 2]], [[0, 1]]],
     [twin_worker 1 1 0 (Back 1 [(d0, 0)] []),
      twin_worker 2 3 0 (Beam 0 \<lparr>bm_visited = \<lparr>vis_bits = [3], vis_touched = [1]\<rparr>,
        bm_candidates = [], bm_results = [(d0, 1), (d0, 0)]\<rparr>)])"

definition twin_linked :: "build_core \<times> worker list" where
  "twin_linked = (twin_core [[2], [2], [0, 1]] [[[1, 2]], [[0, 2]], [[0, 1]]],
     [twin_worker 1 1 0 (Back 1 [(d0, 0)] []), twin_worker 2 3 1 Finished])"

text \<open>The first worker now finds its own slot through the second.\<close>

definition twin_self :: "build_core \<times> worker list" where
  "twin_self = (twin_core [[2], [2], [0, 1]] [[[1, 2]], [[0, 2]], [[0, 1]]],
     [twin_worker 1 7 0 (Own 0 [(d0, 2), (d0, 1), (d0, 0)] [0, 1, 2]), twin_worker 2 3 1 Finished])"

definition twin_end :: "build_core \<times> worker list" where
  "twin_end = (twin_core [[2, 1], [0, 1, 2, 1], [0, 1, 1]] [[[1, 2]], [[0, 2]], [[0, 1]]],
     [twin_worker 1 7 0 Finished, twin_worker 2 3 1 Finished])"

lemma twin_runs:
  "run_schedule 0 1 [0, 0, 0, 0, 0] twin_start = Some twin_waiting"
  "run_schedule 0 1 [1, 1, 1, 1, 1] twin_waiting = Some twin_found"
  "run_schedule 0 1 [1, 1, 1, 1, 1] twin_found = Some twin_below"
  "run_schedule 0 1 [1, 1, 1, 1, 1] twin_below = Some twin_linked"
  "run_schedule 0 1 [0, 0, 0, 0, 0] twin_linked = Some twin_self"
  "run_schedule 0 1 [0, 0, 0, 0, 0] twin_self = Some twin_end"
  by (simp_all add: twin_start_def twin_waiting_def twin_found_def twin_below_def twin_linked_def
      twin_self_def twin_end_def twin_worker_def twin_simps)

lemma twin_run: "(build_step 0 1)\<^sup>*\<^sup>* twin_start twin_end"
  using twin_runs [THEN run_schedule_steps] by (meson rtranclp_trans)

end
