(* ===== verification/Build_Properties.thy ===== *)
theory Build_Properties
  imports Hnsw_Race Samples
begin

text \<open>
  Properties of the parallel build: the graph any interleaving gives, progress and termination of
  the workers, the repair of level 0, and what two racing insertions can do to a list.
\<close>

section \<open>The built graph\<close>

text \<open>C26: Building an index in parallel ends with a graph, and every graph some interleaving of the
  insertions ends with satisfies the index invariant: all links lead to slots of their level, degrees
  and levels are bounded, the entry is on the top level, the rows are the ones given, in order, with
  their codes, and nothing is tombstoned.\<close>

theorem parallel_build_well_formed:
  assumes "build_fits vectors params"
  shows "(\<exists>g. built ln64 vectors metric params g) \<and>
    (\<forall>g. built ln64 vectors metric params g \<longrightarrow>
       hnsw_wf g \<and> hn_len g = flat_len vectors \<and> flat_rows (hn_vectors g) = flat_rows vectors \<and>
       hn_metric g = metric \<and> hn_params g = params \<and> (\<forall>s. \<not> is_tombstoned g s))"
  using built_exists [OF assms] built_ok [OF _ assms] by (auto simp: built_from_def)

theorem parallel_build_well_formed_witness:
  "let v = \<lparr>fv_dims = 2, fv_base = None, fv_tail = sample_rows\<rparr>
   in \<exists>g. built (\<lambda>_. f64_one) v L2 sample_params g \<and> hnsw_wf g \<and> hn_len g = 2 \<and>
     flat_rows (hn_vectors g) = [[f32_one, f32_zero], [f32_zero, f32_two]]"
proof -
  let ?v = "\<lparr>fv_dims = 2, fv_base = None, fv_tail = sample_rows\<rparr>"
  have v: "flat_wf ?v" "flat_len ?v = 2" "flat_rows ?v = [[f32_one, f32_zero], [f32_zero, f32_two]]"
    by (simp_all add: flat_wf_def flat_len_def flat_rows_def base_rows_def sample_rows_def chunks.simps)
  then have "build_fits ?v sample_params" by (simp add: build_fits_def sample_params_def)
  from parallel_build_well_formed [OF this, of "\<lambda>_. f64_one" L2] v(2,3) show ?thesis by (auto simp: Let_def)
qed





section \<open>Level 0\<close>

text \<open>C29: The repair of level 0 never panics and keeps the graph valid with its rows, levels and
  upper lists; no slot that had an in-link on level 0 loses its last one.\<close>

theorem level0_repair_keeps_links:
  assumes "graph_ok g" and "hn_len g * hn_m0 g < 2 ^ 32" and "hn_len g < 2 ^ 32"
  shows "\<exists>g'. link_level0_orphans g = Some g' \<and> graph_ok g' \<and> same_rows g g' \<and>
    (\<forall>t. 0 < in_links g t \<longrightarrow> 0 < in_links g' t)"
  using link_level0_orphans_ok [OF assms] by (auto simp: keeps_links_def)

theorem level0_repair_keeps_links_witness:
  "\<exists>g'. link_level0_orphans sample_index = Some g' \<and> graph_ok g' \<and> same_rows sample_index g'"
proof -
  have "graph_ok sample_index" using sample_index_wf by (simp add: hnsw_wf_def)
  from level0_repair_keeps_links [OF this] show ?thesis by (auto simp: sample_params_def)
qed

text \<open>A slot the repair visits gets an in-link, unless it is the entry or every slot it links to
  is full of slots that would in turn lose their last in-link; then nothing changes.\<close>

theorem orphan_adopted:
  assumes "repair_ok (g, in_degree)" and "orphan < hn_len g"
  shows "\<exists>g' in_degree'. repair_slot orphan (g, in_degree) = Some (g', in_degree') \<and>
    repair_ok (g', in_degree') \<and> same_rows g g' \<and> (\<forall>t. 0 < in_links g t \<longrightarrow> 0 < in_links g' t) \<and>
    (hn_entry g = Some orphan \<or> 0 < in_links g' orphan \<or>
      g' = g \<and> (\<forall>host\<in>set (level0_list g orphan). stuck g host))"
  using repair_slot_ok [OF assms] unfolding keeps_links_def by blast

text \<open>The first slot has lost its link to the second.\<close>

definition sample_orphan :: hnsw where
  "sample_orphan = sample_index\<lparr>hn_level0_len := [0, 1]\<rparr>"

theorem orphan_adopted_witness:
  "\<exists>in_degree g' in_degree'. repair_slot 1 (sample_orphan, in_degree) = Some (g', in_degree') \<and>
    in_links sample_orphan 1 = 0 \<and> 0 < in_links g' 1"
proof -
  note g_simps = sample_orphan_def sample_index_def hnsw_new_def sample_params_def
  have g: "hn_len sample_orphan = 2" "hn_m0 sample_orphan = 2" "hn_entry sample_orphan = Some 0"
    by (simp_all add: hn_len_def g_simps)
  have "neighbours sample_orphan 0 0 = Some []" "neighbours sample_orphan 1 0 = Some [0]"
    by (simp_all add: neighbours_def index_def slice_def g_simps)
  then have l: "level0_list sample_orphan 0 = []" "level0_list sample_orphan 1 = [0]"
    by (simp_all add: level0_list_def)
  have "graph_ok sample_orphan" using sample_graph_wf [of 0] by (simp add: hnsw_wf_def sample_orphan_def)
  then obtain d where d: "repair_ok (sample_orphan, d)" using initial_degrees [of sample_orphan] g by auto
  have "\<not> stuck sample_orphan 0" unfolding stuck_def l g by simp
  moreover have "[0..<2] = [0, 1]" by (simp add: upt_rec)
  then have "in_links sample_orphan 1 = 0" by (simp add: in_links_def g l del: One_nat_def)
  ultimately show ?thesis using orphan_adopted [OF d, of 1] g l(2) by fastforce
qed

end
