(* ===== verification/Storage_Properties.thy ===== *)
theory Storage_Properties
  imports Samples
begin

text \<open>
  The properties of the files a partition keeps: the frames and segments of the write-ahead log,
  its writer, the snapshot file, and the idempotency window that snapshots carry.
\<close>

section \<open>The write-ahead log\<close>

text \<open>C31: A log entry that encodes is read back as itself, whatever bytes follow it, and the reader
  consumes exactly its frame. This holds for every checksum function.\<close>

theorem wal_entry_round_trip:
  assumes "entry_wf e" and "entry_encode crc e = Inr frame"
  shows "parse_entry crc (frame @ rest) = Inr (e, length frame)"
  by (rule parse_entry_encode [OF assms])

theorem wal_entry_round_trip_witness:
  "\<exists>frame. entry_encode sample_crc sample_entry = Inr frame \<and>
    parse_entry sample_crc (frame @ [9, 9, 9]) = Inr (sample_entry, length frame)"
proof -
  obtain frame where "entry_encode sample_crc sample_entry = Inr frame" using sample_encode by blast
  moreover have "entry_wf sample_entry" by (simp add: entry_wf_def sample_entry_def)
  ultimately show ?thesis using wal_entry_round_trip by blast
qed

text \<open>A frame has one encoding: whatever the parser accepts is, byte for byte, the encoding of
  the entry it returns, so no other bytes can stand for a logged operation.\<close>

theorem wal_frame_canonical:
  assumes "parse_entry crc bs = Inr (e, n)"
  shows "n \<le> length bs \<and> entry_encode crc e = Inr (take n bs)"
  using parse_entry_inv [OF assms] by blast

theorem wal_frame_canonical_witness:
  "\<exists>frame. entry_encode sample_crc sample_entry = Inr (take (length frame) (frame @ [0])) \<and>
    length frame \<le> length (frame @ [0 :: u8])"
proof -
  obtain frame where f: "entry_encode sample_crc sample_entry = Inr frame" using sample_encode by blast
  have "entry_wf sample_entry" by (simp add: entry_wf_def sample_entry_def)
  from wal_frame_canonical [OF parse_entry_encode [OF this f, of "[0]"]] show ?thesis by blast
qed

text \<open>C32: Reading a segment with a header is sound: the entries returned have consecutive sequence
  numbers from the header's first sequence, the file starts with exactly their frames, and a torn
  tail is reported only in the active segment, right after them, when the bytes there do not parse
  and no valid frame starts anywhere after.\<close>

theorem read_segment_sound:
  assumes "read_segment crc path bs partition_id active = Inr r"
    and "HEADER_LEN \<le> length bs" and "\<not> list_all (\<lambda>b. b = 0) bs"
  shows "\<exists>first. decode_header bs partition_id path = Inr first \<and>
    consecutive first (sr_entries r) \<and>
    (\<exists>body rest. encode_all crc (sr_entries r) = Inr body \<and> drop HEADER_LEN bs = body @ rest \<and>
      (case sr_torn_tail r of
         None \<Rightarrow> rest = []
       | Some (at, n) \<Rightarrow> active \<and> at = HEADER_LEN + length body \<and> n = length rest \<and> rest \<noteq> [] \<and>
           (\<exists>reason. parse_entry crc rest = Inl (Unreadable reason)) \<and>
           next_valid_frame crc bs (at + 1) = None))"
proof -
  obtain first where h: "decode_header bs partition_id path = Inr first"
    and r: "read_frames crc path bs active HEADER_LEN first [] = Inr r"
    using assms by (auto simp: read_segment_def rbind_eq_Inr split: if_splits)
  from read_frames_sound [OF r] h show ?thesis by (auto simp: read_ok_def)
qed

theorem read_segment_sound_witness:
  "\<exists>body r. read_segment sample_crc (segment_name 1) (encode_header sample_pid 1 @ body) sample_pid True = Inr r \<and>
    sr_entries r = [sample_entry] \<and> consecutive 1 (sr_entries r) \<and> encode_all sample_crc (sr_entries r) = Inr body"
proof -
  let ?h = "encode_header sample_pid 1"
  obtain frame where f: "entry_encode sample_crc sample_entry = Inr frame" using sample_encode by blast
  have c: "seg_content sample_crc sample_pid (1, [sample_entry]) (?h @ frame)"
    using f by (auto simp: seg_content_def entry_wf_def sample_entry_def)
  have pid: "length sample_pid = 16" by (simp add: sample_pid_def)
  let ?r = "\<lparr>sr_entries = [sample_entry], sr_torn_tail = None\<rparr>"
  have r: "read_segment sample_crc (segment_name 1) (?h @ frame) sample_pid True = Inr ?r"
    by (rule seg_content_read [OF c pid])
  have "consecutive (1 :: u64) (sr_entries ?r)"
    using read_segment_sound [OF r] decode_encode_header [OF pid, of 1 frame] length_encode_header [OF pid, of 1]
    by auto
  with r f show ?thesis by (intro exI [of _ frame] exI [of _ ?r]) simp
qed

text \<open>C33: Acknowledged entries are never dropped by reading: when the file of a segment starts with
  the header and the frames of its entries, a successful read returns all of them first, whatever
  bytes a crash left behind them.\<close>

theorem acknowledged_entries_kept:
  assumes "encode_all crc es = Inr body" and "consecutive f es" and "length partition_id = 16"
    and "read_segment crc (segment_name f) (encode_header partition_id f @ body @ junk) partition_id active = Inr r"
  shows "\<exists>more. sr_entries r = es @ more"
proof -
  have "seg_content crc partition_id (f, es) (encode_header partition_id f @ body)"
    using assms(1,2) by (auto simp: seg_content_def)
  from read_segment_prefix [OF this assms(3), of junk active r] assms(4) show ?thesis by simp
qed

theorem acknowledged_entries_kept_witness:
  "\<exists>body r more. read_segment sample_crc (segment_name 1) (encode_header sample_pid 1 @ body @ []) sample_pid True = Inr r \<and>
    sr_entries r = [sample_entry] @ more"
proof -
  obtain frame where f: "entry_encode sample_crc sample_entry = Inr frame" using sample_encode by blast
  have e: "encode_all sample_crc [sample_entry] = Inr frame" "consecutive 1 [sample_entry]"
    using f by (simp_all add: entry_wf_def sample_entry_def)
  have pid: "length sample_pid = 16" by (simp add: sample_pid_def)
  have "seg_content sample_crc sample_pid (1, [sample_entry]) (encode_header sample_pid 1 @ frame @ [])"
    using e by (simp add: seg_content_def)
  note r = seg_content_read [OF this pid, of True]
  from acknowledged_entries_kept [OF e pid r] r show ?thesis by blast
qed

text \<open>C34: An acknowledged append extends the log by exactly one entry with the next sequence number,
  also across a rotation to a new segment; every segment still reads as its entries.\<close>

theorem append_extends_log:
  assumes "writer_ok crc pid s dir segs w"
    and "unat s + length (log_entries segs) + 1 < 2 ^ 64" and "length op_id = 16"
    and "wal_append crc io dir w op_id operation = (dir', w', Inr seq)"
  shows "\<exists>segs'. writer_ok crc pid s dir' segs' w' \<and> seq = ww_next_seq w \<and>
    log_entries segs' =
      log_entries segs @ [\<lparr>e_seq = ww_next_seq w, e_op_id = op_id, e_operation = operation\<rparr>]"
proof -
  have "append_unsynced crc io dir w op_id operation = (dir', w', Inr seq)"
    using assms(4) by (auto simp: wal_append_def wal_sync_def split: prod.splits sum.splits if_splits)
  then show ?thesis by (rule append_unsynced_ok [OF assms(1-3)])
qed

theorem append_extends_log_witness:
  "\<exists>dir' w' seq segs'. wal_append sample_crc sample_io sample_dir sample_writer (replicate 16 3) (Delete [65])
      = (dir', w', Inr seq) \<and>
    writer_ok sample_crc sample_pid 1 dir' segs' w' \<and> seq = 1 \<and>
    log_entries segs' = [\<lparr>e_seq = 1, e_op_id = replicate 16 3, e_operation = Delete [65]\<rparr>]"
proof -
  have "\<exists>dir' w' seq. wal_append sample_crc sample_io sample_dir sample_writer (replicate 16 3) (Delete [65])
      = (dir', w', Inr seq)"
    by (simp add: wal_append_def append_unsynced_def sample_writer_def sample_io_def write_frame_def
        wal_sync_def entry_encode_def encode_operation_def frame_consts Let_def HEADER_LEN_def
        SEGMENT_ROTATE_BYTES_def)
  then obtain dir' w' seq where
    a: "wal_append sample_crc sample_io sample_dir sample_writer (replicate 16 3) (Delete [65]) = (dir', w', Inr seq)"
    by blast
  have "unat (1 :: u64) + length (log_entries [(1 :: u64, [])]) + 1 < 2 ^ 64" by (simp add: log_entries_def)
  from append_extends_log [OF sample_writer_ok this _ a] a show ?thesis
    by (fastforce simp: sample_writer_def)
qed

text \<open>A failed append loses nothing and admits nothing behind it: either it changed neither the
  files nor the writer, or every byte of the log is still there and every later append is refused
  with \<open>Poisoned\<close> and changes nothing, until the log is reopened.\<close>

theorem failed_append_poisons:
  assumes "wal_append crc io dir w op_id operation = (dir', w', Inl e)"
  shows "dir' = dir \<and> w' = w \<or>
    dir_extends dir dir' \<and>
    (\<forall>io2 op_id2 operation2.
       wal_append crc io2 dir' w' op_id2 operation2 = (dir', w', Inl Poisoned))"
proof (cases "append_unsynced crc io dir w op_id operation")
  case (fields d1 w1 r1)
  note ext = dir_extends_append [of dir crc io w op_id operation]
  have frozen: "wal_append crc io2 d v i o2 = (d, v, Inl Poisoned)" if "ww_poisoned v" for io2 d v i o2
    using that by (simp add: wal_append_def append_unsynced_def)
  show ?thesis
  proof (cases r1)
    case (Inl e1)
    then have "dir' = d1" "w' = w1" using assms fields by (simp_all add: wal_append_def)
    then show ?thesis using append_unsynced_err [of crc io dir w op_id operation d1 w1 e1] fields Inl frozen ext
      by auto
  next
    case (Inr s)
    then have "dir' = d1" "ww_poisoned w'"
      using assms fields by (auto simp: wal_append_def wal_sync_def poison_def split: if_splits)
    then show ?thesis using frozen ext fields by auto
  qed
qed

theorem failed_append_poisons_witness:
  "\<exists>dir' w'. wal_append sample_crc (sample_io\<lparr>io_write := Some 5\<rparr>) sample_dir sample_writer
      (replicate 16 3) (Delete [65]) = (dir', w', Inl WalIo) \<and> dir_extends sample_dir dir' \<and>
    wal_append sample_crc sample_io dir' w' (replicate 16 4) (Delete [66]) = (dir', w', Inl Poisoned)"
proof -
  have a: "wal_append sample_crc (sample_io\<lparr>io_write := Some 5\<rparr>) sample_dir sample_writer
      (replicate 16 3) (Delete [65]) = (write_all sample_dir (segment_name 1)
        (take 5 (case entry_encode sample_crc \<lparr>e_seq = 1, e_op_id = replicate 16 3,
           e_operation = Delete [65]\<rparr> of Inr f \<Rightarrow> f | Inl _ \<Rightarrow> [])), poison sample_writer, Inl WalIo)"
    by (simp add: wal_append_def append_unsynced_def sample_writer_def sample_io_def write_frame_def
        wal_sync_def entry_encode_def encode_operation_def frame_consts Let_def HEADER_LEN_def
        SEGMENT_ROTATE_BYTES_def)
  have "poison sample_writer \<noteq> sample_writer" by (simp add: poison_def sample_writer_def)
  with failed_append_poisons [OF a] a show ?thesis by blast
qed

section \<open>Snapshots\<close>

text \<open>C35: A snapshot whose values fit their fields and whose structure is valid is loaded back from
  its file exactly: configuration, high-water mark, keys, slots, rows, int8 rows, graph and
  idempotency window. This holds for every checksum, every 32-byte digest and every faithful cast.\<close>

theorem snapshot_round_trip:
  assumes "platform_ok blake3 cast addr" and "input_fits si"
    and "snapshot_encode crc blake3 si = Some (Inr bytes_written)" and "length bytes_written < 2 ^ 64"
    and "validate_structure (si_params si) (length (si_slots si)) (si_keys si) (si_slots si)
      (si_graph si) = Inr ()"
  shows "\<exists>ls. snapshot_load crc blake3 cast addr path bytes_written (si_partition_id si) = Inr ls \<and>
    loads_as si ls \<and> ls_path ls = path"
proof -
  have "bytes_written = snap_file crc blake3 si"
    using snapshot_encode_eq [OF assms(2), of blake3 crc] assms(1,3) by (simp add: platform_ok_def)
  with snapshot_load_encode [OF assms(1,2) _ assms(5)] assms(4) show ?thesis by blast
qed

theorem snapshot_round_trip_witness:
  "\<exists>ls. snapshot_load sample_crc sample_digest sample_cast 0 ''s'' (snap_file sample_crc sample_digest sample_input)
      sample_pid = Inr ls \<and> loads_as sample_input ls \<and> ls_path ls = ''s''"
proof -
  have "snapshot_encode sample_crc sample_digest sample_input =
      Some (Inr (snap_file sample_crc sample_digest sample_input))"
    using snapshot_encode_eq [OF sample_input_fits] sample_platform by (simp add: platform_ok_def)
  from snapshot_round_trip [OF sample_platform sample_input_fits this sample_file_size sample_input_valid]
  show ?thesis by (simp add: sample_input_def)
qed

text \<open>C36: Writing a snapshot is atomic: every file other than the temporary one and the snapshot's
  own name is untouched, and under that name stands either what stood there before or the complete
  new snapshot, whichever call failed; the write reports success only with the new one in place.\<close>

theorem snapshot_write_atomic:
  assumes "snapshot_write crc blake3 io temporary dir input before_rename = Some (dir', r)"
    and "temporary \<noteq> snapshot_name (si_high_water input)"
  shows "(\<forall>p. p \<noteq> temporary \<longrightarrow> p \<noteq> snapshot_name (si_high_water input) \<longrightarrow> map_of dir' p = map_of dir p) \<and>
    (map_of dir' (snapshot_name (si_high_water input)) = map_of dir (snapshot_name (si_high_water input)) \<and>
       (\<exists>e. r = Inl e) \<or>
     (\<exists>bytes_written. snapshot_encode crc blake3 input = Some (Inr bytes_written) \<and>
       map_of dir' (snapshot_name (si_high_water input)) = Some bytes_written))"
proof (cases "io = TempFail")
  case True
  with assms(1) show ?thesis by (auto simp: snapshot_write_def)
next
  case False
  then obtain encoded where enc: "snapshot_encode crc blake3 input = Some encoded"
    using assms(1) by (cases "snapshot_encode crc blake3 input") (simp_all add: snapshot_write_def)
  show ?thesis
    using assms False enc unfolding snapshot_write_def
    by (cases encoded; cases io; cases before_rename)
      (auto simp: Let_def update_conv' delete_conv' restrict_map_def)
qed

theorem snapshot_write_atomic_witness:
  "\<exists>dir'. snapshot_write sample_crc sample_digest SnapOk ''.tmp'' [] sample_input True =
      Some (dir', Inr (snapshot_name 2)) \<and>
    map_of dir' (snapshot_name 2) = Some (snap_file sample_crc sample_digest sample_input)"
proof -
  have enc: "snapshot_encode sample_crc sample_digest sample_input =
      Some (Inr (snap_file sample_crc sample_digest sample_input))"
    using snapshot_encode_eq [OF sample_input_fits] sample_platform by (simp add: platform_ok_def)
  have name: "''.tmp'' \<noteq> snapshot_name (si_high_water sample_input)" by code_simp
  have hw: "si_high_water sample_input = 2" by (simp add: sample_input_def)
  let ?d = "AList.update (snapshot_name 2) (snap_file sample_crc sample_digest sample_input) []"
  have "snapshot_write sample_crc sample_digest SnapOk ''.tmp'' [] sample_input True =
      Some (?d, Inr (snapshot_name 2))"
    by (simp add: snapshot_write_def enc hw Let_def)
  from snapshot_write_atomic [OF this name] this enc hw show ?thesis by auto
qed

section \<open>The idempotency window\<close>

text \<open>A recorded operation id stays known, with its sequence number, until as many newer ids as
  the window's capacity have been recorded.\<close>

theorem idempotency_kept:
  assumes "iw_wf w" and "distinct ids" and "set ids \<inter> set (iw_order w) = {}"
    and "iw_order w = older @ op_id # newer" and "length newer + length ids < iw_capacity w"
  shows "iw_get (foldl (\<lambda>w i. iw_record w i seq) w ids) op_id = iw_get w op_id \<and>
    iw_get w op_id \<noteq> None"
  by (rule iw.kept_until_full [OF assms])

theorem idempotency_kept_witness:
  "iw_get (foldl (\<lambda>w i. iw_record w i 8) sample_window [[2]]) [1] = iw_get sample_window [1] \<and>
    iw_get sample_window [1] \<noteq> None"
  by (rule idempotency_kept [OF sample_window_wf, where older = "[]" and newer = "[]"])
    (simp_all add: sample_window_eq)

text \<open>A window restored from its saved entries is the window that was saved: same ids in the
  same order of eviction, same sequence numbers.\<close>

theorem idempotency_restored:
  assumes "iw_wf w"
  shows "iw_restore (iw_capacity w) (iw_entries w) = w"
  by (rule iw_restore_entries [OF assms])

theorem idempotency_restored_witness:
  "iw_restore 3 (iw_entries sample_window) = sample_window"
  using idempotency_restored [OF sample_window_wf] by (simp add: sample_window_eq)

end
