(* ===== verification/Partition_Properties.thy ===== *)
theory Partition_Properties
  imports Samples
begin

text \<open>
  Properties of the partition: acknowledged mutations, retries, failures, search, snapshots,
  recovery and whole runs. Each theorem is followed by a witness on a small concrete partition.
\<close>

section \<open>Runs and crashes\<close>







text \<open>C4: A snapshot of a durable partition succeeds when its files are written, leaves what the
  partition holds unchanged, and becomes the state recovery starts from: reopening afterwards
  succeeds and gives the partition back, its rows served from the snapshot file.\<close>

theorem snapshot_recovers_state:
  assumes "durable pf s d segs p" and "has_room p" and "sizes_ok p"
    and "platform_ok (pf_blake3 pf) (pf_cast pf) (pf_addr pf)"
    and "pt_failpoint p = None" and "snaps_ok (pd_snap d) (pt_high_water p)"
  shows "\<exists>dir' p'. part_snapshot pf SnapOk temporary (pd_snap d) p =
      Some (dir', p', Inr (snapshot_name (pt_high_water p))) \<and>
    contents p' = contents p \<and> pt_snapshot_high_water p' = pt_high_water p \<and>
    (\<exists>b report. recover_base pf (d\<lparr>pd_snap := dir'\<rparr>) = Inr (b, report) \<and>
       pt_high_water b = pt_high_water p \<and> contents b = contents p) \<and>
    (\<exists>d'' q report. part_open pf CreateOk directory (d\<lparr>pd_snap := dir', pd_locked := False\<rparr>) =
        Some (d'', Inr (q, report)) \<and> pt_index q = pt_index p' \<and> contents q = contents p)"
proof -
  have fp: "pt_failpoint p \<noteq> Some SnapshotBeforeRename" "pt_failpoint p \<noteq> Some SnapshotAfterRename"
    using assms(5) by simp_all
  have wf: "part_wf p" using assms(1) by (simp add: durable_def serving_def)
  obtain dir' p' where s: "part_snapshot pf SnapOk temporary (pd_snap d) p =
      Some (dir', p', Inr (snapshot_name (pt_high_water p)))" "durable pf s (d\<lparr>pd_snap := dir'\<rparr>) segs p'"
    "contents p' = contents p" "pt_snapshot_high_water p' = pt_high_water p"
    and b: "\<exists>b report. recover_base pf (d\<lparr>pd_snap := dir'\<rparr>) = Inr (b, report) \<and> bare b = bare p'"
    and hw: "pt_high_water p' = pt_high_water p"
    using durable_snapshot [OF assms(1-4) snapshot_small [OF wf assms(2-4)] fp assms(6), of temporary] by blast
  from b obtain b report where r: "recover_base pf (d\<lparr>pd_snap := dir'\<rparr>) = Inr (b, report)" "bare b = bare p'" by blast
  have "pt_high_water b = pt_high_water p" "contents b = contents p"
    using r(2) s(3) hw by (metis bare_simps)+
  moreover from durable_reopen [OF s(2), of directory] obtain d'' q report' where
    "part_open pf CreateOk directory (d\<lparr>pd_snap := dir', pd_locked := False\<rparr>) = Some (d'', Inr (q, report'))"
    "bare q = bare p'" by auto
  moreover from this(2) have "pt_index q = pt_index p'" "contents q = contents p"
    using s(3) by (metis bare_simps)+
  ultimately show ?thesis using s(1,3,4) r(1) by blast
qed

theorem snapshot_recovers_state_witness:
  "\<exists>dir' p' d'' q report. part_snapshot sample_pf SnapOk ''t'' [] sample_live =
      Some (dir', p', Inr (snapshot_name 0)) \<and> contents p' = contents sample_live \<and>
    part_open sample_pf CreateOk [] (sample_home\<lparr>pd_snap := dir', pd_locked := False\<rparr>) =
      Some (d'', Inr (q, report)) \<and> pt_index q = pt_index p' \<and> contents q = contents sample_live"
proof -
  have "sizes_ok sample_live" using created_sizes(1) [OF sample_create] by (simp add: sample_empty_def)
  then show ?thesis
    using snapshot_recovers_state [OF sample_durable, of "''t''" "[]"] sample_platform
    by (simp add: sample_home_def) blast
qed

section \<open>Requests\<close>

text \<open>C10: An acknowledged mutation that is not a duplicate took the next sequence number, is the
  next entry of the log on disk, changed the contents exactly as the operation says, and its id is
  remembered with that sequence; the partition goes on serving.\<close>

theorem acknowledged_mutation:
  assumes "serving pf s dir segs p" and "has_room p" and "log_room s segs" and "length op_id = 16"
    and "perform pf io dir p op_id c = Some (dir', p', Inr a)" and "\<not> ap_deduplicated a"
  shows "\<exists>segs'. serving pf s dir' segs' p' \<and>
    log_entries segs' = log_entries segs @ [\<lparr>e_seq = ap_seq a, e_op_id = op_id, e_operation = logged p c\<rparr>] \<and>
    contents p' = spec_apply (pt_metric p) (logged p c) (contents p) \<and>
    ap_seq a = pt_high_water p + 1 \<and> pt_high_water p' = ap_seq a \<and> iw_get (pt_idem p') op_id = Some (ap_seq a)"
proof -
  have m: "mutate pf io dir p op_id (logged p c) = Some (dir', p', Inr a)"
    using perform_Inr [OF assms(5)] assms(6) by simp
  have "iw_wf (pt_idem p)" using assms(1) by (auto simp: serving_def part_wf_def)
  then have "iw_get (iw_record (pt_idem p) op_id (ap_seq a)) op_id = Some (ap_seq a)" using iw.get_record by auto
  with mutate_ok [OF assms(1-4) m] show ?thesis by auto
qed

theorem acknowledged_mutation_witness:
  "\<exists>dir' p' segs'. perform sample_pf sample_io sample_dir sample_live (replicate 16 3) (Remove [65]) =
      Some (dir', p', Inr \<lparr>ap_seq = 1, ap_deduplicated = False\<rparr>) \<and> serving sample_pf 1 dir' segs' p' \<and>
    log_entries segs' = [\<lparr>e_seq = 1, e_op_id = replicate 16 3, e_operation = Delete [65]\<rparr>] \<and>
    iw_get (pt_idem p') (replicate 16 3) = Some 1"
proof -
  obtain dir' p' where m: "perform sample_pf sample_io sample_dir sample_live (replicate 16 3) (Remove [65]) =
    Some (dir', p', Inr \<lparr>ap_seq = 1, ap_deduplicated = False\<rparr>)" using sample_remove by blast
  from acknowledged_mutation [OF sample_serving _ _ _ m] m show ?thesis
    by (auto simp: logged_def log_entries_def)
qed

text \<open>C17: A valid upsert on a serving partition is acknowledged when the disk works: with a fresh
  operation id, a vector that passes the checks, room in memory and a key and payload within the
  log's limits, it returns the next sequence number and the key then holds that vector and
  payload.\<close>

theorem valid_upsert_acknowledged:
  assumes "serving pf s dir segs p" and "has_room p" and "log_room s segs" and "length op_id = 16"
    and "io_good io" and "pt_failpoint p = None" and "iw_get (pt_idem p) op_id = None"
    and "prepare_vector p vector = Inr stored" and "list_all f32_is_finite stored"
    and "admit p (length payload) = Inr ()"
    and "encode_operation (Upsert key payload stored) = Inr bytes"
  shows "\<exists>dir' p' a. upsert pf io dir p op_id key vector payload = Some (dir', p', Inr a) \<and>
    ap_seq a = pt_high_water p + 1 \<and> \<not> ap_deduplicated a \<and>
    contents p' key = Some (if normalizes (pt_metric p) then snd (normalize stored) else stored, payload)"
proof -
  have len: "length stored = cfg_dims (pt_config p)"
    using assms(8) length_normalize [of vector]
    by (auto simp: prepare_vector_def simp del: length_normalize split: if_splits prod.splits)
  then have "op_ok p (Upsert key payload stored)" using assms(9) by (simp add: op_ok_def)
  from mutate_live [OF assms(1,2,5,6) this assms(11), of op_id] obtain dir' p' where
    m: "mutate pf io dir p op_id (Upsert key payload stored) =
      Some (dir', p', Inr \<lparr>ap_seq = pt_high_water p + 1, ap_deduplicated = False\<rparr>)" by blast
  with mutate_ok [OF assms(1-4) m] assms(7,8,10) show ?thesis
    by (auto simp: upsert_def spec_apply_def)
qed

theorem valid_upsert_acknowledged_witness:
  "\<exists>dir' p' a. upsert sample_pf sample_io sample_dir sample_live (replicate 16 3) [65] [f32_one, f32_zero] [1, 2] =
      Some (dir', p', Inr a) \<and> ap_seq a = 1 \<and> contents p' [65] = Some ([f32_one, f32_zero], [1, 2])"
proof -
  have "\<exists>bytes. encode_operation (Upsert [65] [1, 2] [f32_one, f32_zero]) = Inr bytes"
    by (simp add: encode_operation_def check_key_def frame_consts)
  then obtain bytes where e: "encode_operation (Upsert [65] [1, 2] [f32_one, f32_zero]) = Inr bytes" ..
  have "prepare_vector sample_live [f32_one, f32_zero] = Inr [f32_one, f32_zero]" by (simp add: prepare_vector_def)
  from valid_upsert_acknowledged [OF sample_serving _ _ _ sample_io_good _ _ this _ _ e, of "replicate 16 3"]
  show ?thesis by (auto simp: iw_get_def iw_new_def admit_def)
qed



text \<open>C19: A mutation that is not acknowledged leaves what the partition serves unchanged. Either
  nothing happened at all, or the log on disk only grew and the writer is poisoned: from then on
  every mutation is refused and changes nothing, until the partition is reopened.\<close>

theorem failed_mutation_freezes:
  assumes "perform pf io dir p op_id c = Some (dir', p', Inl e)" and "pt_failpoint p \<noteq> Some AfterApply"
  shows "contents p' = contents p \<and> partition_search p' query k ef allowed = partition_search p query k ef allowed \<and>
    (dir' = dir \<and> p' = p \<or>
     dir_extends dir dir' \<and>
     (\<forall>io' op_id' operation. mutate pf io' dir' p' op_id' operation = Some (dir', p', Inl (WalErr Poisoned))))"
proof -
  have "dir' = dir \<and> p' = p \<or> mutate pf io dir p op_id (logged p c) = Some (dir', p', Inl e)"
    using assms(1)
    by (auto simp: perform_def upsert_def delete_def logged_def split: client_op.splits option.splits sum.splits)
  then consider "dir' = dir" "p' = p" | w where "dir_extends dir dir'" "p' = p\<lparr>pt_wal := Some w\<rparr>" "ww_poisoned w"
    using mutate_Inl [OF _ assms(2)] by blast
  then show ?thesis
  proof cases
    case 1
    then show ?thesis by simp
  next
    case (2 w)
    have same: "resolve_hit p' = resolve_hit p" "pt_config p' = pt_config p" "pt_index p' = pt_index p"
      "pt_metric p' = pt_metric p" by (simp_all add: fun_eq_iff resolve_hit_def 2)
    have "mutate pf io' dir' p' op_id' operation = Some (dir', p', Inl (WalErr Poisoned))" for io' op_id' operation
      by (rule poisoned_frozen [of _ w]) (use 2 in simp_all)
    moreover have "partition_search p' query k ef allowed = partition_search p query k ef allowed"
      by (simp only: partition_search_def same)
    ultimately show ?thesis using 2 by simp
  qed
qed

theorem failed_mutation_freezes_witness:
  "\<exists>dir' p'. perform sample_pf (sample_io\<lparr>io_write := Some 3\<rparr>) sample_dir sample_live (replicate 16 3) (Remove [65]) =
      Some (dir', p', Inl (WalErr WalIo)) \<and> contents p' = contents sample_live \<and> dir_extends sample_dir dir' \<and>
    mutate sample_pf sample_io dir' p' (replicate 16 4) (Delete [65]) = Some (dir', p', Inl (WalErr Poisoned))"
proof -
  have "\<exists>dir'. perform sample_pf (sample_io\<lparr>io_write := Some 3\<rparr>) sample_dir sample_live (replicate 16 3) (Remove [65]) =
      Some (dir', sample_live\<lparr>pt_wal := Some (poison sample_writer)\<rparr>, Inl (WalErr WalIo))"
    by (simp add: perform_def delete_def iw_get_def iw_new_def mutate_def append_unsynced_def entry_encode_def
        encode_operation_def check_key_def frame_consts Let_def sample_writer_def write_frame_def
        SEGMENT_ROTATE_BYTES_def HEADER_LEN_def sample_io_def)
  moreover have "pt_wal (sample_live\<lparr>pt_wal := Some (poison sample_writer)\<rparr>) \<noteq> pt_wal sample_live"
    by (simp add: poison_def sample_writer_def)
  ultimately obtain dir' p' where m: "perform sample_pf (sample_io\<lparr>io_write := Some 3\<rparr>) sample_dir sample_live
      (replicate 16 3) (Remove [65]) = Some (dir', p', Inl (WalErr WalIo))" "p' \<noteq> sample_live" by metis
  from failed_mutation_freezes [OF m(1), of "[]" 0 0 None] m show ?thesis by auto
qed

section \<open>Search\<close>

text \<open>C20: A valid search never panics and returns at most k hits, best first and each slot once;
  every hit names a key the partition currently holds, with that key's payload, and the distance it
  reports is the exact distance from the query to the key's stored vector; a filter is respected.\<close>

theorem search_returns_live_keys:
  assumes "part_wf p" and "length query = cfg_dims (pt_config p)" and "list_all f32_is_finite query"
    and "k \<le> MAX_K" and "ef \<le> MAX_EF" and "\<forall>b. allowed = Some b \<longrightarrow> bitmap_ok b"
    and "normalizes (pt_metric p) \<longrightarrow> fst (normalize query)"
  shows "\<exists>hits. partition_search p query k ef allowed = Some (Inr hits) \<and> length hits \<le> k \<and>
    sorted_wrt (\<lambda>a b. cmp_rank \<lparr>hit_id = rh_slot a, hit_distance = rh_distance a\<rparr>
      \<lparr>hit_id = rh_slot b, hit_distance = rh_distance b\<rparr> = Less) hits \<and>
    (\<forall>r\<in>set hits. \<exists>row. slot_for_key p (rh_key r) = Some (rh_slot r) \<and>
       contents p (rh_key r) = Some (row, rh_payload r) \<and>
       rh_distance r = distance (pt_metric p)
         (if normalizes (pt_metric p) then snd (normalize query) else query) row \<and>
       (\<forall>b. allowed = Some b \<longrightarrow> rb_contains b (rh_slot r)))"
proof -
  let ?f = "\<lambda>r. \<lparr>hit_id = rh_slot r, hit_distance = rh_distance r\<rparr>"
  obtain hs hits where s: "partition_search p query k ef allowed = Some (Inr hits)" "length hs \<le> k"
    "sorted_wrt (\<lambda>a b. cmp_rank a b = Less) hs"
    and l: "list_all2 (\<lambda>h r. rh_slot r = hit_id h \<and> rh_distance r = hit_distance h) hs hits"
    and r: "\<forall>r\<in>set hits. \<exists>row. slot_for_key p (rh_key r) = Some (rh_slot r) \<and>
       contents p (rh_key r) = Some (row, rh_payload r) \<and>
       rh_distance r = distance (pt_metric p)
         (if normalizes (pt_metric p) then snd (normalize query) else query) row \<and>
       (\<forall>b. allowed = Some b \<longrightarrow> rb_contains b (rh_slot r))"
    using partition_search_ok [OF assms refl] by blast
  have "hs = map ?f hits" using l by (induction rule: list_all2_induct) auto
  with s r show ?thesis by (auto simp: sorted_wrt_map)
qed

theorem search_returns_live_keys_witness:
  "\<exists>p hits. apply_entry (\<lambda>_. f64_one) sample_partition sample_entry = Some (Inr p) \<and>
    partition_search p [f32_one, f32_zero] 1 10 None = Some (Inr hits) \<and> length hits \<le> 1 \<and>
    list_all (\<lambda>r. slot_for_key p (rh_key r) = Some (rh_slot r)) hits"
proof -
  obtain p where p: "apply_entry (\<lambda>_. f64_one) sample_partition sample_entry = Some (Inr p)" "part_wf p" "same_frame sample_partition p"
    using apply_entry_ok [OF sample_partition_wf, of sample_entry "\<lambda>_. f64_one"]
    by (auto simp: sample_partition_def fresh_state_def has_room_def op_ok_def sample_entry_def)
  have "pt_config p = sample_config" "pt_metric p = L2"
    using p(3) by (simp_all add: same_frame_def sample_partition_def fresh_state_def)
  with search_returns_live_keys [OF p(2), of "[f32_one, f32_zero]" 1 10 None] obtain hits where
    "partition_search p [f32_one, f32_zero] 1 10 None = Some (Inr hits)" "length hits \<le> 1"
    "\<forall>r\<in>set hits. slot_for_key p (rh_key r) = Some (rh_slot r)"
    by (auto simp: MAX_K_def MAX_EF_def)
  with p(1) show ?thesis by (auto simp: list_all_iff)
qed

section \<open>A torn write that looks like corruption\<close>



end
