(* ===== verification/Compaction_Properties.thy ===== *)
theory Compaction_Properties
  imports Samples
begin

text \<open>
  Properties of compaction, log truncation and bulk loading: what they keep, that they succeed, and
  what a crash in their middle leaves.
\<close>

section \<open>Compaction\<close>

lemma run_stateD:
  assumes "run pf directory config st" and "length (rn_acked st) < 2 ^ 32"
    and "platform_ok (pf_blake3 pf) (pf_cast pf) (pf_addr pf)"
    and "pf_of_json pf (pf_to_json pf config) = Some config"
    and "length (cfg_id config) = 16" and "\<not> cfg_base_snapshot config"
    and "cfg_idempotency_window config < 2 ^ 32"
  obtains s segs where "durable pf s (rn_dir st) segs (rn_part st)" "unat s \<le> length (rn_acked st) + 1"
    "log_entries segs = drop (unat s - 1) (rn_acked st)" "pt_config (rn_part st) = config"
    "state_after (pf_crc pf) (rn_part st) (rn_acked st) (rn_part st)"
    "snaps_ok (pd_snap (rn_dir st)) (pt_high_water (rn_part st))"
    "\<And>q. rn_plan st = Some q \<Longrightarrow> plan_ok (pf_crc pf) (rn_part st) (rn_acked st) q"
proof -
  obtain d p es plan where st: "st = \<lparr>rn_dir = d, rn_part = p, rn_acked = es, rn_plan = plan\<rparr>" by (cases st)
  have "run_ok pf config \<lparr>rn_dir = d, rn_part = p, rn_acked = es, rn_plan = plan\<rparr>"
    using run_invariant [OF assms] st by simp
  then obtain s segs where "durable pf s d segs p" "unat s \<le> length es + 1" "log_entries segs = drop (unat s - 1) es"
    "pt_config p = config" "state_after (pf_crc pf) p es p" "snaps_ok (pd_snap d) (pt_high_water p)"
    "\<And>q. plan = Some q \<Longrightarrow> plan_ok (pf_crc pf) p es q" by (rule run_okD) blast
  with st show thesis by (intro that [of s segs]) simp_all
qed



text \<open>C6: Compacting a partition whose rows are finite succeeds whenever no failpoint stops it,
  whichever graph the builder ends with: the capture takes the live slots, and with nothing acknowledged
  in between the swapped state has one slot for each key and no tombstone, and holds what it held.\<close>

theorem compaction_reclaims:
  assumes "run pf directory config st" and "length (rn_acked st) < 2 ^ 32"
    and "platform_ok (pf_blake3 pf) (pf_cast pf) (pf_addr pf)"
    and "pf_of_json pf (pf_to_json pf config) = Some config"
    and "length (cfg_id config) = 16" and "\<not> cfg_base_snapshot config"
    and "cfg_idempotency_window config < 2 ^ 32"
    and "stored_finite (rn_part st)" and "card (dom (contents (rn_part st))) * cfg_m0 config < 2 ^ 32"
    and "pt_failpoint (rn_part st) \<noteq> Some CompactionBeforeSwap"
  shows "\<exists>ci. capture_compaction (rn_part st) = Inr ci \<and> (\<exists>plan. compaction_build (pf_ln pf) ci plan) \<and>
    (\<forall>plan. compaction_build (pf_ln pf) ci plan \<longrightarrow>
      (\<exists>snap p' report. finish_compaction pf SnapOk temporary (rn_dir st) (rn_part st) plan = Some (snap, p', Inr report) \<and>
        contents p' = contents (rn_part st) \<and> length (pt_slots p') = card (dom (contents p')) \<and>
        hn_tombstone_count (pt_index p') = 0))"
proof -
  let ?p = "rn_part st"
  obtain s segs where r: "durable pf s (rn_dir st) segs ?p" "unat s \<le> length (rn_acked st) + 1"
    "log_entries segs = drop (unat s - 1) (rn_acked st)" "pt_config ?p = config"
    "state_after (pf_crc pf) ?p (rn_acked st) ?p" "snaps_ok (pd_snap (rn_dir st)) (pt_high_water ?p)"
    using run_stateD [OF assms(1-7)] by metis
  have wf: "part_wf ?p" and sizes: "sizes_ok ?p" and hw: "unat (pt_high_water ?p) = length (rn_acked st)"
    using r(5) by (simp_all add: state_after_def)
  obtain ci where ci: "capture_compaction ?p = Inr ci" "captured ?p ci" using capture_ok [OF wf assms(8)] by blast
  have live: "length (ci_slots ci) = card (dom (contents ?p))"
    using ci(2) live_slots_card [OF wf] by (simp add: captured_def Let_def)
  have c: "compactable ?p"
    using sizes assms(9) live_slots_card [OF wf] r(4) by (simp add: compactable_def sizes_ok_def)
  obtain g where "built (pf_ln pf) (ci_vectors ci) (ci_metric ci) (ci_params ci) g"
    using built_exists [OF captured_fits(1) [OF wf c ci(2)]] by blast
  then have "\<exists>plan. compaction_build (pf_ln pf) ci plan" by (auto simp: compaction_build_def)
  moreover have "\<exists>snap p' report. finish_compaction pf SnapOk temporary (rn_dir st) ?p plan = Some (snap, p', Inr report) \<and>
      contents p' = contents ?p \<and> length (pt_slots p') = card (dom (contents p')) \<and>
      hn_tombstone_count (pt_index p') = 0" if build: "compaction_build (pf_ln pf) ci plan" for plan
  proof -
    note q = staged_ok [OF wf c ci(2) build refl refl]
    have st: "st = \<lparr>rn_dir = rn_dir st, rn_part = ?p, rn_acked = rn_acked st, rn_plan = rn_plan st\<rparr>" by simp
    have fits: "length (ci_slots ci) * cfg_m0 (pt_config ?p) < 2 ^ 32" using assms(9) live r(4) by simp
    have "run_ok pf config \<lparr>rn_dir = rn_dir st, rn_part = ?p, rn_acked = rn_acked st, rn_plan = Some plan\<rparr>"
      using run_ok_capture [OF _ ci(1) fits build] run_invariant [OF assms(1-7)] st by metis
    then have plan: "plan_ok (pf_crc pf) ?p (rn_acked st) plan" by (rule run_okD) blast
    have rp: "cp_rebuild_point plan = pt_high_water ?p" using q(4) by (simp add: staged_state_def)
    have "unat s \<le> unat (cp_rebuild_point plan) + 1" using r(2) hw rp by simp
    note lead = plan_leads [OF r(1-3,5) plan assms(2) this]
    obtain snap p' report where f: "finish_compaction pf SnapOk temporary (rn_dir st) ?p plan = Some (snap, p', Inr report)"
      "compacted pf s (rn_dir st) segs ?p snap p'" "reported s segs (staged_state ?p plan) p' report"
      using finish_live [OF r(1) lead(1) assms(3) r(6) assms(10), of temporary] by blast
    have same: "contents p' = contents ?p" using f(2) by (simp add: compacted_def)
    have "part_wf p'" using f(2) by (auto simp: compacted_def durable_def serving_def)
    moreover have "length (pt_slots p') \<le> length (pt_slots (staged_state ?p plan)) + length (drop (unat (cp_rebuild_point plan)) (rn_acked st))"
      using f(3) unfolding reported_def Let_def lead(3) by blast
    then have "length (pt_slots p') \<le> card (dom (contents p'))"
      using q(6) live_slots_card [OF wf] rp hw same by simp
    ultimately show ?thesis using f(1) same all_live by metis
  qed
  ultimately show ?thesis using ci(1) by blast
qed

theorem compaction_reclaims_witness:
  "\<exists>d p ci plan snap p' report. contents p = [[65] \<mapsto> ([f32_one, f32_zero], [1, 2])] \<and>
    capture_compaction p = Inr ci \<and> compaction_build (\<lambda>_. f64_one) ci plan \<and>
    finish_compaction sample_pf SnapOk ''t'' d p plan = Some (snap, p', Inr report) \<and>
    contents p' = contents p \<and> length (pt_slots p') = 1 \<and> hn_tombstone_count (pt_index p') = 0"
proof -
  obtain wal p where put: "perform sample_pf sample_io sample_dir sample_live (replicate 16 3) (Put [65] [f32_one, f32_zero] [1, 2]) =
      Some (wal, p, Inr \<lparr>ap_seq = 1, ap_deduplicated = False\<rparr>)"
    "contents p = [[65] \<mapsto> ([f32_one, f32_zero], [1, 2])]" "pt_failpoint p = None" using sample_put by blast
  define e where "e = \<lparr>e_seq = 1, e_op_id = replicate 16 3,
    e_operation = logged sample_live (Put [65] [f32_one, f32_zero] [1, 2])\<rparr>"
  let ?st = "\<lparr>rn_dir = sample_home\<lparr>pd_wal := wal\<rparr>, rn_part = p, rn_acked = [e], rn_plan = None\<rparr>"
  have "run_step sample_pf [] \<lparr>rn_dir = sample_home, rn_part = sample_live, rn_acked = [], rn_plan = None\<rparr> ?st"
    using run_step.acknowledge [of "replicate 16 3" sample_pf sample_io sample_home sample_live
        "Put [65] [f32_one, f32_zero] [1, 2]" wal p "\<lparr>ap_seq = 1, ap_deduplicated = False\<rparr>" "[]" "[]" None] put(1)
    by (simp add: sample_home_def e_def)
  then have run: "run sample_pf [] sample_config ?st" by (rule run.stepped [OF sample_run])
  have "stored_finite p" using put(2) by (simp add: stored_finite_def)
  moreover have "card (dom (contents p)) = 1" using put(2) by simp
  moreover have "cfg_m0 sample_config = 2" by (simp add: sample_config_def config_new_def sample_params_def)
  ultimately obtain ci where ci: "capture_compaction p = Inr ci" "\<exists>plan. compaction_build (\<lambda>_. f64_one) ci plan"
    "\<forall>plan. compaction_build (\<lambda>_. f64_one) ci plan \<longrightarrow>
      (\<exists>snap p' report. finish_compaction sample_pf SnapOk ''t'' (sample_home\<lparr>pd_wal := wal\<rparr>) p plan = Some (snap, p', Inr report) \<and>
        contents p' = contents p \<and> length (pt_slots p') = card (dom (contents p')) \<and>
        hn_tombstone_count (pt_index p') = 0)"
    using compaction_reclaims [OF run, of "''t''"] put(3) sample_platform by auto
  then show ?thesis using put(2) \<open>card (dom (contents p)) = 1\<close> by metis
qed

section \<open>Log truncation\<close>

text \<open>C7: Truncating the log at any point of a run, whichever removals the file system refuses, never
  loses an acknowledged mutation: the partition reopens with the same contents, window and sequence
  number. A call that succeeds leaves no segment covered by the snapshot but the oldest one kept.\<close>

theorem truncation_keeps_recovery:
  assumes "run pf directory config st" and "length (rn_acked st) < 2 ^ 32"
    and "platform_ok (pf_blake3 pf) (pf_cast pf) (pf_addr pf)"
    and "pf_of_json pf (pf_to_json pf config) = Some config"
    and "length (cfg_id config) = 16" and "\<not> cfg_base_snapshot config"
    and "cfg_idempotency_window config < 2 ^ 32"
    and "truncate_wal_below_snapshot rm synced (pd_wal (rn_dir st)) (rn_part st) = (wal, r)"
  shows "(\<exists>d' p' report. part_open pf CreateOk directory ((rn_dir st)\<lparr>pd_wal := wal, pd_locked := False\<rparr>) =
      Some (d', Inr (p', report)) \<and> contents p' = contents (rn_part st) \<and> pt_index p' = pt_index (rn_part st) \<and>
      pt_idem p' = pt_idem (rn_part st) \<and> pt_high_water p' = pt_high_water (rn_part st)) \<and>
    (\<forall>removed. r = Inr removed \<longrightarrow> wal = drop removed (pd_wal (rn_dir st)) \<and>
      (\<exists>segments. list_segments wal = Inr segments \<and>
        (\<forall>f\<in>fst ` set (tl segments). pt_snapshot_high_water (rn_part st) + 1 < f)))"
proof -
  obtain s segs where dur: "durable pf s (rn_dir st) segs (rn_part st)"
    using run_stateD [OF assms(1-7)] by metis
  from durable_truncate [OF dur assms(8)] obtain s' k where
    k: "durable pf s' ((rn_dir st)\<lparr>pd_wal := wal\<rparr>) (drop k segs) (rn_part st)" "wal = drop k (pd_wal (rn_dir st))"
    "\<forall>removed. r = Inr removed \<longrightarrow> removed = k \<and>
      (\<forall>f\<in>fst ` set (tl (drop k segs)). \<not> f \<le> pt_snapshot_high_water (rn_part st) + 1)" by blast
  from durable_reopen [OF k(1), of directory] obtain d' p' report where
    o: "part_open pf CreateOk directory ((rn_dir st)\<lparr>pd_wal := wal, pd_locked := False\<rparr>) = Some (d', Inr (p', report))"
    "bare p' = bare (rn_part st)" by auto
  have "contents p' = contents (rn_part st)" "pt_index p' = pt_index (rn_part st)"
    "pt_idem p' = pt_idem (rn_part st)" "pt_high_water p' = pt_high_water (rn_part st)"
    using o(2) by (metis bare_simps)+
  moreover have "log_ok (pf_crc pf) (cfg_id (pt_config (rn_part st))) s' wal (drop k segs)"
    using k(1) by (auto simp: durable_def serving_def writer_ok_def)
  from list_segments_log [OF this] have "list_segments wal = Inr (segment_names (drop k segs))" .
  moreover have "fst ` set (tl (segment_names (drop k segs))) = fst ` set (tl (drop k segs))"
    by (simp add: segment_names_def map_tl [symmetric] image_image case_prod_beta)
  then have "\<forall>removed. r = Inr removed \<longrightarrow> removed = k \<and>
      (\<forall>f\<in>fst ` set (tl (segment_names (drop k segs))). pt_snapshot_high_water (rn_part st) + 1 < f)"
    using k(3) by (simp only: not_le)
  ultimately show ?thesis using o(1) k(2) by blast
qed

theorem truncation_keeps_recovery_witness:
  "\<exists>wal r d' p' report. truncate_wal_below_snapshot (\<lambda>_. True) True (pd_wal sample_home) sample_live = (wal, r) \<and>
    part_open sample_pf CreateOk [] (sample_home\<lparr>pd_wal := wal, pd_locked := False\<rparr>) = Some (d', Inr (p', report)) \<and>
    contents p' = contents sample_live"
proof -
  let ?st = "\<lparr>rn_dir = sample_home, rn_part = sample_live, rn_acked = [], rn_plan = None\<rparr>"
  obtain wal r where t: "truncate_wal_below_snapshot (\<lambda>_. True) True (pd_wal (rn_dir ?st)) (rn_part ?st) = (wal, r)" by force
  from truncation_keeps_recovery [OF sample_run [of "[]"] _ _ _ _ _ _ t] t sample_platform show ?thesis by auto
qed

section \<open>Bulk load\<close>

text \<open>C8: A bulk load of rows under distinct keys into an empty directory, whichever graph the builder
  ends with, writes the base snapshot and holds each key with its row and an empty payload; reopening
  gives that back.\<close>

theorem bulk_load_recovers:
  assumes "pd_wal d = []" and "pd_snap d = []"
    and "pf_of_json pf (pf_to_json pf (config\<lparr>cfg_base_snapshot := True\<rparr>)) = Some (config\<lparr>cfg_base_snapshot := True\<rparr>)"
    and "length (cfg_id config) = 16" and "cfg_idempotency_window config < 2 ^ 32"
    and "cfg_parse_metric config = Inr metric"
    and "built (pf_ln pf) vectors metric (cfg_params config) g" and "build_fits vectors (cfg_params config)"
    and "\<forall>key\<in>set ks. key \<noteq> [] \<and> length key \<le> MAX_KEY_LEN"
    and "platform_ok (pf_blake3 pf) (pf_cast pf) (pf_addr pf)"
    and "part_create pf mio cio directory d (config\<lparr>cfg_base_snapshot := True\<rparr>) = (d1, Inr p)"
    and "fv_dims vectors = cfg_dims config" and "flat_len vectors \<le> length ks"
    and "distinct (take (flat_len vectors) ks)"
  shows "\<exists>d' p' d'' q report.
    bulk_load pf mio cio SnapOk directory temporary d config vectors ks g = Some (d', Inr (p', snapshot_name 0)) \<and>
    contents p' = map_of (zip ks (map (\<lambda>row. (row, [])) (flat_rows vectors))) \<and>
    part_open pf CreateOk directory (d'\<lparr>pd_locked := False\<rparr>) = Some (d'', Inr (q, report)) \<and>
    contents q = contents p'"
proof -
  let ?config = "config\<lparr>cfg_base_snapshot := True\<rparr>"
  have "length (cfg_id ?config) = 16" using assms(4) by simp
  then have "pt_config p = ?config"
    by (rule part_create_Inr [OF assms(11,1,2)]) (simp add: fresh_state_def)
  then have dims: "fv_dims vectors = cfg_dims (pt_config p)" using assms(12) by simp
  obtain table keys slots where l: "load_keys 0 (take (flat_len vectors) ks) ([], Map.empty, []) = Inr (table, keys, slots)"
    using load_keys_live [OF assms(14), of Map.empty 0 "[]" "[]"] by (auto simp: prod_eq_iff)
  have "flat_len vectors \<le> 2 ^ 32" using assms(8) by (simp add: build_fits_def)
  then have "length table = flat_len vectors"
    using load_keys_Inr [of 0 "take (flat_len vectors) ks" "[]" Map.empty table keys slots] l assms(13)
    by (auto simp: bulk_slots_def bulk_keys_def)
  then have prep: "bulk_prepare p vectors ks = Inr (table, keys, slots)"
    using l dims by (simp add: bulk_prepare_def)
  obtain d' p' where b: "bulk_load pf mio cio SnapOk directory temporary d config vectors ks g =
      Some (d', Inr (p', snapshot_name 0))" "durable pf 1 d' [(1, [])] p'" "contents p' = bulk_contents vectors ks"
    using bulk_load_ok [OF assms(1-11) prep, of temporary] by blast
  from durable_reopen [OF b(2), of directory] obtain d'' q report where
    "part_open pf CreateOk directory (d'\<lparr>pd_locked := False\<rparr>) = Some (d'', Inr (q, report))" "bare q = bare p'" by auto
  moreover from this(2) have "contents q = contents p'" by (metis bare_simps(10))
  ultimately show ?thesis using b(1,3) unfolding bulk_contents_def by blast
qed

definition bulk_config :: partition_config where
  "bulk_config = sample_config\<lparr>cfg_base_snapshot := True\<rparr>"

definition bulk_pf :: platform where
  "bulk_pf = sample_pf\<lparr>pf_of_json := \<lambda>_. Some bulk_config\<rparr>"

lemma bulk_create:
  "\<exists>p. part_create bulk_pf ManifestOk CreateOk [] sample_empty bulk_config = (sample_home, Inr p)"
proof -
  have c: "cfg_parse_metric bulk_config = Inr L2" "cfg_id bulk_config = sample_pid"
    by (simp_all add: cfg_parse_metric_def bulk_config_def sample_config_def config_new_def metric_parse_def)
  have "cfg_validate bulk_config = Inr ()"
    by code_simp
  moreover have "wal_open sample_crc CreateOk [] sample_pid 0 = (sample_dir, Inr sample_writer)"
    by (simp add: wal_open_def open_extend_def list_segments_def create_segment_def Let_def sample_dir_def sample_writer_def)
  ultimately show ?thesis
    using c by (simp add: part_create_def part_lock_def sample_empty_def sample_home_def bulk_pf_def)
qed

theorem bulk_load_recovers_witness:
  "\<exists>g d' p' d'' q report.
    bulk_load bulk_pf ManifestOk CreateOk SnapOk [] ''t'' sample_empty sample_config
      \<lparr>fv_dims = 2, fv_base = None, fv_tail = sample_rows\<rparr> [[65], [66]] g = Some (d', Inr (p', snapshot_name 0)) \<and>
    part_open bulk_pf CreateOk [] (d'\<lparr>pd_locked := False\<rparr>) = Some (d'', Inr (q, report)) \<and>
    contents q = [[66] \<mapsto> ([f32_zero, f32_two], []), [65] \<mapsto> ([f32_one, f32_zero], [])]"
proof -
  let ?v = "\<lparr>fv_dims = 2, fv_base = None, fv_tail = sample_rows\<rparr>"
  have v: "flat_wf ?v" "flat_len ?v = 2" "flat_rows ?v = [[f32_one, f32_zero], [f32_zero, f32_two]]"
    by (simp_all add: flat_wf_def flat_len_def flat_rows_def base_rows_def sample_rows_def chunks.simps)
  have prm: "cfg_params sample_config = sample_params"
    by (simp add: cfg_params_def sample_config_def config_new_def sample_params_def)
  have fits: "build_fits ?v (cfg_params sample_config)" using v unfolding prm by (simp add: build_fits_def sample_params_def)
  then obtain g where g: "built (\<lambda>_. f64_one) ?v L2 (cfg_params sample_config) g" using built_exists by blast
  obtain p where c: "part_create bulk_pf ManifestOk CreateOk [] sample_empty (sample_config\<lparr>cfg_base_snapshot := True\<rparr>) =
      (sample_home, Inr p)" using bulk_create by (auto simp: bulk_config_def)
  have pf: "pf_of_json bulk_pf x = Some (sample_config\<lparr>cfg_base_snapshot := True\<rparr>)" "pf_ln bulk_pf = (\<lambda>_. f64_one)"
    "pf_blake3 bulk_pf = sample_digest" "pf_cast bulk_pf = sample_cast" "pf_addr bulk_pf = 0" for x
    by (simp_all add: bulk_pf_def bulk_config_def)
  have m: "cfg_parse_metric sample_config = Inr L2"
    by (simp add: cfg_parse_metric_def sample_config_def config_new_def metric_parse_def)
  have keys: "\<forall>key\<in>set [[65], [66 :: u8]]. key \<noteq> [] \<and> length key \<le> MAX_KEY_LEN" by (simp add: MAX_KEY_LEN_def)
  from bulk_load_recovers [OF _ _ _ _ _ m _ fits keys _ c, of g "''t''"] g pf v sample_platform
  obtain d' p' d'' q report where o:
    "bulk_load bulk_pf ManifestOk CreateOk SnapOk [] ''t'' sample_empty sample_config ?v [[65], [66]] g =
      Some (d', Inr (p', snapshot_name 0))"
    "contents p' = map_of (zip [[65], [66]] (map (\<lambda>row. (row, [])) (flat_rows ?v)))"
    "part_open bulk_pf CreateOk [] (d'\<lparr>pd_locked := False\<rparr>) = Some (d'', Inr (q, report))" "contents q = contents p'"
    by (auto simp: sample_empty_def)
  moreover have "contents q = [[66] \<mapsto> ([f32_zero, f32_two], []), [65] \<mapsto> ([f32_one, f32_zero], [])]"
    unfolding o(4) o(2) v(3) by simp
  ultimately show ?thesis by blast
qed

text \<open>C9: A crash in the middle of a bulk load, after the directory was created and before its base
  snapshot was in place, leaves a directory that refuses to open: no empty partition is served in place
  of the rows.\<close>

theorem interrupted_bulk_load_refused:
  assumes "part_create pf mio cio directory d (config\<lparr>cfg_base_snapshot := True\<rparr>) = (d1, Inr p)"
    and "pd_wal d = []" and "pd_snap d = []" and "length (cfg_id config) = 16"
    and "pf_of_json pf (pf_to_json pf (config\<lparr>cfg_base_snapshot := True\<rparr>)) = Some (config\<lparr>cfg_base_snapshot := True\<rparr>)"
  shows "part_open pf cio' directory (d1\<lparr>pd_locked := False\<rparr>) =
    Some (d1\<lparr>pd_locked := False\<rparr>, Inl (BaseSnapshotUnavailable 0))"
proof -
  have "length (cfg_id (config\<lparr>cfg_base_snapshot := True\<rparr>)) = 16" using assms(4) by simp
  then obtain metric where m: "cfg_parse_metric (config\<lparr>cfg_base_snapshot := True\<rparr>) = Inr metric"
    "pd_manifest d1 = Some (pf_to_json pf (config\<lparr>cfg_base_snapshot := True\<rparr>))" "pd_snap d1 = []"
    by (rule part_create_Inr [OF assms(1-3)]) blast
  have "cfg_validate (config\<lparr>cfg_base_snapshot := True\<rparr>) = Inr ()"
    using assms(1) by (auto simp: part_create_def split: sum.splits)
  then have "recover_base pf (d1\<lparr>pd_locked := True\<rparr>) = Inl (BaseSnapshotUnavailable 0)"
    using m assms(5) by (simp add: recover_base_def snapshot_list_def sort_by_def map_filter_simps)
  then show ?thesis by (simp add: part_open_def part_lock_def recover_def)
qed

theorem interrupted_bulk_load_refused_witness:
  "part_open bulk_pf CreateOk [] (sample_home\<lparr>pd_locked := False\<rparr>) =
    Some (sample_home\<lparr>pd_locked := False\<rparr>, Inl (BaseSnapshotUnavailable 0))"
proof -
  obtain p where "part_create bulk_pf ManifestOk CreateOk [] sample_empty (sample_config\<lparr>cfg_base_snapshot := True\<rparr>) =
      (sample_home, Inr p)" using bulk_create by (auto simp: bulk_config_def)
  from interrupted_bulk_load_refused [OF this, of CreateOk] show ?thesis
    by (simp add: sample_empty_def bulk_pf_def bulk_config_def)
qed

end
