(* ===== verification/Service_Base.thy ===== *)
theory Service_Base
  imports Collections
begin

text \<open>
  What the theories of the storage service (\<open>src/crates/distr-hnsw\<close>) share: text as UTF-8 bytes with
  the standard library's \<open>from_utf8\<close> and \<open>trim\<close>, signed 64-bit times with saturating arithmetic,
  bounded readers, and the third-party functions the service calls, gathered in one record. A
  \<open>String\<close> is the list of its bytes; an \<open>i64\<close> is a 64-bit word read with \<open>sint\<close>.
\<close>

named_theorems service_simps \<open>round trips of the codecs of the service\<close>

type_synonym i64 = "64 word"

section \<open>Text\<close>

definition ascii :: "string \<Rightarrow> bytes" where
  "ascii s = map of_char s"

definition cont_byte :: "u8 \<Rightarrow> bool" where
  "cont_byte b \<longleftrightarrow> 0x80 \<le> b \<and> b \<le> 0xBF"

text \<open>The continuation bytes after \<open>b\<close>: \<open>n\<close> of them, the first between \<open>lo\<close> and \<open>hi\<close>.\<close>

definition utf8_tail :: "u8 \<Rightarrow> u8 \<Rightarrow> nat \<Rightarrow> bytes \<Rightarrow> nat option" where
  "utf8_tail lo hi n bs =
     (case bs of
        [] \<Rightarrow> None
      | c # cs \<Rightarrow> if lo \<le> c \<and> c \<le> hi \<and> n \<le> length bs \<and> list_all cont_byte (take (n - 1) cs)
                  then Some n else None)"

definition utf8_step :: "u8 \<Rightarrow> bytes \<Rightarrow> nat option" where
  "utf8_step b bs =
     (if b < 0x80 then Some 0
      else if 0xC2 \<le> b \<and> b \<le> 0xDF then utf8_tail 0x80 0xBF 1 bs
      else if b = 0xE0 then utf8_tail 0xA0 0xBF 2 bs
      else if b = 0xED then utf8_tail 0x80 0x9F 2 bs
      else if 0xE1 \<le> b \<and> b \<le> 0xEF then utf8_tail 0x80 0xBF 2 bs
      else if b = 0xF0 then utf8_tail 0x90 0xBF 3 bs
      else if 0xF1 \<le> b \<and> b \<le> 0xF3 then utf8_tail 0x80 0xBF 3 bs
      else if b = 0xF4 then utf8_tail 0x80 0x8F 3 bs
      else None)"

text \<open>\<open>str::from_utf8\<close> accepts.\<close>

fun utf8_ok :: "bytes \<Rightarrow> bool" where
  "utf8_ok [] = True"
| "utf8_ok (b # bs) = (case utf8_step b bs of None \<Rightarrow> False | Some n \<Rightarrow> utf8_ok (drop n bs))"

text \<open>The encodings of the characters with the Unicode property \<open>White_Space\<close>.\<close>

definition white_space :: "bytes list" where
  "white_space =
     [[0x09], [0x0A], [0x0B], [0x0C], [0x0D], [0x20], [0xC2, 0x85], [0xC2, 0xA0], [0xE1, 0x9A, 0x80],
      [0xE2, 0x80, 0x80], [0xE2, 0x80, 0x81], [0xE2, 0x80, 0x82], [0xE2, 0x80, 0x83],
      [0xE2, 0x80, 0x84], [0xE2, 0x80, 0x85], [0xE2, 0x80, 0x86], [0xE2, 0x80, 0x87],
      [0xE2, 0x80, 0x88], [0xE2, 0x80, 0x89], [0xE2, 0x80, 0x8A], [0xE2, 0x80, 0xA8],
      [0xE2, 0x80, 0xA9], [0xE2, 0x80, 0xAF], [0xE2, 0x81, 0x9F], [0xE3, 0x80, 0x80]]"

definition starts_with :: "'a list \<Rightarrow> 'a list \<Rightarrow> bool" where
  "starts_with xs p \<longleftrightarrow> take (length p) xs = p"

text \<open>Strip any of \<open>ws\<close> from the front, as often as it is there.\<close>

function strip_front :: "bytes list \<Rightarrow> bytes \<Rightarrow> bytes" where
  "strip_front ws bs =
     (case find (\<lambda>w. w \<noteq> [] \<and> starts_with bs w) ws of
        None \<Rightarrow> bs
      | Some w \<Rightarrow> strip_front ws (drop (length w) bs))"
  by pat_completeness auto
termination
proof (relation "measure (\<lambda>(ws, bs). length bs)", goal_cases)
  case (2 ws bs w)
  then have "w \<noteq> []" "take (length w) bs = w" by (auto simp: find_Some_iff starts_with_def)
  then show ?case by (cases bs) auto
qed simp

declare strip_front.simps [simp del]

text \<open>\<open>str::trim\<close>.\<close>

definition trim :: "bytes \<Rightarrow> bytes" where
  "trim bs = rev (strip_front (map rev white_space) (rev (strip_front white_space bs)))"

text \<open>Visible ASCII: valid UTF-8 that trimming leaves alone.\<close>

definition plain_text :: "bytes \<Rightarrow> bool" where
  "plain_text bs \<longleftrightarrow> list_all (\<lambda>b. 0x21 \<le> b \<and> b \<le> 0x7E) bs"

definition lower_hex :: "u8 \<Rightarrow> bool" where
  "lower_hex b \<longleftrightarrow> 0x30 \<le> b \<and> b \<le> 0x39 \<or> 0x61 \<le> b \<and> b \<le> 0x66"

section \<open>Signed times\<close>

text \<open>\<open>i64::saturating_add\<close> and \<open>i64::saturating_sub\<close> clamp the exact result.\<close>

definition sat_i64 :: "int \<Rightarrow> int" where
  "sat_i64 n = max (- (2 ^ 63)) (min (2 ^ 63 - 1) n)"

section \<open>Readers\<close>

text \<open>\<open>Reader::take\<close>: \<open>e\<close> is the error of a reader that runs out of bytes.\<close>

definition sr_take :: "'e \<Rightarrow> nat \<Rightarrow> bytes \<Rightarrow> 'e + bytes \<times> bytes" where
  "sr_take e n bs = (if length bs < n then Inl e else Inr (take n bs, drop n bs))"

definition sr_u8 :: "'e \<Rightarrow> bytes \<Rightarrow> 'e + u8 \<times> bytes" where
  "sr_u8 e bs = rbind (sr_take e 1 bs) (\<lambda>(h, r). Inr (hd h, r))"

definition sr_u16 :: "'e \<Rightarrow> bytes \<Rightarrow> 'e + u16 \<times> bytes" where
  "sr_u16 e bs = rbind (sr_take e 2 bs) (\<lambda>(h, r). Inr (u16_of_le h, r))"

definition sr_u32 :: "'e \<Rightarrow> bytes \<Rightarrow> 'e + u32 \<times> bytes" where
  "sr_u32 e bs = rbind (sr_take e 4 bs) (\<lambda>(h, r). Inr (u32_of_le h, r))"

definition sr_u64 :: "'e \<Rightarrow> bytes \<Rightarrow> 'e + u64 \<times> bytes" where
  "sr_u64 e bs = rbind (sr_take e 8 bs) (\<lambda>(h, r). Inr (u64_of_le h, r))"

section \<open>Third-party functions\<close>

text \<open>
  BLAKE3, its key derivation and its \<open>Hash::from_hex\<close>, the \<open>hex\<close> (also BLAKE3's \<open>to_hex\<close>) and \<open>base64\<close> (URL-safe, no padding) codecs, Ed25519
  (public key of a seed, whether 32 bytes are a verification key, sign, verify) and
  XChaCha20-Poly1305 (key, nonce, associated data, message).
\<close>

record libs =
  lb_blake3 :: "bytes \<Rightarrow> bytes"
  lb_derive :: "string \<Rightarrow> bytes \<Rightarrow> bytes"
  lb_hex :: "bytes \<Rightarrow> bytes"
  lb_unhex :: "bytes \<Rightarrow> bytes option"
  lb_hash_from_hex :: "bytes \<Rightarrow> bytes option"
  lb_b64 :: "bytes \<Rightarrow> bytes"
  lb_unb64 :: "bytes \<Rightarrow> bytes option"
  lb_public :: "bytes \<Rightarrow> bytes"
  lb_point :: "bytes \<Rightarrow> bool"
  lb_sign :: "bytes \<Rightarrow> bytes \<Rightarrow> bytes"
  lb_verify :: "bytes \<Rightarrow> bytes \<Rightarrow> bytes \<Rightarrow> bool"
  lb_seal :: "bytes \<Rightarrow> bytes \<Rightarrow> bytes \<Rightarrow> bytes \<Rightarrow> bytes option"
  lb_open :: "bytes \<Rightarrow> bytes \<Rightarrow> bytes \<Rightarrow> bytes \<Rightarrow> bytes option"

text \<open>
  Their documented behaviour, as far as the theorems need it. A ciphertext opens exactly when its tag
  is the one sealing computes, so opening accepts exactly what sealing gives.
\<close>

definition text_ok :: "libs \<Rightarrow> bool" where
  "text_ok lb \<longleftrightarrow>
     (\<forall>b. length (lb_blake3 lb b) = 32) \<and> (\<forall>c b. length (lb_derive lb c b) = 32) \<and>
     (\<forall>b. length (lb_hex lb b) = 2 * length b \<and> list_all lower_hex (lb_hex lb b)) \<and>
     (\<forall>b. lb_unhex lb (lb_hex lb b) = Some b) \<and>
     (\<forall>b. length b = 32 \<longrightarrow> lb_hash_from_hex lb (lb_hex lb b) = Some b) \<and>
     (\<forall>t. list_all lower_hex t \<and> even (length t) \<longrightarrow> (\<exists>b. lb_unhex lb t = Some b \<and> lb_hex lb b = t)) \<and>
     (\<forall>b. lb_unb64 lb (lb_b64 lb b) = Some b \<and> plain_text (lb_b64 lb b))"

definition signing_ok :: "libs \<Rightarrow> bool" where
  "signing_ok lb \<longleftrightarrow>
     (\<forall>seed. length (lb_public lb seed) = 32 \<and> lb_point lb (lb_public lb seed)) \<and>
     (\<forall>seed m. length (lb_sign lb seed m) = 64 \<and> lb_verify lb (lb_public lb seed) m (lb_sign lb seed m))"

definition sealing_ok :: "libs \<Rightarrow> bool" where
  "sealing_ok lb \<longleftrightarrow>
     (\<forall>key nonce aad msg ct. lb_open lb key nonce aad ct = Some msg \<longleftrightarrow> lb_seal lb key nonce aad msg = Some ct) \<and>
     (\<forall>key nonce aad msg ct. lb_seal lb key nonce aad msg = Some ct \<longrightarrow> length ct = length msg + 16)"

section \<open>Lemmas\<close>

lemma sr_take_append [simp]:
  "length xs = n \<Longrightarrow> sr_take e n (xs @ ys) = Inr (xs, ys)"
  "length xs = n \<Longrightarrow> sr_take e n xs = Inr (xs, [])"
  by (simp_all add: sr_take_def)

lemma sr_take_Inr: "sr_take e n bs = Inr (h, r) \<longleftrightarrow> bs = h @ r \<and> length h = n"
  by (auto simp: sr_take_def)

lemma sr_u8_Cons [simp]: "sr_u8 e (b # bs) = Inr (b, bs)"
  by (simp add: sr_u8_def sr_take_def)

lemma sr_u8_Inr: "sr_u8 e bs = Inr (b, r) \<longleftrightarrow> bs = b # r"
  by (cases bs) (auto simp: sr_u8_def sr_take_def)

lemma sr_words [simp]:
  "sr_u16 e (u16_le v @ r) = Inr (v, r)" "sr_u32 e (u32_le w @ r) = Inr (w, r)"
  "sr_u64 e (u64_le x @ r) = Inr (x, r)" "sr_u64 e (u64_le x) = Inr (x, [])"
  by (simp_all add: sr_u16_def sr_u32_def sr_u64_def)

lemma sr_words_Inr:
  "sr_u16 e bs = Inr (v, r) \<longleftrightarrow> bs = u16_le v @ r"
  "sr_u32 e bs = Inr (w, r) \<longleftrightarrow> bs = u32_le w @ r"
  "sr_u64 e bs = Inr (x, r) \<longleftrightarrow> bs = u64_le x @ r"
  by (auto simp: sr_u16_def sr_u32_def sr_u64_def rbind_eq_Inr sr_take_Inr
      u16_le_of_le u32_le_of_le u64_le_of_le)

lemma plain_Nil [simp]: "plain_text []"
  and plain_Cons: "plain_text (b # bs) \<longleftrightarrow> 0x21 \<le> b \<and> b \<le> 0x7E \<and> plain_text bs"
  and plain_rev [simp]: "plain_text (rev bs) = plain_text bs"
  by (simp_all add: plain_text_def)

lemma plain_utf8: "plain_text bs \<Longrightarrow> utf8_ok bs"
proof (induction bs)
  case (Cons b bs)
  then have "b < 0x80" by (simp add: plain_Cons) unat_arith
  with Cons show ?case by (simp add: plain_Cons utf8_step_def)
qed simp

lemma strip_front_plain:
  assumes "plain_text bs" and "list_all (\<lambda>w. w \<noteq> [] \<longrightarrow> \<not> (0x21 \<le> hd w \<and> hd w \<le> 0x7E)) ws"
  shows "strip_front ws bs = bs"
proof -
  have "\<not> (w \<noteq> [] \<and> starts_with bs w)" if "w \<in> set ws" for w
  proof
    assume w: "w \<noteq> [] \<and> starts_with bs w"
    then obtain b bs' where "bs = b # bs'" "hd w = b"
      by (cases bs; cases w) (auto simp: starts_with_def)
    with w assms that show False by (auto simp: plain_Cons list_all_iff)
  qed
  then have "find (\<lambda>w. w \<noteq> [] \<and> starts_with bs w) ws = None" by (auto simp: find_None_iff)
  then show ?thesis by (subst strip_front.simps) simp
qed

lemma trim_plain [simp]: "plain_text bs \<Longrightarrow> trim bs = bs"
  by (simp add: trim_def strip_front_plain white_space_def)

lemma hex_plain: "list_all lower_hex bs \<Longrightarrow> plain_text bs"
  unfolding plain_text_def list_all_iff
proof
  fix b assume "\<forall>b\<in>set bs. lower_hex b" "b \<in> set bs"
  then have "lower_hex b" by blast
  then show "0x21 \<le> b \<and> b \<le> 0x7E" unfolding lower_hex_def by unat_arith
qed

lemma sat_i64_id: "- (2 ^ 63) \<le> n \<Longrightarrow> n < 2 ^ 63 \<Longrightarrow> sat_i64 n = n"
  by (simp add: sat_i64_def)

lemma text_okD:
  assumes "text_ok lb"
  shows "length (lb_blake3 lb b) = 32" "length (lb_hex lb b) = 2 * length b" "list_all lower_hex (lb_hex lb b)"
    "lb_unhex lb (lb_hex lb b) = Some b" "lb_unb64 lb (lb_b64 lb b) = Some b" "plain_text (lb_b64 lb b)"
    "length (lb_derive lb c b) = 32" "length b = 32 \<Longrightarrow> lb_hash_from_hex lb (lb_hex lb b) = Some b"
  using assms by (simp_all add: text_ok_def)

lemma text_ok_unhex:
  assumes "text_ok lb" and "list_all lower_hex t" and "even (length t)"
  obtains b where "lb_unhex lb t = Some b" "lb_hex lb b = t" "length t = 2 * length b"
  using assms unfolding text_ok_def by metis

end
