(* ===== verification/Service_Object.thy ===== *)
theory Service_Object
  imports Service_Base
begin

text \<open>
  Object kinds and object hashes (\<open>object.rs\<close>). A hash is the text of 64 lowercase hexadecimal digits.
\<close>

datatype object_kind = KChunk | KManifest | KDeletionMarker

definition ALL_KINDS :: "object_kind list" where
  "ALL_KINDS = [KChunk, KManifest, KDeletionMarker]"

definition kind_str :: "object_kind \<Rightarrow> bytes" where
  "kind_str k = ascii (case k of KChunk \<Rightarrow> ''chunk'' | KManifest \<Rightarrow> ''manifest'' | KDeletionMarker \<Rightarrow> ''deletion_marker'')"

datatype object_error = InvalidKind bytes | InvalidHash bytes

definition kind_parse :: "bytes \<Rightarrow> object_error + object_kind" where
  "kind_parse value =
     (if value = ascii ''chunk'' then Inr KChunk
      else if value = ascii ''manifest'' then Inr KManifest
      else if value = ascii ''deletion_marker'' then Inr KDeletionMarker
      else Inl (InvalidKind value))"

type_synonym object_hash = bytes

definition hash_digest :: "libs \<Rightarrow> bytes \<Rightarrow> object_hash" where
  "hash_digest lb bs = lb_hex lb (lb_blake3 lb bs)"

definition hash_valid :: "bytes \<Rightarrow> bool" where
  "hash_valid value \<longleftrightarrow> length value = 64 \<and> list_all lower_hex value"

definition hash_parse :: "bytes \<Rightarrow> object_error + object_hash" where
  "hash_parse value = (if \<not> hash_valid value then Inl (InvalidHash value) else Inr value)"

section \<open>Lemmas\<close>

lemma all_kinds: "set ALL_KINDS = UNIV"
  using object_kind.exhaust by (auto simp: ALL_KINDS_def)

lemma kind_parse_str [simp]: "kind_parse (kind_str k) = Inr k"
  by (cases k) (simp_all add: kind_parse_def kind_str_def ascii_def)

lemma hash_parse_Inr [simp]: "hash_parse v = Inr h \<longleftrightarrow> h = v \<and> hash_valid v"
  by (auto simp: hash_parse_def)

lemma hash_hex: "text_ok lb \<Longrightarrow> length b = 32 \<Longrightarrow> hash_valid (lb_hex lb b)"
  by (simp add: hash_valid_def text_okD)

lemma hash_digest_valid: "text_ok lb \<Longrightarrow> hash_valid (hash_digest lb bs)"
  by (simp add: hash_digest_def hash_hex text_okD(1))

lemma hash_unhex:
  assumes "text_ok lb" and "hash_valid h"
  obtains b where "lb_unhex lb h = Some b" "lb_hex lb b = h" "length b = 32"
  using text_ok_unhex [OF assms(1), of h] assms(2) by (auto simp: hash_valid_def)

end
