(* ===== verification/Service_Crypto.thy ===== *)
theory Service_Crypto
  imports Service_Object
begin

text \<open>
  Keys and authenticated encryption (\<open>crypto.rs\<close>): the master key file, keys wrapped under the master
  key, and encrypted chunks. The cipher is \<^const>\<open>lb_seal\<close> and \<^const>\<open>lb_open\<close>; random keys and nonces are
  arguments. A key file is its mode and its bytes.
\<close>

definition ENVELOPE_VERSION :: u16 where "ENVELOPE_VERSION = 1"
definition KEY_LEN :: nat where "KEY_LEN = 32"
definition NONCE_LEN :: nat where "NONCE_LEN = 24"
definition KEY_ID_LEN :: nat where "KEY_ID_LEN = 16"
definition KEY_ID_CONTEXT :: string where "KEY_ID_CONTEXT = ''distr-hnsw:master-key-id:v1''"

datatype crypto_error =
    KeyAlreadyExists
  | InsecureKeyPermissions
  | InvalidKeyLength
  | PlaintextLengthMismatch
  | UnsupportedEnvelopeVersion u16
  | CryptoAead
  | CryptoIo

section \<open>The master key\<close>

record key_file =
  kf_mode :: nat
  kf_bytes :: bytes

text \<open>
  What happens to the calls of \<open>write_new\<close>: the temporary file is not written, another process made
  the key first, the directory does not sync after the link, or everything works.
\<close>

datatype key_write = KeyWritten | KeyNotWritten | KeyRaced key_file | KeyNotSynced

definition key_write_new :: "key_write \<Rightarrow> key_file option \<Rightarrow> bytes \<Rightarrow> key_file option \<times> (crypto_error + unit)" where
  "key_write_new io file master =
     (if file \<noteq> None then (file, Inl KeyAlreadyExists)
      else case io of
        KeyNotWritten \<Rightarrow> (file, Inl CryptoIo)
      | KeyRaced other \<Rightarrow> (Some other, Inl KeyAlreadyExists)
      | KeyNotSynced \<Rightarrow> (Some \<lparr>kf_mode = 384, kf_bytes = master\<rparr>, Inl CryptoIo)
      | KeyWritten \<Rightarrow> (Some \<lparr>kf_mode = 384, kf_bytes = master\<rparr>, Inr ()))"

text \<open>The mode 0600 is 384. \<open>mode & 0o077\<close>: the six low bits. \<open>read_exact\<close> fails on a short file.\<close>

definition key_load :: "key_file option \<Rightarrow> crypto_error + bytes" where
  "key_load file =
     (case file of
        None \<Rightarrow> Inl CryptoIo
      | Some f \<Rightarrow>
          if kf_mode f mod 64 \<noteq> 0 then Inl InsecureKeyPermissions
          else if length (kf_bytes f) < KEY_LEN then Inl CryptoIo
          else if KEY_LEN < length (kf_bytes f) then Inl InvalidKeyLength
          else Inr (kf_bytes f))"

definition master_key_id :: "libs \<Rightarrow> bytes \<Rightarrow> bytes" where
  "master_key_id lb master = take KEY_ID_LEN (lb_derive lb KEY_ID_CONTEXT master)"

section \<open>Wrapped keys\<close>

record wrapped_key =
  wk_nonce :: bytes
  wk_ciphertext :: bytes

definition key_aad :: "bytes \<Rightarrow> uuid \<Rightarrow> u64 \<Rightarrow> bytes" where
  "key_aad purpose file_id generation = ascii ''distr-hnsw:key:v1:'' @ purpose @ file_id @ u64_le generation"

definition wrap_key ::
  "libs \<Rightarrow> bytes \<Rightarrow> bytes \<Rightarrow> uuid \<Rightarrow> u64 \<Rightarrow> bytes \<Rightarrow> bytes \<Rightarrow> crypto_error + wrapped_key" where
  "wrap_key lb master purpose file_id generation key nonce =
     rbind (ok_or CryptoAead (lb_seal lb master nonce (key_aad purpose file_id generation) key)) (\<lambda>ciphertext.
       Inr \<lparr>wk_nonce = nonce, wk_ciphertext = ciphertext\<rparr>)"

definition unwrap_key :: "libs \<Rightarrow> bytes \<Rightarrow> bytes \<Rightarrow> uuid \<Rightarrow> u64 \<Rightarrow> wrapped_key \<Rightarrow> crypto_error + bytes" where
  "unwrap_key lb master purpose file_id generation wrapped =
     rbind (ok_or CryptoAead
       (lb_open lb master (wk_nonce wrapped) (key_aad purpose file_id generation) (wk_ciphertext wrapped)))
     (\<lambda>plaintext. if length plaintext = KEY_LEN then Inr plaintext else Inl InvalidKeyLength)"

section \<open>Chunks\<close>

text \<open>\<open>None\<close> is the \<open>unreachable!\<close> of the other versions.\<close>

definition chunk_aad :: "u16 \<Rightarrow> uuid \<Rightarrow> u32 \<Rightarrow> u32 \<Rightarrow> bytes option" where
  "chunk_aad version file_id ordinal plaintext_len =
     (if version = 1
      then Some (ascii ''distr-hnsw:chunk:v1'' @ file_id @ u32_le ordinal @ u32_le plaintext_len)
      else None)"

definition encrypt_chunk ::
  "libs \<Rightarrow> bytes \<Rightarrow> u16 \<Rightarrow> uuid \<Rightarrow> u32 \<Rightarrow> u32 \<Rightarrow> bytes \<Rightarrow> bytes \<Rightarrow> (crypto_error + bytes) option" where
  "encrypt_chunk lb key version file_id ordinal plaintext_len nonce plaintext =
     (if length plaintext \<noteq> unat plaintext_len then Some (Inl PlaintextLengthMismatch)
      else if version \<noteq> ENVELOPE_VERSION then Some (Inl (UnsupportedEnvelopeVersion version))
      else map_option (\<lambda>aad. ok_or CryptoAead (lb_seal lb key nonce aad plaintext))
             (chunk_aad version file_id ordinal plaintext_len))"

definition decrypt_chunk ::
  "libs \<Rightarrow> bytes \<Rightarrow> u16 \<Rightarrow> uuid \<Rightarrow> u32 \<Rightarrow> u32 \<Rightarrow> bytes \<Rightarrow> bytes \<Rightarrow> (crypto_error + bytes) option" where
  "decrypt_chunk lb key version file_id ordinal plaintext_len nonce ciphertext =
     (if version \<noteq> ENVELOPE_VERSION then Some (Inl (UnsupportedEnvelopeVersion version))
      else map_option (\<lambda>aad.
             rbind (ok_or CryptoAead (lb_open lb key nonce aad ciphertext)) (\<lambda>plaintext.
               if length plaintext \<noteq> unat plaintext_len then Inl PlaintextLengthMismatch else Inr plaintext))
             (chunk_aad version file_id ordinal plaintext_len))"

section \<open>Lemmas\<close>

lemma sealing_okD:
  assumes "sealing_ok lb"
  shows "lb_open lb key nonce aad ct = Some msg \<longleftrightarrow> lb_seal lb key nonce aad msg = Some ct"
    "lb_seal lb key nonce aad msg = Some ct \<Longrightarrow> length ct = length msg + 16"
  using assms by (simp_all add: sealing_ok_def)

lemma unwrap_wrap:
  assumes "sealing_ok lb" and "wrap_key lb master purpose file_id generation key nonce = Inr w" and "length key = KEY_LEN"
  shows "unwrap_key lb master purpose file_id generation w = Inr key \<and> wk_nonce w = nonce \<and>
    length (wk_ciphertext w) = KEY_LEN + 16"
  using assms sealing_okD [OF assms(1)] by (auto simp: wrap_key_def unwrap_key_def rbind_eq_Inr)

lemma unwrap_Inr:
  assumes "sealing_ok lb" and "unwrap_key lb master purpose file_id generation w = Inr key"
  shows "wrap_key lb master purpose file_id generation key (wk_nonce w) = Inr w \<and> length key = KEY_LEN"
  using assms sealing_okD(1) [OF assms(1)] by (auto simp: wrap_key_def unwrap_key_def rbind_eq_Inr split: if_splits)

lemma decrypt_encrypt:
  assumes "sealing_ok lb" and "encrypt_chunk lb key version file_id ordinal len nonce plaintext = Some (Inr ct)"
  shows "decrypt_chunk lb key version file_id ordinal len nonce ct = Some (Inr plaintext) \<and>
    length ct = length plaintext + 16 \<and> length plaintext = unat len"
proof -
  from assms(2) obtain aad where a: "chunk_aad version file_id ordinal len = Some aad"
    "lb_seal lb key nonce aad plaintext = Some ct" "length plaintext = unat len" "version = ENVELOPE_VERSION"
    by (auto simp: encrypt_chunk_def split: if_splits)
  then have "lb_open lb key nonce aad ct = Some plaintext" using sealing_okD(1) [OF assms(1)] by blast
  with a show ?thesis using sealing_okD(2) [OF assms(1) a(2)] by (simp add: decrypt_chunk_def)
qed

lemma decrypt_Inr:
  assumes "sealing_ok lb" and "decrypt_chunk lb key version file_id ordinal len nonce ct = Some (Inr plaintext)"
  shows "encrypt_chunk lb key version file_id ordinal len nonce plaintext = Some (Inr ct)"
  using assms(2) sealing_okD [OF assms(1)]
  by (auto simp: encrypt_chunk_def decrypt_chunk_def rbind_eq_Inr split: if_splits)

text \<open>No chunk panics: the version is checked before the associated data is built.\<close>

lemma chunk_no_panic:
  "encrypt_chunk lb key version file_id ordinal len nonce plaintext \<noteq> None"
  "decrypt_chunk lb key version file_id ordinal len nonce ct \<noteq> None"
  by (simp_all add: encrypt_chunk_def decrypt_chunk_def chunk_aad_def ENVELOPE_VERSION_def)

lemma key_load_written:
  assumes "key_write_new io None master = (file, Inr ())" and "length master = KEY_LEN"
  shows "key_load file = Inr master"
  using assms by (auto simp: key_write_new_def key_load_def split: key_write.splits)

end
