(* ===== verification/Service_Format.thy ===== *)
theory Service_Format
  imports Service_Crypto
begin

text \<open>
  The encrypted manifest and deletion marker (\<open>format.rs\<close>). Both are one envelope: a clear header
  (magic, version, file, generation), the object's key wrapped under the master key, and the payload
  encrypted under that key with the header as associated data. The key and the two nonces the encoder
  draws at random are arguments.
\<close>

definition MANIFEST_MAGIC :: bytes where "MANIFEST_MAGIC = ascii ''DHMF''"
definition DELETION_MARKER_MAGIC :: bytes where "DELETION_MARKER_MAGIC = ascii ''DHDM''"
definition MAX_FIELD_LEN :: nat where "MAX_FIELD_LEN = 16 * 1024 * 1024"
definition MANIFEST_KEY_PURPOSE :: bytes where "MANIFEST_KEY_PURPOSE = ascii ''manifest''"
definition DELETION_MARKER_KEY_PURPOSE :: bytes where "DELETION_MARKER_KEY_PURPOSE = ascii ''deletion-marker''"

record chunk_record =
  ck_ordinal :: u32
  ck_plaintext_len :: u32
  ck_nonce :: bytes
  ck_ciphertext_hash :: object_hash
  ck_ciphertext_len :: u32

record manifest_payload =
  mp_name :: bytes
  mp_plaintext_len :: u64
  mp_plaintext_hash :: bytes
  mp_content_key :: wrapped_key
  mp_chunks :: "chunk_record list"

record decoded_manifest =
  dm_file_id :: uuid
  dm_generation :: u64
  dm_payload :: manifest_payload

record deletion_marker =
  dk_file_id :: uuid
  dk_generation :: u64
  dk_deleted_at :: i64

datatype format_error =
    BadMagic
  | FormatVersion u16
  | FormatTruncated
  | FormatTrailingBytes
  | FormatFieldTooLarge
  | InvalidUtf8
  | NonCanonicalOrdinal
  | InvalidDeletionPayload
  | FormatCrypto crypto_error
  | FormatAead
  | FormatHex
  | FormatObject object_error

section \<open>Fields\<close>

definition push_bytes :: "bytes \<Rightarrow> format_error + bytes" where
  "push_bytes bs =
     (if MAX_FIELD_LEN < length bs then Inl FormatFieldTooLarge
      else if 2 ^ 32 \<le> length bs then Inl FormatFieldTooLarge
      else Inr (u32_le (word_of_nat (length bs)) @ bs))"

abbreviation fr_take :: "nat \<Rightarrow> bytes \<Rightarrow> format_error + bytes \<times> bytes" where
  "fr_take \<equiv> sr_take FormatTruncated"

abbreviation fr_u32 :: "bytes \<Rightarrow> format_error + u32 \<times> bytes" where
  "fr_u32 \<equiv> sr_u32 FormatTruncated"

abbreviation fr_u64 :: "bytes \<Rightarrow> format_error + u64 \<times> bytes" where
  "fr_u64 \<equiv> sr_u64 FormatTruncated"

definition fr_bytes :: "bytes \<Rightarrow> format_error + bytes \<times> bytes" where
  "fr_bytes bs =
     rbind (fr_u32 bs) (\<lambda>(count, bs).
     if MAX_FIELD_LEN < unat count then Inl FormatFieldTooLarge else fr_take (unat count) bs)"

definition fr_finish :: "bytes \<Rightarrow> format_error + unit" where
  "fr_finish bs = (if bs = [] then Inr () else Inl FormatTrailingBytes)"

section \<open>The manifest payload\<close>

definition encode_chunk :: "libs \<Rightarrow> chunk_record \<Rightarrow> format_error + bytes" where
  "encode_chunk lb c =
     rbind (ok_or FormatHex (lb_unhex lb (ck_ciphertext_hash c))) (\<lambda>raw.
       Inr (u32_le (ck_ordinal c) @ u32_le (ck_plaintext_len c) @ ck_nonce c @ raw @ u32_le (ck_ciphertext_len c)))"

fun encode_chunks :: "libs \<Rightarrow> chunk_record list \<Rightarrow> format_error + bytes" where
  "encode_chunks lb [] = Inr []"
| "encode_chunks lb (c # cs) =
     rbind (encode_chunk lb c) (\<lambda>b. rbind (encode_chunks lb cs) (\<lambda>bs. Inr (b @ bs)))"

definition encode_payload :: "libs \<Rightarrow> manifest_payload \<Rightarrow> format_error + bytes" where
  "encode_payload lb p =
     rbind (push_bytes (mp_name p)) (\<lambda>name.
     rbind (push_bytes (wk_ciphertext (mp_content_key p))) (\<lambda>ciphertext.
     if 2 ^ 32 \<le> length (mp_chunks p) then Inl FormatFieldTooLarge
     else rbind (encode_chunks lb (mp_chunks p)) (\<lambda>chunks.
       Inr (name @ u64_le (mp_plaintext_len p) @ mp_plaintext_hash p @ wk_nonce (mp_content_key p) @
            ciphertext @ u32_le (word_of_nat (length (mp_chunks p))) @ chunks))))"

definition decode_chunk :: "libs \<Rightarrow> nat \<Rightarrow> bytes \<Rightarrow> format_error + chunk_record \<times> bytes" where
  "decode_chunk lb expected bs =
     rbind (fr_u32 bs) (\<lambda>(ordinal, bs).
     if unat ordinal \<noteq> expected then Inl NonCanonicalOrdinal
     else
     rbind (fr_u32 bs) (\<lambda>(plaintext_len, bs).
     rbind (fr_take NONCE_LEN bs) (\<lambda>(nonce, bs).
     rbind (fr_take 32 bs) (\<lambda>(raw, bs).
     rbind (map_err FormatObject (hash_parse (lb_hex lb raw))) (\<lambda>hash.
     rbind (fr_u32 bs) (\<lambda>(ciphertext_len, bs).
       Inr (\<lparr>ck_ordinal = ordinal, ck_plaintext_len = plaintext_len, ck_nonce = nonce,
             ck_ciphertext_hash = hash, ck_ciphertext_len = ciphertext_len\<rparr>, bs)))))))"

fun decode_chunks :: "libs \<Rightarrow> nat \<Rightarrow> nat \<Rightarrow> bytes \<Rightarrow> format_error + chunk_record list \<times> bytes" where
  "decode_chunks lb 0 expected bs = Inr ([], bs)"
| "decode_chunks lb (Suc n) expected bs =
     rbind (decode_chunk lb expected bs) (\<lambda>(c, bs).
     rbind (decode_chunks lb n (Suc expected) bs) (\<lambda>(cs, bs). Inr (c # cs, bs)))"

definition decode_payload :: "libs \<Rightarrow> bytes \<Rightarrow> format_error + manifest_payload" where
  "decode_payload lb bs =
     rbind (fr_bytes bs) (\<lambda>(name, bs).
     if \<not> utf8_ok name then Inl InvalidUtf8
     else
     rbind (fr_u64 bs) (\<lambda>(plaintext_len, bs).
     rbind (fr_take 32 bs) (\<lambda>(plaintext_hash, bs).
     rbind (fr_take NONCE_LEN bs) (\<lambda>(nonce, bs).
     rbind (fr_bytes bs) (\<lambda>(ciphertext, bs).
     rbind (fr_u32 bs) (\<lambda>(count, bs).
     if MAX_FIELD_LEN div 64 < unat count then Inl FormatFieldTooLarge
     else
     rbind (decode_chunks lb (unat count) 0 bs) (\<lambda>(chunks, bs).
     rbind (fr_finish bs) (\<lambda>_.
       Inr \<lparr>mp_name = name, mp_plaintext_len = plaintext_len, mp_plaintext_hash = plaintext_hash,
            mp_content_key = \<lparr>wk_nonce = nonce, wk_ciphertext = ciphertext\<rparr>, mp_chunks = chunks\<rparr>))))))))"

section \<open>The envelope\<close>

definition clear_header :: "bytes \<Rightarrow> uuid \<Rightarrow> u64 \<Rightarrow> bytes" where
  "clear_header magic file_id generation = magic @ u16_le ENVELOPE_VERSION @ file_id @ u64_le generation"

text \<open>The part the two encoders share: \<open>payload\<close> is computed after the key was wrapped.\<close>

definition seal_envelope ::
  "libs \<Rightarrow> bytes \<Rightarrow> bytes \<Rightarrow> bytes \<Rightarrow> uuid \<Rightarrow> u64 \<Rightarrow> format_error + bytes \<Rightarrow> bytes \<Rightarrow> bytes \<Rightarrow> bytes \<Rightarrow>
     format_error + bytes" where
  "seal_envelope lb master magic purpose file_id generation payload key key_nonce payload_nonce =
     rbind (map_err FormatCrypto (wrap_key lb master purpose file_id generation key key_nonce)) (\<lambda>wrapped.
     rbind payload (\<lambda>payload.
     rbind (ok_or FormatAead
       (lb_seal lb key payload_nonce (clear_header magic file_id generation) payload)) (\<lambda>encrypted.
     rbind (push_bytes (wk_ciphertext wrapped)) (\<lambda>wrapped_field.
     rbind (push_bytes encrypted) (\<lambda>payload_field.
       Inr (clear_header magic file_id generation @ wk_nonce wrapped @ wrapped_field @
            payload_nonce @ payload_field))))))"

definition open_envelope ::
  "libs \<Rightarrow> bytes \<Rightarrow> bytes \<Rightarrow> bytes \<Rightarrow> bytes \<Rightarrow> format_error + uuid \<times> u64 \<times> bytes" where
  "open_envelope lb master magic purpose bs =
     rbind (fr_take 4 bs) (\<lambda>(m, rest).
     if m \<noteq> magic then Inl BadMagic
     else
     rbind (sr_u16 FormatTruncated rest) (\<lambda>(version, rest).
     if version \<noteq> ENVELOPE_VERSION then Inl (FormatVersion version)
     else
     rbind (fr_take 16 rest) (\<lambda>(file_id, rest).
     rbind (fr_u64 rest) (\<lambda>(generation, rest).
     let clear_header_len = length bs - length rest in
     rbind (fr_take NONCE_LEN rest) (\<lambda>(key_nonce, rest).
     rbind (fr_bytes rest) (\<lambda>(wrapped, rest).
     rbind (fr_take NONCE_LEN rest) (\<lambda>(payload_nonce, rest).
     rbind (fr_bytes rest) (\<lambda>(encrypted, rest).
     rbind (fr_finish rest) (\<lambda>_.
     rbind (map_err FormatCrypto
       (unwrap_key lb master purpose file_id generation \<lparr>wk_nonce = key_nonce, wk_ciphertext = wrapped\<rparr>)) (\<lambda>key.
     rbind (ok_or FormatAead (lb_open lb key payload_nonce (take clear_header_len bs) encrypted)) (\<lambda>plaintext.
       Inr (file_id, generation, plaintext))))))))))))"

definition encode_manifest ::
  "libs \<Rightarrow> bytes \<Rightarrow> uuid \<Rightarrow> u64 \<Rightarrow> manifest_payload \<Rightarrow> bytes \<Rightarrow> bytes \<Rightarrow> bytes \<Rightarrow> format_error + bytes" where
  "encode_manifest lb master file_id generation p key key_nonce payload_nonce =
     seal_envelope lb master MANIFEST_MAGIC MANIFEST_KEY_PURPOSE file_id generation (encode_payload lb p)
       key key_nonce payload_nonce"

definition decode_manifest :: "libs \<Rightarrow> bytes \<Rightarrow> bytes \<Rightarrow> format_error + decoded_manifest" where
  "decode_manifest lb master bs =
     rbind (open_envelope lb master MANIFEST_MAGIC MANIFEST_KEY_PURPOSE bs) (\<lambda>(file_id, generation, plaintext).
     rbind (decode_payload lb plaintext) (\<lambda>p.
       Inr \<lparr>dm_file_id = file_id, dm_generation = generation, dm_payload = p\<rparr>))"

definition encode_deletion_marker ::
  "libs \<Rightarrow> bytes \<Rightarrow> uuid \<Rightarrow> u64 \<Rightarrow> i64 \<Rightarrow> bytes \<Rightarrow> bytes \<Rightarrow> bytes \<Rightarrow> format_error + bytes" where
  "encode_deletion_marker lb master file_id generation deleted_at key key_nonce payload_nonce =
     seal_envelope lb master DELETION_MARKER_MAGIC DELETION_MARKER_KEY_PURPOSE file_id generation
       (Inr (u64_le deleted_at)) key key_nonce payload_nonce"

definition decode_deletion_marker :: "libs \<Rightarrow> bytes \<Rightarrow> bytes \<Rightarrow> format_error + deletion_marker" where
  "decode_deletion_marker lb master bs =
     rbind (open_envelope lb master DELETION_MARKER_MAGIC DELETION_MARKER_KEY_PURPOSE bs)
       (\<lambda>(file_id, generation, plaintext).
     if length plaintext \<noteq> 8 then Inl InvalidDeletionPayload
     else Inr \<lparr>dk_file_id = file_id, dk_generation = generation, dk_deleted_at = u64_of_le plaintext\<rparr>)"

section \<open>Lemmas: fields\<close>

lemma push_bytes_Inr: "push_bytes bs = Inr b \<longleftrightarrow> length bs \<le> MAX_FIELD_LEN \<and> b = u32_le (word_of_nat (length bs)) @ bs"
  by (auto simp: push_bytes_def MAX_FIELD_LEN_def)

lemma unat_field [simp]: "n \<le> MAX_FIELD_LEN \<Longrightarrow> unat (word_of_nat n :: u32) = n"
  by (simp add: MAX_FIELD_LEN_def unat_of_nat)

lemma fr_bytes_push: "push_bytes bs = Inr b \<Longrightarrow> fr_bytes (b @ r) = Inr (bs, r)"
  by (auto simp: push_bytes_Inr fr_bytes_def)

lemma fr_bytes_push_end: "push_bytes bs = Inr b \<Longrightarrow> fr_bytes b = Inr (bs, [])"
  using fr_bytes_push [of bs b "[]"] by simp

lemma fr_bytes_Inr: "fr_bytes bs = Inr (h, r) \<longleftrightarrow> (\<exists>b. push_bytes h = Inr b \<and> bs = b @ r)"
proof
  assume "fr_bytes bs = Inr (h, r)"
  then obtain count where c: "bs = u32_le count @ h @ r" "unat count \<le> MAX_FIELD_LEN" "length h = unat count"
    by (auto simp: fr_bytes_def rbind_eq_Inr sr_words_Inr sr_take_Inr split: if_splits)
  then show "\<exists>b. push_bytes h = Inr b \<and> bs = b @ r"
    by (intro exI [of _ "u32_le count @ h"]) (simp add: push_bytes_Inr)
qed (auto intro: fr_bytes_push)

lemma fr_finish_simps [simp]: "fr_finish [] = Inr ()" "fr_finish bs = Inr () \<longleftrightarrow> bs = []"
  by (simp_all add: fr_finish_def)

section \<open>Lemmas: the payload\<close>

definition chunk_wf :: "chunk_record \<Rightarrow> bool" where
  "chunk_wf c \<longleftrightarrow> length (ck_nonce c) = NONCE_LEN \<and> hash_valid (ck_ciphertext_hash c)"

definition payload_wf :: "manifest_payload \<Rightarrow> bool" where
  "payload_wf p \<longleftrightarrow>
     utf8_ok (mp_name p) \<and> length (mp_plaintext_hash p) = 32 \<and> length (wk_nonce (mp_content_key p)) = NONCE_LEN \<and>
     list_all chunk_wf (mp_chunks p) \<and> map (\<lambda>c. unat (ck_ordinal c)) (mp_chunks p) = [0..<length (mp_chunks p)]"

lemma decode_encode_chunk:
  assumes "text_ok lb" and "chunk_wf c" and "encode_chunk lb c = Inr b"
  shows "decode_chunk lb (unat (ck_ordinal c)) (b @ r) = Inr (c, r)" "length b = 68"
proof -
  have wf: "length (ck_nonce c) = NONCE_LEN" "hash_valid (ck_ciphertext_hash c)" using assms(2) by (simp_all add: chunk_wf_def)
  obtain raw where raw: "lb_unhex lb (ck_ciphertext_hash c) = Some raw" "lb_hex lb raw = ck_ciphertext_hash c" "length raw = 32"
    using hash_unhex [OF assms(1) wf(2)] by blast
  then have b: "b = u32_le (ck_ordinal c) @ u32_le (ck_plaintext_len c) @ ck_nonce c @ raw @ u32_le (ck_ciphertext_len c)"
    using assms(3) by (simp add: encode_chunk_def)
  then show "length b = 68" using wf raw by (simp add: NONCE_LEN_def)
  show "decode_chunk lb (unat (ck_ordinal c)) (b @ r) = Inr (c, r)"
    using wf raw by (simp add: decode_chunk_def b hash_parse_def)
qed

lemma decode_chunk_Inr:
  assumes "text_ok lb" and "decode_chunk lb n bs = Inr (c, r)"
  shows "\<exists>b. encode_chunk lb c = Inr b \<and> bs = b @ r \<and> chunk_wf c \<and> unat (ck_ordinal c) = n"
  using assms
  by (auto simp: decode_chunk_def encode_chunk_def chunk_wf_def rbind_eq_Inr sr_words_Inr sr_take_Inr text_okD
      split: if_splits)

lemma decode_encode_chunks:
  assumes "text_ok lb" and "list_all chunk_wf cs" and "encode_chunks lb cs = Inr b"
    and "map (\<lambda>c. unat (ck_ordinal c)) cs = [n..<n + length cs]"
  shows "decode_chunks lb (length cs) n (b @ r) = Inr (cs, r) \<and> length b = 68 * length cs"
  using assms(2-)
proof (induction cs arbitrary: n b)
  case (Cons c cs)
  from Cons.prems(2) obtain b1 b2 where b: "encode_chunk lb c = Inr b1" "encode_chunks lb cs = Inr b2" "b = b1 @ b2"
    by (auto simp: rbind_eq_Inr)
  have n: "[n..<n + length (c # cs)] = n # [Suc n..<Suc n + length cs]" by (subst upt_conv_Cons) auto
  have o: "unat (ck_ordinal c) = n" "map (\<lambda>c. unat (ck_ordinal c)) cs = [Suc n..<Suc n + length cs]"
    using Cons.prems(3) unfolding n by (simp_all del: upt_Suc)
  show ?case
    using Cons.IH [OF _ b(2) o(2)] Cons.prems(1) b(3) o(1) decode_encode_chunk [OF assms(1) _ b(1)] by auto
qed simp

lemma decode_chunks_Inr:
  assumes "text_ok lb" and "decode_chunks lb n k bs = Inr (cs, r)"
  shows "\<exists>b. encode_chunks lb cs = Inr b \<and> bs = b @ r \<and> list_all chunk_wf cs \<and> length cs = n \<and>
    map (\<lambda>c. unat (ck_ordinal c)) cs = [k..<k + n]"
  using assms(2)
proof (induction n arbitrary: k bs cs)
  case (Suc n)
  from Suc.prems obtain c bs1 cs1 where d: "decode_chunk lb k bs = Inr (c, bs1)" "decode_chunks lb n (Suc k) bs1 = Inr (cs1, r)"
    "cs = c # cs1" by (auto simp: rbind_eq_Inr)
  from decode_chunk_Inr [OF assms(1) d(1)] obtain b1 where
    c: "encode_chunk lb c = Inr b1" "bs = b1 @ bs1" "chunk_wf c" "unat (ck_ordinal c) = k" by blast
  from Suc.IH [OF d(2)] obtain b2 where
    cs: "encode_chunks lb cs1 = Inr b2" "bs1 = b2 @ r" "list_all chunk_wf cs1" "length cs1 = n"
      "map (\<lambda>c. unat (ck_ordinal c)) cs1 = [Suc k..<Suc k + n]" by blast
  have "[k..<k + Suc n] = k # [Suc k..<Suc k + n]" by (subst upt_conv_Cons) auto
  with c cs show ?case unfolding d(3) by (simp del: upt_Suc)
qed simp

text \<open>A payload that fits a field has fewer chunks than the decoder's limit.\<close>

lemma payload_round_trip:
  assumes "text_ok lb" and "payload_wf p" and "encode_payload lb p = Inr b" and "length b \<le> MAX_FIELD_LEN"
  shows "decode_payload lb b = Inr p"
proof -
  from assms(3) obtain name ct cs where e: "push_bytes (mp_name p) = Inr name"
    "push_bytes (wk_ciphertext (mp_content_key p)) = Inr ct" "encode_chunks lb (mp_chunks p) = Inr cs"
    "b = name @ u64_le (mp_plaintext_len p) @ mp_plaintext_hash p @ wk_nonce (mp_content_key p) @ ct @
      u32_le (word_of_nat (length (mp_chunks p))) @ cs"
    by (auto simp: encode_payload_def rbind_eq_Inr split: if_splits)
  have wf: "utf8_ok (mp_name p)" "length (mp_plaintext_hash p) = 32" "length (wk_nonce (mp_content_key p)) = NONCE_LEN"
    "list_all chunk_wf (mp_chunks p)" "map (\<lambda>c. unat (ck_ordinal c)) (mp_chunks p) = [0..<0 + length (mp_chunks p)]"
    using assms(2) by (simp_all add: payload_wf_def)
  from decode_encode_chunks [OF assms(1) wf(4) e(3) wf(5), of "[]"]
  have d: "decode_chunks lb (length (mp_chunks p)) 0 cs = Inr (mp_chunks p, [])" "length cs = 68 * length (mp_chunks p)" by auto
  have n: "length (mp_chunks p) \<le> MAX_FIELD_LEN div 64" using assms(4) e(4) d(2) by (simp add: MAX_FIELD_LEN_def)
  then have "unat (word_of_nat (length (mp_chunks p)) :: u32) = length (mp_chunks p)" by simp
  with n d wf(1-3) show ?thesis by (simp add: decode_payload_def e(4) fr_bytes_push [OF e(1)] fr_bytes_push [OF e(2)])
qed

lemma payload_canonical:
  assumes "text_ok lb" and "decode_payload lb b = Inr p"
  shows "encode_payload lb p = Inr b \<and> payload_wf p"
proof -
  from assms(2) obtain name nb ct cb plen phash nonce count chunks bs where d:
    "push_bytes name = Inr nb" "utf8_ok name" "length phash = 32" "length nonce = NONCE_LEN" "push_bytes ct = Inr cb"
    "unat count \<le> MAX_FIELD_LEN div 64" "decode_chunks lb (unat count) 0 bs = Inr (chunks, [])"
    "b = nb @ u64_le plen @ phash @ nonce @ cb @ u32_le count @ bs"
    "p = \<lparr>mp_name = name, mp_plaintext_len = plen, mp_plaintext_hash = phash,
      mp_content_key = \<lparr>wk_nonce = nonce, wk_ciphertext = ct\<rparr>, mp_chunks = chunks\<rparr>"
    by (auto simp: decode_payload_def rbind_eq_Inr sr_words_Inr sr_take_Inr fr_bytes_Inr fr_finish_def not_less
        split: if_splits)
  from decode_chunks_Inr [OF assms(1) d(7)] have c: "encode_chunks lb chunks = Inr bs" "list_all chunk_wf chunks"
    "length chunks = unat count" "map (\<lambda>c. unat (ck_ordinal c)) chunks = [0..<unat count]" by auto
  have "word_of_nat (length chunks) = count" "length chunks < 2 ^ 32" using c(3) unat_bound [of count] by simp_all
  then show ?thesis using d c by (simp add: encode_payload_def payload_wf_def)
qed

section \<open>Lemmas: the envelope\<close>

lemma open_seal:
  assumes "sealing_ok lb"
    and "seal_envelope lb master magic purpose file_id generation (Inr payload) key key_nonce payload_nonce = Inr b"
    and "length magic = 4" and "length file_id = 16" and "length key = KEY_LEN"
    and "length key_nonce = NONCE_LEN" and "length payload_nonce = NONCE_LEN"
  shows "open_envelope lb master magic purpose b = Inr (file_id, generation, payload) \<and>
    length payload + 16 \<le> MAX_FIELD_LEN \<and> length b = 150 + length payload"
proof -
  let ?h = "clear_header magic file_id generation"
  from assms(2) obtain w ct wf pf where e: "wrap_key lb master purpose file_id generation key key_nonce = Inr w"
    "lb_seal lb key payload_nonce ?h payload = Some ct" "push_bytes (wk_ciphertext w) = Inr wf" "push_bytes ct = Inr pf"
    "b = ?h @ wk_nonce w @ wf @ payload_nonce @ pf"
    by (auto simp: seal_envelope_def rbind_eq_Inr)
  note u = unwrap_wrap [OF assms(1) e(1) assms(5)]
  have o: "lb_open lb key payload_nonce ?h ct = Some payload" "length ct = length payload + 16"
    using e(2) sealing_okD [OF assms(1)] by auto
  have w: "\<lparr>wk_nonce = key_nonce, wk_ciphertext = wk_ciphertext w\<rparr> = w" "wk_nonce w = key_nonce" using u by auto
  have h: "?h = magic @ u16_le ENVELOPE_VERSION @ file_id @ u64_le generation" by (simp add: clear_header_def)
  have len: "length ?h = 30" using assms(3,4) by (simp add: h)
  let ?rest = "key_nonce @ wf @ payload_nonce @ pf"
  have "take (length b - length ?rest) b = ?h" by (simp add: e(5) w(2))
  moreover have "b = magic @ u16_le ENVELOPE_VERSION @ file_id @ u64_le generation @ ?rest" by (simp add: e(5) w(2) h)
  ultimately have "open_envelope lb master magic purpose b = Inr (file_id, generation, payload)"
    using assms(3,4,6,7) u o(1)
    by (simp add: open_envelope_def w(1) fr_bytes_push [OF e(3)] fr_bytes_push_end [OF e(4)])
  moreover have "length wf = 4 + 48" "length pf = 4 + length ct" "length ct \<le> MAX_FIELD_LEN"
    using e(3,4) u by (auto simp: push_bytes_Inr KEY_LEN_def)
  ultimately show ?thesis using len o(2) assms(6,7) by (simp add: e(5) w(2) NONCE_LEN_def)
qed

lemma open_Inr:
  assumes "sealing_ok lb" and "open_envelope lb master magic purpose b = Inr (file_id, generation, payload)"
  shows "\<exists>key key_nonce payload_nonce.
    seal_envelope lb master magic purpose file_id generation (Inr payload) key key_nonce payload_nonce = Inr b \<and>
    length magic = 4 \<and> length file_id = 16 \<and> length key = KEY_LEN \<and> length key_nonce = NONCE_LEN \<and>
    length payload_nonce = NONCE_LEN"
proof -
  from assms(2) obtain key_nonce wrapped wf payload_nonce ct pf key where d: "length magic = 4" "length file_id = 16"
    "b = magic @ u16_le ENVELOPE_VERSION @ file_id @ u64_le generation @ key_nonce @ wf @ payload_nonce @ pf"
    "length key_nonce = NONCE_LEN" "length payload_nonce = NONCE_LEN" "push_bytes wrapped = Inr wf" "push_bytes ct = Inr pf"
    "unwrap_key lb master purpose file_id generation \<lparr>wk_nonce = key_nonce, wk_ciphertext = wrapped\<rparr> = Inr key"
    "lb_open lb key payload_nonce
       (take (length b - length (key_nonce @ wf @ payload_nonce @ pf)) b) ct = Some payload"
    by (auto simp: open_envelope_def Let_def rbind_eq_Inr sr_words_Inr sr_take_Inr fr_bytes_Inr fr_finish_def split: if_splits)
  let ?h = "clear_header magic file_id generation"
  have b: "b = ?h @ key_nonce @ wf @ payload_nonce @ pf" using d(3) by (simp add: clear_header_def)
  then have "take (length b - length (key_nonce @ wf @ payload_nonce @ pf)) b = ?h" by simp
  with d(9) have "lb_seal lb key payload_nonce ?h payload = Some ct" using sealing_okD(1) [OF assms(1)] by simp
  moreover note unwrap_Inr [OF assms(1) d(8)]
  ultimately show ?thesis
    using d(1,2,4-7) b
    by (intro exI [of _ key] exI [of _ key_nonce] exI [of _ payload_nonce]) (simp add: seal_envelope_def)
qed

end
