(* ===== verification/Service_Grant.thy ===== *)
theory Service_Grant
  imports Service_Object
begin

text \<open>
  Capability grants and key sets (\<open>grant.rs\<close>): the canonical encodings of a grant and of a signed key
  set, signing, and the checks an agent makes on a token. Signatures, digests and text codecs are the
  functions of \<^typ>\<open>libs\<close>; the nonce of a grant, which the code draws at random, is an argument.
\<close>

section \<open>Constants\<close>

definition GRANT_VERSION :: u8 where "GRANT_VERSION = 1"
definition GRANT_DOMAIN :: bytes where "GRANT_DOMAIN = ascii ''distr-hnsw grant v1'' @ [0]"
definition KEY_SET_DOMAIN :: bytes where "KEY_SET_DOMAIN = ascii ''distr-hnsw key set v1'' @ [0]"
definition MAX_GRANT_LIFETIME_SECONDS :: int where "MAX_GRANT_LIFETIME_SECONDS = 300"
definition GRANT_LIFETIME_SECONDS :: i64 where "GRANT_LIFETIME_SECONDS = 120"
definition CLOCK_SKEW_SECONDS :: int where "CLOCK_SKEW_SECONDS = 60"
definition GRANT_SCHEME :: bytes where "GRANT_SCHEME = ascii ''DistrGrant''"
definition MAX_AGENT_ID_BYTES :: nat where "MAX_AGENT_ID_BYTES = 255"
definition MAX_KEYS :: nat where "MAX_KEYS = 16"

section \<open>Grants\<close>

definition key_id_of :: "libs \<Rightarrow> bytes \<Rightarrow> bytes" where
  "key_id_of lb public = take 8 (lb_blake3 lb public)"

datatype grant_op = OpHealth | OpInventory | OpGet | OpPut | OpDelete

definition op_code :: "grant_op \<Rightarrow> u8" where
  "op_code op = (case op of OpHealth \<Rightarrow> 1 | OpInventory \<Rightarrow> 2 | OpGet \<Rightarrow> 3 | OpPut \<Rightarrow> 4 | OpDelete \<Rightarrow> 5)"

definition op_from_code :: "u8 \<Rightarrow> grant_op option" where
  "op_from_code code =
     (if code = 1 then Some OpHealth else if code = 2 then Some OpInventory else if code = 3 then Some OpGet
      else if code = 4 then Some OpPut else if code = 5 then Some OpDelete else None)"

datatype scope = ScopeAgent | ScopeKind object_kind | ScopeObject object_kind object_hash

definition kind_code :: "object_kind \<Rightarrow> u8" where
  "kind_code k = (case k of KChunk \<Rightarrow> 1 | KManifest \<Rightarrow> 2 | KDeletionMarker \<Rightarrow> 3)"

definition kind_from :: "u8 \<Rightarrow> object_kind option" where
  "kind_from code =
     (if code = 1 then Some KChunk else if code = 2 then Some KManifest
      else if code = 3 then Some KDeletionMarker else None)"

record grant =
  gr_key_id :: bytes
  gr_epoch :: u64
  gr_agent_id :: bytes
  gr_operation :: grant_op
  gr_scope :: scope
  gr_gc_proof :: "uuid option"
  gr_issued_at :: i64
  gr_expires_at :: i64
  gr_nonce :: bytes

datatype grant_error =
    GrantMissing
  | GrantMalformed string
  | UnknownKey bytes
  | BadSignature
  | StaleEpoch u64 u64
  | NewerEpoch u64 u64
  | WrongAgent bytes
  | WrongOperation
  | WrongObject
  | DeleteWithoutProof
  | Expired
  | NotYetValid
  | LifetimeTooLong

text \<open>\<open>None\<close> is the panic of \<open>hex::decode(..).expect(..)\<close>.\<close>

definition encode_scope :: "libs \<Rightarrow> scope \<Rightarrow> bytes option" where
  "encode_scope lb s =
     (case s of
        ScopeAgent \<Rightarrow> Some [0]
      | ScopeKind kind \<Rightarrow> Some [1, kind_code kind]
      | ScopeObject kind hash \<Rightarrow> map_option (\<lambda>raw. [2, kind_code kind] @ raw) (lb_unhex lb hash))"

definition encode_grant :: "libs \<Rightarrow> grant \<Rightarrow> bytes option" where
  "encode_grant lb g =
     map_option (\<lambda>scope.
       [GRANT_VERSION] @ gr_key_id g @ u64_le (gr_epoch g) @ [word_of_nat (length (gr_agent_id g))] @
       gr_agent_id g @ [op_code (gr_operation g)] @ scope @
       (case gr_gc_proof g of Some proof \<Rightarrow> [1] @ proof | None \<Rightarrow> [0]) @
       u64_le (gr_issued_at g) @ u64_le (gr_expires_at g) @ gr_nonce g)
     (encode_scope lb (gr_scope g))"

abbreviation gr_take :: "nat \<Rightarrow> bytes \<Rightarrow> grant_error + bytes \<times> bytes" where
  "gr_take \<equiv> sr_take (GrantMalformed ''truncated'')"

abbreviation gr_u8 :: "bytes \<Rightarrow> grant_error + u8 \<times> bytes" where
  "gr_u8 \<equiv> sr_u8 (GrantMalformed ''truncated'')"

abbreviation gr_u64 :: "bytes \<Rightarrow> grant_error + u64 \<times> bytes" where
  "gr_u64 \<equiv> sr_u64 (GrantMalformed ''truncated'')"

definition decode_kind :: "bytes \<Rightarrow> grant_error + object_kind \<times> bytes" where
  "decode_kind bs =
     rbind (gr_u8 bs) (\<lambda>(code, bs).
     rbind (ok_or (GrantMalformed ''kind'') (kind_from code)) (\<lambda>kind. Inr (kind, bs)))"

definition decode_scope :: "libs \<Rightarrow> bytes \<Rightarrow> grant_error + scope \<times> bytes" where
  "decode_scope lb bs =
     rbind (gr_u8 bs) (\<lambda>(tag, bs).
     if tag = 0 then Inr (ScopeAgent, bs)
     else if tag = 1 then rbind (decode_kind bs) (\<lambda>(kind, bs). Inr (ScopeKind kind, bs))
     else if tag = 2 then
       rbind (decode_kind bs) (\<lambda>(kind, bs).
       rbind (gr_take 32 bs) (\<lambda>(raw, bs).
       rbind (map_err (\<lambda>_. GrantMalformed ''hash'') (hash_parse (lb_hex lb raw))) (\<lambda>hash.
         Inr (ScopeObject kind hash, bs))))
     else Inl (GrantMalformed ''scope''))"

definition decode_proof :: "bytes \<Rightarrow> grant_error + uuid option \<times> bytes" where
  "decode_proof bs =
     rbind (gr_u8 bs) (\<lambda>(tag, bs).
     if tag = 0 then Inr (None, bs)
     else if tag = 1 then rbind (gr_take 16 bs) (\<lambda>(proof, bs). Inr (Some proof, bs))
     else Inl (GrantMalformed ''gc proof''))"

definition decode_grant :: "libs \<Rightarrow> bytes \<Rightarrow> grant_error + grant" where
  "decode_grant lb bs =
     rbind (gr_u8 bs) (\<lambda>(version, bs).
     if version \<noteq> GRANT_VERSION then Inl (GrantMalformed ''version'')
     else
     rbind (gr_take 8 bs) (\<lambda>(key_id, bs).
     rbind (gr_u64 bs) (\<lambda>(epoch, bs).
     rbind (gr_u8 bs) (\<lambda>(len, bs).
     rbind (gr_take (unat len) bs) (\<lambda>(agent_id, bs).
     if \<not> utf8_ok agent_id then Inl (GrantMalformed ''agent id'')
     else
     rbind (gr_u8 bs) (\<lambda>(code, bs).
     rbind (ok_or (GrantMalformed ''operation'') (op_from_code code)) (\<lambda>operation.
     rbind (decode_scope lb bs) (\<lambda>(scope, bs).
     rbind (decode_proof bs) (\<lambda>(gc_proof, bs).
     rbind (gr_u64 bs) (\<lambda>(issued_at, bs).
     rbind (gr_u64 bs) (\<lambda>(expires_at, bs).
     rbind (gr_take 16 bs) (\<lambda>(nonce, bs).
     if bs \<noteq> [] then Inl (GrantMalformed ''trailing bytes'')
     else Inr \<lparr>gr_key_id = key_id, gr_epoch = epoch, gr_agent_id = agent_id, gr_operation = operation,
                gr_scope = scope, gr_gc_proof = gc_proof, gr_issued_at = issued_at,
                gr_expires_at = expires_at, gr_nonce = nonce\<rparr>))))))))))))"

section \<open>Signing\<close>

text \<open>A \<open>PortalSigner\<close> is its seed.\<close>

definition signer_key_id :: "libs \<Rightarrow> bytes \<Rightarrow> bytes" where
  "signer_key_id lb seed = key_id_of lb (lb_public lb seed)"

definition signed_message :: "bytes \<Rightarrow> bytes \<Rightarrow> bytes" where
  "signed_message domain body = domain @ body"

definition sign_raw :: "libs \<Rightarrow> bytes \<Rightarrow> bytes \<Rightarrow> bytes \<Rightarrow> bytes" where
  "sign_raw lb seed domain body = lb_sign lb seed (signed_message domain body)"

definition sign_grant :: "libs \<Rightarrow> bytes \<Rightarrow> grant \<Rightarrow> bytes option" where
  "sign_grant lb seed g =
     map_option (\<lambda>body. lb_b64 lb (body @ lb_sign lb seed (signed_message GRANT_DOMAIN body))) (encode_grant lb g)"

definition issued_grant ::
  "libs \<Rightarrow> bytes \<Rightarrow> u64 \<Rightarrow> bytes \<Rightarrow> grant_op \<Rightarrow> scope \<Rightarrow> uuid option \<Rightarrow> i64 \<Rightarrow> bytes \<Rightarrow> grant" where
  "issued_grant lb seed epoch agent_id operation scope gc_proof now nonce =
     \<lparr>gr_key_id = signer_key_id lb seed, gr_epoch = epoch, gr_agent_id = agent_id, gr_operation = operation,
      gr_scope = scope, gr_gc_proof = gc_proof, gr_issued_at = now,
      gr_expires_at = now + GRANT_LIFETIME_SECONDS, gr_nonce = nonce\<rparr>"

definition issue ::
  "libs \<Rightarrow> bytes \<Rightarrow> u64 \<Rightarrow> bytes \<Rightarrow> grant_op \<Rightarrow> scope \<Rightarrow> uuid option \<Rightarrow> i64 \<Rightarrow> bytes \<Rightarrow>
     (grant_error + bytes) option" where
  "issue lb seed epoch agent_id operation scope gc_proof now nonce =
     (if MAX_AGENT_ID_BYTES < length agent_id then Some (Inl (GrantMalformed ''agent id''))
      else map_option Inr (sign_grant lb seed (issued_grant lb seed epoch agent_id operation scope gc_proof now nonce)))"

section \<open>Key sets\<close>

datatype key_status = KeyActive | KeyRetiring

record trusted_key =
  tk_key_id :: bytes
  tk_public :: bytes
  tk_status :: key_status

record key_set =
  ks_version :: u64
  ks_epoch :: u64
  ks_keys :: "trusted_key list"

record signed_key_set =
  sk_key_set :: key_set
  sk_body :: bytes
  sk_signatures :: "(bytes \<times> bytes) list"

record expectation =
  ex_agent_id :: bytes
  ex_operation :: grant_op
  ex_scope :: scope

definition status_code :: "key_status \<Rightarrow> u8" where
  "status_code s = (case s of KeyActive \<Rightarrow> 1 | KeyRetiring \<Rightarrow> 2)"

definition encode_trusted :: "trusted_key \<Rightarrow> bytes" where
  "encode_trusted k = tk_key_id k @ tk_public k @ [status_code (tk_status k)]"

definition encode_key_set :: "key_set \<Rightarrow> bytes" where
  "encode_key_set ks =
     u64_le (ks_version ks) @ u64_le (ks_epoch ks) @ [word_of_nat (length (ks_keys ks))] @
     concat (map encode_trusted (ks_keys ks))"

definition decode_trusted :: "libs \<Rightarrow> bytes \<Rightarrow> grant_error + trusted_key \<times> bytes" where
  "decode_trusted lb bs =
     rbind (gr_take 8 bs) (\<lambda>(key_id, bs).
     rbind (gr_take 32 bs) (\<lambda>(public, bs).
     if \<not> lb_point lb public then Inl (GrantMalformed ''verification key'')
     else if key_id_of lb public \<noteq> key_id then Inl (GrantMalformed ''key id'')
     else
     rbind (gr_u8 bs) (\<lambda>(code, bs).
     if code = 1 then Inr (\<lparr>tk_key_id = key_id, tk_public = public, tk_status = KeyActive\<rparr>, bs)
     else if code = 2 then Inr (\<lparr>tk_key_id = key_id, tk_public = public, tk_status = KeyRetiring\<rparr>, bs)
     else Inl (GrantMalformed ''key status''))))"

definition decode_key_set :: "libs \<Rightarrow> bytes \<Rightarrow> grant_error + key_set" where
  "decode_key_set lb bs =
     rbind (gr_u64 bs) (\<lambda>(version, bs).
     rbind (gr_u64 bs) (\<lambda>(epoch, bs).
     rbind (gr_u8 bs) (\<lambda>(count, bs).
     if count = 0 \<or> MAX_KEYS < unat count then Inl (GrantMalformed ''key count'')
     else
     rbind (rep_dec (unat count) (decode_trusted lb) bs) (\<lambda>(keys, bs).
     if bs \<noteq> [] then Inl (GrantMalformed ''trailing bytes'')
     else if length (filter (\<lambda>k. tk_status k = KeyActive) keys) \<noteq> 1
     then Inl (GrantMalformed ''exactly one active key'')
     else Inr \<lparr>ks_version = version, ks_epoch = epoch, ks_keys = keys\<rparr>))))"

text \<open>\<open>KeySet::key\<close>: the first key of that id.\<close>

definition ks_key :: "key_set \<Rightarrow> bytes \<Rightarrow> trusted_key option" where
  "ks_key ks key_id = find (\<lambda>k. tk_key_id k = key_id) (ks_keys ks)"

definition ks_sign :: "libs \<Rightarrow> key_set \<Rightarrow> bytes list \<Rightarrow> signed_key_set" where
  "ks_sign lb ks signers =
     (let body = encode_key_set ks
      in \<lparr>sk_key_set = ks, sk_body = body,
          sk_signatures = map (\<lambda>seed. (signer_key_id lb seed, sign_raw lb seed KEY_SET_DOMAIN body)) signers\<rparr>)"

section \<open>Verification\<close>

text \<open>The checks on a grant whose signature verified, in their order.\<close>

definition check_grant :: "key_set \<Rightarrow> grant \<Rightarrow> expectation \<Rightarrow> i64 \<Rightarrow> grant_error + grant" where
  "check_grant ks g ex now =
     (if gr_epoch g < ks_epoch ks then Inl (StaleEpoch (gr_epoch g) (ks_epoch ks))
      else if ks_epoch ks < gr_epoch g then Inl (NewerEpoch (gr_epoch g) (ks_epoch ks))
      else if gr_agent_id g \<noteq> ex_agent_id ex then Inl (WrongAgent (gr_agent_id g))
      else if gr_operation g \<noteq> ex_operation ex then Inl WrongOperation
      else if gr_scope g \<noteq> ex_scope ex then Inl WrongObject
      else if gr_operation g = OpDelete \<and> gr_gc_proof g = None then Inl DeleteWithoutProof
      else if MAX_GRANT_LIFETIME_SECONDS < sat_i64 (sint (gr_expires_at g) - sint (gr_issued_at g)) \<or>
              sint (gr_expires_at g) < sint (gr_issued_at g) then Inl LifetimeTooLong
      else if sat_i64 (sint (gr_expires_at g) + CLOCK_SKEW_SECONDS) < sint now then Inl Expired
      else if sat_i64 (sint now + CLOCK_SKEW_SECONDS) < sint (gr_issued_at g) then Inl NotYetValid
      else Inr g)"

definition ks_verify :: "libs \<Rightarrow> key_set \<Rightarrow> bytes \<Rightarrow> expectation \<Rightarrow> i64 \<Rightarrow> grant_error + grant" where
  "ks_verify lb ks token ex now =
     rbind (ok_or (GrantMalformed ''base64'') (lb_unb64 lb (trim token))) (\<lambda>raw.
     if length raw < 64 then Inl (GrantMalformed ''truncated'')
     else
     let body = take (length raw - 64) raw; signature = drop (length raw - 64) raw
     in rbind (decode_grant lb body) (\<lambda>g.
        rbind (ok_or (UnknownKey (gr_key_id g)) (ks_key ks (gr_key_id g))) (\<lambda>key.
        if \<not> lb_verify lb (tk_public key) (signed_message GRANT_DOMAIN body) signature then Inl BadSignature
        else check_grant ks g ex now)))"

section \<open>Signed key sets\<close>

definition sk_to_bytes :: "signed_key_set \<Rightarrow> bytes" where
  "sk_to_bytes sk =
     u32_le (word_of_nat (length (sk_body sk))) @ sk_body sk @
     [word_of_nat (length (sk_signatures sk))] @
     concat (map (\<lambda>(key_id, signature). key_id @ signature) (sk_signatures sk))"

definition decode_signature :: "bytes \<Rightarrow> grant_error + (bytes \<times> bytes) \<times> bytes" where
  "decode_signature bs =
     rbind (gr_take 8 bs) (\<lambda>(key_id, bs).
     rbind (gr_take 64 bs) (\<lambda>(signature, bs). Inr ((key_id, signature), bs)))"

definition sk_from_bytes :: "libs \<Rightarrow> bytes \<Rightarrow> grant_error + signed_key_set" where
  "sk_from_bytes lb bs =
     rbind (sr_u32 (GrantMalformed ''truncated'') bs) (\<lambda>(len, bs).
     rbind (gr_take (unat len) bs) (\<lambda>(body, bs).
     rbind (decode_key_set lb body) (\<lambda>ks.
     rbind (gr_u8 bs) (\<lambda>(count, bs).
     if count = 0 \<or> MAX_KEYS < unat count then Inl (GrantMalformed ''signature count'')
     else
     rbind (rep_dec (unat count) decode_signature bs) (\<lambda>(signatures, bs).
     if bs \<noteq> [] then Inl (GrantMalformed ''trailing bytes'')
     else Inr \<lparr>sk_key_set = ks, sk_body = body, sk_signatures = signatures\<rparr>)))))"

definition signed_by :: "libs \<Rightarrow> signed_key_set \<Rightarrow> key_set \<Rightarrow> bool" where
  "signed_by lb sk trusted \<longleftrightarrow>
     list_ex (\<lambda>(key_id, signature).
       case ks_key trusted key_id of
         None \<Rightarrow> False
       | Some key \<Rightarrow> lb_verify lb (tk_public key) (signed_message KEY_SET_DOMAIN (sk_body sk)) signature)
     (sk_signatures sk)"

definition self_signed :: "libs \<Rightarrow> signed_key_set \<Rightarrow> bool" where
  "self_signed lb sk = signed_by lb sk (sk_key_set sk)"

text \<open>\<open>value.split_once(' ')\<close>, then the scheme and a token that is not blank.\<close>

fun split_once :: "u8 \<Rightarrow> bytes \<Rightarrow> (bytes \<times> bytes) option" where
  "split_once c [] = None"
| "split_once c (b # bs) =
     (if b = c then Some ([], bs) else map_option (\<lambda>(l, r). (b # l, r)) (split_once c bs))"

definition token_from_header :: "bytes \<Rightarrow> bytes option" where
  "token_from_header value =
     Option.bind (split_once 0x20 value) (\<lambda>(scheme, token).
       if scheme = GRANT_SCHEME \<and> trim token \<noteq> [] then Some (trim token) else None)"

section \<open>Lemmas: grants\<close>

definition scope_wf :: "scope \<Rightarrow> bool" where
  "scope_wf s \<longleftrightarrow> (case s of ScopeObject kind hash \<Rightarrow> hash_valid hash | _ \<Rightarrow> True)"

definition grant_wf :: "grant \<Rightarrow> bool" where
  "grant_wf g \<longleftrightarrow>
     length (gr_key_id g) = 8 \<and> length (gr_agent_id g) \<le> MAX_AGENT_ID_BYTES \<and> utf8_ok (gr_agent_id g) \<and>
     scope_wf (gr_scope g) \<and> length (gr_nonce g) = 16 \<and>
     (case gr_gc_proof g of Some proof \<Rightarrow> length proof = 16 | None \<Rightarrow> True)"

lemma op_codes [simp]: "op_from_code (op_code op) = Some op"
  by (cases op) (simp_all add: op_code_def op_from_code_def)

lemma op_from_code_Some: "op_from_code code = Some op \<longleftrightarrow> code = op_code op"
  by (cases op) (auto simp: op_code_def op_from_code_def)

lemma kind_codes [simp]: "kind_from (kind_code k) = Some k"
  by (cases k) (simp_all add: kind_code_def kind_from_def)

lemma kind_from_Some: "kind_from code = Some k \<longleftrightarrow> code = kind_code k"
  by (cases k) (auto simp: kind_code_def kind_from_def)

lemma decode_kind_Cons [simp]: "decode_kind (kind_code k # r) = Inr (k, r)"
  by (simp add: decode_kind_def)

lemma decode_kind_Inr: "decode_kind bs = Inr (k, r) \<longleftrightarrow> bs = kind_code k # r"
  by (auto simp: decode_kind_def rbind_eq_Inr sr_u8_Inr kind_from_Some)

lemma decode_scope_append:
  assumes "text_ok lb" and "scope_wf s"
  obtains b where "encode_scope lb s = Some b" "decode_scope lb (b @ r) = Inr (s, r)"
proof (cases s)
  case (ScopeObject kind hash)
  with assms obtain raw where raw: "lb_unhex lb hash = Some raw" "lb_hex lb raw = hash" "length raw = 32" "hash_valid hash"
    by (auto simp: scope_wf_def elim: hash_unhex)
  then have "decode_scope lb ([2, kind_code kind] @ raw @ r) = Inr (s, r)"
    using ScopeObject by (simp add: decode_scope_def hash_parse_def)
  then show thesis using that [of "[2, kind_code kind] @ raw"] raw ScopeObject by (simp add: encode_scope_def)
qed (rule that, simp add: encode_scope_def, simp add: decode_scope_def)+

lemma decode_scope_Inr:
  assumes "text_ok lb" and "decode_scope lb bs = Inr (s, r)"
  shows "\<exists>b. encode_scope lb s = Some b \<and> bs = b @ r \<and> scope_wf s"
  using assms
  by (auto simp: decode_scope_def rbind_eq_Inr sr_u8_Inr sr_take_Inr decode_kind_Inr encode_scope_def scope_wf_def
      text_okD split: if_splits)

lemma decode_proof_append:
  "(case p of Some proof \<Rightarrow> length proof = 16 | None \<Rightarrow> True) \<Longrightarrow>
     decode_proof ((case p of Some proof \<Rightarrow> [1] @ proof | None \<Rightarrow> [0]) @ r) = Inr (p, r)"
  by (cases p) (simp_all add: decode_proof_def)

lemma decode_proof_Inr:
  "decode_proof bs = Inr (p, r) \<Longrightarrow>
     bs = (case p of Some proof \<Rightarrow> [1] @ proof | None \<Rightarrow> [0]) @ r \<and>
     (case p of Some proof \<Rightarrow> length proof = 16 | None \<Rightarrow> True)"
  by (auto simp: decode_proof_def rbind_eq_Inr sr_u8_Inr sr_take_Inr split: if_splits)

lemma unat_length_u8 [simp]: "n \<le> MAX_AGENT_ID_BYTES \<Longrightarrow> unat (word_of_nat n :: u8) = n"
  by (simp add: MAX_AGENT_ID_BYTES_def unat_of_nat)

lemma u8_bound: "unat (len :: u8) \<le> MAX_AGENT_ID_BYTES"
  using unat_bound [of len] by (simp add: MAX_AGENT_ID_BYTES_def)

lemma grant_round_trip:
  assumes "text_ok lb" and "grant_wf g"
  obtains b where "encode_grant lb g = Some b" "decode_grant lb b = Inr g"
proof -
  let ?r = "(case gr_gc_proof g of Some proof \<Rightarrow> [1] @ proof | None \<Rightarrow> [0]) @
    u64_le (gr_issued_at g) @ u64_le (gr_expires_at g) @ gr_nonce g"
  have wf: "length (gr_key_id g) = 8" "length (gr_agent_id g) \<le> MAX_AGENT_ID_BYTES" "utf8_ok (gr_agent_id g)"
    "scope_wf (gr_scope g)" "length (gr_nonce g) = 16"
    "case gr_gc_proof g of Some proof \<Rightarrow> length proof = 16 | None \<Rightarrow> True"
    using assms(2) by (simp_all add: grant_wf_def)
  obtain s where s: "encode_scope lb (gr_scope g) = Some s" "decode_scope lb (s @ ?r) = Inr (gr_scope g, ?r)"
    using decode_scope_append [OF assms(1) wf(4)] by blast
  define b where "b = GRANT_VERSION # gr_key_id g @ u64_le (gr_epoch g) @ word_of_nat (length (gr_agent_id g)) #
    gr_agent_id g @ op_code (gr_operation g) # s @ ?r"
  have "encode_grant lb g = Some b" by (simp add: encode_grant_def s(1) b_def)
  moreover have "decode_grant lb b = Inr g"
    using wf(1-3,5) by (simp add: decode_grant_def b_def s(2) decode_proof_append [OF wf(6)])
  ultimately show thesis by (rule that)
qed

lemma grant_canonical:
  assumes "text_ok lb" and "decode_grant lb b = Inr g"
  shows "encode_grant lb g = Some b \<and> grant_wf g"
proof -
  from assms(2) obtain key_id epoch len agent_id bs1 operation scope bs2 gc_proof issued_at expires_at nonce where d:
    "b = GRANT_VERSION # key_id @ u64_le epoch @ len # agent_id @ op_code operation # bs1"
    "length key_id = 8" "length agent_id = unat len" "utf8_ok agent_id" "decode_scope lb bs1 = Inr (scope, bs2)"
    "decode_proof bs2 = Inr (gc_proof, u64_le issued_at @ u64_le expires_at @ nonce)" "length nonce = 16"
    "g = \<lparr>gr_key_id = key_id, gr_epoch = epoch, gr_agent_id = agent_id, gr_operation = operation,
      gr_scope = scope, gr_gc_proof = gc_proof, gr_issued_at = issued_at, gr_expires_at = expires_at, gr_nonce = nonce\<rparr>"
    by (auto simp: decode_grant_def rbind_eq_Inr sr_u8_Inr sr_take_Inr sr_words_Inr op_from_code_Some split: if_splits)
  from decode_scope_Inr [OF assms(1) d(5)] obtain s where s: "encode_scope lb scope = Some s" "bs1 = s @ bs2" "scope_wf scope"
    by blast
  have "len = word_of_nat (length agent_id)" using d(3) by simp
  then show ?thesis
    using d s decode_proof_Inr [OF d(6)] u8_bound [of len] by (simp add: encode_grant_def grant_wf_def)
qed

lemma grant_encoding_inj:
  assumes "text_ok lb" and "grant_wf g" and "encode_grant lb g = Some b" and "decode_grant lb b = Inr g'"
  shows "g' = g"
  using grant_round_trip [OF assms(1,2)] assms(3,4) by auto

section \<open>Lemmas: key sets\<close>

definition trusted_wf :: "libs \<Rightarrow> trusted_key \<Rightarrow> bool" where
  "trusted_wf lb k \<longleftrightarrow> length (tk_key_id k) = 8 \<and> length (tk_public k) = 32 \<and> lb_point lb (tk_public k) \<and>
     key_id_of lb (tk_public k) = tk_key_id k"

definition key_set_wf :: "libs \<Rightarrow> key_set \<Rightarrow> bool" where
  "key_set_wf lb ks \<longleftrightarrow>
     ks_keys ks \<noteq> [] \<and> length (ks_keys ks) \<le> MAX_KEYS \<and> list_all (trusted_wf lb) (ks_keys ks) \<and>
     length (filter (\<lambda>k. tk_status k = KeyActive) (ks_keys ks)) = 1"

definition signed_wf :: "libs \<Rightarrow> signed_key_set \<Rightarrow> bool" where
  "signed_wf lb sk \<longleftrightarrow>
     key_set_wf lb (sk_key_set sk) \<and> sk_body sk = encode_key_set (sk_key_set sk) \<and>
     sk_signatures sk \<noteq> [] \<and> length (sk_signatures sk) \<le> MAX_KEYS \<and>
     list_all (\<lambda>(key_id, signature). length key_id = 8 \<and> length signature = 64) (sk_signatures sk)"

lemma decode_trusted_append: "trusted_wf lb k \<Longrightarrow> decode_trusted lb (encode_trusted k @ r) = Inr (k, r)"
  by (cases k; cases "tk_status k")
    (auto simp: decode_trusted_def encode_trusted_def trusted_wf_def status_code_def)

lemma decode_trusted_Inr:
  "decode_trusted lb bs = Inr (k, r) \<Longrightarrow> bs = encode_trusted k @ r \<and> trusted_wf lb k"
  by (auto simp: decode_trusted_def encode_trusted_def trusted_wf_def status_code_def rbind_eq_Inr sr_u8_Inr
      sr_take_Inr split: if_splits)

lemma rep_dec_Inr:
  assumes "\<And>bs x r. dec bs = Inr (x, r) \<Longrightarrow> bs = enc x @ r \<and> P x" and "rep_dec n dec bs = Inr (xs, r)"
  shows "bs = concat (map enc xs) @ r \<and> list_all P xs \<and> length xs = n"
  using assms(2)
proof (induction n arbitrary: bs xs)
  case (Suc n)
  then show ?case by (fastforce simp: rbind_eq_Inr dest: assms(1))
qed simp

lemma count_u8 [simp]:
  "n \<le> MAX_KEYS \<Longrightarrow> unat (word_of_nat n :: u8) = n"
  "0 < n \<Longrightarrow> n \<le> MAX_KEYS \<Longrightarrow> (word_of_nat n :: u8) \<noteq> 0"
proof -
  show u: "unat (word_of_nat n :: u8) = n" if "n \<le> MAX_KEYS" using that by (simp add: MAX_KEYS_def unat_of_nat)
  show "0 < n \<Longrightarrow> n \<le> MAX_KEYS \<Longrightarrow> (word_of_nat n :: u8) \<noteq> 0" using u by (metis less_irrefl unat_0)
qed

lemma key_set_round_trip:
  assumes "key_set_wf lb ks"
  shows "decode_key_set lb (encode_key_set ks) = Inr ks"
proof -
  have "rep_dec (length (ks_keys ks)) (decode_trusted lb) (concat (map encode_trusted (ks_keys ks)) @ []) = Inr (ks_keys ks, [])"
    using assms by (intro rep_dec_concat decode_trusted_append) (auto simp: key_set_wf_def list_all_iff)
  then show ?thesis using assms by (auto simp: decode_key_set_def encode_key_set_def key_set_wf_def)
qed

lemma key_set_canonical:
  assumes "decode_key_set lb b = Inr ks"
  shows "encode_key_set ks = b \<and> key_set_wf lb ks"
proof -
  from assms obtain version epoch count keys bs where d:
    "b = u64_le version @ u64_le epoch @ count # bs" "count \<noteq> 0" "unat count \<le> MAX_KEYS"
    "rep_dec (unat count) (decode_trusted lb) bs = Inr (keys, [])"
    "length (filter (\<lambda>k. tk_status k = KeyActive) keys) = 1"
    "ks = \<lparr>ks_version = version, ks_epoch = epoch, ks_keys = keys\<rparr>"
    by (auto simp: decode_key_set_def rbind_eq_Inr sr_u8_Inr sr_words_Inr split: if_splits)
  from rep_dec_Inr [OF decode_trusted_Inr d(4)] have k:
    "bs = concat (map encode_trusted keys)" "list_all (trusted_wf lb) keys" "length keys = unat count" by auto
  moreover have "keys \<noteq> []" using d(5) by auto
  ultimately show ?thesis using d by (simp add: encode_key_set_def key_set_wf_def)
qed

lemma encode_key_set_length:
  assumes "key_set_wf lb ks"
  shows "length (encode_key_set ks) < 2 ^ 32"
proof -
  have "length (concat (map encode_trusted keys)) = 41 * length keys" if "list_all (trusted_wf lb) keys" for keys
    using that by (induction keys) (auto simp: encode_trusted_def trusted_wf_def)
  then have "length (encode_key_set ks) = 17 + 41 * length (ks_keys ks)"
    using assms by (simp add: encode_key_set_def key_set_wf_def)
  then show ?thesis using assms by (simp add: key_set_wf_def MAX_KEYS_def)
qed

lemma decode_signature_append:
  "length key_id = 8 \<and> length signature = 64 \<Longrightarrow>
     decode_signature ((key_id @ signature) @ r) = Inr ((key_id, signature), r)"
  by (simp add: decode_signature_def)

lemma decode_signature_Inr:
  "decode_signature bs = Inr (x, r) \<Longrightarrow>
     bs = (\<lambda>(key_id, signature). key_id @ signature) x @ r \<and> (\<lambda>(key_id, signature). length key_id = 8 \<and> length signature = 64) x"
  by (auto simp: decode_signature_def rbind_eq_Inr sr_take_Inr)

lemma signed_round_trip:
  assumes "signed_wf lb sk"
  shows "sk_from_bytes lb (sk_to_bytes sk) = Inr sk"
proof -
  have wf: "key_set_wf lb (sk_key_set sk)" "sk_body sk = encode_key_set (sk_key_set sk)" "sk_signatures sk \<noteq> []"
    "length (sk_signatures sk) \<le> MAX_KEYS"
    "list_all (\<lambda>(key_id, signature). length key_id = 8 \<and> length signature = 64) (sk_signatures sk)"
    using assms by (simp_all add: signed_wf_def)
  have "rep_dec (length (sk_signatures sk)) decode_signature
      (concat (map (\<lambda>(key_id, signature). key_id @ signature) (sk_signatures sk)) @ []) = Inr (sk_signatures sk, [])"
    using wf(5) by (intro rep_dec_concat) (auto simp: list_all_iff simp del: append_assoc intro: decode_signature_append)
  moreover have "unat (word_of_nat (length (sk_body sk)) :: u32) = length (sk_body sk)"
    using encode_key_set_length [OF wf(1)] wf(2) by (simp add: unat_of_nat)
  ultimately show ?thesis
    using wf key_set_round_trip [OF wf(1)] by (simp add: sk_from_bytes_def sk_to_bytes_def)
qed

lemma signed_canonical:
  assumes "sk_from_bytes lb bs = Inr sk"
  shows "signed_wf lb sk \<and> sk_to_bytes sk = bs"
proof -
  from assms obtain len body ks count rest sigs where d:
    "bs = u32_le len @ body @ count # rest" "length body = unat len" "decode_key_set lb body = Inr ks"
    "count \<noteq> 0" "unat count \<le> MAX_KEYS" "rep_dec (unat count) decode_signature rest = Inr (sigs, [])"
    "sk = \<lparr>sk_key_set = ks, sk_body = body, sk_signatures = sigs\<rparr>"
    by (auto simp: sk_from_bytes_def rbind_eq_Inr sr_u8_Inr sr_take_Inr sr_words_Inr split: if_splits)
  from rep_dec_Inr [OF decode_signature_Inr d(6)] have k:
    "rest = concat (map (\<lambda>(key_id, signature). key_id @ signature) sigs)"
    "list_all (\<lambda>(key_id, signature). length key_id = 8 \<and> length signature = 64) sigs" "length sigs = unat count" by auto
  have "sigs \<noteq> []" using k(3) d(4) by (auto simp: unat_eq_0)
  moreover have "len = word_of_nat (length body)" using d(2) by simp
  ultimately show ?thesis
    using d k key_set_canonical [OF d(3)] by (simp add: signed_wf_def sk_to_bytes_def)
qed

section \<open>Lemmas: signatures\<close>

lemma domains_differ: "signed_message GRANT_DOMAIN b \<noteq> signed_message KEY_SET_DOMAIN b'"
  by (simp add: signed_message_def GRANT_DOMAIN_def KEY_SET_DOMAIN_def ascii_def)

lemma signed_message_inj [simp]: "signed_message domain b = signed_message domain b' \<longleftrightarrow> b = b'"
  by (simp add: signed_message_def)

lemma ks_key_Some: "ks_key ks key_id = Some k \<Longrightarrow> k \<in> set (ks_keys ks) \<and> tk_key_id k = key_id"
  by (auto simp: ks_key_def find_Some_iff)

lemma ks_verify_Inr:
  "ks_verify lb ks token ex now = Inr g \<longleftrightarrow>
     (\<exists>body signature key. lb_unb64 lb (trim token) = Some (body @ signature) \<and> length signature = 64 \<and>
        decode_grant lb body = Inr g \<and> ks_key ks (gr_key_id g) = Some key \<and>
        lb_verify lb (tk_public key) (signed_message GRANT_DOMAIN body) signature \<and>
        check_grant ks g ex now = Inr g)" (is "?l = ?r")
proof
  assume ?l
  then obtain raw where raw: "lb_unb64 lb (trim token) = Some raw" "64 \<le> length raw"
    and d: "decode_grant lb (take (length raw - 64) raw) = Inr g"
    "\<exists>key. ks_key ks (gr_key_id g) = Some key \<and>
      lb_verify lb (tk_public key) (signed_message GRANT_DOMAIN (take (length raw - 64) raw)) (drop (length raw - 64) raw)"
    "check_grant ks g ex now = Inr g"
    by (auto simp: ks_verify_def rbind_eq_Inr Let_def check_grant_def split: if_splits)
  then show ?r
    by (intro exI [of _ "take (length raw - 64) raw"] exI [of _ "drop (length raw - 64) raw"]) auto
qed (auto simp: ks_verify_def Let_def)

lemma check_grant_Inr:
  "check_grant ks g ex now = Inr g' \<longleftrightarrow>
     g' = g \<and> gr_epoch g = ks_epoch ks \<and> gr_agent_id g = ex_agent_id ex \<and> gr_operation g = ex_operation ex \<and>
     gr_scope g = ex_scope ex \<and> (gr_operation g = OpDelete \<longrightarrow> gr_gc_proof g \<noteq> None) \<and>
     sint (gr_issued_at g) \<le> sint (gr_expires_at g) \<and>
     sat_i64 (sint (gr_expires_at g) - sint (gr_issued_at g)) \<le> MAX_GRANT_LIFETIME_SECONDS \<and>
     sint now \<le> sat_i64 (sint (gr_expires_at g) + CLOCK_SKEW_SECONDS) \<and>
     sint (gr_issued_at g) \<le> sat_i64 (sint now + CLOCK_SKEW_SECONDS)"
  unfolding check_grant_def by (auto split: if_splits)

end
