(* ===== verification/Service_Trust.thy ===== *)
theory Service_Trust
  imports Service_Grant
begin

text \<open>
  An agent's trust state (\<open>trust.rs\<close>, and the durable replace and remove of \<open>durability.rs\<close>): the
  join token's hash before join, and the portal's signed key set with the pinned portal node after it.
  The volume is a map from file names to bytes. Each file call has its outcome as an argument: it was
  done, it failed before the file changed, or it failed after (the directory did not sync). A crash
  inside an operation is such a failure followed by opening the volume again: nothing is written after
  a call that failed. Temporary files, whose names no reader opens, are left out.
\<close>

section \<open>Durable files\<close>

datatype file_outcome = FileDone | FileBefore | FileAfter

type_synonym volume = "string \<rightharpoonup> bytes"

definition replace_file_durably :: "file_outcome \<Rightarrow> volume \<Rightarrow> string \<Rightarrow> bytes \<Rightarrow> volume \<times> bool" where
  "replace_file_durably io dir file bs =
     (case io of FileDone \<Rightarrow> (dir(file \<mapsto> bs), True)
      | FileBefore \<Rightarrow> (dir, False)
      | FileAfter \<Rightarrow> (dir(file \<mapsto> bs), False))"

definition remove_file_durably :: "file_outcome \<Rightarrow> volume \<Rightarrow> string \<Rightarrow> volume \<times> bool" where
  "remove_file_durably io dir file =
     (case io of FileDone \<Rightarrow> (dir(file := None), True)
      | FileBefore \<Rightarrow> (dir, dir file = None)
      | FileAfter \<Rightarrow> (dir(file := None), dir file = None))"

section \<open>The trust store\<close>

definition TOKEN_FILE :: string where "TOKEN_FILE = ''join-token''"
definition KEY_SET_FILE :: string where "KEY_SET_FILE = ''trust-key-set''"
definition PORTAL_NODE_FILE :: string where "PORTAL_NODE_FILE = ''trust-portal-node''"

lemmas trust_files = TOKEN_FILE_def KEY_SET_FILE_def PORTAL_NODE_FILE_def

datatype trust_error =
    AlreadyJoined
  | NotJoined
  | NoJoinToken
  | BadToken
  | Untrusted
  | NotNewer u64 u64
  | EpochRegression u64 u64
  | TrustMalformed string grant_error
  | TrustIo

record agent_trust =
  at_key_set :: signed_key_set
  at_portal_node :: "bytes option"

record trust_store =
  ts_dir :: volume
  ts_state :: "agent_trust option"

definition generate_join_token :: "libs \<Rightarrow> bytes \<Rightarrow> bytes" where
  "generate_join_token lb random = lb_b64 lb random"

definition join_token_hash :: "libs \<Rightarrow> bytes \<Rightarrow> bytes" where
  "join_token_hash lb token = lb_hex lb (lb_blake3 lb (trim token))"

text \<open>\<open>fs::read_to_string\<close> and \<open>fs::read\<close>: \<open>rd\<close> says which files can be read at all.\<close>

definition read_text :: "(string \<Rightarrow> bool) \<Rightarrow> volume \<Rightarrow> string \<Rightarrow> trust_error + bytes option" where
  "read_text rd dir file =
     (if \<not> rd file then Inl TrustIo
      else case dir file of
             None \<Rightarrow> Inr None
           | Some bs \<Rightarrow> if utf8_ok bs then Inr (Some bs) else Inl TrustIo)"

definition trust_open ::
  "libs \<Rightarrow> (string \<Rightarrow> bool) \<Rightarrow> file_outcome \<Rightarrow> volume \<Rightarrow> volume \<times> (trust_error + trust_store)" where
  "trust_open lb rd io dir =
     (if \<not> rd KEY_SET_FILE then (dir, Inl TrustIo)
      else case dir KEY_SET_FILE of
        None \<Rightarrow> (dir, Inr \<lparr>ts_dir = dir, ts_state = None\<rparr>)
      | Some bs \<Rightarrow>
          (case sk_from_bytes lb bs of
             Inl e \<Rightarrow> (dir, Inl (TrustMalformed KEY_SET_FILE e))
           | Inr sk \<Rightarrow>
               (case read_text rd dir PORTAL_NODE_FILE of
                  Inl e \<Rightarrow> (dir, Inl e)
                | Inr node \<Rightarrow>
                    (case remove_file_durably io dir TOKEN_FILE of
                       (dir, ok) \<Rightarrow>
                         (dir, if ok then Inr \<lparr>ts_dir = dir, ts_state =
                                   Some \<lparr>at_key_set = sk, at_portal_node = map_option trim node\<rparr>\<rparr>
                               else Inl TrustIo)))))"

definition is_joined :: "trust_store \<Rightarrow> bool" where
  "is_joined st \<longleftrightarrow> ts_state st \<noteq> None"

definition arm_join_token :: "libs \<Rightarrow> file_outcome \<Rightarrow> trust_store \<Rightarrow> bytes \<Rightarrow> trust_store \<times> (trust_error + unit)" where
  "arm_join_token lb io st token =
     (if is_joined st then (st, Inr ())
      else case replace_file_durably io (ts_dir st) TOKEN_FILE (join_token_hash lb token) of
             (dir, ok) \<Rightarrow> (st\<lparr>ts_dir := dir\<rparr>, if ok then Inr () else Inl TrustIo))"

definition reset_and_arm ::
  "libs \<Rightarrow> file_outcome \<Rightarrow> file_outcome \<Rightarrow> file_outcome \<Rightarrow> trust_store \<Rightarrow> bytes \<Rightarrow>
     trust_store \<times> (trust_error + unit)" where
  "reset_and_arm lb io1 io2 io3 st token =
     (case replace_file_durably io1 (ts_dir st) TOKEN_FILE (join_token_hash lb token) of
        (dir, False) \<Rightarrow> (st\<lparr>ts_dir := dir\<rparr>, Inl TrustIo)
      | (dir, True) \<Rightarrow>
          (case remove_file_durably io2 dir KEY_SET_FILE of
             (dir, False) \<Rightarrow> (st\<lparr>ts_dir := dir\<rparr>, Inl TrustIo)
           | (dir, True) \<Rightarrow>
               (case remove_file_durably io3 dir PORTAL_NODE_FILE of
                  (dir, False) \<Rightarrow> (st\<lparr>ts_dir := dir\<rparr>, Inl TrustIo)
                | (dir, True) \<Rightarrow> (st\<lparr>ts_dir := dir, ts_state := None\<rparr>, Inr ()))))"

text \<open>The checks of \<open>join\<close> before anything is written.\<close>

definition join_allowed ::
  "libs \<Rightarrow> (string \<Rightarrow> bool) \<Rightarrow> trust_store \<Rightarrow> bytes \<Rightarrow> signed_key_set \<Rightarrow> trust_error + unit" where
  "join_allowed lb rd st token sk =
     (if ts_state st \<noteq> None then Inl AlreadyJoined
      else
      rbind (read_text rd (ts_dir st) TOKEN_FILE) (\<lambda>stored.
      rbind (ok_or NoJoinToken stored) (\<lambda>stored.
      rbind (ok_or NoJoinToken (lb_hash_from_hex lb (trim stored))) (\<lambda>stored.
      if stored \<noteq> lb_blake3 lb (trim token) then Inl BadToken
      else if \<not> self_signed lb sk then Inl Untrusted
      else Inr ()))))"

text \<open>The writes of \<open>join\<close>, in their order.\<close>

definition join_write ::
  "file_outcome \<Rightarrow> file_outcome \<Rightarrow> file_outcome \<Rightarrow> trust_store \<Rightarrow> signed_key_set \<Rightarrow> bytes option \<Rightarrow>
     trust_store \<times> (trust_error + unit)" where
  "join_write io1 io2 io3 st sk node =
     (case (case node of Some n \<Rightarrow> replace_file_durably io1 (ts_dir st) PORTAL_NODE_FILE n
                       | None \<Rightarrow> remove_file_durably io1 (ts_dir st) PORTAL_NODE_FILE) of
        (dir, False) \<Rightarrow> (st\<lparr>ts_dir := dir\<rparr>, Inl TrustIo)
      | (dir, True) \<Rightarrow>
          (case replace_file_durably io2 dir KEY_SET_FILE (sk_to_bytes sk) of
             (dir, False) \<Rightarrow> (st\<lparr>ts_dir := dir\<rparr>, Inl TrustIo)
           | (dir, True) \<Rightarrow>
               (case remove_file_durably io3 dir TOKEN_FILE of
                  (dir, False) \<Rightarrow> (st\<lparr>ts_dir := dir\<rparr>, Inl TrustIo)
                | (dir, True) \<Rightarrow>
                    (\<lparr>ts_dir = dir, ts_state = Some \<lparr>at_key_set = sk, at_portal_node = node\<rparr>\<rparr>, Inr ()))))"

definition trust_join ::
  "libs \<Rightarrow> (string \<Rightarrow> bool) \<Rightarrow> file_outcome \<Rightarrow> file_outcome \<Rightarrow> file_outcome \<Rightarrow> trust_store \<Rightarrow> bytes \<Rightarrow>
     signed_key_set \<Rightarrow> bytes option \<Rightarrow> trust_store \<times> (trust_error + unit)" where
  "trust_join lb rd io1 io2 io3 st token sk node =
     (case join_allowed lb rd st token sk of
        Inl e \<Rightarrow> (st, Inl e)
      | Inr _ \<Rightarrow> join_write io1 io2 io3 st sk node)"

text \<open>What \<open>update\<close> asks of an offered key set.\<close>

definition update_allowed :: "libs \<Rightarrow> signed_key_set \<Rightarrow> signed_key_set \<Rightarrow> trust_error + unit" where
  "update_allowed lb current offered =
     (if \<not> signed_by lb offered (sk_key_set current) then Inl Untrusted
      else if ks_version (sk_key_set offered) \<le> ks_version (sk_key_set current)
      then Inl (NotNewer (ks_version (sk_key_set offered)) (ks_version (sk_key_set current)))
      else if ks_epoch (sk_key_set offered) < ks_epoch (sk_key_set current)
      then Inl (EpochRegression (ks_epoch (sk_key_set offered)) (ks_epoch (sk_key_set current)))
      else Inr ())"

definition trust_update ::
  "libs \<Rightarrow> file_outcome \<Rightarrow> trust_store \<Rightarrow> signed_key_set \<Rightarrow> trust_store \<times> (trust_error + unit)" where
  "trust_update lb io st offered =
     (case ts_state st of
        None \<Rightarrow> (st, Inl NotJoined)
      | Some current \<Rightarrow>
          (case update_allowed lb (at_key_set current) offered of
             Inl e \<Rightarrow> (st, Inl e)
           | Inr _ \<Rightarrow>
               (case replace_file_durably io (ts_dir st) KEY_SET_FILE (sk_to_bytes offered) of
                  (dir, False) \<Rightarrow> (st\<lparr>ts_dir := dir\<rparr>, Inl TrustIo)
                | (dir, True) \<Rightarrow>
                    (\<lparr>ts_dir = dir, ts_state = Some (current\<lparr>at_key_set := offered\<rparr>)\<rparr>, Inr ()))))"

section \<open>Lemmas: what a key set may follow\<close>

text \<open>\<open>new\<close> may replace \<open>old\<close>.\<close>

definition follows :: "libs \<Rightarrow> signed_key_set \<Rightarrow> signed_key_set \<Rightarrow> bool" where
  "follows lb old new \<longleftrightarrow>
     signed_by lb new (sk_key_set old) \<and> ks_version (sk_key_set old) < ks_version (sk_key_set new) \<and>
     ks_epoch (sk_key_set old) \<le> ks_epoch (sk_key_set new)"

lemma update_allowed_Inr [simp]: "update_allowed lb current offered = Inr () \<longleftrightarrow> follows lb current offered"
  by (auto simp: update_allowed_def follows_def not_le not_less)

text \<open>
  The volume of a joined store holds the key set in memory, or one that may follow it: an update whose
  directory did not sync is on disk and not in memory.
\<close>

definition volume_holds :: "libs \<Rightarrow> volume \<Rightarrow> signed_key_set \<Rightarrow> bool" where
  "volume_holds lb dir sk \<longleftrightarrow>
     (\<exists>disk. dir KEY_SET_FILE = Some (sk_to_bytes disk) \<and> signed_wf lb disk \<and> (disk = sk \<or> follows lb sk disk))"

definition store_ok :: "libs \<Rightarrow> trust_store \<Rightarrow> bool" where
  "store_ok lb st \<longleftrightarrow>
     (case ts_state st of
        None \<Rightarrow> (\<forall>bs. ts_dir st KEY_SET_FILE = Some bs \<longrightarrow>
                  (\<exists>sk. bs = sk_to_bytes sk \<and> signed_wf lb sk \<and> self_signed lb sk))
      | Some t \<Rightarrow> signed_wf lb (at_key_set t) \<and> volume_holds lb (ts_dir st) (at_key_set t))"

lemma names_differ [simp]:
  "TOKEN_FILE \<noteq> KEY_SET_FILE" "KEY_SET_FILE \<noteq> TOKEN_FILE" "PORTAL_NODE_FILE \<noteq> KEY_SET_FILE"
  "KEY_SET_FILE \<noteq> PORTAL_NODE_FILE" "PORTAL_NODE_FILE \<noteq> TOKEN_FILE" "TOKEN_FILE \<noteq> PORTAL_NODE_FILE"
  by (simp_all add: trust_files)

lemma replace_file_cases:
  assumes "replace_file_durably io dir file bs = (dir', ok)"
  shows "dir' = dir(file \<mapsto> bs) \<or> \<not> ok \<and> dir' = dir"
  using assms by (cases io) (auto simp: replace_file_durably_def)

lemma remove_file_cases:
  assumes "remove_file_durably io dir file = (dir', ok)"
  shows "dir' = dir(file := None) \<or> \<not> ok \<and> dir' = dir"
  using assms by (cases io) (auto simp: remove_file_durably_def)

lemma trust_update_ok:
  assumes "store_ok lb st" and "signed_wf lb offered" and "trust_update lb io st offered = (st', r)"
  shows "store_ok lb st' \<and>
    (\<forall>t. ts_state st = Some t \<longrightarrow> (\<exists>t'. ts_state st' = Some t' \<and> at_portal_node t' = at_portal_node t \<and>
       (at_key_set t' = at_key_set t \<or> at_key_set t' = offered \<and> follows lb (at_key_set t) offered))) \<and>
    (ts_state st = None \<longrightarrow> st' = st)"
proof (cases "ts_state st")
  case None
  with assms show ?thesis by (simp add: trust_update_def)
next
  case (Some t)
  show ?thesis
  proof (cases "update_allowed lb (at_key_set t) offered")
    case (Inl e)
    with Some assms show ?thesis by (simp add: trust_update_def)
  next
    case (Inr u)
    then have f: "follows lb (at_key_set t) offered" by simp
    obtain dir ok where d: "replace_file_durably io (ts_dir st) KEY_SET_FILE (sk_to_bytes offered) = (dir, ok)" by force
    have st': "st' = (if ok then \<lparr>ts_dir = dir, ts_state = Some (t\<lparr>at_key_set := offered\<rparr>)\<rparr> else st\<lparr>ts_dir := dir\<rparr>)"
      using assms(3) Some Inr d by (auto simp: trust_update_def split: bool.splits)
    have "signed_wf lb (at_key_set t)" "volume_holds lb (ts_dir st) (at_key_set t)"
      using assms(1) Some by (simp_all add: store_ok_def)
    then show ?thesis
      using replace_file_cases [OF d] f assms(2) Some by (auto simp: store_ok_def volume_holds_def st')
  qed
qed

lemma trust_open_ok:
  assumes "store_ok lb st" and "trust_open lb rd io (ts_dir st) = (dir', Inr st')"
  shows "store_ok lb st' \<and> ts_dir st' = dir' \<and>
    (\<forall>t. ts_state st = Some t \<longrightarrow> (\<exists>t'. ts_state st' = Some t' \<and>
       (at_key_set t' = at_key_set t \<or> follows lb (at_key_set t) (at_key_set t'))))"
proof (cases "ts_dir st KEY_SET_FILE")
  case None
  then have "ts_state st = None" using assms(1) by (auto simp: store_ok_def volume_holds_def split: option.splits)
  with None assms show ?thesis by (auto simp: trust_open_def store_ok_def split: if_splits)
next
  case (Some bs)
  from assms(1) Some obtain disk where disk: "bs = sk_to_bytes disk" "signed_wf lb disk"
    "\<And>t. ts_state st = Some t \<Longrightarrow> disk = at_key_set t \<or> follows lb (at_key_set t) disk"
    by (auto simp: store_ok_def volume_holds_def split: option.splits)
  obtain dir2 ok where r: "remove_file_durably io (ts_dir st) TOKEN_FILE = (dir2, ok)" by force
  from assms(2) Some disk(1) r obtain node where
    o: "dir' = dir2" "st' = \<lparr>ts_dir = dir2, ts_state = Some \<lparr>at_key_set = disk, at_portal_node = node\<rparr>\<rparr>"
    by (auto simp: trust_open_def signed_round_trip [OF disk(2)] split: if_splits sum.splits)
  have "dir2 KEY_SET_FILE = Some bs" using remove_file_cases [OF r] Some by auto
  then show ?thesis using o disk by (auto simp: store_ok_def volume_holds_def)
qed

text \<open>What a join leaves on the volume, whatever call of it fails.\<close>

lemma join_write_cases:
  assumes "join_write io1 io2 io3 st sk node = (st', r)"
  shows "ts_dir st' TOKEN_FILE = ts_dir st TOKEN_FILE \<and> ts_dir st' KEY_SET_FILE = ts_dir st KEY_SET_FILE \<and>
      ts_state st' = ts_state st \<and> r = Inl TrustIo \<or>
    ts_dir st' KEY_SET_FILE = Some (sk_to_bytes sk) \<and> ts_dir st' PORTAL_NODE_FILE = node \<and>
      (ts_state st' = ts_state st \<and> r = Inl TrustIo \<or>
       ts_state st' = Some \<lparr>at_key_set = sk, at_portal_node = node\<rparr> \<and> ts_dir st' TOKEN_FILE = None \<and> r = Inr ())"
proof -
  obtain dir1 ok1 where 1: "(case node of Some n \<Rightarrow> replace_file_durably io1 (ts_dir st) PORTAL_NODE_FILE n
    | None \<Rightarrow> remove_file_durably io1 (ts_dir st) PORTAL_NODE_FILE) = (dir1, ok1)" by force
  obtain dir2 ok2 where 2: "replace_file_durably io2 dir1 KEY_SET_FILE (sk_to_bytes sk) = (dir2, ok2)" by force
  obtain dir3 ok3 where 3: "remove_file_durably io3 dir2 TOKEN_FILE = (dir3, ok3)" by force
  have d1: "dir1 TOKEN_FILE = ts_dir st TOKEN_FILE" "dir1 KEY_SET_FILE = ts_dir st KEY_SET_FILE"
    "ok1 \<Longrightarrow> dir1 PORTAL_NODE_FILE = node"
    using 1 by (auto dest!: replace_file_cases remove_file_cases split: option.splits)
  have w: "join_write io1 io2 io3 st sk node =
      (if \<not> ok1 then (st\<lparr>ts_dir := dir1\<rparr>, Inl TrustIo)
       else if \<not> ok2 then (st\<lparr>ts_dir := dir2\<rparr>, Inl TrustIo)
       else if \<not> ok3 then (st\<lparr>ts_dir := dir3\<rparr>, Inl TrustIo)
       else (\<lparr>ts_dir = dir3, ts_state = Some \<lparr>at_key_set = sk, at_portal_node = node\<rparr>\<rparr>, Inr ()))"
    unfolding join_write_def 1 by (cases ok1; cases ok2; cases ok3) (simp_all add: 2 3)
  have d2: "dir2 = dir1(KEY_SET_FILE \<mapsto> sk_to_bytes sk) \<or> \<not> ok2 \<and> dir2 = dir1" by (rule replace_file_cases [OF 2])
  have d3: "dir3 = dir2(TOKEN_FILE := None) \<or> \<not> ok3 \<and> dir3 = dir2" by (rule remove_file_cases [OF 3])
  consider "\<not> ok1" | "ok1" "\<not> ok2" | "ok1" "ok2" "\<not> ok3" | "ok1" "ok2" "ok3" by blast
  then show ?thesis
  proof cases
    case 1
    with w assms have "st' = st\<lparr>ts_dir := dir1\<rparr>" "r = Inl TrustIo" by simp_all
    with d1 show ?thesis by simp
  next
    case 2
    with w assms have "st' = st\<lparr>ts_dir := dir2\<rparr>" "r = Inl TrustIo" by simp_all
    with 2 d1 d2 show ?thesis by auto
  next
    case 3
    with w assms have "st' = st\<lparr>ts_dir := dir3\<rparr>" "r = Inl TrustIo" by simp_all
    with 3 d1 d2 d3 show ?thesis by auto
  next
    case 4
    with w assms have "st' = \<lparr>ts_dir = dir3, ts_state = Some \<lparr>at_key_set = sk, at_portal_node = node\<rparr>\<rparr>" "r = Inr ()" by simp_all
    with 4 d1 d2 d3 show ?thesis by auto
  qed
qed

lemma trust_join_cases:
  assumes "trust_join lb rd io1 io2 io3 st token sk node = (st', r)"
  obtains e where "join_allowed lb rd st token sk = Inl e" "st' = st" "r = Inl e"
  | "join_allowed lb rd st token sk = Inr ()" "join_write io1 io2 io3 st sk node = (st', r)"
proof (cases "join_allowed lb rd st token sk")
  case (Inl e)
  with assms have "st' = st" "r = Inl e" by (simp_all add: trust_join_def)
  with Inl that(1) show thesis by blast
next
  case (Inr u)
  with assms have "join_write io1 io2 io3 st sk node = (st', r)" by (simp add: trust_join_def)
  with Inr that(2) show thesis by simp
qed

lemma join_allowed_Inr:
  assumes "join_allowed lb rd st token sk = Inr ()"
  shows "ts_state st = None \<and> self_signed lb sk \<and>
    (\<exists>stored. ts_dir st TOKEN_FILE = Some stored \<and> lb_hash_from_hex lb (trim stored) = Some (lb_blake3 lb (trim token)))"
  using assms by (auto simp: join_allowed_def read_text_def rbind_eq_Inr split: if_splits option.splits)

lemma trust_join_ok:
  assumes "store_ok lb st" and "signed_wf lb sk" and "trust_join lb rd io1 io2 io3 st token sk node = (st', r)"
  shows "store_ok lb st'"
  using assms(3)
proof (cases rule: trust_join_cases)
  case (1 e)
  with assms(1) show ?thesis by simp
next
  case 2
  with join_allowed_Inr [OF 2(1)] join_write_cases [OF 2(2)] assms(1,2) show ?thesis
    by (auto simp: store_ok_def volume_holds_def split: option.splits)
qed

end
