(* ===== verification/Service_Access.thy ===== *)
theory Service_Access
  imports Service_Format Service_Trust
begin

text \<open>
  The portal's signing keys (\<open>access.rs\<close>) and the tables they live in (the access part of
  \<open>metadata.rs\<close>). A table is a list of rows or a map from its primary key; a transaction either
  commits whole or leaves the tables alone, and \<open>io\<close> says whether the database's own calls work. Random
  values and the clock are arguments. The integer columns are mathematical integers.
\<close>

section \<open>Tables\<close>

datatype signing_status = SigningActive | SigningRetiring | SigningRevoked

record signing_row =
  sg_key_id :: bytes
  sg_wrap_id :: uuid
  sg_public :: bytes
  sg_wrapped :: wrapped_key
  sg_status :: signing_status
  sg_created_at :: int

record join_token_row =
  jt_agent_id :: bytes
  jt_expires_at :: int
  jt_used_at :: "int option"

record agent_join =
  aj_agent_id :: bytes
  aj_node_stable_id :: "bytes option"
  aj_base_url :: bytes

record access_db =
  db_keys :: "signing_row list"
  db_epoch :: int
  db_version :: int
  db_joins :: "bytes \<rightharpoonup> agent_join"
  db_tokens :: "bytes \<rightharpoonup> join_token_row"

datatype metadata_error = MetaSql | MetaState string

definition empty_access_db :: access_db where
  "empty_access_db =
     \<lparr>db_keys = [], db_epoch = 1, db_version = 1, db_joins = Map.empty, db_tokens = Map.empty\<rparr>"

text \<open>\<open>ORDER BY status = 'active' DESC, created_at, key_id\<close>; text compares by its bytes.\<close>

fun cmp_bytes :: "bytes \<Rightarrow> bytes \<Rightarrow> ordering" where
  "cmp_bytes [] [] = Equal"
| "cmp_bytes [] (y # ys) = Less"
| "cmp_bytes (x # xs) [] = Greater"
| "cmp_bytes (x # xs) (y # ys) = then_cmp (cmp_of x y) (cmp_bytes xs ys)"

definition cmp_signing :: "signing_row \<Rightarrow> signing_row \<Rightarrow> ordering" where
  "cmp_signing a b =
     then_cmp (cmp_of (sg_status a \<noteq> SigningActive) (sg_status b \<noteq> SigningActive))
       (then_cmp (cmp_of (sg_created_at a) (sg_created_at b)) (cmp_bytes (sg_key_id a) (sg_key_id b)))"

definition signing_keys :: "access_db \<Rightarrow> signing_row list" where
  "signing_keys db = sort_by cmp_signing (filter (\<lambda>r. sg_status r \<noteq> SigningRevoked) (db_keys db))"

definition has_active :: "access_db \<Rightarrow> bool" where
  "has_active db \<longleftrightarrow> list_ex (\<lambda>r. sg_status r = SigningActive) (db_keys db)"

text \<open>The primary key, the unique wrap id, the single active key and the length of the public key.\<close>

definition insert_signing_key :: "access_db \<Rightarrow> signing_row \<Rightarrow> metadata_error + access_db" where
  "insert_signing_key db row =
     (if list_ex (\<lambda>r. sg_key_id r = sg_key_id row \<or> sg_wrap_id r = sg_wrap_id row) (db_keys db) then Inl MetaSql
      else if sg_status row = SigningActive \<and> has_active db then Inl MetaSql
      else if length (sg_public row) \<noteq> 32 then Inl MetaSql
      else Inr (db\<lparr>db_keys := db_keys db @ [row]\<rparr>))"

definition bump_grant_state :: "access_db \<Rightarrow> bool \<Rightarrow> access_db" where
  "bump_grant_state db new_epoch =
     db\<lparr>db_version := db_version db + 1, db_epoch := db_epoch db + (if new_epoch then 1 else 0)\<rparr>"

definition insert_first_signing_key :: "bool \<Rightarrow> access_db \<Rightarrow> signing_row \<Rightarrow> metadata_error + access_db \<times> bool" where
  "insert_first_signing_key io db row =
     (if \<not> io then Inl MetaSql
      else if has_active db then Inr (db, False)
      else rbind (insert_signing_key db row) (\<lambda>db. Inr (db, True)))"

definition retire_active :: "access_db \<Rightarrow> access_db" where
  "retire_active db =
     db\<lparr>db_keys := map (\<lambda>r. if sg_status r = SigningActive then r\<lparr>sg_status := SigningRetiring\<rparr> else r) (db_keys db)\<rparr>"

definition db_rotate_signing_key :: "bool \<Rightarrow> access_db \<Rightarrow> signing_row \<Rightarrow> metadata_error + access_db" where
  "db_rotate_signing_key io db row =
     (if \<not> io then Inl MetaSql
      else rbind (insert_signing_key (retire_active db) row) (\<lambda>db. Inr (bump_grant_state db False)))"

definition db_end_signing_key :: "bool \<Rightarrow> access_db \<Rightarrow> bytes \<Rightarrow> bool \<Rightarrow> metadata_error + access_db" where
  "db_end_signing_key io db key_id revoke =
     (if \<not> io then Inl MetaSql
      else case find (\<lambda>r. sg_key_id r = key_id) (db_keys db) of
             None \<Rightarrow> Inl (MetaState ''no signing key'')
           | Some row \<Rightarrow>
               (case sg_status row of
                  SigningActive \<Rightarrow> Inl (MetaState ''rotate before ending the active signing key'')
                | SigningRevoked \<Rightarrow> Inr db
                | SigningRetiring \<Rightarrow>
                    Inr (bump_grant_state
                      (db\<lparr>db_keys := map (\<lambda>r. if sg_key_id r = key_id then r\<lparr>sg_status := SigningRevoked\<rparr> else r)
                                      (db_keys db)\<rparr>) revoke)))"

definition insert_join_token :: "bool \<Rightarrow> access_db \<Rightarrow> bytes \<Rightarrow> bytes \<Rightarrow> int \<Rightarrow> metadata_error + access_db" where
  "insert_join_token io db token_hash agent_id expires_at =
     (if \<not> io \<or> db_tokens db token_hash \<noteq> None then Inl MetaSql
      else Inr (db\<lparr>db_tokens := (db_tokens db)(token_hash \<mapsto>
             \<lparr>jt_agent_id = agent_id, jt_expires_at = expires_at, jt_used_at = None\<rparr>)\<rparr>))"

definition record_agent_join ::
  "bool \<Rightarrow> access_db \<Rightarrow> agent_join \<Rightarrow> bytes \<Rightarrow> int \<Rightarrow> metadata_error + access_db \<times> bool" where
  "record_agent_join io db j token_hash now =
     (if \<not> io then Inl MetaSql
      else case db_tokens db token_hash of
             None \<Rightarrow> Inl (MetaState ''join token is unknown, used, or for another agent'')
           | Some row \<Rightarrow>
               if jt_agent_id row \<noteq> aj_agent_id j \<or> jt_used_at row \<noteq> None
               then Inl (MetaState ''join token is unknown, used, or for another agent'')
               else
                 let rejoin = db_joins db (aj_agent_id j) \<noteq> None;
                     db1 = db\<lparr>db_tokens := (db_tokens db)(token_hash \<mapsto> row\<lparr>jt_used_at := Some now\<rparr>),
                              db_joins := (db_joins db)(aj_agent_id j \<mapsto> j)\<rparr>
                 in Inr (if rejoin then bump_grant_state db1 True else db1, rejoin))"

section \<open>Grant material\<close>

definition SIGNING_KEY_PURPOSE :: bytes where "SIGNING_KEY_PURPOSE = ascii ''distr-hnsw grant signing key v1''"
definition JOIN_TOKEN_LIFETIME_SECONDS :: int where "JOIN_TOKEN_LIFETIME_SECONDS = 24 * 60 * 60"

datatype access_error =
    AccessMetadata metadata_error
  | AccessCrypto crypto_error
  | KeyMismatch bytes
  | NoActiveKey

text \<open>The active key first, then retiring keys. A signer is its seed.\<close>

record grant_material =
  gm_signers :: "(bytes \<times> key_status) list"
  gm_epoch :: u64
  gm_version :: u64

text \<open>\<open>key_id().to_string()\<close> is the hexadecimal text of the eight bytes.\<close>

definition key_id_text :: "libs \<Rightarrow> bytes \<Rightarrow> bytes" where
  "key_id_text lb seed = lb_hex lb (signer_key_id lb seed)"

definition seal_key ::
  "libs \<Rightarrow> bytes \<Rightarrow> bytes \<Rightarrow> signing_status \<Rightarrow> uuid \<Rightarrow> bytes \<Rightarrow> int \<Rightarrow> access_error + signing_row" where
  "seal_key lb master seed status wrap_id nonce now =
     rbind (map_err AccessCrypto (wrap_key lb master SIGNING_KEY_PURPOSE wrap_id 1 seed nonce)) (\<lambda>wrapped.
       Inr \<lparr>sg_key_id = key_id_text lb seed, sg_wrap_id = wrap_id, sg_public = lb_public lb seed,
            sg_wrapped = wrapped, sg_status = status, sg_created_at = now\<rparr>)"

definition unseal_key :: "libs \<Rightarrow> bytes \<Rightarrow> signing_row \<Rightarrow> access_error + bytes" where
  "unseal_key lb master row =
     rbind (map_err AccessCrypto (unwrap_key lb master SIGNING_KEY_PURPOSE (sg_wrap_id row) 1 (sg_wrapped row))) (\<lambda>seed.
       if lb_public lb seed \<noteq> sg_public row \<or> key_id_text lb seed \<noteq> sg_key_id row
       then Inl (KeyMismatch (sg_key_id row)) else Inr seed)"

fun load_signers :: "libs \<Rightarrow> bytes \<Rightarrow> signing_row list \<Rightarrow> access_error + (bytes \<times> key_status) list" where
  "load_signers lb master [] = Inr []"
| "load_signers lb master (row # rows) =
     (case sg_status row of
        SigningRevoked \<Rightarrow> load_signers lb master rows
      | status \<Rightarrow>
          rbind (unseal_key lb master row) (\<lambda>seed.
          rbind (load_signers lb master rows) (\<lambda>signers.
            Inr ((seed, if status = SigningActive then KeyActive else KeyRetiring) # signers))))"

definition load_material :: "libs \<Rightarrow> access_db \<Rightarrow> bytes \<Rightarrow> access_error + grant_material" where
  "load_material lb db master =
     rbind (load_signers lb master (signing_keys db)) (\<lambda>signers.
     if (case signers of [] \<Rightarrow> None | (_, status) # _ \<Rightarrow> Some status) \<noteq> Some KeyActive then Inl NoActiveKey
     else Inr \<lparr>gm_signers = signers, gm_epoch = word_of_int (db_epoch db), gm_version = word_of_int (db_version db)\<rparr>)"

text \<open>\<open>seed\<close>, \<open>wrap_id\<close> and \<open>nonce\<close> are the random values of a new key.\<close>

definition load_or_create ::
  "libs \<Rightarrow> bool \<Rightarrow> access_db \<Rightarrow> bytes \<Rightarrow> bytes \<Rightarrow> uuid \<Rightarrow> bytes \<Rightarrow> int \<Rightarrow>
     access_db \<times> (access_error + grant_material)" where
  "load_or_create lb io db master seed wrap_id nonce now =
     (if signing_keys db = []
      then (case rbind (seal_key lb master seed SigningActive wrap_id nonce now) (\<lambda>row.
                   map_err AccessMetadata (insert_first_signing_key io db row)) of
              Inl e \<Rightarrow> (db, Inl e)
            | Inr (db, _) \<Rightarrow> (db, load_material lb db master))
      else (db, load_material lb db master))"

definition material_key_set :: "libs \<Rightarrow> grant_material \<Rightarrow> key_set" where
  "material_key_set lb m =
     \<lparr>ks_version = gm_version m, ks_epoch = gm_epoch m,
      ks_keys = map (\<lambda>(seed, status). \<lparr>tk_key_id = signer_key_id lb seed, tk_public = lb_public lb seed,
                                       tk_status = status\<rparr>) (gm_signers m)\<rparr>"

definition signed_material :: "libs \<Rightarrow> grant_material \<Rightarrow> signed_key_set" where
  "signed_material lb m = ks_sign lb (material_key_set lb m) (map fst (gm_signers m))"

definition gm_active :: "grant_material \<Rightarrow> bytes option" where
  "gm_active m = map_option fst (index (gm_signers m) 0)"

definition create_join_token ::
  "libs \<Rightarrow> bool \<Rightarrow> access_db \<Rightarrow> bytes \<Rightarrow> bytes \<Rightarrow> int \<Rightarrow> access_error + access_db \<times> bytes" where
  "create_join_token lb io db random agent_id now =
     (let token = generate_join_token lb random
      in rbind (map_err AccessMetadata
           (insert_join_token io db (join_token_hash lb token) agent_id (now + JOIN_TOKEN_LIFETIME_SECONDS)))
         (\<lambda>db. Inr (db, token)))"

text \<open>Two keys may be made: the first key, when there was none, and the new active key.\<close>

definition rotate_signing_key ::
  "libs \<Rightarrow> bool \<Rightarrow> access_db \<Rightarrow> bytes \<Rightarrow> bytes \<times> uuid \<times> bytes \<Rightarrow> bytes \<times> uuid \<times> bytes \<Rightarrow> int \<Rightarrow>
     access_db \<times> (access_error + bytes)" where
  "rotate_signing_key lb io db master first new now =
     (case first of (seed1, wrap1, nonce1) \<Rightarrow>
      case load_or_create lb io db master seed1 wrap1 nonce1 now of
        (db, Inl e) \<Rightarrow> (db, Inl e)
      | (db, Inr _) \<Rightarrow>
          (case new of (seed, wrap_id, nonce) \<Rightarrow>
           case rbind (seal_key lb master seed SigningActive wrap_id nonce now) (\<lambda>row.
                  map_err AccessMetadata (db_rotate_signing_key io db row)) of
             Inl e \<Rightarrow> (db, Inl e)
           | Inr db \<Rightarrow> (db, Inr (signer_key_id lb seed))))"

definition end_signing_key :: "bool \<Rightarrow> access_db \<Rightarrow> bytes \<Rightarrow> bool \<Rightarrow> access_db \<times> (access_error + unit)" where
  "end_signing_key io db key_id revoke =
     (case db_end_signing_key io db key_id revoke of
        Inl e \<Rightarrow> (db, Inl (AccessMetadata e))
      | Inr db \<Rightarrow> (db, Inr ()))"

section \<open>Lemmas: the key table\<close>

definition rows_ok :: "libs \<Rightarrow> bytes \<Rightarrow> signing_row list \<Rightarrow> bool" where
  "rows_ok lb master rows \<longleftrightarrow>
     distinct (map sg_key_id rows) \<and> length (filter (\<lambda>r. sg_status r = SigningActive) rows) \<le> 1 \<and>
     (\<forall>r\<in>set rows. \<exists>seed. unseal_key lb master r = Inr seed)"

definition access_ok :: "libs \<Rightarrow> bytes \<Rightarrow> access_db \<Rightarrow> bool" where
  "access_ok lb master db \<longleftrightarrow>
     rows_ok lb master (db_keys db) \<and> 1 \<le> db_epoch db \<and> db_epoch db \<le> db_version db \<and>
     (db_keys db \<noteq> [] \<longrightarrow> has_active db)"

lemma access_empty [simp]: "access_ok lb master empty_access_db"
  by (simp add: access_ok_def rows_ok_def empty_access_db_def)

lemma unseal_seal:
  assumes "sealing_ok lb" and "seal_key lb master seed status wrap_id nonce now = Inr row" and "length seed = KEY_LEN"
  shows "unseal_key lb master row = Inr seed" "sg_status row = status" "sg_public row = lb_public lb seed"
    "sg_key_id row = key_id_text lb seed"
  using assms unwrap_wrap [OF assms(1) _ assms(3)] by (auto simp: seal_key_def unseal_key_def rbind_eq_Inr)

lemma unseal_status [simp]: "unseal_key lb master (r\<lparr>sg_status := s\<rparr>) = unseal_key lb master r"
  by (simp add: unseal_key_def cong: if_cong)

lemma public_map_status [simp]:
  "sg_public ` set (map (\<lambda>r. if P r then r\<lparr>sg_status := s\<rparr> else r) rows) = sg_public ` set rows"
  by (induction rows) auto

lemma active_none:
  "length (filter (\<lambda>r. sg_status r = SigningActive) rows) = 0 \<longleftrightarrow> \<not> list_ex (\<lambda>r. sg_status r = SigningActive) rows"
  by (auto simp: list_ex_iff filter_empty_conv)

lemma insert_signing_key_ok:
  assumes "rows_ok lb master (db_keys db)" and "insert_signing_key db row = Inr db'"
    and "unseal_key lb master row = Inr seed"
  shows "rows_ok lb master (db_keys db') \<and> db' = db\<lparr>db_keys := db_keys db @ [row]\<rparr>"
proof -
  have i: "\<forall>r\<in>set (db_keys db). sg_key_id r \<noteq> sg_key_id row" "\<not> (sg_status row = SigningActive \<and> has_active db)"
    "db' = db\<lparr>db_keys := db_keys db @ [row]\<rparr>"
    using assms(2) by (auto simp: insert_signing_key_def list_ex_iff split: if_splits)
  have "length (filter (\<lambda>r. sg_status r = SigningActive) (db_keys db @ [row])) \<le> 1"
  proof (cases "sg_status row = SigningActive")
    case True
    then have "length (filter (\<lambda>r. sg_status r = SigningActive) (db_keys db)) = 0"
      using i(2) unfolding active_none has_active_def by blast
    with True show ?thesis by simp
  next
    case False
    then show ?thesis using assms(1) by (simp add: rows_ok_def)
  qed
  then show ?thesis using assms(1,3) i by (auto simp: rows_ok_def)
qed

lemma map_status_rows:
  assumes "rows_ok lb master rows" and "\<And>r. r \<in> set rows \<Longrightarrow> P r \<Longrightarrow> s \<noteq> SigningActive"
  shows "rows_ok lb master (map (\<lambda>r. if P r then r\<lparr>sg_status := s\<rparr> else r) rows)"
proof -
  let ?f = "\<lambda>r. if P r then r\<lparr>sg_status := s\<rparr> else r"
  have "map sg_key_id (map ?f rows) = map sg_key_id rows" by simp
  moreover have "length (filter (\<lambda>r. sg_status r = SigningActive) (map ?f rows)) \<le>
      length (filter (\<lambda>r. sg_status r = SigningActive) rows)"
    using assms(2) by (induction rows) auto
  moreover have "\<exists>seed. unseal_key lb master (?f r) = Inr seed" if "r \<in> set rows" for r
    using assms(1) that by (auto simp: rows_ok_def)
  ultimately show ?thesis using assms(1) unfolding rows_ok_def by (auto simp del: map_map)
qed

lemma retire_active_none [simp]: "\<not> has_active (retire_active db)"
  by (auto simp: has_active_def retire_active_def list_ex_iff)

lemma retire_active_rows: "rows_ok lb master (db_keys db) \<Longrightarrow> rows_ok lb master (db_keys (retire_active db))"
  unfolding retire_active_def by (simp, rule map_status_rows) auto

text \<open>Every operation keeps the table and never lowers the version or the epoch; a version names one table.\<close>

definition advances :: "access_db \<Rightarrow> access_db \<Rightarrow> bool" where
  "advances db db' \<longleftrightarrow>
     db_epoch db \<le> db_epoch db' \<and> db_version db \<le> db_version db' \<and>
     (db_version db = db_version db' \<longrightarrow> db_epoch db = db_epoch db' \<and> (db_keys db \<noteq> [] \<longrightarrow> db_keys db' = db_keys db)) \<and>
     sg_public ` set (db_keys db) \<subseteq> sg_public ` set (db_keys db')"

lemma advances_refl [simp]: "advances db db"
  by (simp add: advances_def)

lemma bump_advances:
  assumes "sg_public ` set (db_keys db) \<subseteq> sg_public ` set keys"
  shows "advances db (bump_grant_state (db\<lparr>db_keys := keys\<rparr>) new_epoch)"
  using assms by (simp add: advances_def bump_grant_state_def)

lemma bump_simps [simp]:
  "db_keys (bump_grant_state db b) = db_keys db" "has_active (bump_grant_state db b) = has_active db"
  "db_version (bump_grant_state db b) = db_version db + 1"
  "db_epoch (bump_grant_state db b) = db_epoch db + (if b then 1 else 0)"
  by (simp_all add: bump_grant_state_def has_active_def)

lemma advances_trans:
  assumes "advances a b" and "advances b c"
  shows "advances a c"
proof -
  have le: "db_epoch a \<le> db_epoch b" "db_epoch b \<le> db_epoch c" "db_version a \<le> db_version b" "db_version b \<le> db_version c"
    "sg_public ` set (db_keys a) \<subseteq> sg_public ` set (db_keys b)" "sg_public ` set (db_keys b) \<subseteq> sg_public ` set (db_keys c)"
    and same: "db_version a = db_version b \<Longrightarrow> db_epoch a = db_epoch b \<and> (db_keys a \<noteq> [] \<longrightarrow> db_keys b = db_keys a)"
    "db_version b = db_version c \<Longrightarrow> db_epoch b = db_epoch c \<and> (db_keys b \<noteq> [] \<longrightarrow> db_keys c = db_keys b)"
    using assms by (simp_all add: advances_def)
  have "db_epoch a = db_epoch c \<and> (db_keys a \<noteq> [] \<longrightarrow> db_keys c = db_keys a)" if "db_version a = db_version c"
    using le(3,4) same that by simp
  then show ?thesis unfolding advances_def using le by (meson order_trans)
qed

lemma insert_first_ok:
  assumes "access_ok lb master db" and "insert_first_signing_key io db row = Inr (db', b)"
    and "unseal_key lb master row = Inr seed" and "sg_status row = SigningActive"
  shows "access_ok lb master db' \<and> advances db db'"
proof (cases "has_active db")
  case True
  with assms show ?thesis by (auto simp: insert_first_signing_key_def split: if_splits)
next
  case False
  with assms(1) have "db_keys db = []" by (auto simp: access_ok_def)
  with False assms(2) have "insert_signing_key db row = Inr db'"
    by (auto simp: insert_first_signing_key_def rbind_eq_Inr split: if_splits)
  with insert_signing_key_ok [OF _ this assms(3)] assms(1,4) \<open>db_keys db = []\<close> show ?thesis
    by (auto simp: access_ok_def advances_def has_active_def)
qed

lemma db_rotate_ok:
  assumes "access_ok lb master db" and "db_rotate_signing_key io db row = Inr db'"
    and "unseal_key lb master row = Inr seed" and "sg_status row = SigningActive"
  shows "access_ok lb master db' \<and> advances db db' \<and> db_version db < db_version db'"
proof -
  from assms(2) obtain db1 where i: "insert_signing_key (retire_active db) row = Inr db1" "db' = bump_grant_state db1 False"
    by (auto simp: db_rotate_signing_key_def rbind_eq_Inr split: if_splits)
  have rows: "rows_ok lb master (db_keys (retire_active db))" using assms(1) retire_active_rows by (auto simp: access_ok_def)
  from insert_signing_key_ok [OF rows i(1) assms(3)] have d: "rows_ok lb master (db_keys db1)"
    "db1 = (retire_active db)\<lparr>db_keys := db_keys (retire_active db) @ [row]\<rparr>" by blast+
  then have db1: "db1 = db\<lparr>db_keys := db_keys (retire_active db) @ [row]\<rparr>" by (simp add: retire_active_def)
  have "sg_public ` set (db_keys db) \<subseteq> sg_public ` set (db_keys (retire_active db) @ [row])"
    using public_map_status [of "\<lambda>r. sg_status r = SigningActive" SigningRetiring "db_keys db"]
    by (auto simp: retire_active_def simp del: set_map public_map_status)
  then have "advances db db'" unfolding i(2) db1 by (rule bump_advances)
  moreover have "has_active db'" using assms(4) by (simp add: i(2) db1 has_active_def)
  moreover have "db_epoch db1 = db_epoch db" "db_version db1 = db_version db" by (simp_all add: db1)
  ultimately show ?thesis using assms(1) d(1) by (simp add: access_ok_def i(2))
qed

lemma db_end_ok:
  assumes "access_ok lb master db" and "db_end_signing_key io db key_id revoke = Inr db'"
  shows "access_ok lb master db' \<and> advances db db'"
proof -
  obtain row where f: "find (\<lambda>r. sg_key_id r = key_id) (db_keys db) = Some row" "sg_status row \<noteq> SigningActive"
    using assms(2) by (auto simp: db_end_signing_key_def split: if_splits option.splits signing_status.splits)
  show ?thesis
  proof (cases "sg_status row = SigningRevoked")
    case True
    with f assms show ?thesis by (auto simp: db_end_signing_key_def split: if_splits)
  next
    case False
    let ?keys = "map (\<lambda>r. if sg_key_id r = key_id then r\<lparr>sg_status := SigningRevoked\<rparr> else r) (db_keys db)"
    have db': "db' = bump_grant_state (db\<lparr>db_keys := ?keys\<rparr>) revoke"
      using False f assms(2) by (auto simp: db_end_signing_key_def split: if_splits signing_status.splits)
    have rows: "rows_ok lb master (db_keys db)" using assms(1) by (simp add: access_ok_def)
    have row: "row \<in> set (db_keys db)" "sg_key_id row = key_id" using f(1) by (auto simp: find_Some_iff)
    have only: "r = row" if "r \<in> set (db_keys db)" "sg_key_id r = key_id" for r
      using rows row that unfolding rows_ok_def distinct_map by (metis inj_onD)
    have "has_active db" using assms(1) row(1) by (auto simp: access_ok_def)
    then obtain r where r: "r \<in> set (db_keys db)" "sg_status r = SigningActive" by (auto simp: has_active_def list_ex_iff)
    then have "sg_key_id r \<noteq> key_id" using only f(2) by blast
    with r have "has_active (db\<lparr>db_keys := ?keys\<rparr>)" by (auto simp: has_active_def list_ex_iff)
    moreover have "rows_ok lb master ?keys" by (rule map_status_rows [OF rows]) simp
    moreover have "advances db db'"
      unfolding db' using public_map_status [of "\<lambda>r. sg_key_id r = key_id" SigningRevoked "db_keys db"]
      by (intro bump_advances) (simp del: set_map)
    ultimately show ?thesis using assms(1) by (simp add: db' access_ok_def)
  qed
qed

lemma record_join_ok:
  assumes "access_ok lb master db" and "record_agent_join io db j token_hash now = Inr (db', rejoin)"
  shows "access_ok lb master db' \<and> advances db db' \<and> (rejoin \<longrightarrow> db_epoch db < db_epoch db')"
proof -
  obtain row where "db_tokens db token_hash = Some row"
    using assms(2) by (auto simp: record_agent_join_def split: if_splits option.splits)
  then obtain tokens joins where db': "db' = (if rejoin then bump_grant_state (db\<lparr>db_tokens := tokens, db_joins := joins\<rparr>) True
      else db\<lparr>db_tokens := tokens, db_joins := joins\<rparr>)"
    using assms(2) by (force simp: record_agent_join_def Let_def split: if_splits)
  show ?thesis using assms(1) by (simp add: db' access_ok_def advances_def has_active_def)
qed

end
