(* ===== verification/Service_Authority.thy ===== *)
theory Service_Authority
  imports Service_Access
begin

text \<open>
  The portal's keys and one agent together: a run of key creations, rotations, revocations, joins,
  published key sets, issued grants, and an agent that joins, is offered key sets by anyone, and
  restarts, with every file call free to fail. Signatures are idealised where bytes reach the agent: what
  verifies under a key of the portal was signed by the portal before. The join token is known to the
  portal and the agent only. \<open>au_dbs\<close> keeps the states of the portal's tables, the newest first.
\<close>

record authority =
  au_dbs :: "access_db list"
  au_material :: "grant_material option"
  au_published :: "signed_key_set list"
  au_grants :: "grant list"
  au_agent :: trust_store

definition publics :: "access_db \<Rightarrow> bytes set" where
  "publics db = sg_public ` set (db_keys db)"

text \<open>Every signature of \<open>sk\<close> that verifies under a key of the portal was made on a published key set.\<close>

definition authentic_set :: "libs \<Rightarrow> authority \<Rightarrow> signed_key_set \<Rightarrow> bool" where
  "authentic_set lb st sk \<longleftrightarrow>
     (\<forall>(key_id, signature)\<in>set (sk_signatures sk). \<forall>public\<in>publics (hd (au_dbs st)).
        lb_verify lb public (signed_message KEY_SET_DOMAIN (sk_body sk)) signature \<longrightarrow>
        sk_body sk \<in> sk_body ` set (au_published st))"

definition authentic_token :: "libs \<Rightarrow> authority \<Rightarrow> bytes \<Rightarrow> bool" where
  "authentic_token lb st token \<longleftrightarrow>
     (\<forall>body signature. lb_unb64 lb (trim token) = Some (body @ signature) \<longrightarrow> length signature = 64 \<longrightarrow>
        (\<forall>public\<in>publics (hd (au_dbs st)).
           lb_verify lb public (signed_message GRANT_DOMAIN body) signature \<longrightarrow>
           Some body \<in> encode_grant lb ` set (au_grants st)))"

definition grant_types :: "bytes \<Rightarrow> scope \<Rightarrow> uuid option \<Rightarrow> bytes \<Rightarrow> bool" where
  "grant_types agent_id scope gc_proof nonce \<longleftrightarrow>
     utf8_ok agent_id \<and> scope_wf scope \<and> length nonce = 16 \<and>
     (case gc_proof of Some proof \<Rightarrow> length proof = 16 | None \<Rightarrow> True)"

inductive authority_step :: "libs \<Rightarrow> bytes \<Rightarrow> authority \<Rightarrow> authority \<Rightarrow> bool"
  for lb master where
  create: "authority_step lb master st (st\<lparr>au_dbs := db' # au_dbs st\<rparr>)"
    if "load_or_create lb io (hd (au_dbs st)) master seed wrap_id nonce now = (db', r)" "length seed = KEY_LEN"
| rotate: "authority_step lb master st (st\<lparr>au_dbs := db' # au_dbs st\<rparr>)"
    if "rotate_signing_key lb io (hd (au_dbs st)) master (seed1, wrap1, nonce1) (seed, wrap_id, nonce) now = (db', r)"
      "length seed1 = KEY_LEN" "length seed = KEY_LEN"
| end_key: "authority_step lb master st (st\<lparr>au_dbs := db' # au_dbs st\<rparr>)"
    if "end_signing_key io (hd (au_dbs st)) key_id revoke = (db', r)"
| token: "authority_step lb master st (st\<lparr>au_dbs := db' # au_dbs st\<rparr>)"
    if "create_join_token lb io (hd (au_dbs st)) random agent_id now = Inr (db', t)"
| joined: "authority_step lb master st (st\<lparr>au_dbs := db' # au_dbs st\<rparr>)"
    if "record_agent_join io (hd (au_dbs st)) j token_hash now = Inr (db', rejoin)"
| reload: "authority_step lb master st (st\<lparr>au_material := Some m\<rparr>)"
    if "load_material lb (hd (au_dbs st)) master = Inr m"
| publish: "authority_step lb master st (st\<lparr>au_published := signed_material lb m # au_published st\<rparr>)"
    if "au_material st = Some m"
| grant: "authority_step lb master st
      (st\<lparr>au_grants := issued_grant lb seed (gm_epoch m) agent_id operation scope gc_proof now nonce # au_grants st\<rparr>)"
    if "au_material st = Some m" "gm_active m = Some seed"
      "issue lb seed (gm_epoch m) agent_id operation scope gc_proof now nonce = Some (Inr token)"
      "grant_types agent_id scope gc_proof nonce"
| arm: "authority_step lb master st (st\<lparr>au_agent := agent'\<rparr>)"
    if "arm_join_token lb io (au_agent st) token = (agent', r)"
| join: "authority_step lb master st (st\<lparr>au_agent := agent'\<rparr>)"
    if "p \<in> set (au_published st)" "sk_from_bytes lb (sk_to_bytes p) = Inr p"
      "trust_join lb rd io1 io2 io3 (au_agent st) token p node = (agent', r)"
| offer: "authority_step lb master st (st\<lparr>au_agent := agent'\<rparr>)"
    if "sk_from_bytes lb bs = Inr sk" "authentic_set lb st sk" "trust_update lb io (au_agent st) sk = (agent', r)"
| restart: "authority_step lb master st (st\<lparr>au_agent := agent'\<rparr>)"
    if "trust_open lb rd io (ts_dir (au_agent st)) = (dir', Inr agent')"

inductive_cases authority_stepE: "authority_step lb master st st'"

definition authority_start :: "volume \<Rightarrow> authority" where
  "authority_start dir =
     \<lparr>au_dbs = [empty_access_db], au_material = None, au_published = [], au_grants = [],
      au_agent = \<lparr>ts_dir = dir, ts_state = None\<rparr>\<rparr>"

inductive authority_run :: "libs \<Rightarrow> bytes \<Rightarrow> authority \<Rightarrow> bool" for lb master where
  start: "authority_run lb master (authority_start dir)" if "dir KEY_SET_FILE = None"
| stepped: "authority_run lb master st'" if "authority_run lb master st" "authority_step lb master st st'"

section \<open>What was loaded and what is held\<close>

definition loaded :: "libs \<Rightarrow> bytes \<Rightarrow> access_db list \<Rightarrow> grant_material \<Rightarrow> bool" where
  "loaded lb master dbs m \<longleftrightarrow> (\<exists>db\<in>set dbs. load_material lb db master = Inr m)"

definition held :: "libs \<Rightarrow> bytes \<Rightarrow> access_db list \<Rightarrow> key_set \<Rightarrow> bool" where
  "held lb master dbs ks \<longleftrightarrow> (\<exists>m. loaded lb master dbs m \<and> ks = material_key_set lb m)"

definition past_ok :: "libs \<Rightarrow> bytes \<Rightarrow> access_db list \<Rightarrow> bool" where
  "past_ok lb master dbs \<longleftrightarrow>
     dbs \<noteq> [] \<and> list_all (access_ok lb master) dbs \<and> sorted_wrt (\<lambda>new old. advances old new) dbs"

definition agent_ok :: "libs \<Rightarrow> bytes \<Rightarrow> access_db list \<Rightarrow> trust_store \<Rightarrow> bool" where
  "agent_ok lb master dbs st \<longleftrightarrow>
     (\<forall>t. ts_state st = Some t \<longrightarrow> signed_wf lb (at_key_set t) \<and> held lb master dbs (sk_key_set (at_key_set t))) \<and>
     (\<forall>bs. ts_dir st KEY_SET_FILE = Some bs \<longrightarrow>
        (\<exists>disk. bs = sk_to_bytes disk \<and> signed_wf lb disk \<and> held lb master dbs (sk_key_set disk)))"

definition authority_ok :: "libs \<Rightarrow> bytes \<Rightarrow> authority \<Rightarrow> bool" where
  "authority_ok lb master st \<longleftrightarrow>
     past_ok lb master (au_dbs st) \<and>
     (\<forall>m. au_material st = Some m \<longrightarrow> loaded lb master (au_dbs st) m) \<and>
     (\<forall>p\<in>set (au_published st). \<exists>m. loaded lb master (au_dbs st) m \<and> p = signed_material lb m) \<and>
     (\<forall>g\<in>set (au_grants st). grant_wf g) \<and>
     agent_ok lb master (au_dbs st) (au_agent st)"

lemma held_Cons: "held lb master dbs ks \<Longrightarrow> held lb master (db # dbs) ks"
  by (auto simp: held_def loaded_def)

lemma agent_ok_Cons: "agent_ok lb master dbs st \<Longrightarrow> agent_ok lb master (db # dbs) st"
  unfolding agent_ok_def using held_Cons by blast

section \<open>The portal's side\<close>

lemma load_or_create_ok:
  assumes "sealing_ok lb" and "access_ok lb master db" and "length seed = KEY_LEN"
    and "load_or_create lb io db master seed wrap_id nonce now = (db', r)"
  shows "access_ok lb master db' \<and> advances db db'"
proof (cases "db' = db")
  case True
  with assms(2) show ?thesis by simp
next
  case False
  with assms(4) obtain row b where s: "seal_key lb master seed SigningActive wrap_id nonce now = Inr row"
    "insert_first_signing_key io db row = Inr (db', b)"
    by (auto simp: load_or_create_def rbind_eq_Inr split: if_splits sum.splits)
  note u = unseal_seal [OF assms(1) s(1) assms(3)]
  show ?thesis by (rule insert_first_ok [OF assms(2) s(2) u(1,2)])
qed

lemma rotate_key_ok:
  assumes "sealing_ok lb" and "access_ok lb master db" and "length seed1 = KEY_LEN" and "length seed = KEY_LEN"
    and "rotate_signing_key lb io db master (seed1, wrap1, nonce1) (seed, wrap_id, nonce) now = (db', r)"
  shows "access_ok lb master db' \<and> advances db db'"
proof -
  obtain db1 r1 where c: "load_or_create lb io db master seed1 wrap1 nonce1 now = (db1, r1)" by force
  note c1 = load_or_create_ok [OF assms(1-3) c]
  show ?thesis
  proof (cases "db' = db1")
    case True
    with c1 show ?thesis by simp
  next
    case False
    with assms(5) c obtain row where s: "seal_key lb master seed SigningActive wrap_id nonce now = Inr row"
      "db_rotate_signing_key io db1 row = Inr db'"
      by (auto simp: rotate_signing_key_def rbind_eq_Inr split: sum.splits)
    note u = unseal_seal [OF assms(1) s(1) assms(4)]
    from db_rotate_ok [OF _ s(2) u(1,2)] c1 show ?thesis using advances_trans by blast
  qed
qed

lemma end_key_ok:
  assumes "access_ok lb master db" and "end_signing_key io db key_id revoke = (db', r)"
  shows "access_ok lb master db' \<and> advances db db'"
proof (cases "db_end_signing_key io db key_id revoke")
  case (Inl e)
  with assms show ?thesis by (auto simp: end_signing_key_def)
next
  case (Inr d)
  with assms(2) have "db' = d" by (simp add: end_signing_key_def)
  with db_end_ok [OF assms(1) Inr] show ?thesis by simp
qed

lemma token_ok:
  assumes "access_ok lb master db" and "create_join_token lb io db random agent_id now = Inr (db', t)"
  shows "access_ok lb master db' \<and> advances db db'"
proof -
  from assms(2) obtain tokens where "db' = db\<lparr>db_tokens := tokens\<rparr>"
    by (auto simp: create_join_token_def Let_def rbind_eq_Inr insert_join_token_def split: if_splits)
  with assms(1) show ?thesis by (simp add: access_ok_def advances_def has_active_def)
qed

lemma past_ok_Cons:
  assumes "past_ok lb master dbs" and "access_ok lb master db' \<and> advances (hd dbs) db'"
  shows "past_ok lb master (db' # dbs)"
proof -
  obtain db rest where dbs: "dbs = db # rest" using assms(1) by (cases dbs) (auto simp: past_ok_def)
  have "advances old db'" if "old \<in> set rest" for old
    using assms dbs that advances_trans [of old db db'] by (auto simp: past_ok_def)
  with assms dbs show ?thesis by (auto simp: past_ok_def)
qed

lemma past_advances:
  assumes "past_ok lb master dbs" and "db \<in> set dbs"
  shows "advances db (hd dbs)"
  using assms by (cases dbs) (auto simp: past_ok_def)

lemma past_comparable:
  assumes "past_ok lb master dbs" and "a \<in> set dbs" and "b \<in> set dbs"
  shows "advances a b \<or> advances b a"
proof -
  have "sorted_wrt (\<lambda>new old. advances old new) dbs" using assms(1) by (simp add: past_ok_def)
  from this assms(2,3) show ?thesis by (induction dbs) auto
qed

section \<open>Loading\<close>

lemma load_signers_Inr:
  assumes "load_signers lb master rows = Inr signers"
  shows "list_all2 (\<lambda>r (seed, status). unseal_key lb master r = Inr seed \<and>
      (status = KeyActive \<longleftrightarrow> sg_status r = SigningActive)) (filter (\<lambda>r. sg_status r \<noteq> SigningRevoked) rows) signers"
  using assms
proof (induction rows arbitrary: signers)
  case (Cons row rows)
  then show ?case by (cases "sg_status row") (auto simp: rbind_eq_Inr)
qed simp

lemma load_signers_some:
  assumes "\<forall>r\<in>set rows. \<exists>seed. unseal_key lb master r = Inr seed"
  shows "\<exists>signers. load_signers lb master rows = Inr signers"
  using assms
proof (induction rows)
  case (Cons row rows)
  then obtain seed signers where "unseal_key lb master row = Inr seed" "load_signers lb master rows = Inr signers" by auto
  then show ?case by (cases "sg_status row") auto
qed simp

lemma unseal_public: "unseal_key lb master r = Inr seed \<Longrightarrow> lb_public lb seed = sg_public r"
  by (auto simp: unseal_key_def rbind_eq_Inr split: if_splits)

lemma load_material_Inr:
  "load_material lb db master = Inr m \<longleftrightarrow>
     load_signers lb master (signing_keys db) = Inr (gm_signers m) \<and>
     (\<exists>seed rest. gm_signers m = (seed, KeyActive) # rest) \<and>
     gm_epoch m = word_of_int (db_epoch db) \<and> gm_version m = word_of_int (db_version db)"
proof (cases "load_signers lb master (signing_keys db)")
  case (Inr signers)
  have c: "(case signers of [] \<Rightarrow> None | (_, status) # _ \<Rightarrow> Some status) = Some KeyActive \<longleftrightarrow>
      (\<exists>seed rest. signers = (seed, KeyActive) # rest)" by (cases signers) auto
  show ?thesis
  proof (cases "\<exists>seed rest. signers = (seed, KeyActive) # rest")
    case True
    then have "load_material lb db master = Inr \<lparr>gm_signers = signers, gm_epoch = word_of_int (db_epoch db),
        gm_version = word_of_int (db_version db)\<rparr>" using c by (simp add: load_material_def Inr)
    then have "load_material lb db master = Inr m \<longleftrightarrow>
        gm_signers m = signers \<and> gm_epoch m = word_of_int (db_epoch db) \<and> gm_version m = word_of_int (db_version db)"
      by (cases m) (simp, blast)
    with True show ?thesis unfolding Inr sum.inject by metis
  next
    case False
    then have "load_material lb db master = Inl NoActiveKey" using c by (simp add: load_material_def Inr)
    with False show ?thesis unfolding Inr sum.inject by (metis sum.distinct(1))
  qed
qed (simp add: load_material_def)

lemma list_all2_right: "list_all2 P xs ys \<Longrightarrow> y \<in> set ys \<Longrightarrow> \<exists>x\<in>set xs. P x y"
  by (induction rule: list_all2_induct) auto

lemma load_material_publics:
  assumes "load_material lb db master = Inr m" and "k \<in> set (ks_keys (material_key_set lb m))"
  shows "tk_public k \<in> publics db"
proof -
  from assms(2) obtain seed status where s: "(seed, status) \<in> set (gm_signers m)" "tk_public k = lb_public lb seed"
    by (auto simp: material_key_set_def)
  from load_signers_Inr assms(1) have "list_all2 (\<lambda>r (seed, status). unseal_key lb master r = Inr seed \<and>
      (status = KeyActive \<longleftrightarrow> sg_status r = SigningActive))
      (filter (\<lambda>r. sg_status r \<noteq> SigningRevoked) (signing_keys db)) (gm_signers m)"
    unfolding load_material_Inr by blast
  from list_all2_right [OF this s(1)] obtain r where "r \<in> set (signing_keys db)" "unseal_key lb master r = Inr seed"
    by auto
  then show ?thesis using s(2) by (auto simp: publics_def signing_keys_def dest: unseal_public)
qed

lemma held_publics:
  assumes "past_ok lb master dbs" and "held lb master dbs ks" and "k \<in> set (ks_keys ks)"
  shows "tk_public k \<in> publics (hd dbs)"
proof -
  from assms(2) obtain db m where "db \<in> set dbs" "load_material lb db master = Inr m" "ks = material_key_set lb m"
    by (auto simp: held_def loaded_def)
  with load_material_publics [of lb db master m k] past_advances [OF assms(1), of db] assms(3) show ?thesis
    by (auto simp: publics_def advances_def)
qed

lemma encode_trusted_inj:
  assumes "map encode_trusted ks = map encode_trusted ks'"
    and "\<forall>k\<in>set ks \<union> set ks'. length (tk_key_id k) = 8 \<and> length (tk_public k) = 32"
  shows "ks = ks'"
  using assms
proof (induction ks arbitrary: ks')
  case (Cons k ks)
  then obtain k' ks'' where k': "ks' = k' # ks''" by (cases ks') auto
  with Cons.prems have e: "encode_trusted k = encode_trusted k'" "length (tk_key_id k) = 8" "length (tk_key_id k') = 8"
    "length (tk_public k) = 32" "length (tk_public k') = 32" by simp_all
  then have "k = k'"
    by (cases k; cases k'; cases "tk_status k"; cases "tk_status k'") (auto simp: encode_trusted_def status_code_def)
  moreover have "ks = ks''" using Cons k' by simp
  ultimately show ?case by (simp add: k')
qed simp

lemma encode_keys_size:
  "\<forall>k\<in>set ks. length (tk_key_id k) = 8 \<and> length (tk_public k) = 32 \<Longrightarrow>
     length (concat (map encode_trusted ks)) = 41 * length ks"
  by (induction ks) (auto simp: encode_trusted_def)

lemma encode_key_set_size:
  "\<forall>k\<in>set (ks_keys ks). length (tk_key_id k) = 8 \<and> length (tk_public k) = 32 \<Longrightarrow>
     length (encode_key_set ks) = 17 + 41 * length (ks_keys ks)"
  by (simp add: encode_key_set_def encode_keys_size)

lemma encode_key_set_inj:
  assumes "encode_key_set ks = encode_key_set ks'"
    and "\<forall>k\<in>set (ks_keys ks) \<union> set (ks_keys ks'). length (tk_key_id k) = 8 \<and> length (tk_public k) = 32"
  shows "ks = ks'"
proof -
  from assms(1) have e: "u64_le (ks_version ks) = u64_le (ks_version ks')" "u64_le (ks_epoch ks) = u64_le (ks_epoch ks')"
    "concat (map encode_trusted (ks_keys ks)) = concat (map encode_trusted (ks_keys ks'))"
    by (simp_all add: encode_key_set_def)
  have n: "length (ks_keys ks) = length (ks_keys ks')"
    using arg_cong [OF e(3), of length] encode_keys_size [of "ks_keys ks"] encode_keys_size [of "ks_keys ks'"] assms(2) by auto
  have "\<forall>(x, y)\<in>set (zip (map encode_trusted (ks_keys ks)) (map encode_trusted (ks_keys ks'))). length x = length y"
    using assms(2) by (auto simp: set_zip encode_trusted_def)
  then have "map encode_trusted (ks_keys ks) = map encode_trusted (ks_keys ks')"
    using concat_injective [OF e(3)] n by simp
  then have "ks_keys ks = ks_keys ks'" using encode_trusted_inj assms(2) by blast
  moreover have "ks_version ks = ks_version ks'" "ks_epoch ks = ks_epoch ks'"
    using e(1,2) by (metis u64_of_le_le)+
  ultimately show ?thesis by simp
qed

lemma material_lengths:
  assumes "text_ok lb" and "signing_ok lb"
  shows "\<forall>k\<in>set (ks_keys (material_key_set lb m)). length (tk_key_id k) = 8 \<and> length (tk_public k) = 32"
  using assms by (auto simp: material_key_set_def signer_key_id_def key_id_of_def text_okD signing_ok_def)

lemma signed_material_simps [simp]:
  "sk_key_set (signed_material lb m) = material_key_set lb m"
  "sk_body (signed_material lb m) = encode_key_set (material_key_set lb m)"
  by (simp_all add: signed_material_def ks_sign_def Let_def)

section \<open>The agent's side\<close>

text \<open>What the agent accepts was signed by a key it holds, so by the portal, so was published.\<close>

lemma offered_held:
  assumes "text_ok lb" and "signing_ok lb" and "authority_ok lb master st" and "signed_wf lb sk"
    and "authentic_set lb st sk" and "held lb master (au_dbs st) trusted" and "signed_by lb sk trusted"
  shows "held lb master (au_dbs st) (sk_key_set sk)"
proof -
  have past: "past_ok lb master (au_dbs st)" using assms(3) by (simp add: authority_ok_def)
  from assms(7) obtain key_id signature k where k: "(key_id, signature) \<in> set (sk_signatures sk)" "ks_key trusted key_id = Some k"
    "lb_verify lb (tk_public k) (signed_message KEY_SET_DOMAIN (sk_body sk)) signature"
    by (auto simp: signed_by_def list_ex_iff split: option.splits)
  then have "tk_public k \<in> publics (hd (au_dbs st))"
    using held_publics [OF past assms(6)] ks_key_Some by blast
  with k(1,3) assms(5) obtain p where "p \<in> set (au_published st)" "sk_body p = sk_body sk"
    by (auto simp: authentic_set_def)
  with assms(3) obtain m where m: "loaded lb master (au_dbs st) m" "encode_key_set (material_key_set lb m) = sk_body sk"
    by (auto simp: authority_ok_def)
  have "\<forall>k\<in>set (ks_keys (sk_key_set sk)). length (tk_key_id k) = 8 \<and> length (tk_public k) = 32"
    using assms(4) by (auto simp: signed_wf_def key_set_wf_def list_all_iff trusted_wf_def)
  then have "material_key_set lb m = sk_key_set sk"
    using assms(4) m(2) material_lengths [OF assms(1,2)] by (intro encode_key_set_inj) (auto simp: signed_wf_def)
  then show ?thesis using m(1) by (auto simp: held_def)
qed

lemma arm_agent:
  assumes "agent_ok lb master dbs st" and "arm_join_token lb io st token = (st', r)"
  shows "agent_ok lb master dbs st'"
proof (cases "is_joined st")
  case False
  obtain dir ok where d: "replace_file_durably io (ts_dir st) TOKEN_FILE (join_token_hash lb token) = (dir, ok)" by force
  then have "dir KEY_SET_FILE = ts_dir st KEY_SET_FILE" by (auto dest!: replace_file_cases)
  moreover have "st' = st\<lparr>ts_dir := dir\<rparr>" using False assms(2) d by (simp add: arm_join_token_def)
  ultimately show ?thesis using assms(1) by (simp add: agent_ok_def)
qed (use assms in \<open>simp add: arm_join_token_def\<close>)

lemma join_agent:
  assumes "agent_ok lb master dbs st" and "signed_wf lb p" and "held lb master dbs (sk_key_set p)"
    and "trust_join lb rd io1 io2 io3 st token p node = (st', r)"
  shows "agent_ok lb master dbs st'"
  using assms(4)
proof (cases rule: trust_join_cases)
  case (1 e)
  with assms(1) show ?thesis by simp
next
  case 2
  with join_write_cases [OF 2(2)] assms(1-3) show ?thesis by (auto simp: agent_ok_def)
qed

lemma update_writes:
  assumes "trust_update lb io st offered = (st', r)"
  shows "st' = st \<or> (\<exists>t. ts_state st = Some t \<and> follows lb (at_key_set t) offered \<and>
    (ts_dir st' KEY_SET_FILE = Some (sk_to_bytes offered) \<and>
       ts_state st' \<in> {Some t, Some (t\<lparr>at_key_set := offered\<rparr>)} \<or>
     ts_dir st' = ts_dir st \<and> ts_state st' = Some t))"
proof (cases "ts_state st")
  case (Some t)
  show ?thesis
  proof (cases "update_allowed lb (at_key_set t) offered")
    case (Inr u)
    then have f: "follows lb (at_key_set t) offered" by simp
    obtain dir ok where d: "replace_file_durably io (ts_dir st) KEY_SET_FILE (sk_to_bytes offered) = (dir, ok)" by force
    have "st' = (if ok then \<lparr>ts_dir = dir, ts_state = Some (t\<lparr>at_key_set := offered\<rparr>)\<rparr> else st\<lparr>ts_dir := dir\<rparr>)"
      using assms Some Inr d by (simp add: trust_update_def split: bool.splits)
    with replace_file_cases [OF d] f Some show ?thesis by auto
  qed (use assms Some in \<open>simp add: trust_update_def\<close>)
qed (use assms in \<open>simp add: trust_update_def\<close>)

lemma offer_agent:
  assumes "agent_ok lb master dbs st" and "signed_wf lb sk"
    and "\<And>t. ts_state st = Some t \<Longrightarrow> follows lb (at_key_set t) sk \<Longrightarrow> held lb master dbs (sk_key_set sk)"
    and "trust_update lb io st sk = (st', r)"
  shows "agent_ok lb master dbs st'"
proof (cases "st' = st")
  case False
  with update_writes [OF assms(4)] obtain t where t: "ts_state st = Some t" "follows lb (at_key_set t) sk"
    and w: "ts_dir st' KEY_SET_FILE = Some (sk_to_bytes sk) \<and> ts_state st' \<in> {Some t, Some (t\<lparr>at_key_set := sk\<rparr>)} \<or>
      ts_dir st' = ts_dir st \<and> ts_state st' = Some t" by blast
  have "held lb master dbs (sk_key_set sk)" using assms(3) t by blast
  with w t(1) assms(1,2) show ?thesis by (auto simp: agent_ok_def)
qed (use assms in simp)

lemma restart_agent:
  assumes "agent_ok lb master dbs st" and "trust_open lb rd io (ts_dir st) = (dir', Inr st')"
  shows "agent_ok lb master dbs st'"
proof (cases "ts_dir st KEY_SET_FILE")
  case None
  then show ?thesis using assms by (auto simp: trust_open_def agent_ok_def split: if_splits)
next
  case (Some bs)
  with assms(1) obtain disk where disk: "bs = sk_to_bytes disk" "signed_wf lb disk" "held lb master dbs (sk_key_set disk)"
    by (auto simp: agent_ok_def)
  obtain dir2 ok where r: "remove_file_durably io (ts_dir st) TOKEN_FILE = (dir2, ok)" by force
  from assms(2) Some disk(1) r obtain node where
    o: "st' = \<lparr>ts_dir = dir2, ts_state = Some \<lparr>at_key_set = disk, at_portal_node = node\<rparr>\<rparr>"
    by (auto simp: trust_open_def signed_round_trip [OF disk(2)] split: if_splits sum.splits)
  have "dir2 KEY_SET_FILE = Some bs" using remove_file_cases [OF r] Some by auto
  then show ?thesis using o disk by (auto simp: agent_ok_def)
qed

section \<open>The invariant\<close>

lemma authority_db:
  assumes "authority_ok lb master st" and "access_ok lb master db' \<and> advances (hd (au_dbs st)) db'"
  shows "authority_ok lb master (st\<lparr>au_dbs := db' # au_dbs st\<rparr>)"
proof -
  have "past_ok lb master (db' # au_dbs st)" using past_ok_Cons assms by (auto simp: authority_ok_def)
  moreover have "loaded lb master (db' # au_dbs st) m" if "loaded lb master (au_dbs st) m" for m
    using that by (auto simp: loaded_def)
  ultimately show ?thesis using assms(1) agent_ok_Cons unfolding authority_ok_def by simp blast
qed

lemma authority_agent:
  "authority_ok lb master st \<Longrightarrow> agent_ok lb master (au_dbs st) agent' \<Longrightarrow> authority_ok lb master (st\<lparr>au_agent := agent'\<rparr>)"
  by (simp add: authority_ok_def)

lemma issued_wf:
  assumes "text_ok lb" and "issue lb seed epoch agent_id operation scope gc_proof now nonce = Some (Inr token)"
    and "grant_types agent_id scope gc_proof nonce"
  shows "grant_wf (issued_grant lb seed epoch agent_id operation scope gc_proof now nonce)"
  using assms by (auto simp: issue_def grant_types_def grant_wf_def issued_grant_def signer_key_id_def key_id_of_def text_okD
      split: if_splits option.splits)

lemma authority_step_ok:
  assumes "text_ok lb" and "signing_ok lb" and "sealing_ok lb" and "authority_step lb master st st'"
    and "authority_ok lb master st"
  shows "authority_ok lb master st'"
  using assms(4)
proof cases
  have db: "access_ok lb master (hd (au_dbs st))"
    using assms(5) by (cases "au_dbs st") (auto simp: authority_ok_def past_ok_def)
  note agent = assms(5) [unfolded authority_ok_def, THEN conjunct2, THEN conjunct2, THEN conjunct2, THEN conjunct2]
  {
    case create
    then show ?thesis using authority_db [OF assms(5)] load_or_create_ok [OF assms(3) db] by blast
  next
    case rotate
    then show ?thesis using authority_db [OF assms(5)] rotate_key_ok [OF assms(3) db] by blast
  next
    case end_key
    then show ?thesis using authority_db [OF assms(5)] end_key_ok [OF db] by blast
  next
    case token
    then show ?thesis using authority_db [OF assms(5)] token_ok [OF db] by blast
  next
    case joined
    then show ?thesis using authority_db [OF assms(5)] record_join_ok [OF db] by blast
  next
    case (reload m)
    then have "loaded lb master (au_dbs st) m"
      using assms(5) by (cases "au_dbs st") (auto simp: authority_ok_def past_ok_def loaded_def)
    then show ?thesis using reload(1) assms(5) by (simp add: authority_ok_def)
  next
    case publish
    then show ?thesis using assms(5) by (auto simp: authority_ok_def)
  next
    case grant
    then show ?thesis using assms(5) issued_wf [OF assms(1)] by (auto simp: authority_ok_def)
  next
    case arm
    then show ?thesis using authority_agent [OF assms(5)] arm_agent [OF agent] by blast
  next
    case (join p rd io1 io2 io3 t node agent' r)
    then have "signed_wf lb p" using signed_canonical by blast
    moreover have "held lb master (au_dbs st) (sk_key_set p)"
      using assms(5) join(2) unfolding authority_ok_def held_def by (metis signed_material_simps(1))
    ultimately show ?thesis
      unfolding join(1) using authority_agent [OF assms(5)] join_agent [OF agent _ _ join(4)] by blast
  next
    case (offer bs sk io agent' r)
    have wf: "signed_wf lb sk" using offer(2) signed_canonical by blast
    have "held lb master (au_dbs st) (sk_key_set sk)" if "ts_state (au_agent st) = Some t" "follows lb (at_key_set t) sk" for t
      using that agent offered_held [OF assms(1,2,5) wf offer(3)] by (auto simp: agent_ok_def follows_def)
    then show ?thesis
      unfolding offer(1) using authority_agent [OF assms(5)] offer_agent [OF agent wf _ offer(4)] by blast
  next
    case restart
    then show ?thesis using authority_agent [OF assms(5)] restart_agent [OF agent] by blast
  }
qed

lemma authority_run_ok:
  assumes "authority_run lb master st" and "text_ok lb" and "signing_ok lb" and "sealing_ok lb"
  shows "authority_ok lb master st"
  using assms(1)
proof induction
  case (start dir)
  then show ?case by (simp add: authority_ok_def authority_start_def past_ok_def agent_ok_def)
next
  case (stepped st st')
  then show ?case using authority_step_ok [OF assms(2-4)] by blast
qed

section \<open>Versions and epochs\<close>

lemma u64_of_int:
  assumes "0 \<le> v" and "v < 2 ^ 64"
  shows "uint (word_of_int v :: u64) = v"
  using assms by (simp add: uint_word_of_int)

lemma past_versions:
  assumes "past_ok lb master dbs" and "db \<in> set dbs" and "db_version (hd dbs) < 2 ^ 64"
  shows "uint (word_of_int (db_version db) :: u64) = db_version db" "uint (word_of_int (db_epoch db) :: u64) = db_epoch db"
proof -
  have "access_ok lb master db" using assms(1,2) by (auto simp: past_ok_def list_all_iff)
  then have "1 \<le> db_epoch db" "db_epoch db \<le> db_version db" by (simp_all add: access_ok_def)
  moreover have "db_version db \<le> db_version (hd dbs)" using past_advances [OF assms(1,2)] by (simp add: advances_def)
  ultimately show "uint (word_of_int (db_version db) :: u64) = db_version db" "uint (word_of_int (db_epoch db) :: u64) = db_epoch db"
    using assms(3) by (simp_all add: u64_of_int)
qed

lemma held_numbers:
  assumes "past_ok lb master dbs" and "held lb master dbs ks" and "db_version (hd dbs) < 2 ^ 64"
  obtains db where "db \<in> set dbs" "uint (ks_version ks) = db_version db" "uint (ks_epoch ks) = db_epoch db"
proof -
  from assms(2) obtain db m where "db \<in> set dbs" "load_material lb db master = Inr m" "ks = material_key_set lb m"
    by (auto simp: held_def loaded_def)
  with past_versions [OF assms(1) _ assms(3), of db] that show thesis
    by (auto simp: load_material_Inr material_key_set_def)
qed

text \<open>A key set at least as new as a state of the tables has at least its epoch.\<close>

lemma held_epoch:
  assumes "past_ok lb master dbs" and "held lb master dbs ks" and "db_version (hd dbs) < 2 ^ 64"
    and "db \<in> set dbs" and "db_version db \<le> uint (ks_version ks)"
  shows "db_epoch db \<le> uint (ks_epoch ks)"
proof -
  obtain db0 where db0: "db0 \<in> set dbs" "uint (ks_version ks) = db_version db0" "uint (ks_epoch ks) = db_epoch db0"
    using held_numbers [OF assms(1-3)] by blast
  with past_comparable [OF assms(1) assms(4) db0(1)] assms(5) show ?thesis
    by (auto simp: advances_def)
qed

end
