(* ===== verification/Service_Instance.thy ===== *)
theory Service_Instance
  imports Service_Authority
begin

text \<open>
  A concrete instance of the third-party functions, for the witnesses of the service's properties:
  hexadecimal text for both text codecs, a digest that keeps the first 32 bytes, a signature that
  repeats the public key and the digest, and a cipher that appends the start of the key as its tag.
  It satisfies every hypothesis of \<open>Service_Base\<close>. The run at the end creates a key, publishes it, joins
  an agent, issues a grant and rotates.
\<close>

definition pad32 :: "bytes \<Rightarrow> bytes" where
  "pad32 bs = take 32 (bs @ replicate 32 0)"

definition nibble :: "nat \<Rightarrow> u8" where
  "nibble n = (if n < 10 then 0x30 + word_of_nat n else 0x57 + word_of_nat n)"

definition unnibble :: "u8 \<Rightarrow> nat option" where
  "unnibble b =
     (if 0x30 \<le> b \<and> b \<le> 0x39 then Some (unat b - 0x30)
      else if 0x61 \<le> b \<and> b \<le> 0x66 then Some (unat b - 0x57) else None)"

fun nibbles :: "bytes \<Rightarrow> bytes" where
  "nibbles [] = []"
| "nibbles (b # bs) = nibble (unat b div 16) # nibble (unat b mod 16) # nibbles bs"

fun unnibbles :: "bytes \<Rightarrow> bytes option" where
  "unnibbles [] = Some []"
| "unnibbles [b] = None"
| "unnibbles (h # l # bs) =
     (case (unnibble h, unnibble l) of
        (Some h, Some l) \<Rightarrow> map_option (\<lambda>bs. word_of_nat (16 * h + l) # bs) (unnibbles bs)
      | _ \<Rightarrow> None)"

definition tag16 :: "bytes \<Rightarrow> bytes" where
  "tag16 key = take 16 (pad32 key)"

definition demo_libs :: libs where
  "demo_libs =
     \<lparr>lb_blake3 = pad32, lb_derive = (\<lambda>context. pad32), lb_hex = nibbles, lb_unhex = unnibbles,
      lb_hash_from_hex = unnibbles, lb_b64 = nibbles, lb_unb64 = unnibbles, lb_public = pad32,
      lb_point = (\<lambda>key. length key = 32), lb_sign = (\<lambda>seed m. pad32 seed @ pad32 m),
      lb_verify = (\<lambda>public m signature. signature = public @ pad32 m),
      lb_seal = (\<lambda>key nonce aad m. Some (m @ tag16 key)),
      lb_open = (\<lambda>key nonce aad ct. let n = length ct - 16 in
        if 16 \<le> length ct \<and> drop n ct = tag16 key then Some (take n ct) else None)\<rparr>"

lemma nibble_hex: "n < 16 \<Longrightarrow> lower_hex (nibble n)"
  by (auto simp: nibble_def lower_hex_def word_le_nat_alt unat_word_ariths unat_of_nat)

lemma unnibble_nibble: "n < 16 \<Longrightarrow> unnibble (nibble n) = Some n"
  by (auto simp: nibble_def unnibble_def word_le_nat_alt unat_word_ariths unat_of_nat)

lemma nibble_unnibble:
  assumes "lower_hex b"
  obtains n where "unnibble b = Some n" "nibble n = b" "n < 16"
proof (cases "0x30 \<le> b \<and> b \<le> 0x39")
  case True
  then have u: "48 \<le> unat b" "unat b \<le> 57" by (simp_all add: word_le_nat_alt)
  then have "unat b - 48 < 10" by linarith
  then have "nibble (unat b - 48) = b" using u by (simp add: nibble_def of_nat_diff)
  then show ?thesis using that [of "unat b - 48"] True u by (simp add: unnibble_def)
next
  case False
  then have l: "0x61 \<le> b" "b \<le> 0x66" using assms by (auto simp: lower_hex_def)
  then have u: "97 \<le> unat b" "unat b \<le> 102" by (simp_all add: word_le_nat_alt)
  then have "\<not> unat b - 87 < 10" by linarith
  then have "nibble (unat b - 87) = b" using u by (simp add: nibble_def of_nat_diff)
  then show ?thesis using that [of "unat b - 87"] False l u by (simp add: unnibble_def)
qed

lemma nibbles_hex: "length (nibbles bs) = 2 * length bs \<and> list_all lower_hex (nibbles bs)"
proof (induction bs)
  case (Cons b bs)
  have "unat b div 16 < 16" using unat_bound [of b] by (simp add: less_mult_imp_div_less)
  then show ?case using Cons by (simp add: nibble_hex)
qed simp

lemma unnibbles_nibbles [simp]: "unnibbles (nibbles bs) = Some bs"
proof (induction bs)
  case (Cons b bs)
  have "unat b div 16 < 16" using unat_bound [of b] by (simp add: less_mult_imp_div_less)
  moreover have "word_of_nat (16 * (unat b div 16) + unat b mod 16) = b" by simp
  ultimately show ?case using Cons by (simp add: unnibble_nibble del: mult_div_mod_eq)
qed simp

lemma nibbles_unnibbles:
  assumes "list_all lower_hex t" and "even (length t)"
  shows "\<exists>bs. unnibbles t = Some bs \<and> nibbles bs = t"
  using assms
proof (induction t rule: unnibbles.induct)
  case (3 h l t)
  then obtain m n where hl: "unnibble h = Some m" "nibble m = h" "m < 16" "unnibble l = Some n" "nibble n = l" "n < 16"
    using nibble_unnibble by (metis list.pred_inject(2))
  from 3 hl obtain bs where "unnibbles t = Some bs" "nibbles bs = t" by auto
  moreover have "unat (word_of_nat (16 * m + n) :: u8) = 16 * m + n"
    using hl(3,6) unfolding unat_of_nat by simp
  ultimately show ?case using hl by (simp del: of_nat_add of_nat_mult of_nat_numeral)
qed auto

lemma length_pad32 [simp]: "length (pad32 bs) = 32"
  by (simp add: pad32_def)

lemma demo_text_ok: "text_ok demo_libs"
  using nibbles_hex nibbles_unnibbles hex_plain by (simp add: text_ok_def demo_libs_def)

lemma demo_signing_ok: "signing_ok demo_libs"
  by (simp add: signing_ok_def demo_libs_def)

lemma demo_sealing_ok: "sealing_ok demo_libs"
proof -
  have "length (tag16 key) = 16" for key by (simp add: tag16_def)
  moreover have "take (length ct - 16) ct @ drop (length ct - 16) ct = ct" for ct :: bytes by simp
  ultimately show ?thesis unfolding sealing_ok_def demo_libs_def by (auto simp: Let_def) (metis append_take_drop_id)
qed

lemmas demo_ok = demo_text_ok demo_signing_ok demo_sealing_ok

section \<open>A run\<close>

definition demo_master :: bytes where "demo_master = replicate 32 7"
definition demo_seed :: "u8 \<Rightarrow> bytes" where "demo_seed n = replicate 32 n"
definition demo_nonce :: bytes where "demo_nonce = replicate 24 3"
definition demo_id :: "u8 \<Rightarrow> uuid" where "demo_id n = replicate 16 n"
definition demo_agent :: bytes where "demo_agent = ascii ''agent-1''"

text \<open>The row of the key with seed \<open>demo_seed n\<close>, made at time \<open>time\<close>.\<close>

definition demo_row :: "u8 \<Rightarrow> signing_status \<Rightarrow> int \<Rightarrow> signing_row" where
  "demo_row n status time =
     \<lparr>sg_key_id = nibbles (replicate 8 n), sg_wrap_id = demo_id n, sg_public = demo_seed n,
      sg_wrapped = \<lparr>wk_nonce = demo_nonce, wk_ciphertext = demo_seed n @ replicate 16 7\<rparr>,
      sg_status = status, sg_created_at = time\<rparr>"

definition demo_db1 :: access_db where
  "demo_db1 = empty_access_db\<lparr>db_keys := [demo_row 1 SigningActive 100]\<rparr>"

definition demo_material :: grant_material where
  "demo_material = \<lparr>gm_signers = [(demo_seed 1, KeyActive)], gm_epoch = 1, gm_version = 1\<rparr>"

definition demo_set :: signed_key_set where
  "demo_set = signed_material demo_libs demo_material"

definition demo_token :: bytes where
  "demo_token = generate_join_token demo_libs (demo_seed 9)"

definition demo_armed :: trust_store where
  "demo_armed = fst (arm_join_token demo_libs FileDone \<lparr>ts_dir = Map.empty, ts_state = None\<rparr> demo_token)"

definition demo_joined :: trust_store where
  "demo_joined =
     fst (trust_join demo_libs (\<lambda>_. True) FileDone FileDone FileDone demo_armed demo_token demo_set (Some (ascii ''node'')))"

definition demo_grant :: grant where
  "demo_grant = issued_grant demo_libs (demo_seed 1) 1 demo_agent OpGet (ScopeKind KChunk) None 1000 (demo_id 5)"

definition demo_bearer :: bytes where
  "demo_bearer = projr (the (issue demo_libs (demo_seed 1) 1 demo_agent OpGet (ScopeKind KChunk) None 1000 (demo_id 5)))"

definition demo_authority :: authority where
  "demo_authority =
     \<lparr>au_dbs = [demo_db1, empty_access_db], au_material = Some demo_material, au_published = [demo_set],
      au_grants = [demo_grant], au_agent = demo_joined\<rparr>"


text \<open>The run goes on: a rotation, the revocation of the first key, a new key set, a new grant.\<close>

definition demo_db2 :: access_db where
  "demo_db2 = empty_access_db\<lparr>db_keys := [demo_row 1 SigningRetiring 100, demo_row 2 SigningActive 200], db_version := 2\<rparr>"

definition demo_db3 :: access_db where
  "demo_db3 = empty_access_db\<lparr>db_keys := [demo_row 1 SigningRevoked 100, demo_row 2 SigningActive 200],
     db_version := 3, db_epoch := 2\<rparr>"

text \<open>The key set published between the two: the old key still signs for the new one.\<close>

definition demo_material2 :: grant_material where
  "demo_material2 = \<lparr>gm_signers = [(demo_seed 2, KeyActive), (demo_seed 1, KeyRetiring)], gm_epoch = 1, gm_version = 2\<rparr>"

definition demo_material3 :: grant_material where
  "demo_material3 = \<lparr>gm_signers = [(demo_seed 2, KeyActive)], gm_epoch = 2, gm_version = 3\<rparr>"

definition demo_set2 :: signed_key_set where "demo_set2 = signed_material demo_libs demo_material2"
definition demo_set3 :: signed_key_set where "demo_set3 = signed_material demo_libs demo_material3"

definition demo_agent2 :: trust_store where
  "demo_agent2 = fst (trust_update demo_libs FileDone demo_joined demo_set2)"

definition demo_agent3 :: trust_store where
  "demo_agent3 = fst (trust_update demo_libs FileDone demo_agent2 demo_set3)"

definition demo_grant3 :: grant where
  "demo_grant3 = issued_grant demo_libs (demo_seed 2) 2 demo_agent OpGet (ScopeKind KChunk) None 2000 (demo_id 5)"

definition demo_bearer3 :: bytes where
  "demo_bearer3 = projr (the (issue demo_libs (demo_seed 2) 2 demo_agent OpGet (ScopeKind KChunk) None 2000 (demo_id 5)))"

definition demo_authority3 :: authority where
  "demo_authority3 =
     \<lparr>au_dbs = [demo_db3, demo_db2, demo_db1, empty_access_db], au_material = Some demo_material3,
      au_published = [demo_set3, demo_set2, demo_set], au_grants = [demo_grant], au_agent = demo_agent3\<rparr>"

section \<open>What it evaluates to\<close>

lemma Some_Inr_projr: "(case x of Some (Inr m) \<Rightarrow> True | _ \<Rightarrow> False) \<Longrightarrow> x = Some (Inr (projr (the x)))"
  by (auto split: option.splits sum.splits)

text \<open>Keys are sealed and unsealed symbolically: one lemma for every seed.\<close>

lemma pad32_replicate [simp]: "pad32 (replicate 32 n) = replicate 32 n"
  by (simp add: pad32_def)

lemma demo_tag [simp]: "tag16 demo_master = replicate 16 7"
  by (simp add: tag16_def demo_master_def)

lemma demo_key_id [simp]: "signer_key_id demo_libs (demo_seed n) = replicate 8 n"
  by (simp add: signer_key_id_def key_id_of_def demo_libs_def demo_seed_def)

lemma demo_public [simp]: "lb_public demo_libs (demo_seed n) = demo_seed n"
  by (simp add: demo_libs_def demo_seed_def)

lemma demo_key_text [simp]: "key_id_text demo_libs (demo_seed n) = nibbles (replicate 8 n)"
  by (simp add: key_id_text_def) (simp add: demo_libs_def)

lemma demo_seal_key [simp]:
  "seal_key demo_libs demo_master (demo_seed n) status (demo_id n) demo_nonce time = Inr (demo_row n status time)"
  by (simp add: seal_key_def wrap_key_def demo_row_def) (simp add: demo_libs_def)

lemma demo_unseal_key [simp]: "unseal_key demo_libs demo_master (demo_row n status time) = Inr (demo_seed n)"
proof -
  have "lb_open demo_libs demo_master nonce aad (demo_seed n @ replicate 16 7) = Some (demo_seed n)" for nonce aad
    by (simp add: demo_libs_def demo_seed_def Let_def)
  then show ?thesis
    by (simp add: unseal_key_def unwrap_key_def demo_row_def) (simp add: demo_seed_def KEY_LEN_def)
qed

lemma demo_row_simps [simp]:
  "sg_status (demo_row n status time) = status" "sg_created_at (demo_row n status time) = time"
  "(demo_row n status time)\<lparr>sg_status := status'\<rparr> = demo_row n status' time"
  "sg_public (demo_row n status time) = demo_seed n" "sg_wrap_id (demo_row n status time) = demo_id n"
  "sg_key_id (demo_row n status time) = nibbles (replicate 8 n)" "length (demo_seed n) = 32"
  by (simp_all add: demo_row_def demo_seed_def)

lemmas demo_eval = signing_keys_def sort_by_def cmp_signing_def load_material_def has_active_def retire_active_def
  insert_signing_key_def bump_grant_state_def empty_access_db_def

lemma demo_materials_load:
  "load_material demo_libs demo_db1 demo_master = Inr demo_material"
  "load_material demo_libs demo_db2 demo_master = Inr demo_material2"
  "load_material demo_libs demo_db3 demo_master = Inr demo_material3"
  by (simp_all add: demo_eval demo_db1_def demo_db2_def demo_db3_def demo_material_def demo_material2_def demo_material3_def
      cmp_of_def then_cmp_def)

lemma nibbles_inj [simp]: "nibbles a = nibbles b \<longleftrightarrow> a = b"
  by (metis unnibbles_nibbles option.inject)

lemma demo_created:
  "load_or_create demo_libs True empty_access_db demo_master (demo_seed 1) (demo_id 1) demo_nonce 100 =
     (demo_db1, Inr demo_material)"
proof -
  have "insert_first_signing_key True empty_access_db (demo_row 1 SigningActive 100) = Inr (demo_db1, True)"
    by (simp add: insert_first_signing_key_def demo_eval demo_db1_def)
  then show ?thesis
    by (simp add: load_or_create_def demo_materials_load) (simp add: signing_keys_def sort_by_def empty_access_db_def)
qed

lemma demo_rotated:
  "rotate_signing_key demo_libs True demo_db1 demo_master (demo_seed 0, demo_id 0, demo_nonce)
     (demo_seed 2, demo_id 2, demo_nonce) 200 = (demo_db2, Inr (replicate 8 2))"
proof -
  have "signing_keys demo_db1 \<noteq> []" by (simp add: demo_db1_def demo_eval)
  moreover have "db_rotate_signing_key True demo_db1 (demo_row 2 SigningActive 200) = Inr demo_db2"
    by (simp add: db_rotate_signing_key_def demo_eval demo_db1_def demo_db2_def demo_id_def)
  ultimately show ?thesis by (simp add: rotate_signing_key_def load_or_create_def demo_materials_load)
qed

lemma demo_ended: "end_signing_key True demo_db2 (nibbles (replicate 8 1)) True = (demo_db3, Inr ())"
  by (simp add: end_signing_key_def db_end_signing_key_def demo_db2_def demo_db3_def bump_grant_state_def
      empty_access_db_def)

lemma demo_active: "gm_active demo_material = Some (demo_seed 1)" "gm_epoch demo_material = 1"
  by code_simp+

lemma demo_issue:
  "issue demo_libs (demo_seed 1) 1 demo_agent OpGet (ScopeKind KChunk) None 1000 (demo_id 5) = Some (Inr demo_bearer)"
  unfolding demo_bearer_def by (rule Some_Inr_projr) code_simp

lemma demo_types: "grant_types demo_agent (ScopeKind KChunk) None (demo_id 5)"
  by code_simp

lemma demo_set_reads: "sk_from_bytes demo_libs (sk_to_bytes demo_set) = Inr demo_set"
  by code_simp

lemma demo_joined_state:
  "ts_state demo_joined = Some \<lparr>at_key_set = demo_set, at_portal_node = Some (ascii ''node'')\<rparr>"
  by code_simp

lemma demo_armed_state: "ts_state demo_armed = None" "ts_dir demo_armed KEY_SET_FILE = None"
  by code_simp+

lemma demo_run: "authority_run demo_libs demo_master demo_authority"
proof -
  let ?dir = "Map.empty :: volume"
  let ?s0 = "authority_start ?dir"
  let ?s1 = "?s0\<lparr>au_dbs := demo_db1 # au_dbs ?s0\<rparr>"
  let ?s2 = "?s1\<lparr>au_material := Some demo_material\<rparr>"
  let ?s3 = "?s2\<lparr>au_published := signed_material demo_libs demo_material # au_published ?s2\<rparr>"
  let ?s4 = "?s3\<lparr>au_grants := issued_grant demo_libs (demo_seed 1) (gm_epoch demo_material) demo_agent OpGet
    (ScopeKind KChunk) None 1000 (demo_id 5) # au_grants ?s3\<rparr>"
  let ?s5 = "?s4\<lparr>au_agent := demo_armed\<rparr>"
  let ?s6 = "?s5\<lparr>au_agent := demo_joined\<rparr>"
  have create: "load_or_create demo_libs True (hd (au_dbs ?s0)) demo_master (demo_seed 1) (demo_id 1) demo_nonce 100 =
      (demo_db1, Inr demo_material)"
    by (simp add: demo_created authority_start_def)
  have arm: "arm_join_token demo_libs FileDone (au_agent ?s4) demo_token =
      (demo_armed, snd (arm_join_token demo_libs FileDone (au_agent ?s4) demo_token))"
    by (simp add: demo_armed_def authority_start_def)
  have join: "trust_join demo_libs (\<lambda>_. True) FileDone FileDone FileDone (au_agent ?s5) demo_token demo_set (Some (ascii ''node'')) =
      (demo_joined, snd (trust_join demo_libs (\<lambda>_. True) FileDone FileDone FileDone (au_agent ?s5) demo_token demo_set
         (Some (ascii ''node''))))"
    by (simp add: demo_joined_def)
  have "authority_run demo_libs demo_master ?s0" by (rule authority_run.start) simp
  moreover have "authority_step demo_libs demo_master ?s0 ?s1"
    by (rule authority_step.create [OF create]) (simp add: demo_seed_def KEY_LEN_def)
  moreover have "authority_step demo_libs demo_master ?s1 ?s2"
    by (rule authority_step.reload) (simp add: demo_materials_load)
  moreover have "authority_step demo_libs demo_master ?s2 ?s3" by (rule authority_step.publish) simp
  moreover have "authority_step demo_libs demo_master ?s3 ?s4"
    by (rule authority_step.grant [where token = demo_bearer])
      (simp_all add: demo_active demo_issue demo_types)
  moreover have "authority_step demo_libs demo_master ?s4 ?s5" by (rule authority_step.arm [OF arm])
  moreover have "authority_step demo_libs demo_master ?s5 ?s6"
    by (rule authority_step.join [OF _ demo_set_reads join]) (simp add: demo_set_def)
  moreover have "?s6 = demo_authority"
    by (simp add: authority_start_def demo_authority_def demo_set_def demo_grant_def demo_active)
  ultimately show ?thesis by (metis authority_run.stepped)
qed

lemma demo_verify:
  "ks_verify demo_libs (sk_key_set demo_set) demo_bearer
     \<lparr>ex_agent_id = demo_agent, ex_operation = OpGet, ex_scope = ScopeKind KChunk\<rparr> 1100 = Inr demo_grant"
  by code_simp

lemma demo_set_key: "ks_epoch (sk_key_set demo_set) = 1"
  "ks_key (sk_key_set demo_set) (signer_key_id demo_libs (demo_seed 1)) =
     Some \<lparr>tk_key_id = signer_key_id demo_libs (demo_seed 1), tk_public = lb_public demo_libs (demo_seed 1), tk_status = KeyActive\<rparr>"
  by code_simp+

lemma demo_sets_read:
  "sk_from_bytes demo_libs (sk_to_bytes demo_set2) = Inr demo_set2"
  "sk_from_bytes demo_libs (sk_to_bytes demo_set3) = Inr demo_set3"
  by code_simp+

lemma demo_agent3_state:
  "ts_state demo_agent3 = Some \<lparr>at_key_set = demo_set3, at_portal_node = Some (ascii ''node'')\<rparr>"
  by code_simp

lemma demo_revoked:
  "db_epoch demo_db3 = 2" "db_version demo_db3 = 3" "ks_version (sk_key_set demo_set3) = 3"
  by code_simp+

lemma demo_issue3:
  "issue demo_libs (demo_seed 2) 2 demo_agent OpGet (ScopeKind KChunk) None 2000 (demo_id 5) = Some (Inr demo_bearer3)"
  unfolding demo_bearer3_def by (rule Some_Inr_projr) code_simp

lemma demo_verify3:
  "ks_verify demo_libs (sk_key_set demo_set3) demo_bearer3
     \<lparr>ex_agent_id = demo_agent, ex_operation = OpGet, ex_scope = ScopeKind KChunk\<rparr> 2100 = Inr demo_grant3"
  by code_simp

lemma published_authentic: "sk \<in> set (au_published st) \<Longrightarrow> authentic_set lb st sk"
  by (auto simp: authentic_set_def)

lemma demo_run3: "authority_run demo_libs demo_master demo_authority3"
proof -
  let ?s0 = demo_authority
  let ?s1 = "?s0\<lparr>au_dbs := demo_db2 # au_dbs ?s0\<rparr>"
  let ?s2 = "?s1\<lparr>au_material := Some demo_material2\<rparr>"
  let ?s3 = "?s2\<lparr>au_published := signed_material demo_libs demo_material2 # au_published ?s2\<rparr>"
  let ?s4 = "?s3\<lparr>au_agent := demo_agent2\<rparr>"
  let ?s5 = "?s4\<lparr>au_dbs := demo_db3 # au_dbs ?s4\<rparr>"
  let ?s6 = "?s5\<lparr>au_material := Some demo_material3\<rparr>"
  let ?s7 = "?s6\<lparr>au_published := signed_material demo_libs demo_material3 # au_published ?s6\<rparr>"
  let ?s8 = "?s7\<lparr>au_agent := demo_agent3\<rparr>"
  have rotate: "rotate_signing_key demo_libs True (hd (au_dbs ?s0)) demo_master
      (demo_seed 0, demo_id 0, demo_nonce) (demo_seed 2, demo_id 2, demo_nonce) 200 = (demo_db2, Inr (replicate 8 2))"
    by (simp add: demo_rotated demo_authority_def)
  have end_key: "end_signing_key True (hd (au_dbs ?s4)) (nibbles (replicate 8 1)) True = (demo_db3, Inr ())"
    by (simp add: demo_ended)
  have offer2: "trust_update demo_libs FileDone (au_agent ?s3) demo_set2 =
      (demo_agent2, snd (trust_update demo_libs FileDone demo_joined demo_set2))"
    by (simp add: demo_agent2_def demo_authority_def)
  have offer3: "trust_update demo_libs FileDone (au_agent ?s7) demo_set3 =
      (demo_agent3, snd (trust_update demo_libs FileDone demo_agent2 demo_set3))"
    by (simp add: demo_agent3_def)
  note demo_run
  moreover have "authority_step demo_libs demo_master ?s0 ?s1"
    by (rule authority_step.rotate [OF rotate]) (simp_all add: demo_seed_def KEY_LEN_def)
  moreover have "authority_step demo_libs demo_master ?s1 ?s2"
    by (rule authority_step.reload) (simp add: demo_materials_load)
  moreover have "authority_step demo_libs demo_master ?s2 ?s3" by (rule authority_step.publish) simp
  moreover have "authority_step demo_libs demo_master ?s3 ?s4"
    by (rule authority_step.offer [OF demo_sets_read(1) _ offer2]) (simp add: published_authentic demo_set2_def)
  moreover have "authority_step demo_libs demo_master ?s4 ?s5" by (rule authority_step.end_key [OF end_key])
  moreover have "authority_step demo_libs demo_master ?s5 ?s6"
    by (rule authority_step.reload) (simp add: demo_materials_load)
  moreover have "authority_step demo_libs demo_master ?s6 ?s7" by (rule authority_step.publish) simp
  moreover have "authority_step demo_libs demo_master ?s7 ?s8"
    by (rule authority_step.offer [OF demo_sets_read(2) _ offer3]) (simp add: published_authentic demo_set3_def)
  moreover have "?s8 = demo_authority3"
    by (simp add: demo_authority_def demo_authority3_def demo_set2_def demo_set3_def)
  ultimately show ?thesis by (metis authority_run.stepped)
qed

section \<open>Sixteen keys\<close>

definition demo_full :: access_db where
  "demo_full = empty_access_db\<lparr>db_keys :=
     map (\<lambda>n. demo_row (word_of_nat n) (if n = 0 then SigningActive else SigningRetiring) (int n)) [0..<16], db_version := 16\<rparr>"

definition demo_full_next :: access_db where
  "demo_full_next = empty_access_db\<lparr>db_keys :=
     map (\<lambda>n. demo_row (word_of_nat n) SigningRetiring (int n)) [0..<16] @ [demo_row 99 SigningActive 99],
     db_version := 17\<rparr>"

definition demo_full_material :: grant_material where
  "demo_full_material = projr (load_material demo_libs demo_full_next demo_master)"

lemma demo_full_keys: "length (signing_keys demo_full) = MAX_KEYS"
  by (simp add: signing_keys_def demo_full_def MAX_KEYS_def filter_True)

lemma demo_full_loads:
  "load_material demo_libs demo_full_next demo_master = Inr demo_full_material"
  "isl (load_material demo_libs demo_full demo_master) = False"
   by (simp_all add: demo_full_material_def demo_full_def demo_full_next_def demo_eval cmp_of_def then_cmp_def upt_rec)

lemma demo_full_rotates:
  "rotate_signing_key demo_libs True demo_full demo_master
     (demo_seed 0, demo_id 0, demo_nonce) (demo_seed 99, demo_id 99, demo_nonce) 99 = (demo_full_next, Inr (replicate 8 99))"
proof -
  have "signing_keys demo_full \<noteq> []" using demo_full_keys by (auto simp: MAX_KEYS_def)
  moreover have "db_rotate_signing_key True demo_full (demo_row 99 SigningActive 99) = Inr demo_full_next"
    by (simp add: db_rotate_signing_key_def demo_eval demo_full_def demo_full_next_def demo_id_def upt_rec)
  ultimately show ?thesis
    using demo_full_loads(2) by (cases "load_material demo_libs demo_full demo_master")
      (simp_all add: rotate_signing_key_def load_or_create_def)
qed

section \<open>A crashed join\<close>

definition demo_crashed :: trust_store where
  "demo_crashed = fst (trust_join demo_libs (\<lambda>_. True) FileDone FileAfter FileDone demo_armed demo_token demo_set
     (Some (ascii ''node'')))"

lemma demo_crashed_opens:
  "(case snd (trust_open demo_libs (\<lambda>_. True) FileDone (ts_dir demo_crashed)) of Inl e \<Rightarrow> False | Inr opened \<Rightarrow> True)"
  by code_simp

section \<open>A manifest\<close>

definition demo_manifest :: decoded_manifest where
  "demo_manifest =
     \<lparr>dm_file_id = demo_id 4, dm_generation = 1, dm_payload =
        \<lparr>mp_name = ascii ''notes'', mp_plaintext_len = 5, mp_plaintext_hash = demo_seed 6,
         mp_content_key = \<lparr>wk_nonce = demo_nonce, wk_ciphertext = demo_seed 8 @ replicate 16 7\<rparr>,
         mp_chunks = [\<lparr>ck_ordinal = 0, ck_plaintext_len = 5, ck_nonce = demo_nonce,
                        ck_ciphertext_hash = nibbles (demo_seed 6), ck_ciphertext_len = 21\<rparr>]\<rparr>\<rparr>"

definition demo_manifest_bytes :: bytes where
  "demo_manifest_bytes = projr (encode_manifest demo_libs demo_master (dm_file_id demo_manifest) (dm_generation demo_manifest)
     (dm_payload demo_manifest) (demo_seed 5) demo_nonce demo_nonce)"

lemma demo_manifest_encodes:
  "encode_manifest demo_libs demo_master (dm_file_id demo_manifest) (dm_generation demo_manifest)
     (dm_payload demo_manifest) (demo_seed 5) demo_nonce demo_nonce = Inr demo_manifest_bytes"
proof -
  have "(case encode_manifest demo_libs demo_master (dm_file_id demo_manifest) (dm_generation demo_manifest)
     (dm_payload demo_manifest) (demo_seed 5) demo_nonce demo_nonce of Inl e \<Rightarrow> False | Inr b \<Rightarrow> True)" by code_simp
  then show ?thesis by (auto simp: demo_manifest_bytes_def split: sum.splits)
qed

end
