(* ===== verification/Service_Properties.thy ===== *)
theory Service_Properties
  imports Service_Instance
begin

text \<open>
  The properties of the storage service: what an agent accepts from a portal, what survives a crash of
  a join, and what an authenticated manifest says. The witnesses run on the instance of
  \<open>Service_Instance\<close>.
\<close>

lemma sint_add_id:
  assumes "- (2 ^ 63) \<le> sint a + sint b" and "sint a + sint b < 2 ^ 63"
  shows "sint (a + b :: i64) = sint a + sint b"
  using assms by (simp add: sint_word_ariths signed_take_bit_int_eq_self)

section \<open>Grants\<close>

text \<open>C14: A grant the portal issued is accepted, for exactly the agent, operation and object it names, from
  one minute before it was issued to three minutes after: its two minutes and the clock skew.
\<close>

theorem issued_grant_accepted:
  assumes "text_ok lb" and "signing_ok lb" and "grant_types agent_id scope gc_proof nonce"
    and "issue lb seed epoch agent_id operation scope gc_proof now nonce = Some (Inr token)"
    and "operation = OpDelete \<Longrightarrow> gc_proof \<noteq> None"
    and "ks_epoch ks = epoch" and "ks_key ks (signer_key_id lb seed) = Some key" and "tk_public key = lb_public lb seed"
    and "0 \<le> sint now" and "sint now < 2 ^ 62" and "0 \<le> sint time" and "sint time < 2 ^ 62"
  shows "ks_verify lb ks token \<lparr>ex_agent_id = agent_id, ex_operation = operation, ex_scope = scope\<rparr> time =
    (if sint now + 180 < sint time then Inl Expired
     else if sint time < sint now - 60 then Inl NotYetValid
     else Inr (issued_grant lb seed epoch agent_id operation scope gc_proof now nonce))"
proof -
  let ?g = "issued_grant lb seed epoch agent_id operation scope gc_proof now nonce"
  have wf: "grant_wf ?g" by (rule issued_wf [OF assms(1,4,3)])
  then obtain body where b: "encode_grant lb ?g = Some body" "decode_grant lb body = Inr ?g"
    using grant_round_trip [OF assms(1)] by blast
  let ?sig = "lb_sign lb seed (signed_message GRANT_DOMAIN body)"
  have token: "token = lb_b64 lb (body @ ?sig)"
    using assms(4) b(1) by (auto simp: issue_def sign_grant_def split: if_splits)
  have sig: "length ?sig = 64" "lb_verify lb (lb_public lb seed) (signed_message GRANT_DOMAIN body) ?sig"
    using assms(2) by (simp_all add: signing_ok_def)
  have "sint (now + GRANT_LIFETIME_SECONDS) = sint now + 120"
    using assms(9,10) by (simp add: GRANT_LIFETIME_SECONDS_def sint_add_id)
  then have check: "check_grant ks ?g \<lparr>ex_agent_id = agent_id, ex_operation = operation, ex_scope = scope\<rparr> time =
    (if sint now + 180 < sint time then Inl Expired
     else if sint time < sint now - 60 then Inl NotYetValid else Inr ?g)"
    using assms(5,6,9-12) by (auto simp: check_grant_def issued_grant_def sat_i64_id MAX_GRANT_LIFETIME_SECONDS_def
        CLOCK_SKEW_SECONDS_def)
  show ?thesis
    unfolding check [symmetric] using assms(7,8) b(2) sig text_okD(5,6) [OF assms(1)]
    by (simp add: ks_verify_def token issued_grant_def)
qed

theorem issued_grant_accepted_witness:
  "ks_verify demo_libs (sk_key_set demo_set) demo_bearer
     \<lparr>ex_agent_id = demo_agent, ex_operation = OpGet, ex_scope = ScopeKind KChunk\<rparr> 1180 = Inr demo_grant \<and>
   ks_verify demo_libs (sk_key_set demo_set) demo_bearer
     \<lparr>ex_agent_id = demo_agent, ex_operation = OpGet, ex_scope = ScopeKind KChunk\<rparr> 1181 = Inl Expired"
  using issued_grant_accepted [OF demo_ok(1,2) demo_types demo_issue _ demo_set_key, of 1180]
    issued_grant_accepted [OF demo_ok(1,2) demo_types demo_issue _ demo_set_key, of 1181]
  by (simp add: demo_grant_def)

section \<open>Agents\<close>



text \<open>What the portal signs is authentic.\<close>

lemma issued_authentic:
  assumes "text_ok lb" and "signing_ok lb" and "g \<in> set (au_grants st)" and "sign_grant lb seed g = Some token"
  shows "authentic_token lb st token"
proof -
  from assms(4) obtain body where b: "encode_grant lb g = Some body"
    "token = lb_b64 lb (body @ lb_sign lb seed (signed_message GRANT_DOMAIN body))" by (auto simp: sign_grant_def)
  have "Some body' \<in> encode_grant lb ` set (au_grants st)"
    if "lb_unb64 lb (trim token) = Some (body' @ signature)" "length signature = 64" for body' signature
  proof -
    have "body' @ signature = body @ lb_sign lb seed (signed_message GRANT_DOMAIN body)"
      using that(1) b(2) text_okD(5,6) [OF assms(1)] by simp
    moreover have "length (lb_sign lb seed (signed_message GRANT_DOMAIN body)) = 64" using assms(2) by (simp add: signing_ok_def)
    ultimately have "body' = body" using that(2) by simp
    then show ?thesis using b(1) assms(3) by force
  qed
  then show ?thesis by (auto simp: authentic_token_def)
qed

text \<open>C11: A grant that a joined agent accepts is one the portal issued: field by field the same grant, for this
  agent, operation and object, in its time, and with a proof of unreachability if it deletes.
\<close>

theorem accepted_grants_were_issued:
  assumes "authority_run lb master st" and "text_ok lb" and "signing_ok lb" and "sealing_ok lb"
    and "ts_state (au_agent st) = Some t" and "authentic_token lb st token"
    and "ks_verify lb (sk_key_set (at_key_set t)) token ex now = Inr g"
  shows "g \<in> set (au_grants st) \<and> gr_agent_id g = ex_agent_id ex \<and> gr_operation g = ex_operation ex \<and>
    gr_scope g = ex_scope ex \<and> (gr_operation g = OpDelete \<longrightarrow> gr_gc_proof g \<noteq> None) \<and>
    gr_epoch g = ks_epoch (sk_key_set (at_key_set t))"
proof -
  have ok: "authority_ok lb master st" by (rule authority_run_ok [OF assms(1-4)])
  from assms(7) obtain body signature key where v: "lb_unb64 lb (trim token) = Some (body @ signature)" "length signature = 64"
    "decode_grant lb body = Inr g" "ks_key (sk_key_set (at_key_set t)) (gr_key_id g) = Some key"
    "lb_verify lb (tk_public key) (signed_message GRANT_DOMAIN body) signature"
    "check_grant (sk_key_set (at_key_set t)) g ex now = Inr g"
    by (auto simp: ks_verify_Inr)
  have "held lb master (au_dbs st) (sk_key_set (at_key_set t))" "past_ok lb master (au_dbs st)"
    using ok assms(5) by (auto simp: authority_ok_def agent_ok_def)
  then have "tk_public key \<in> publics (hd (au_dbs st))"
    using held_publics ks_key_Some [OF v(4)] by blast
  then obtain g' where g': "g' \<in> set (au_grants st)" "encode_grant lb g' = Some body"
    using assms(6) v(1,2,5) unfolding authentic_token_def image_iff by metis
  then have "g = g'" using grant_encoding_inj [OF assms(2) _ g'(2) v(3)] ok by (simp add: authority_ok_def)
  then show ?thesis using g'(1) v(6) by (simp add: check_grant_Inr)
qed

theorem accepted_grants_were_issued_witness:
  "demo_grant \<in> set (au_grants demo_authority) \<and> gr_agent_id demo_grant = demo_agent"
proof -
  have "sign_grant demo_libs (demo_seed 1) demo_grant = Some demo_bearer"
    using demo_issue by (auto simp: issue_def demo_grant_def split: if_splits)
  then have a: "authentic_token demo_libs demo_authority demo_bearer"
    by (intro issued_authentic [OF demo_ok(1,2)]) (simp_all add: demo_authority_def)
  have t: "ts_state (au_agent demo_authority) = Some \<lparr>at_key_set = demo_set, at_portal_node = Some (ascii ''node'')\<rparr>"
    using demo_joined_state by (simp add: demo_authority_def)
  have "ks_verify demo_libs (sk_key_set (at_key_set \<lparr>at_key_set = demo_set, at_portal_node = Some (ascii ''node'')\<rparr>)) demo_bearer
     \<lparr>ex_agent_id = demo_agent, ex_operation = OpGet, ex_scope = ScopeKind KChunk\<rparr> 1100 = Inr demo_grant"
    using demo_verify by simp
  from accepted_grants_were_issued [OF demo_run demo_ok t a this] show ?thesis by simp
qed



section \<open>Joining\<close>

text \<open>C15: A join that fails or crashes at any file call leaves an agent that opens in one of two states: not
  joined, with the same armed token, so that the join can be tried again; or joined to exactly the key
  set and node of this join, with the token spent. After a join that succeeded only the second is possible.
\<close>

theorem join_survives_crashes:
  assumes "ts_state st = None" and "ts_dir st KEY_SET_FILE = None" and "signed_wf lb sk"
    and "trust_join lb rd io1 io2 io3 st token sk node = (st', r)"
    and "trust_open lb rd' io (ts_dir st') = (dir, Inr opened)"
  shows "ts_state opened = None \<and> ts_dir opened TOKEN_FILE = ts_dir st TOKEN_FILE \<and> r \<noteq> Inr () \<or>
    ts_state opened = Some \<lparr>at_key_set = sk, at_portal_node = map_option trim node\<rparr> \<and>
      ts_dir opened TOKEN_FILE = None \<and> join_allowed lb rd st token sk = Inr ()"
proof -
  have unjoined: ?thesis if d: "ts_dir st' KEY_SET_FILE = None" "ts_dir st' TOKEN_FILE = ts_dir st TOKEN_FILE" "r \<noteq> Inr ()"
  proof -
    have "opened = \<lparr>ts_dir = ts_dir st', ts_state = None\<rparr>"
      using assms(5) d(1) by (auto simp: trust_open_def split: if_splits)
    then show ?thesis using d(2,3) by simp
  qed
  from assms(4) show ?thesis
  proof (cases rule: trust_join_cases)
    case (1 e)
    then show ?thesis using unjoined assms(2) by simp
  next
    case 2
    show ?thesis
    proof (cases "ts_dir st' KEY_SET_FILE = None")
      case True
      then show ?thesis using unjoined join_write_cases [OF 2(2)] by auto
    next
      case False
      with join_write_cases [OF 2(2)] assms(2) have d: "ts_dir st' KEY_SET_FILE = Some (sk_to_bytes sk)"
        "ts_dir st' PORTAL_NODE_FILE = node" by auto
      obtain dir2 ok where rm: "remove_file_durably io (ts_dir st') TOKEN_FILE = (dir2, ok)" by force
      have o: "ok" "opened = \<lparr>ts_dir = dir2, ts_state = Some \<lparr>at_key_set = sk, at_portal_node = map_option trim node\<rparr>\<rparr>"
        using assms(5) d rm
        by (cases node; auto simp: trust_open_def signed_round_trip [OF assms(3)] read_text_def split: if_splits)+
      have "dir2 TOKEN_FILE = None" using remove_file_cases [OF rm] o(1) by auto
      then show ?thesis using 2(1) o(2) by simp
    qed
  qed
qed

text \<open>The key set was written and the directory did not sync: the agent opens joined.\<close>

theorem join_survives_crashes_witness:
  "\<exists>opened. snd (trust_open demo_libs (\<lambda>_. True) FileDone (ts_dir demo_crashed)) = Inr opened \<and>
     (ts_state opened = None \<and> ts_dir opened TOKEN_FILE = ts_dir demo_armed TOKEN_FILE \<or>
      ts_state opened = Some \<lparr>at_key_set = demo_set, at_portal_node = Some (trim (ascii ''node''))\<rparr> \<and>
        ts_dir opened TOKEN_FILE = None)"
proof -
  have join: "trust_join demo_libs (\<lambda>_. True) FileDone FileAfter FileDone demo_armed demo_token demo_set (Some (ascii ''node'')) =
      (demo_crashed, snd (trust_join demo_libs (\<lambda>_. True) FileDone FileAfter FileDone demo_armed demo_token demo_set
         (Some (ascii ''node''))))"
    by (simp add: demo_crashed_def)
  obtain dir r where o: "trust_open demo_libs (\<lambda>_. True) FileDone (ts_dir demo_crashed) = (dir, r)" by force
  with demo_crashed_opens obtain opened where r: "r = Inr opened" by (auto split: sum.splits)
  have "signed_wf demo_libs demo_set" using signed_canonical [OF demo_set_reads] by blast
  from join_survives_crashes [OF demo_armed_state this join o [unfolded r]] o r show ?thesis by auto
qed

section \<open>Manifests\<close>

text \<open>C16: The portal believes exactly the bytes that were encoded under its master key: a manifest that decodes
  is the encoding of what it decodes to, and every encoding of a well-formed manifest decodes to it.
\<close>

theorem manifest_authentic:
  assumes "text_ok lb" and "sealing_ok lb"
  shows "decode_manifest lb master bs = Inr m \<longleftrightarrow>
    payload_wf (dm_payload m) \<and> length (dm_file_id m) = 16 \<and>
    (\<exists>key key_nonce payload_nonce. length key = KEY_LEN \<and> length key_nonce = NONCE_LEN \<and> length payload_nonce = NONCE_LEN \<and>
       encode_manifest lb master (dm_file_id m) (dm_generation m) (dm_payload m) key key_nonce payload_nonce = Inr bs)"
    (is "?l \<longleftrightarrow> ?r")
proof
  assume ?l
  then obtain plaintext where d: "open_envelope lb master MANIFEST_MAGIC MANIFEST_KEY_PURPOSE bs =
      Inr (dm_file_id m, dm_generation m, plaintext)" "decode_payload lb plaintext = Inr (dm_payload m)"
    by (auto simp: decode_manifest_def rbind_eq_Inr)
  from payload_canonical [OF assms(1) d(2)] open_Inr [OF assms(2) d(1)] show ?r
    unfolding encode_manifest_def by auto
next
  assume ?r
  then obtain key key_nonce payload_nonce where r: "payload_wf (dm_payload m)" "length (dm_file_id m) = 16"
    "length key = KEY_LEN" "length key_nonce = NONCE_LEN" "length payload_nonce = NONCE_LEN"
    "encode_manifest lb master (dm_file_id m) (dm_generation m) (dm_payload m) key key_nonce payload_nonce = Inr bs"
    by blast
  then obtain plaintext where p: "encode_payload lb (dm_payload m) = Inr plaintext"
    by (auto simp: encode_manifest_def seal_envelope_def rbind_eq_Inr)
  with r(6) have s: "seal_envelope lb master MANIFEST_MAGIC MANIFEST_KEY_PURPOSE (dm_file_id m) (dm_generation m)
      (Inr plaintext) key key_nonce payload_nonce = Inr bs" by (simp add: encode_manifest_def)
  have "length MANIFEST_MAGIC = 4" by (simp add: MANIFEST_MAGIC_def ascii_def)
  with open_seal [OF assms(2) s _ r(2-5)] payload_round_trip [OF assms(1) r(1) p] show ?l
    by (simp add: decode_manifest_def)
qed

theorem manifest_authentic_witness:
  "decode_manifest demo_libs demo_master demo_manifest_bytes = Inr demo_manifest"
proof -
  have "payload_wf (dm_payload demo_manifest)" by code_simp
  then show ?thesis
    unfolding manifest_authentic [OF demo_ok(1,3)] using demo_manifest_encodes
    by (intro conjI exI [of _ "demo_seed 5"] exI [of _ demo_nonce])
      (simp_all add: KEY_LEN_def NONCE_LEN_def demo_nonce_def demo_manifest_def demo_id_def)
qed

section \<open>Too many keys\<close>







end
