(* ===== verification/Spec2Isabelle.thy ===== *)
theory Spec2Isabelle
  imports Index_Properties Build_Properties Storage_Properties Partition_Properties Compaction_Properties
    Service_Properties
begin

text \<open>
  A verification of distr-hnsw. Its vector-index engine, the crate
  \<^verbatim>\<open>src/crates/distr-hnsw-index\<close>, is a durable partition of vectors with approximate
  nearest-neighbour search: a partition appends every mutation to a write-ahead log, applies it to a
  hierarchical navigable small-world graph in memory, saves the whole state in snapshot files, and
  recovers from the newest good snapshot and the log after it. Its storage service, the crate
  \<^verbatim>\<open>src/crates/distr-hnsw\<close>, keeps encrypted objects on agents that a portal authorises with
  signed grants; its cryptographic core is modelled.

  \<^bold>\<open>Parts and theories.\<close> Each theory models one part, in the order the code is layered.
  \<^item> \<^verbatim>\<open>Prelude\<close>, \<^verbatim>\<open>Collections\<close>: bytes and little-endian words, checked
    indexing and slicing, errors as sums, decimal names, the stable sort and the binary heap of the
    standard library. The locales of a heap and of a key order are interpreted on them.
  \<^item> \<^verbatim>\<open>Float_Model\<close>: binary32 and binary64 as their bit patterns with round-to-nearest
    arithmetic, comparisons with NaN, square root and conversions.
  \<^item> \<^verbatim>\<open>Distance\<close>, \<^verbatim>\<open>Vectors\<close>, \<^verbatim>\<open>Oracle\<close>, \<^verbatim>\<open>Quant\<close>:
    \<^verbatim>\<open>lib.rs\<close>, \<^verbatim>\<open>distance.rs\<close>, \<^verbatim>\<open>vector.rs\<close>,
    \<^verbatim>\<open>oracle.rs\<close>, \<^verbatim>\<open>quant.rs\<close>. The kernels keep the lanes of the source; the
    int8 kernel works on 32-bit words; a row store is a mapped base and an owned tail.
  \<^item> \<^verbatim>\<open>Hnsw_Visited\<close>, \<^verbatim>\<open>Hnsw_Graph\<close>, \<^verbatim>\<open>Hnsw_Traverse\<close>,
    \<^verbatim>\<open>Hnsw_Search\<close>, \<^verbatim>\<open>Hnsw_Insert\<close>: \<^verbatim>\<open>hnsw.rs\<close>, with the flat arrays
    of links, the tombstone bitmap, the thread-local visited set, the greedy and beam traversals,
    search in every mode and sequential insertion.
  \<^item> \<^verbatim>\<open>Hnsw_Build\<close>, \<^verbatim>\<open>Hnsw_Orphans\<close>, \<^verbatim>\<open>Hnsw_Bulk\<close>:
    \<^verbatim>\<open>build_parallel\<close> and \<^verbatim>\<open>link_level0_orphans\<close> of \<^verbatim>\<open>hnsw.rs\<close>. An
    insertion is a worker whose step ends where the code takes or releases the lock of a row, the
    workers of a chunk interleave in any order, chunks double as in the source, and \<^term>\<open>built\<close> relates
    the rows to every graph a schedule can end with. \<^verbatim>\<open>Hnsw_Race\<close> runs one schedule of three rows.
  \<^item> \<^verbatim>\<open>Wal_Codec\<close>, \<^verbatim>\<open>Wal_Segment\<close>, \<^verbatim>\<open>Wal_Writer\<close>,
    \<^verbatim>\<open>Wal_Recovery\<close>: \<^verbatim>\<open>wal.rs\<close>. A directory is an association list from
    names to bytes; the outcome of each file call is an argument of the operation that makes it.
  \<^item> \<^verbatim>\<open>Snapshot_Sections\<close>, \<^verbatim>\<open>Snapshot_File\<close>: \<^verbatim>\<open>snapshot.rs\<close>.
  \<^item> \<^verbatim>\<open>Idempotency\<close>, \<^verbatim>\<open>Partition_State\<close>, \<^verbatim>\<open>Partition_Ops\<close>,
    \<^verbatim>\<open>Partition_Recover\<close>, \<^verbatim>\<open>Partition_Snapshot\<close>, \<^verbatim>\<open>Partition_Compact\<close>:
    \<^verbatim>\<open>partition.rs\<close> and the lock of \<^verbatim>\<open>fsutil.rs\<close>; the last holds compaction (capture,
    rebuild, catch-up, swap) and bulk load.
  \<^item> \<^verbatim>\<open>Partition_Durability\<close>, \<^verbatim>\<open>Partition_Sizes\<close>,
    \<^verbatim>\<open>Partition_Truncate\<close>, \<^verbatim>\<open>Partition_Crash\<close>, \<^verbatim>\<open>Partition_Run\<close>: no code,
    but the argument across the parts: the invariant that recovery leads to the live state, the size
    of a snapshot file, log truncation, torn writes, and runs as a step relation.
  \<^item> \<^verbatim>\<open>Samples\<close>, \<^verbatim>\<open>Index_Properties\<close>, \<^verbatim>\<open>Build_Properties\<close>,
    \<^verbatim>\<open>Storage_Properties\<close>, \<^verbatim>\<open>Partition_Properties\<close>,
    \<^verbatim>\<open>Compaction_Properties\<close> and this theory: concrete values, and the properties with their
    witnesses.

  \<^item> \<^verbatim>\<open>Service_Base\<close>, \<^verbatim>\<open>Service_Object\<close>, \<^verbatim>\<open>Service_Grant\<close>,
    \<^verbatim>\<open>Service_Crypto\<close>, \<^verbatim>\<open>Service_Format\<close>, \<^verbatim>\<open>Service_Trust\<close>,
    \<^verbatim>\<open>Service_Access\<close>: \<^verbatim>\<open>object.rs\<close>, \<^verbatim>\<open>grant.rs\<close>,
    \<^verbatim>\<open>crypto.rs\<close>, \<^verbatim>\<open>format.rs\<close>, \<^verbatim>\<open>trust.rs\<close> (with the durable
    replace and remove of \<^verbatim>\<open>durability.rs\<close>), \<^verbatim>\<open>access.rs\<close> and the tables of
    \<^verbatim>\<open>metadata.rs\<close> that hold signing keys, grant epochs, joins and join tokens.
  \<^item> \<^verbatim>\<open>Service_Authority\<close>: a portal and an agent together as a step relation, with an adversary who
    offers key sets and tokens; \<^verbatim>\<open>Service_Instance\<close> and \<^verbatim>\<open>Service_Properties\<close>: a concrete
    instance of the third-party functions with a run, and the properties of the service.

  \<^bold>\<open>Conventions.\<close> A Rust struct is a record with a prefix per type, an enum a datatype,
  \<^verbatim>\<open>Result\<close> a sum with the error on the left, a panic (an index out of range, an
  \<^verbatim>\<open>expect\<close>) the value \<^term>\<open>None\<close> of an outer option. Sequence numbers, checksums and
  floats are words; slots, levels and lengths are naturals with the casts of the source written out.
  A hash map is a partial function. What the crate only calls is a parameter: CRC-32C, BLAKE3, the
  natural logarithm, the cast of mapped bytes to floats and the address of the mapping, the JSON of
  the manifest (all in \<^typ>\<open>platform\<close>), and the Roaring bitmap as a record of its observers. What
  is assumed of them is a hypothesis of the theorem that needs it: digests of 32 bytes, a cast that
  inverts the little-endian encoding at an aligned address, JSON that reads back what it wrote. The
  service's are in \<^typ>\<open>libs\<close> (hashing, hexadecimal and base64 text, Ed25519, XChaCha20-Poly1305), with
  the hypotheses \<^term>\<open>text_ok\<close>, \<^term>\<open>signing_ok\<close> and \<^term>\<open>sealing_ok\<close>: codecs that invert each other,
  signatures that verify, ciphertexts that open exactly as sealed. That signatures cannot be forged is
  the guard of the adversary's step. A database call either commits whole or fails.

  \<^bold>\<open>What is shown.\<close>
  \<^item> Runs: along every sequence of requests, snapshots, log truncations, compactions, crashes and torn
    writes, the partition maps keys to vectors and payloads exactly as its acknowledged mutations say,
    and it can always be reopened to the same state. A compaction captured earlier catches up and
    drops the superseded slots; an interrupted bulk load is refused instead of served empty. Acknowledgement means logged and applied; retries are answered from
    the window; a failed mutation freezes the writer.
  \<^item> Index: the structure invariant \<^term>\<open>hnsw_wf\<close> is kept by insertion and tombstoning; searches
    never panic and return live, accepted, exactly measured hits in rank order; with a beam as wide
    as the index and on the filtered exact route they equal brute force. The parallel build ends under
    every schedule, with a graph that satisfies the invariant; racing insertions may link a slot to
    itself; the repair of level 0 never takes the last link to a slot.
  \<^item> Storage: log entries, segments, snapshot sections and whole snapshot files read back what was
    written; appends extend the log by one entry; snapshot files are replaced atomically.
  \<^item> Service: whatever key sets an adversary offers and however files fail, a joined agent trusts a key
    set the portal computed, accepts only grants the portal issued, for what they name and while they
    last, and none of an epoch before a revocation it has seen; a join is atomic over crashes; a
    manifest decodes exactly when it was encoded under the same master key. Rotating past sixteen
    trusted keys publishes a key set no agent reads.
  \<^item> State: applying and replaying entries refines a key-value specification.

  \<^bold>\<open>Bounds.\<close> Slots and keys are 32-bit ids, and \<^verbatim>\<open>u32::MAX\<close> marks a key without a live
  slot, so the theorems ask for fewer than \<open>2 ^ 32\<close> of them (\<^term>\<open>has_room\<close>, or the number of
  acknowledged mutations of a run); sequence numbers stay below \<open>2 ^ 64\<close> (\<^term>\<open>log_room\<close>);
  that a snapshot file is shorter than \<open>2 ^ 64\<close> bytes is proved. A bulk build has fewer than
  \<open>2 ^ 32\<close> rows and level 0 links (\<^term>\<open>build_fits\<close>). All recursion is total: the traversals end because
  the visited set grows, the frame loop because every frame has bytes; no fuel is used.

  \<^bold>\<open>Not modelled.\<close> The recall metrics of the benchmarks. Of the storage service: the other tables of
  the embedded SQL database (files, placements, jobs, events), uploads and downloads over HTTP, the
  object store of an agent, reconciliation and garbage collection, backup to object stores, network
  identity, TLS and the command line. The benchmark crate and the prototype measure the code.
\<close>

section \<open>The partition state\<close>

text \<open>C37: Applying a log entry refines the abstract specification: on a well-formed partition with
  room for a slot, an admissible operation never fails or panics, updates the map from keys to
  vector and payload exactly as the operation says, records the operation id, moves the high-water
  mark to the entry, and keeps the invariant that ties keys, slots, tombstones and the graph.\<close>

theorem apply_refines_spec:
  assumes "part_wf p" and "has_room p" and "op_ok p (e_operation e)"
  shows "\<exists>p'. apply_entry ln64 p e = Some (Inr p') \<and> part_wf p' \<and>
    contents p' = spec_apply (pt_metric p) (e_operation e) (contents p) \<and>
    iw_get (pt_idem p') (e_op_id e) = Some (e_seq e) \<and> pt_high_water p' = e_seq e"
proof -
  obtain p' where "apply_entry ln64 p e = Some (Inr p')" "part_wf p'"
    "contents p' = spec_apply (pt_metric p) (e_operation e) (contents p)"
    "pt_idem p' = iw_record (pt_idem p) (e_op_id e) (e_seq e)" "pt_high_water p' = e_seq e"
    using apply_entry_ok [OF assms, of ln64] by blast
  moreover have "iw_wf (pt_idem p)" using assms(1) by (simp add: part_wf_def)
  ultimately show ?thesis using iw.get_record by auto
qed

theorem apply_refines_spec_witness:
  "\<exists>p'. apply_entry (\<lambda>_. f64_one) sample_partition sample_entry = Some (Inr p') \<and> part_wf p' \<and>
    contents p' = spec_apply L2 (e_operation sample_entry) (contents sample_partition) \<and>
    iw_get (pt_idem p') (e_op_id sample_entry) = Some 1 \<and> pt_high_water p' = 1"
  using apply_refines_spec [OF sample_partition_wf, of sample_entry "\<lambda>_. f64_one"]
  by (simp add: sample_partition_def fresh_state_def has_room_def op_ok_def sample_entry_def
      sample_config_def config_new_def)

text \<open>Replaying a log into a partition gives the state the abstract specification gives, in the
  order of the log, and replay composes: the log may be replayed in parts.\<close>

theorem replay_refines_spec:
  assumes "part_wf p" and "room_for (length es) p" and "\<forall>e\<in>set es. op_ok p (e_operation e)"
  shows "\<exists>p'. apply_all ln64 es p = Some (Inr p') \<and> part_wf p' \<and>
    contents p' = spec_all (pt_metric p) es (contents p) \<and>
    pt_high_water p' = (if es = [] then pt_high_water p else e_seq (last es)) \<and>
    (\<forall>xs ys p1. es = xs @ ys \<longrightarrow> apply_all ln64 xs p = Some (Inr p1) \<longrightarrow>
       apply_all ln64 ys p1 = Some (Inr p'))"
proof -
  obtain p' where "apply_all ln64 es p = Some (Inr p')" "part_wf p'"
    "contents p' = spec_all (pt_metric p) es (contents p)"
    "pt_high_water p' = (if es = [] then pt_high_water p else e_seq (last es))"
    using apply_all_ok [OF assms, of ln64] by blast
  then show ?thesis by (auto simp: apply_all_append)
qed

theorem replay_refines_spec_witness:
  "\<exists>p'. apply_all (\<lambda>_. f64_one) [sample_entry] sample_partition = Some (Inr p') \<and> part_wf p' \<and>
    contents p' = spec_all L2 [sample_entry] (contents sample_partition) \<and> pt_high_water p' = 1"
  using replay_refines_spec [OF sample_partition_wf, of "[sample_entry]" "\<lambda>_. f64_one"]
  by (auto simp: sample_partition_def fresh_state_def room_for_def op_ok_def sample_entry_def
      sample_config_def config_new_def)

text \<open>C38: A configuration that passes validation has every parameter in the range the index and the
  file formats rely on, and a fresh partition over it is well-formed and empty.\<close>

theorem valid_config_starts:
  assumes "cfg_validate c = Inr ()"
  shows "1 \<le> cfg_dims c \<and> cfg_dims c \<le> 65536 \<and> 2 \<le> cfg_m c \<and> cfg_m c \<le> cfg_m0 c \<and> cfg_m0 c \<le> 255 \<and>
    1 \<le> cfg_ef_construction c \<and> cfg_ef_construction c \<le> 100000 \<and> 1 \<le> cfg_idempotency_window c \<and>
    (\<exists>m. metric_parse (cfg_metric c) = Some m \<and> part_wf (fresh_state c m) \<and>
       contents (fresh_state c m) = Map.empty)"
  using cfg_validate_ok [OF assms] fresh_state_wf [OF assms] by blast

theorem valid_config_starts_witness:
  "cfg_validate sample_config = Inr () \<and> 1 \<le> cfg_dims sample_config \<and> cfg_m0 sample_config \<le> 255 \<and>
    (\<exists>m. metric_parse (cfg_metric sample_config) = Some m \<and> part_wf (fresh_state sample_config m) \<and>
       contents (fresh_state sample_config m) = Map.empty)"
  using valid_config_starts [OF sample_config_valid] sample_config_valid by blast

end
